(* ===== verification/Clib_Prelude.thy ===== *)
theory Clib_Prelude
  imports Main "HOL-Library.Word"
begin

text \<open>
  Shared vocabulary of the development: the machine types of \<open>src/clib/types.h\<close> for the
  x86-64 build (where \<open>log2_uword_bits\<close> is 6, so \<open>uword\<close> is \<open>u64\<close>), the collections of
  rewrite rules the component theories add to, and the generic facts on words, bits and lists
  that more than one component uses.
\<close>

unbundle bit_operations_syntax

type_synonym u8 = "8 word"
type_synonym u16 = "16 word"
type_synonym u32 = "32 word"
type_synonym u64 = "64 word"
type_synonym uword = "64 word"
type_synonym i64 = "64 word"

named_theorems bitwise \<open>what the bits of the result of an operation are\<close>
named_theorems step_simps \<open>unfolding of one step of a loop of the source\<close>

text \<open>The word and the bit of a position of a bitmap.\<close>

lemma split_64:
  obtains q r where "i = q * 64 + r" "r < 64" "i div 64 = q" "i mod 64 = (r :: nat)"
proof
  show "i = i div 64 * 64 + i mod 64" by simp
qed simp_all

subsection \<open>Words and their bits\<close>

lemma bit_u64_lt [dest]: "bit (x :: uword) i \<Longrightarrow> i < 64"
  by (drule bit_imp_le_length) simp

lemma uword_eqI: "(\<And>i. i < 64 \<Longrightarrow> bit x i = bit y i) \<Longrightarrow> x = (y :: uword)"
  by (rule bit_word_eqI) simp

lemma uword_nonzero_bit: "x \<noteq> (0 :: uword) \<longleftrightarrow> (\<exists>i<64. bit x i)"
  using uword_eqI [of x 0] by auto

lemma unat_u64_lt: "unat (x :: uword) < 2 ^ 64"
  using unsigned_less [of x] by simp

lemma unat_of_nat_u64: "n < 2 ^ 64 \<Longrightarrow> unat (of_nat n :: uword) = n"
  by (simp add: unat_of_nat)

lemma bit_exp_u64 [bitwise]: "bit (2 ^ n :: uword) i \<longleftrightarrow> i = n \<and> n < 64"
  by (auto simp: bit_exp_iff)

lemma unat_exp_u64: "n < 64 \<Longrightarrow> unat (2 ^ n :: uword) = 2 ^ n"
  using power_strict_increasing [of n 64 "2 :: nat"] unsigned_push_bit_eq [of n "1 :: uword", where 'a = nat]
  by (simp add: take_bit_eq_mod)

lemma bit_u64_iff: "bit (x :: uword) i \<longleftrightarrow> odd (unat x div 2 ^ i)"
  using bit_unsigned_iff [of x i, where 'a = nat] by (simp add: bit_iff_odd)

lemma unat_drop_bit_u64: "unat (drop_bit k x :: uword) = unat x div 2 ^ k"
  by (simp only: unat_drop_bit_eq) (simp add: drop_bit_eq_div)

lemma unat_push_bit_u64: "unat x * 2 ^ k < 2 ^ 64 \<Longrightarrow> unat (push_bit k x :: uword) = unat x * 2 ^ k"
  by (simp only: unsigned_push_bit_eq) (simp add: push_bit_eq_mult take_bit_eq_mod)

lemma unat_add_u64: "unat x + unat y < 2 ^ 64 \<Longrightarrow> unat (x + y :: uword) = unat x + unat y"
  by (simp add: unat_word_ariths)

lemma unat_sub_u64: "unat y \<le> unat x \<Longrightarrow> unat (x - y :: uword) = unat x - unat y"
  by (simp add: unat_sub word_le_nat_alt)

lemma unat_and_u64: "unat (x AND y :: uword) = unat x AND unat y"
  by (rule bit_eqI) (simp add: bit_simps)

lemma exp_u64_nonzero [simp]: "k < 64 \<Longrightarrow> (2 ^ k :: uword) \<noteq> 0"
  using unat_exp_u64 [of k] by (metis power_not_zero unsigned_0 zero_neq_numeral)

lemma unat_less_exp_iff: "unat (x :: uword) < 2 ^ k \<longleftrightarrow> (\<forall>i\<ge>k. \<not> bit x i)"
proof
  assume less: "unat x < 2 ^ k"
  show "\<forall>i\<ge>k. \<not> bit x i"
  proof (intro allI impI)
    fix i assume "k \<le> i"
    then have "(2 :: nat) ^ k \<le> 2 ^ i" by (rule power_increasing) simp
    with less have "unat x < 2 ^ i" by (rule order_less_le_trans)
    then have "unat x div 2 ^ i = 0" by (simp add: div_eq_0_iff)
    then show "\<not> bit x i" by (simp add: bit_u64_iff)
  qed
next
  assume "\<forall>i\<ge>k. \<not> bit x i"
  then have "drop_bit k x = 0" by (intro bit_word_eqI) (simp add: bit_drop_bit_eq)
  then have "unat (drop_bit k x) = 0" by simp
  then have "unat x div 2 ^ k = 0" by (simp add: unat_drop_bit_u64)
  then show "unat x < 2 ^ k" by (simp add: div_eq_0_iff)
qed

lemma bit_imp_exp_le: "bit (x :: uword) k \<Longrightarrow> 2 ^ k \<le> unat x"
  using unat_less_exp_iff [of x k] by (meson le_refl not_less)

lemma unat_eq_bits:
  "unat (x :: uword) = (\<Sum>i | i < 64 \<and> bit x i. 2 ^ i)"
proof -
  have "unat x = (\<Sum>i<64. of_bool (bit x i) * 2 ^ i)"
    using take_bit_sum [of 64 "unat x"] unat_u64_lt [of x]
    by (simp add: bit_unsigned_iff push_bit_eq_mult atLeast0LessThan take_bit_eq_mod ac_simps cong: sum.cong)
  also have "\<dots> = (\<Sum>i \<in> {..<64} \<inter> {i. bit x i}. 2 ^ i)"
    by (simp add: of_bool_def if_distrib [of "\<lambda>b. b * _"] sum.inter_restrict cong: if_cong)
  also have "{..<64} \<inter> {i. bit x i} = {i. i < 64 \<and> bit x i}" by auto
  finally show ?thesis .
qed

text \<open>The bytes of a word in memory, lowest first.\<close>

definition bytes_of :: "nat \<Rightarrow> 'a::len word \<Rightarrow> u8 list" where
  "bytes_of n w = map (\<lambda>i. ucast (drop_bit (8 * i) w)) [0..<n]"

lemma length_bytes_of [simp]: "length (bytes_of n w) = n"
  by (simp add: bytes_of_def)

lemma xor_twice: "(a XOR x) XOR x = (a :: 'a::len word)"
  by (simp only: xor.assoc xor_self_eq xor.right_neutral)

subsection \<open>Signed words as unsigned ones\<close>

lemma unat_double:
  assumes "unat (x :: uword) < 2 ^ 63" and "a \<le> 1"
  shows "unat (2 * x + of_nat a) = 2 * unat x + a"
proof -
  have "2 * unat x + a < 2 ^ 64" using assms by simp
  moreover have "2 * x + of_nat a = of_nat (2 * unat x + a)" by simp
  ultimately show ?thesis using unat_of_nat_u64 by metis
qed

lemma drop_double: "unat (x :: uword) < 2 ^ 63 \<Longrightarrow> a \<le> 1 \<Longrightarrow> drop_bit 1 (2 * x + of_nat a) = x"
  using unat_double [of x a] unat_drop_bit_u64 [of 1 "2 * x + of_nat a"]
  by (intro word_unat_eq_iff [THEN iffD2]) simp

lemma double_low: "(2 * x + of_bool a) AND 1 = (of_bool a :: uword)"
proof (rule uword_eqI)
  fix i :: nat
  show "bit ((2 * x + of_bool a) AND 1) i \<longleftrightarrow> bit (of_bool a :: uword) i"
    unfolding bit_and_iff by (cases "i = 0") (auto simp: bit_1_iff bit_of_bool_iff bit_0)
qed

lemma bit_63_iff: "bit (s :: uword) 63 \<longleftrightarrow> 2 ^ 63 \<le> unat s"
proof -
  have "i = 63" if "bit s i" "63 \<le> i" for i using bit_u64_lt [OF that(1)] that(2) by linarith
  then have "(\<forall>i \<ge> 63. \<not> bit s i) \<longleftrightarrow> \<not> bit s 63" by (metis order_refl)
  then show ?thesis using unat_less_exp_iff [of s 63] by (simp only: not_less [symmetric]) blast
qed

lemma sint_neg_iff: "sint (s :: uword) < 0 \<longleftrightarrow> 2 ^ 63 \<le> unat s"
proof -
  have "sint s < 0 \<longleftrightarrow> bit s 63" by (simp add: sint_uint bit_uint_iff)
  then show ?thesis by (simp only: bit_63_iff)
qed

text \<open>
  Both the compressed vectors and the streams code a signed number in an unsigned one, the sign in
  the lowest bit, and both decode it by the same formula, which loses one on negative numbers.
\<close>

lemma signed_code_loses_one:
  "(let u = (if sint s < 0 then - (2 * s + 1) else 2 * s); t = drop_bit 1 u in if u AND 1 \<noteq> 0 then - t else t)
   = (if sint s < 0 then s + 1 else (s :: uword))"
proof (cases "sint s < 0")
  case True
  let ?x = "- s - 1"
  have "?x = NOT s" by (simp add: not_eq_complement)
  then have "bit ?x 63 \<longleftrightarrow> \<not> bit s 63" by (simp add: bit_not_iff)
  then have x: "unat ?x < 2 ^ 63" using True unfolding bit_63_iff sint_neg_iff by (simp only: not_le [symmetric]) blast
  have "- (2 * s + 1) = 2 * ?x + of_bool True" by simp
  then show ?thesis using True drop_double [OF x, of 1] double_low [of ?x True]
    by (simp only: if_True Let_def) simp
next
  case False
  then have x: "unat s < 2 ^ 63" by (simp add: sint_neg_iff)
  have "2 * s = 2 * s + of_bool False" by simp
  then show ?thesis using False drop_double [OF x, of 0] double_low [of s False]
    by (simp only: if_False Let_def) simp
qed

subsection \<open>Doubly linked chains\<close>

text \<open>The elements of a list are linked in its order by a function to the next and one to the previous element.\<close>

fun chain :: "('a \<Rightarrow> 'a) \<Rightarrow> ('a \<Rightarrow> 'a) \<Rightarrow> 'a list \<Rightarrow> bool" where
  "chain N P [] \<longleftrightarrow> True"
| "chain N P [x] \<longleftrightarrow> True"
| "chain N P (x # y # xs) \<longleftrightarrow> N x = y \<and> P y = x \<and> chain N P (y # xs)"

lemma chain_Cons: "xs \<noteq> [] \<Longrightarrow> chain N P (x # xs) \<longleftrightarrow> N x = hd xs \<and> P (hd xs) = x \<and> chain N P xs"
  by (cases xs) simp_all

lemma chain_append: "chain N P (xs @ y # ys) \<longleftrightarrow> chain N P (xs @ [y]) \<and> chain N P (y # ys)"
  by (induction N P xs rule: chain.induct) (auto simp: chain_Cons)

lemma chain_cong:
  assumes "\<forall>x \<in> set (butlast xs). N' x = N x" "\<forall>x \<in> set (tl xs). P' x = P x"
  shows "chain N' P' xs = chain N P xs"
  using assms by (induction N P xs rule: chain.induct) (auto split: if_splits)

lemma in_set_tl: "x \<in> set (tl xs) \<Longrightarrow> x \<in> set xs"
  by (cases xs) auto

lemma chain_cong_all: "\<forall>e \<in> set xs. N' e = N e \<and> P' e = P e \<Longrightarrow> chain N' P' xs = chain N P xs"
  by (rule chain_cong) (auto dest!: in_set_butlastD in_set_tl)

text \<open>What the links of the last, and to the first element are does not matter.\<close>

lemma chain_cong_snoc:
  "\<forall>e \<in> set xs. N' e = N e \<Longrightarrow> \<forall>e \<in> set xs \<union> {x}. P' e = P e \<Longrightarrow> chain N' P' (xs @ [x]) = chain N P (xs @ [x])"
  by (rule chain_cong) (auto dest!: in_set_tl)

lemma chain_cong_Cons:
  "\<forall>e \<in> set xs \<union> {x}. N' e = N e \<Longrightarrow> \<forall>e \<in> set xs. P' e = P e \<Longrightarrow> chain N' P' (x # xs) = chain N P (x # xs)"
  by (rule chain_cong) (auto dest: in_set_butlastD split: if_splits)

end
