(* ===== verification/Clib_Arith.thy ===== *)
theory Clib_Arith
  imports Clib_Prelude
begin

text \<open>
  The integer helpers of \<open>src/clib/clib.h\<close>: logarithms, powers of two, rounding and the lowest
  set bit, on 64 bit words. The two builtins of the compiler (\<open>__builtin_clzll\<close>,
  \<open>__builtin_ctzll\<close>) are the functions \<open>clz\<close> and \<open>ctz\<close>; both are undefined in C at 0, where the
  model gives 64. Results that are bit positions are \<open>nat\<close>, everything else keeps its word.
\<close>

section \<open>Leading and trailing zeros\<close>

fun leading_zeros_from :: "nat \<Rightarrow> uword \<Rightarrow> nat" where
  "leading_zeros_from 0 x = 0"
| "leading_zeros_from (Suc n) x = (if bit x n then 0 else Suc (leading_zeros_from n x))"

definition clz :: "uword \<Rightarrow> nat" where
  "clz x = leading_zeros_from 64 x"

fun trailing_zeros_from :: "nat \<Rightarrow> nat \<Rightarrow> uword \<Rightarrow> nat" where
  "trailing_zeros_from 0 i x = i"
| "trailing_zeros_from (Suc n) i x = (if bit x i then i else trailing_zeros_from n (Suc i) x)"

definition ctz :: "uword \<Rightarrow> nat" where
  "ctz x = trailing_zeros_from 64 0 x"

section \<open>The functions of clib.h\<close>

definition min_log2 :: "uword \<Rightarrow> nat" where
  "min_log2 x = 64 - clz x - 1"

text \<open>
  The portable version, compiled where \<open>count_leading_zeros\<close> is not defined: three halvings of
  the range and one more (because a word has more than 32 bits) leave four bits, which index a
  table of 4 bit entries packed in a word.
\<close>

definition min_log2_halve :: "nat \<Rightarrow> uword \<times> uword \<Rightarrow> uword \<times> uword" where
  "min_log2_halve b = (\<lambda>(a, r). let c = drop_bit b a in
     if c \<noteq> 0 then (c, r + of_nat b) else (a, r))"

definition min_log2_portable :: "uword \<Rightarrow> uword" where
  "min_log2_portable x =
     (let (a, r) = min_log2_halve 4 (min_log2_halve 8 (min_log2_halve 16 (min_log2_halve 32 (x, 0))));
          t = drop_bit (unat (4 * a)) (0x3333333322221104 :: uword) AND 0xf
      in if t < 4 then r + t else NOT 0)"

definition max_log2 :: "uword \<Rightarrow> nat" where
  "max_log2 x = (let l = min_log2 x in if push_bit l 1 < x then l + 1 else l)"

definition pow2_mask :: "nat \<Rightarrow> uword" where
  "pow2_mask x = push_bit x 1 - 1"

definition max_pow2 :: "uword \<Rightarrow> uword" where
  "max_pow2 x = (let y = push_bit (min_log2 x) 1 in if y < x then y * 2 else y)"

definition is_pow2 :: "uword \<Rightarrow> bool" where
  "is_pow2 x \<longleftrightarrow> x AND (x - 1) = 0"

definition round_pow2 :: "uword \<Rightarrow> uword \<Rightarrow> uword" where
  "round_pow2 x pow2 = (x + pow2 - 1) AND NOT (pow2 - 1)"

definition first_set :: "uword \<Rightarrow> uword" where
  "first_set x = x AND - x"

definition log2_first_set :: "uword \<Rightarrow> nat" where
  "log2_first_set x = ctz x"

section \<open>Leading and trailing zeros, by their bits\<close>

lemma leading_zeros_from_le: "leading_zeros_from n x \<le> n"
  by (induction n) auto

lemma leading_zeros_from_spec:
  assumes "\<exists>i<n. bit x i"
  shows "leading_zeros_from n x < n \<and> bit x (n - 1 - leading_zeros_from n x)
    \<and> (\<forall>j. n - 1 - leading_zeros_from n x < j \<and> j < n \<longrightarrow> \<not> bit x j)"
  using assms
proof (induction n)
  case (Suc n)
  show ?case
  proof (cases "bit x n")
    case False
    with Suc.prems have "\<exists>i<n. bit x i" by (auto simp: less_Suc_eq)
    from Suc.IH [OF this] False show ?thesis
      by (auto simp: less_Suc_eq)
  qed (use Suc in auto)
qed simp

lemma trailing_zeros_from_spec:
  assumes "\<exists>j. i \<le> j \<and> j < i + n \<and> bit x j"
  shows "bit x (trailing_zeros_from n i x) \<and> i \<le> trailing_zeros_from n i x
    \<and> (\<forall>j. i \<le> j \<and> j < trailing_zeros_from n i x \<longrightarrow> \<not> bit x j)"
  using assms
proof (induction n arbitrary: i)
  case (Suc n)
  show ?case
  proof (cases "bit x i")
    case False
    with Suc.prems have "\<exists>j. Suc i \<le> j \<and> j < Suc i + n \<and> bit x j"
      by (metis add_Suc_shift le_eq_less_or_eq Suc_leI)
    note IH = Suc.IH [OF this]
    have "\<not> bit x j" if "i \<le> j" "j < trailing_zeros_from n (Suc i) x" for j
      using IH that False by (cases "j = i") auto
    with IH False show ?thesis by auto
  qed auto
qed auto

lemma min_log2_spec:
  assumes "x \<noteq> 0"
  shows "bit x (min_log2 x)" and "min_log2 x < j \<Longrightarrow> \<not> bit x j" and "min_log2 x < 64"
proof -
  have "\<exists>i<64. bit x i" using assms by (simp add: uword_nonzero_bit)
  from leading_zeros_from_spec [OF this]
  show "bit x (min_log2 x)" and "min_log2 x < 64"
    and "min_log2 x < j \<Longrightarrow> \<not> bit x j"
    by (auto simp: min_log2_def clz_def)
qed

lemma log2_first_set_spec:
  assumes "x \<noteq> 0"
  shows "bit x (log2_first_set x)" and "j < log2_first_set x \<Longrightarrow> \<not> bit x j"
    and "log2_first_set x < 64"
proof -
  have "\<exists>i<64. bit x i" using assms by (simp add: uword_nonzero_bit)
  then have "\<exists>j. 0 \<le> j \<and> j < 0 + 64 \<and> bit x j" by auto
  from trailing_zeros_from_spec [OF this]
  show *: "bit x (log2_first_set x)" and "j < log2_first_set x \<Longrightarrow> \<not> bit x j"
    by (auto simp: log2_first_set_def ctz_def)
  from * show "log2_first_set x < 64" by auto
qed

lemma min_log2_unique: "bit x k \<Longrightarrow> (\<And>j. k < j \<Longrightarrow> \<not> bit x j) \<Longrightarrow> min_log2 x = k"
  using min_log2_spec [of x] by (metis bit_0_eq bot_apply bot_bool_def linorder_neqE_nat)

lemma log2_first_set_unique: "bit x k \<Longrightarrow> (\<And>j. j < k \<Longrightarrow> \<not> bit x j) \<Longrightarrow> log2_first_set x = k"
  using log2_first_set_spec [of x] by (metis bit_0_eq bot_apply bot_bool_def linorder_neqE_nat)

lemma min_log2_bounds:
  "x \<noteq> 0 \<Longrightarrow> 2 ^ min_log2 x \<le> unat x" "unat x < 2 ^ Suc (min_log2 x)"
proof -
  show "x \<noteq> 0 \<Longrightarrow> 2 ^ min_log2 x \<le> unat x"
    by (simp add: min_log2_spec bit_imp_exp_le)
  show "unat x < 2 ^ Suc (min_log2 x)"
    by (cases "x = 0") (simp, simp only: unat_less_exp_iff, simp add: min_log2_spec)
qed

lemma min_log2_exp [simp]: "k < 64 \<Longrightarrow> min_log2 (2 ^ k) = k"
  by (rule min_log2_unique) (auto simp: bitwise)

lemma bit_pred_iff:
  assumes "x \<noteq> (0 :: uword)"
  shows "bit (x - 1) i \<longleftrightarrow> i < log2_first_set x \<or> (log2_first_set x < i \<and> bit x i)"
proof -
  let ?k = "log2_first_set x"
  note k = log2_first_set_spec [OF assms]
  let ?h = "x AND NOT (mask (Suc ?k))"
  have "x = ?h OR 2 ^ ?k"
    by (rule bit_word_eqI)
      (use k in \<open>auto simp: bit_and_iff bit_or_iff bit_not_iff bit_mask_iff bitwise less_Suc_eq\<close>)
  also have "\<dots> = ?h + 2 ^ ?k"
    by (rule disjunctive_add_eq_or [symmetric], rule bit_word_eqI)
      (auto simp: bit_and_iff bit_not_iff bit_mask_iff bitwise)
  finally have "x - 1 = ?h + mask ?k" by (simp add: mask_eq_exp_minus_1)
  also have "\<dots> = ?h OR mask ?k"
    by (rule disjunctive_add_eq_or, rule bit_word_eqI)
      (auto simp: bit_and_iff bit_not_iff bit_mask_iff)
  finally show ?thesis using k(3)
    by (auto simp: bit_and_iff bit_or_iff bit_not_iff bit_mask_iff less_Suc_eq_le not_le dest: bit_u64_lt)
qed

lemma bit_first_set [bitwise]:
  "bit (first_set x) i \<longleftrightarrow> x \<noteq> 0 \<and> i = log2_first_set x"
proof (cases "x = 0")
  case False
  then show ?thesis
    using log2_first_set_spec [OF False]
    by (auto simp: first_set_def minus_eq_not_minus_1 bit_and_iff bit_not_iff bit_pred_iff
        linorder_neq_iff dest: bit_u64_lt)
qed (simp add: first_set_def)

lemma first_set_eq_exp: "x \<noteq> 0 \<Longrightarrow> first_set x = 2 ^ log2_first_set x"
  by (rule bit_word_eqI) (auto simp: bitwise log2_first_set_spec)

lemma first_set_0 [simp]: "first_set 0 = 0"
  by (simp add: first_set_def)

lemma first_set_eq_0_iff [simp]: "first_set x = 0 \<longleftrightarrow> x = 0"
  using first_set_eq_exp [of x] log2_first_set_spec(3) [of x]
  by (metis bit_exp_u64 bit_0_eq bot_apply bot_bool_def first_set_0)

lemma min_log2_first_set: "x \<noteq> 0 \<Longrightarrow> min_log2 (first_set x) = log2_first_set x"
  by (simp add: first_set_eq_exp log2_first_set_spec)

lemma bit_clear_first_set [bitwise]:
  "bit (x XOR first_set x) i \<longleftrightarrow> bit x i \<and> i \<noteq> log2_first_set x"
  by (cases "x = 0") (auto simp: bit_xor_iff bitwise log2_first_set_spec)

lemma and_pred_eq: "x AND (x - 1) = x XOR first_set (x :: uword)"
proof (cases "x = 0")
  case False
  then show ?thesis
    by (intro bit_word_eqI) (auto simp: bit_and_iff bit_pred_iff bitwise log2_first_set_spec)
qed simp

section \<open>Powers of two and rounding\<close>

lemma min_log2_drop_bit:
  assumes "drop_bit b x \<noteq> 0"
  shows "min_log2 x = b + min_log2 (drop_bit b x)"
proof (rule min_log2_unique)
  note k = min_log2_spec [OF assms]
  from k(1) show "bit x (b + min_log2 (drop_bit b x))" by (simp add: bit_drop_bit_eq)
  fix j assume "b + min_log2 (drop_bit b x) < j"
  then show "\<not> bit x j" using k(2) [of "j - b"] by (simp add: bit_drop_bit_eq)
qed

lemma min_log2_halve_step:
  assumes "min_log2_halve b (a, r) = (a', r')" and "a \<noteq> 0" and "unat a < 2 ^ (2 * b)" and "b < 64"
  shows "a' \<noteq> 0" and "unat a' < 2 ^ b" and "r' + of_nat (min_log2 a') = r + of_nat (min_log2 a)"
proof -
  have c: "unat (drop_bit b a) = unat a div 2 ^ b"
    by (rule unat_drop_bit_u64)
  have le: "unat a div 2 ^ b < 2 ^ b" using assms(3)
    by (simp add: div_less_iff_less_mult mult_2 power_add)
  show "a' \<noteq> 0" using assms(1,2) by (auto simp: min_log2_halve_def Let_def split: if_splits)
  show "unat a' < 2 ^ b"
  proof (cases "drop_bit b a = 0")
    case True
    then have "unat a div 2 ^ b = 0" using c by simp
    then have "unat a < 2 ^ b" by (simp add: div_eq_0_iff)
    with True assms(1) show ?thesis by (simp add: min_log2_halve_def)
  next
    case False
    with assms(1) c le show ?thesis by (auto simp: min_log2_halve_def Let_def)
  qed
  show "r' + of_nat (min_log2 a') = r + of_nat (min_log2 a)"
    using assms(1) min_log2_drop_bit [of b a]
    by (auto simp: min_log2_halve_def Let_def split: if_splits)
qed

lemma min_log2_table:
  assumes "a \<noteq> 0" and "unat a < 16"
  shows "drop_bit (unat (4 * a)) (0x3333333322221104 :: uword) AND 0xf = of_nat (min_log2 a)"
    and "min_log2 a < 4"
proof -
  define n where "n = unat a"
  then have a: "a = of_nat n" by simp
  have "n \<in> set [1..<16]"
    using assms unat_gt_0 [of a] by (simp add: n_def Suc_le_eq)
  moreover have "\<forall>n \<in> set [1..<16].
      drop_bit (unat (4 * of_nat n :: uword)) (0x3333333322221104 :: uword) AND 0xf
        = of_nat (min_log2 (of_nat n)) \<and> min_log2 (of_nat n) < 4"
    by code_simp
  ultimately show "drop_bit (unat (4 * a)) (0x3333333322221104 :: uword) AND 0xf = of_nat (min_log2 a)"
    and "min_log2 a < 4" unfolding a by blast+
qed

lemma is_pow2_iff: "is_pow2 x \<longleftrightarrow> x = 0 \<or> (\<exists>k<64. x = 2 ^ k)"
proof
  assume "is_pow2 x"
  then have clear: "\<not> bit (x XOR first_set x) i" for i by (simp add: is_pow2_def and_pred_eq)
  show "x = 0 \<or> (\<exists>k<64. x = 2 ^ k)"
  proof (cases "x = 0")
    case False
    note k = log2_first_set_spec [OF False]
    have "x = 2 ^ log2_first_set x"
    proof (rule uword_eqI)
      fix i
      show "bit x i = bit (2 ^ log2_first_set x :: uword) i"
        using clear [of i] k by (auto simp: bit_clear_first_set bit_exp_u64)
    qed
    with k(3) show ?thesis by blast
  qed simp
next
  assume "x = 0 \<or> (\<exists>k<64. x = 2 ^ k)"
  then show "is_pow2 x"
  proof (elim disjE exE conjE)
    fix k assume k: "k < 64" and x: "x = 2 ^ k"
    have "log2_first_set (2 ^ k) = k"
      using k by (intro log2_first_set_unique) (auto simp: bitwise)
    then have "first_set x = x" using first_set_eq_exp [of "2 ^ k"] k x by simp
    then show "is_pow2 x" by (simp only: is_pow2_def and_pred_eq xor_self_eq)
  qed (simp add: is_pow2_def)
qed

lemma unat_and_not_mask: "unat (x AND NOT (mask k) :: uword) = 2 ^ k * (unat x div 2 ^ k)"
proof -
  have "x AND NOT (mask k) = push_bit k (drop_bit k x)"
    by (rule bit_word_eqI) (auto simp: bit_simps)
  moreover have "unat x div 2 ^ k * 2 ^ k < 2 ^ 64"
    by (rule order_le_less_trans [OF _ unat_u64_lt [of x]]) simp
  ultimately show ?thesis
    by (simp add: unat_push_bit_u64 unat_drop_bit_u64 mult.commute)
qed

lemma unat_le_imp_min_log2_le: "unat x \<le> 2 ^ k \<Longrightarrow> x \<noteq> 0 \<Longrightarrow> min_log2 x \<le> k"
  using min_log2_bounds(1) [of x] by (metis le_trans one_less_numeral_iff power_le_imp_le_exp semiring_norm(76))

lemma unat_max_pow2:
  assumes "x \<noteq> 0" and "unat x \<le> 2 ^ 63"
  shows "unat (max_pow2 x) = 2 ^ (if 2 ^ min_log2 x < unat x then Suc (min_log2 x) else min_log2 x)"
proof -
  note k = min_log2_spec(3) [OF assms(1)]
  have less: "(push_bit (min_log2 x) 1 < x) = (2 ^ min_log2 x < unat x)"
    by (simp add: word_less_nat_alt unat_exp_u64 k)
  show ?thesis
  proof (cases "2 ^ min_log2 x < unat x")
    case True
    from True assms(2) have "(2 :: nat) ^ min_log2 x < 2 ^ 63" by (rule order_less_le_trans)
    then have "min_log2 x < 63" by (rule power_less_imp_less_exp [rotated]) simp
    then have "Suc (min_log2 x) < 64" by simp
    then have "unat (2 ^ Suc (min_log2 x) :: uword) = 2 ^ Suc (min_log2 x)" by (rule unat_exp_u64)
    with True less show ?thesis by (simp add: max_pow2_def mult.commute)
  next
    case False
    with less k show ?thesis by (simp add: max_pow2_def unat_exp_u64)
  qed
qed

lemma unat_round_pow2:
  assumes "k < 64" and "unat x + 2 ^ k \<le> 2 ^ 64"
  shows "unat (round_pow2 x (2 ^ k)) = 2 ^ k * ((unat x + (2 ^ k - 1)) div 2 ^ k)"
proof -
  have m: "(2 ^ k - 1 :: uword) = mask k" by (simp add: mask_eq_exp_minus_1)
  have u: "unat (mask k :: uword) = 2 ^ k - 1"
    using assms(1) by (simp add: mask_eq_exp_minus_1 unat_exp_u64 unat_sub word_le_nat_alt)
  have "x + 2 ^ k - 1 = x + mask k" by (simp add: m [symmetric])
  then have r: "round_pow2 x (2 ^ k) = (x + mask k) AND NOT (mask k)"
    by (simp only: round_pow2_def m)
  have "unat x + unat (mask k :: uword) < 2 ^ 64" using assms(2) unfolding u
    by (metis (no_types, lifting) Nat.add_diff_assoc One_nat_def Suc_pred add_gr_0 le_imp_less_Suc
        less_eq_Suc_le one_le_numeral one_le_power zero_less_numeral zero_less_power)
  then have "unat (x + mask k) = unat x + (2 ^ k - 1)"
    by (simp add: unat_plus_simple [THEN iffD1] unat_word_ariths u)
  then show ?thesis by (simp only: r unat_and_not_mask)
qed

section \<open>Properties\<close>

text \<open>
  the portable table version of \<open>min_log2\<close>, used by compilers without the builtin, computes
  the position of the highest set bit as the builtin version does, and gives all ones for 0.
\<close>

theorem min_log2_portable_correct:
  "min_log2_portable x = (if x = 0 then NOT 0 else of_nat (min_log2 x))"
proof (cases "x = 0")
  case True
  have "min_log2_portable 0 = NOT 0" by code_simp
  with True show ?thesis by simp
next
  case False
  obtain a1 r1 where s1: "min_log2_halve 32 (x, 0) = (a1, r1)" by fastforce
  obtain a2 r2 where s2: "min_log2_halve 16 (a1, r1) = (a2, r2)" by fastforce
  obtain a3 r3 where s3: "min_log2_halve 8 (a2, r2) = (a3, r3)" by fastforce
  obtain a4 r4 where s4: "min_log2_halve 4 (a3, r3) = (a4, r4)" by fastforce
  note h1 = min_log2_halve_step [OF s1 False, simplified, OF unat_u64_lt [of x, simplified]]
  note h2 = min_log2_halve_step [OF s2 h1(1), simplified, OF h1(2)]
  note h3 = min_log2_halve_step [OF s3 h2(1), simplified, OF h2(2)]
  note h4 = min_log2_halve_step [OF s4 h3(1), simplified, OF h3(2)]
  note t = min_log2_table [OF h4(1) h4(2)]
  have "of_nat (min_log2 a4) < (4 :: uword)"
    using t(2) by (simp add: word_less_nat_alt unat_of_nat)
  then have "min_log2_portable x = r4 + of_nat (min_log2 a4)"
    using t(1) by (simp add: min_log2_portable_def s1 s2 s3 s4 Let_def)
  also have "\<dots> = of_nat (min_log2 x)"
    using h1(3) h2(3) h3(3) h4(3) by simp
  finally show ?thesis using False by simp
qed

text \<open>
  up to 2 ^ 63, \<open>max_pow2\<close> is the least power of two that is not below its argument (the
  capacity a fifo or a table grows to).
\<close>

theorem max_pow2_least:
  assumes "x \<noteq> 0" and "unat x \<le> 2 ^ 63"
  shows "\<exists>k<64. max_pow2 x = 2 ^ k \<and> unat x \<le> 2 ^ k \<and> (\<forall>j. unat x \<le> 2 ^ j \<longrightarrow> k \<le> j)"
proof -
  let ?k = "if 2 ^ min_log2 x < unat x then Suc (min_log2 x) else min_log2 x"
  have u: "unat (max_pow2 x) = 2 ^ ?k" by (rule unat_max_pow2 [OF assms])
  have "(2 :: nat) ^ ?k < 2 ^ 64" using unat_u64_lt [of "max_pow2 x"] unfolding u .
  then have k: "?k < 64" by (rule power_less_imp_less_exp [rotated]) simp
  then have eq: "max_pow2 x = 2 ^ ?k" by (intro word_unat_eq_iff [THEN iffD2]) (simp only: u unat_exp_u64)
  have le: "unat x \<le> 2 ^ ?k" using min_log2_bounds(2) [of x] by auto
  have least: "?k \<le> j" if j: "unat x \<le> 2 ^ j" for j
  proof (cases "2 ^ min_log2 x < unat x")
    case True
    from True j have "(2 :: nat) ^ min_log2 x < 2 ^ j" by (rule order_less_le_trans)
    then have "min_log2 x < j" by simp
    then show ?thesis by simp
  next
    case False
    then show ?thesis using unat_le_imp_min_log2_le [OF j assms(1)] by simp
  qed
  from k eq le least show ?thesis by blast
qed

theorem max_pow2_least_witness:
  "\<exists>k<64. max_pow2 33 = 2 ^ k \<and> unat (33 :: uword) \<le> 2 ^ k \<and> (\<forall>j. unat (33 :: uword) \<le> 2 ^ j \<longrightarrow> k \<le> j)"
  by (rule max_pow2_least) simp_all

text \<open>
  rounding up to a power of two gives the least multiple of it that is not below the
  argument, as long as the sum does not wrap.
\<close>

theorem round_pow2_least_multiple:
  assumes "k < 64" and "unat x + 2 ^ k \<le> 2 ^ 64"
  shows "unat (round_pow2 x (2 ^ k)) = 2 ^ k * ((unat x + (2 ^ k - 1)) div 2 ^ k)"
  using assms by (rule unat_round_pow2)

theorem round_pow2_least_multiple_witness:
  "unat (round_pow2 13 (2 ^ 3)) = 2 ^ 3 * ((unat (13 :: uword) + (2 ^ 3 - 1)) div 2 ^ 3)"
  by (rule round_pow2_least_multiple) simp_all

end
