(* ===== verification/Clib_Bitops.thy ===== *)
theory Clib_Bitops
  imports Clib_Arith
begin

text \<open>
  The bit operations of \<open>src/clib/bitops.h\<close> on 64 bit words: the population count, the
  compression of a word under a mask, rotation, the next word with the same number of set bits
  and the iteration over the set bits of a word.
\<close>

section \<open>The functions of bitops.h\<close>

definition count_set_bits :: "uword \<Rightarrow> uword" where
  "count_set_bits x =
     (let c1 = 0x5555555555555555;
          c2 = 0x3333333333333333;
          c3 = 0x0f0f0f0f0f0f0f0f;
          x = x - (drop_bit 1 x AND c1);
          x = (x AND c2) + (drop_bit 2 x AND c2);
          x = (x + drop_bit 4 x) AND c3;
          x = x + drop_bit 8 x;
          x = x + drop_bit 16 x;
          x = x + drop_bit 32 x
      in x AND 127)"

definition rotate_left :: "uword \<Rightarrow> nat \<Rightarrow> uword" where
  "rotate_left x i = push_bit i x OR drop_bit (64 - i) x"

definition rotate_right :: "uword \<Rightarrow> nat \<Rightarrow> uword" where
  "rotate_right x i = drop_bit i x OR push_bit (64 - i) x"

definition next_with_same_number_of_set_bits :: "uword \<Rightarrow> uword" where
  "next_with_same_number_of_set_bits x =
     (let smallest = x AND - x;
          ripple = x + smallest;
          ones = x XOR ripple;
          ones = drop_bit (2 + log2_first_set x) ones
      in ripple OR ones)"

text \<open>
  The macro \<open>foreach_set_bit\<close> runs its body on the position of the lowest set bit, which it then
  clears, until none is left; the model is the list of positions in the order of the body's runs.
  A word has 64 bits, so 64 rounds are enough.
\<close>

fun foreach_set_bit_loop :: "nat \<Rightarrow> uword \<Rightarrow> nat list" where
  "foreach_set_bit_loop 0 m = []"
| "foreach_set_bit_loop (Suc n) m =
     (if m = 0 then []
      else let f = first_set m in min_log2 f # foreach_set_bit_loop n (m XOR f))"

definition foreach_set_bit :: "uword \<Rightarrow> nat list" where
  "foreach_set_bit m = foreach_set_bit_loop 64 m"

section \<open>Iteration over set bits\<close>

lemma finite_bits [simp]: "finite {i. bit (x :: uword) i}"
  by (rule finite_subset [of _ "{..<64}"]) auto

lemma bits_clear_first_set: "{i. bit (x XOR first_set x) i} = {i. bit x i} - {log2_first_set x}"
  by (auto simp: bitwise)

lemma Min_bits: "x \<noteq> 0 \<Longrightarrow> Min {i. bit x i} = log2_first_set x"
  by (rule Min_eqI) (use log2_first_set_spec [of x] in \<open>auto simp: not_less [symmetric]\<close>)

lemma foreach_set_bit_loop_eq:
  "card {i. bit m i} \<le> n \<Longrightarrow> foreach_set_bit_loop n m = sorted_list_of_set {i. bit m i}"
proof (induction n arbitrary: m)
  case 0
  then show ?case by simp
next
  case (Suc n)
  show ?case
  proof (cases "m = 0")
    case False
    then have ne: "{i. bit m i} \<noteq> {}" using log2_first_set_spec(1) [OF False] by auto
    have "card {i. bit (m XOR first_set m) i} \<le> n"
      using Suc.prems log2_first_set_spec(1) [OF False] by (simp add: bits_clear_first_set)
    from Suc.IH [OF this] show ?thesis
      using False ne sorted_list_of_set_nonempty [OF finite_bits ne]
      by (simp add: Let_def min_log2_first_set bits_clear_first_set Min_bits)
  qed simp
qed

lemma card_bits_le: "card {i. bit (x :: uword) i} \<le> 64"
  using card_mono [of "{..<64}" "{i. bit x i}"] by auto

lemma foreach_set_bit_eq: "foreach_set_bit m = sorted_list_of_set {i. bit m i}"
  by (simp add: foreach_set_bit_def foreach_set_bit_loop_eq card_bits_le del: foreach_set_bit_loop.simps)

section \<open>Population count\<close>

text \<open>
  The count works on fields of growing width. A word is read as the list of its digits to a
  base \<open>P\<close>, lowest first; the masked sums add neighbouring digits.
\<close>

fun digits_val :: "nat \<Rightarrow> nat list \<Rightarrow> nat" where
  "digits_val P [] = 0"
| "digits_val P (d # ds) = d + P * digits_val P ds"

lemma nat_digit_and:
  assumes "d < 2 ^ p" and "e < 2 ^ p"
  shows "(d + 2 ^ p * v) AND (e + 2 ^ p * u) = (d AND e) + 2 ^ p * (v AND u :: nat)"
proof -
  let ?N = "(d + 2 ^ p * v) AND (e + 2 ^ p * u)"
  have "?N mod 2 ^ p = d AND e"
    using assms take_bit_and [of p "d + 2 ^ p * v" "e + 2 ^ p * u"] by (simp add: take_bit_eq_mod)
  moreover have "?N div 2 ^ p = v AND u"
    using assms drop_bit_and [of p "d + 2 ^ p * v" "e + 2 ^ p * u"] by (simp add: drop_bit_eq_div)
  ultimately show ?thesis using div_mult_mod_eq [of ?N "2 ^ p"] by (simp add: mult.commute)
qed

lemma and_mask_nat: "n AND (2 ^ b - 1) = (n mod 2 ^ b :: nat)"
  by (metis mask_eq_exp_minus_1 take_bit_eq_mask take_bit_eq_mod)

lemma and_low_mask:
  assumes "\<forall>d \<in> set ds. d < 2 ^ p" and "m < 2 ^ p" and "m = 2 ^ b - 1"
  shows "digits_val (2 ^ p) ds AND digits_val (2 ^ p) (map (\<lambda>_. m) ds)
    = digits_val (2 ^ p) (map (\<lambda>d. d mod 2 ^ b) ds)"
  using assms(1)
proof (induction ds)
  case (Cons d ds)
  have "d AND m = d mod 2 ^ b" unfolding assms(3) by (rule and_mask_nat)
  with Cons assms(2) show ?case by (simp add: nat_digit_and)
qed simp

lemma digit_step_less:
  assumes "(a :: nat) < B" and "c < D"
  shows "a + B * c < B * D"
proof -
  have "a + B * c < B * Suc c" using assms(1) by simp
  also have "\<dots> \<le> B * D" using assms(2) by (intro mult_le_mono2) simp
  finally show ?thesis .
qed

lemma and_high_mask:
  assumes "\<forall>d \<in> set ds. d < 2 ^ b * 2 ^ b" and "m = 2 ^ b - 1"
  shows "digits_val (2 ^ b * 2 ^ b) ds div 2 ^ b AND digits_val (2 ^ b * 2 ^ b) (map (\<lambda>_. m) ds)
    = digits_val (2 ^ b * 2 ^ b) (map (\<lambda>d. d div 2 ^ b) ds)"
  using assms(1)
proof (induction ds)
  case (Cons d ds)
  let ?B = "2 ^ b :: nat" and ?v = "digits_val (2 ^ b * 2 ^ b) ds"
  have P: "?B * ?B = 2 ^ (2 * b)" by (simp add: power_add mult_2)
  have "m < ?B * 1" using assms(2) by simp
  also have "\<dots> \<le> ?B * ?B" by (rule mult_le_mono2) simp
  finally have m: "m < 2 ^ (2 * b)" by (simp only: P)
  have d: "d div ?B < ?B" using Cons.prems by (simp add: div_less_iff_less_mult)
  then have lo: "d div ?B + ?B * (?v mod ?B) < 2 ^ (2 * b)"
    by (simp only: P [symmetric]) (rule digit_step_less, simp_all)
  have "(d + ?B * ?B * ?v) div ?B = d div ?B + ?B * ?v" by (simp add: mult.assoc)
  also have "\<dots> = (d div ?B + ?B * (?v mod ?B)) + ?B * ?B * (?v div ?B)"
    by (metis (no_types) add.assoc add_mult_distrib2 mult.assoc mod_mult_div_eq)
  finally have "digits_val (?B * ?B) (d # ds) div ?B
      = (d div ?B + ?B * (?v mod ?B)) + ?B * ?B * (?v div ?B)" by simp
  moreover have "(d div ?B + ?B * (?v mod ?B)) AND m = d div ?B"
    unfolding assms(2) and_mask_nat using d by simp
  moreover have "?v div ?B AND digits_val (?B * ?B) (map (\<lambda>_. m) ds)
      = digits_val (?B * ?B) (map (\<lambda>d. d div ?B) ds)"
    using Cons by simp
  ultimately show ?case using nat_digit_and [OF lo m] by (simp only: P) simp
qed simp

lemma digits_val_add:
  "digits_val P (map f ds) + digits_val P (map g ds) = digits_val P (map (\<lambda>d. f d + g d) ds)"
proof (induction ds)
  case (Cons d ds)
  have "P * digits_val P (map f ds) + P * digits_val P (map g ds)
      = P * digits_val P (map (\<lambda>d. f d + g d) ds)"
    unfolding Cons.IH [symmetric] by (rule distrib_left [symmetric])
  then show ?case by simp
qed simp

lemma digits_val_diff:
  "(\<And>d. g d \<le> f d) \<Longrightarrow> digits_val P (map f ds) - digits_val P (map g ds)
    = (digits_val P (map (\<lambda>d. f d - g d) ds) :: nat)"
  using digits_val_add [of P "\<lambda>d. f d - g d" ds g] by (simp add: le_add_diff_inverse2)

fun pair_digits :: "nat \<Rightarrow> nat list \<Rightarrow> nat list" where
  "pair_digits P (a # b # ds) = (a + P * b) # pair_digits P ds"
| "pair_digits P ds = ds"

fun pair_sums :: "nat list \<Rightarrow> nat list" where
  "pair_sums (a # b # ds) = (a + b) # pair_sums ds"
| "pair_sums ds = ds"

fun next_sums :: "nat list \<Rightarrow> nat list" where
  "next_sums (a # b # ds) = (a + b) # next_sums (b # ds)"
| "next_sums ds = ds"

lemma digits_val_pair: "even (length ds) \<Longrightarrow> digits_val (P * P) (pair_digits P ds) = digits_val P ds"
  by (induction P ds rule: pair_digits.induct) (simp_all add: algebra_simps)

lemma length_pair_sums [simp]: "length (pair_sums ds) = Suc (length ds) div 2"
  by (induction ds rule: pair_sums.induct) simp_all

lemma length_pair_digits [simp]: "length (pair_digits P ds) = Suc (length ds) div 2"
  by (induction P ds rule: pair_digits.induct) simp_all

lemma sum_pair_sums: "sum_list (pair_sums ds) = sum_list ds"
  by (induction ds rule: pair_sums.induct) simp_all

lemma pair_sums_le:
  "even (length ds) \<Longrightarrow> \<forall>d \<in> set ds. d \<le> M \<Longrightarrow> \<forall>d \<in> set (pair_sums ds). d \<le> 2 * M"
  by (induction ds rule: pair_sums.induct) auto

lemma pair_digits_less:
  "even (length ds) \<Longrightarrow> \<forall>d \<in> set ds. d < P \<Longrightarrow> \<forall>d \<in> set (pair_digits P ds). d < P * P"
proof (induction P ds rule: pair_digits.induct)
  case (1 P a b ds)
  have "a + P * b < P + P * b" using 1 by simp
  also have "\<dots> \<le> P * P" using 1 by (metis Suc_leI add.commute list.set_intros(1) list.set_intros(2)
      mult_Suc_right mult_le_mono2)
  finally show ?case using 1 by simp
qed auto

lemma digits_val_less: "\<forall>d \<in> set ds. d < P \<Longrightarrow> digits_val P ds < P ^ length ds"
proof (induction ds)
  case (Cons d ds)
  then have "Suc (digits_val P ds) \<le> P ^ length ds" by simp
  then have "P * Suc (digits_val P ds) \<le> P * P ^ length ds" by (rule mult_le_mono2)
  moreover have "d < P" using Cons.prems by simp
  ultimately show ?case by simp
qed simp

lemma pair_digits_mod_div:
  "even (length ds) \<Longrightarrow> \<forall>d \<in> set ds. d < P \<Longrightarrow>
    map (\<lambda>d. d mod P + d div P) (pair_digits P ds) = pair_sums ds"
  by (induction P ds rule: pair_digits.induct) auto

lemma pair_digits_minus_half:
  "even (length ds) \<Longrightarrow> \<forall>d \<in> set ds. d < 2 \<Longrightarrow>
    map (\<lambda>d. d - d div 2) (pair_digits 2 ds) = pair_sums ds"
  by (induction "2 :: nat" ds rule: pair_digits.induct) auto

lemma pair_digits_next_sums:
  "even (length ds) \<Longrightarrow> \<forall>d \<in> set ds. d + d < P \<Longrightarrow>
    map (\<lambda>d. d mod P) (pair_digits P (next_sums ds)) = pair_sums ds"
proof (induction ds rule: pair_sums.induct)
  case (1 a b ds)
  then show ?case by (cases ds) auto
qed auto

lemma length_next_sums [simp]: "length (next_sums ds) = length ds"
  by (induction ds rule: next_sums.induct) simp_all

lemma next_sums_less: "\<forall>d \<in> set ds. d + d < P \<Longrightarrow> \<forall>d \<in> set (next_sums ds). d < P"
  by (induction ds rule: next_sums.induct) auto

lemma digits_val_div: "a < P \<Longrightarrow> digits_val P (a # ds) div P = digits_val P ds"
  by simp

lemma digits_val_next_sums:
  "\<forall>d \<in> set ds. d < P \<Longrightarrow> digits_val P ds + digits_val P ds div P = digits_val P (next_sums ds)"
proof (induction ds rule: next_sums.induct)
  case (1 a b ds)
  let ?v = "digits_val P (b # ds)"
  have "?v + ?v div P = digits_val P (next_sums (b # ds))" using 1 by simp
  then have "P * ?v + P * (?v div P) = P * digits_val P (next_sums (b # ds))"
    by (metis distrib_left)
  moreover have "digits_val P (a # b # ds) div P = b + P * (?v div P)"
    using 1 by (simp add: digits_val_div)
  ultimately show ?case by simp
qed auto

definition bit_digits :: "uword \<Rightarrow> nat list" where
  "bit_digits x = map of_bool (map (bit x) [0..<64])"

lemma digits_val_bit_digits: "digits_val 2 (bit_digits x) = unat x"
proof -
  have horner: "digits_val P (map f xs) = horner_sum f P xs" for P and f :: "bool \<Rightarrow> nat" and xs
    by (induction xs) simp_all
  have "map (bit x) [0..<64] = map (bit (unat x)) [0..<64]"
    by (simp add: bit_unsigned_iff)
  then have "digits_val 2 (bit_digits x) = take_bit 64 (unat x)"
    by (simp only: bit_digits_def horner horner_sum_bit_eq_take_bit)
  then show ?thesis using unat_u64_lt [of x] by (simp add: take_bit_eq_mod)
qed

lemma sum_bit_digits: "sum_list (bit_digits x) = card {i. bit x i}"
proof -
  have "sum_list (bit_digits x) = sum (of_bool \<circ> bit x) (set [0..<64])"
    by (simp only: bit_digits_def map_map interv_sum_list_conv_sum_set_nat)
  also have "\<dots> = (\<Sum>i\<in>{0..<64}. of_bool (bit x i))" by simp
  also have "\<dots> = card ({0..<64} \<inter> {i. bit x i})" by (simp add: sum_of_bool_eq)
  also have "{0..<64} \<inter> {i. bit x i} = {i. bit x i}" by auto
  finally show ?thesis .
qed

lemma digits_val_replicate: "digits_val (Suc Q) (replicate n c) * Q + c = c * Suc Q ^ n"
proof (induction n)
  case (Suc n)
  let ?V = "digits_val (Suc Q) (replicate n c)"
  have "(c + Suc Q * ?V) * Q + c = Suc Q * (?V * Q + c)" by (simp add: algebra_simps)
  also have "\<dots> = Suc Q * (c * Suc Q ^ n)" by (simp only: Suc.IH)
  finally show ?case by (simp only: replicate_Suc digits_val.simps power_Suc) (simp only: ac_simps)
qed simp

lemma and_masks:
  "\<forall>d \<in> set ds. d < 4 \<Longrightarrow>
    digits_val 4 ds div 2 AND digits_val 4 (map (\<lambda>_. 1) ds) = digits_val 4 (map (\<lambda>d. d div 2) ds)"
  "\<forall>d \<in> set ds. d < 16 \<Longrightarrow>
    digits_val 16 ds div 4 AND digits_val 16 (map (\<lambda>_. 3) ds) = digits_val 16 (map (\<lambda>d. d div 4) ds)"
  "\<forall>d \<in> set ds. d < 16 \<Longrightarrow>
    digits_val 16 ds AND digits_val 16 (map (\<lambda>_. 3) ds) = digits_val 16 (map (\<lambda>d. d mod 4) ds)"
  "\<forall>d \<in> set ds. d < 256 \<Longrightarrow>
    digits_val 256 ds AND digits_val 256 (map (\<lambda>_. 15) ds) = digits_val 256 (map (\<lambda>d. d mod 16) ds)"
proof -
  have num: "(2 :: nat) ^ 4 = 16" "(2 :: nat) ^ 2 = 4" "(2 :: nat) ^ 8 = 256" by simp_all
  show "\<forall>d \<in> set ds. d < 4 \<Longrightarrow>
      digits_val 4 ds div 2 AND digits_val 4 (map (\<lambda>_. 1) ds) = digits_val 4 (map (\<lambda>d. d div 2) ds)"
    using and_high_mask [of ds 1 1] by simp
  show "\<forall>d \<in> set ds. d < 16 \<Longrightarrow>
      digits_val 16 ds div 4 AND digits_val 16 (map (\<lambda>_. 3) ds) = digits_val 16 (map (\<lambda>d. d div 4) ds)"
    using and_high_mask [of ds 2 3] by simp
  show "\<forall>d \<in> set ds. d < 16 \<Longrightarrow>
      digits_val 16 ds AND digits_val 16 (map (\<lambda>_. 3) ds) = digits_val 16 (map (\<lambda>d. d mod 4) ds)"
    by (rule and_low_mask [of ds 4 3 2, unfolded num]) simp_all
  show "\<forall>d \<in> set ds. d < 256 \<Longrightarrow>
      digits_val 256 ds AND digits_val 256 (map (\<lambda>_. 15) ds) = digits_val 256 (map (\<lambda>d. d mod 16) ds)"
    by (rule and_low_mask [of ds 8 15 4, unfolded num]) simp_all
qed

lemma count_first_steps:
  fixes x y z :: uword
  assumes y: "y = x - (drop_bit 1 x AND 0x5555555555555555)"
    and z: "z = (y AND 0x3333333333333333) + (drop_bit 2 y AND 0x3333333333333333)"
  shows "unat z = digits_val 16 (pair_sums (pair_sums (bit_digits x)))"
proof -
  let ?bs = "bit_digits x"
  let ?p1 = "pair_sums ?bs" and ?d4 = "pair_digits 2 ?bs"
  let ?p2 = "pair_sums ?p1" and ?d16 = "pair_digits 4 ?p1"
  have len: "length ?bs = 64" by (simp add: bit_digits_def)
  have bs: "\<forall>d \<in> set ?bs. d < 2" "\<forall>d \<in> set ?bs. d \<le> 1" by (auto simp: bit_digits_def)
  have p1: "\<forall>d \<in> set ?p1. d \<le> 2" using pair_sums_le [OF _ bs(2)] len by simp
  have p1': "\<forall>d \<in> set ?p1. d < 4" using p1 by auto
  have p2: "\<forall>d \<in> set ?p2. d \<le> 4" using pair_sums_le [OF _ p1] len by simp
  have x4: "unat x = digits_val 4 ?d4"
    using digits_val_pair [of ?bs 2] len by (simp add: digits_val_bit_digits)
  have d4: "\<forall>d \<in> set ?d4. d < 4" using pair_digits_less [OF _ bs(1)] len by simp
  have c1: "unat (0x5555555555555555 :: uword) = digits_val 4 (map (\<lambda>_. 1) ?d4)"
    using digits_val_replicate [of 3 32 1] by (simp add: map_replicate_const len)
  have "unat (drop_bit 1 x AND 0x5555555555555555) = digits_val 4 (map (\<lambda>d. d div 2) ?d4)"
    unfolding unat_and_u64 unat_drop_bit_u64 c1 x4 power_one_right by (rule and_masks(1) [OF d4])
  moreover have "digits_val 4 (map (\<lambda>d. d div 2) ds) \<le> digits_val 4 ds" for ds
    by (induction ds) (simp_all add: add_le_mono)
  ultimately have "unat y = digits_val 4 (map (\<lambda>d. d) ?d4) - digits_val 4 (map (\<lambda>d. d div 2) ?d4)"
    unfolding y by (subst unat_sub_u64) (simp_all add: x4)
  then have y4: "unat y = digits_val 4 ?p1"
    by (simp only: digits_val_diff [OF div_le_dividend])
      (simp add: pair_digits_minus_half bs(1) len)
  then have y16: "unat y = digits_val 16 ?d16"
    using digits_val_pair [of ?p1 4] len by simp
  have d16: "\<forall>d \<in> set ?d16. d < 16" using pair_digits_less [OF _ p1'] len by simp
  have four: "(2 :: nat) ^ 2 = 4" by simp
  have c2: "unat (0x3333333333333333 :: uword) = digits_val 16 (map (\<lambda>_. 3) ?d16)"
    using digits_val_replicate [of 15 16 3] by (simp add: map_replicate_const len)
  have lo: "unat (y AND 0x3333333333333333) = digits_val 16 (map (\<lambda>d. d mod 4) ?d16)"
    unfolding unat_and_u64 c2 y16 by (rule and_masks(3) [OF d16])
  have hi: "unat (drop_bit 2 y AND 0x3333333333333333) = digits_val 16 (map (\<lambda>d. d div 4) ?d16)"
    unfolding unat_and_u64 unat_drop_bit_u64 c2 y16 four by (rule and_masks(2) [OF d16])
  have sum: "digits_val 16 (map (\<lambda>d. d mod 4) ?d16) + digits_val 16 (map (\<lambda>d. d div 4) ?d16)
      = digits_val 16 ?p2"
    unfolding digits_val_add using pair_digits_mod_div [OF _ p1'] len by simp
  have "digits_val 16 ?p2 < 16 ^ length ?p2"
    by (rule digits_val_less) (use p2 in auto)
  then show ?thesis unfolding z by (subst unat_add_u64) (simp_all add: lo hi sum len)
qed

lemma unat_add_drop_bit:
  "unat x + unat x div 2 ^ k < 2 ^ 64 \<Longrightarrow> unat (x + drop_bit k x :: uword) = unat x + unat x div 2 ^ k"
  by (simp add: unat_add_u64 unat_drop_bit_u64)

lemma count_third_step:
  fixes z :: uword
  assumes z: "unat z = digits_val 16 ds" and len: "length ds = 16" and ds: "\<forall>d \<in> set ds. d \<le> 4"
  shows "unat ((z + drop_bit 4 z) AND 0x0f0f0f0f0f0f0f0f) = digits_val 256 (pair_sums ds)"
proof -
  let ?n = "next_sums ds" and ?d = "pair_digits 16 (next_sums ds)"
  have ds': "\<forall>d \<in> set ds. d < 16" "\<forall>d \<in> set ds. d + d < 16" using ds by auto
  have n: "\<forall>d \<in> set ?n. d < 16" by (rule next_sums_less [OF ds'(2)])
  have sum: "unat z + unat z div 16 = digits_val 16 ?n"
    unfolding z by (rule digits_val_next_sums [OF ds'(1)])
  have "digits_val 16 ?n < 16 ^ length ?n" by (rule digits_val_less [OF n])
  then have "unat (z + drop_bit 4 z) = digits_val 16 ?n"
    using sum unat_add_drop_bit [of z 4] by (simp add: len)
  also have "\<dots> = digits_val 256 ?d" using digits_val_pair [of ?n 16] len by simp
  finally have u: "unat (z + drop_bit 4 z) = digits_val 256 ?d" .
  have d: "\<forall>d \<in> set ?d. d < 256" using pair_digits_less [OF _ n] len by simp
  have c3: "unat (0x0f0f0f0f0f0f0f0f :: uword) = digits_val 256 (map (\<lambda>_. 15) ?d)"
    using digits_val_replicate [of 255 8 15] by (simp add: map_replicate_const len)
  have "unat ((z + drop_bit 4 z) AND 0x0f0f0f0f0f0f0f0f) = digits_val 256 (map (\<lambda>d. d mod 16) ?d)"
    unfolding unat_and_u64 c3 u by (rule and_masks(4) [OF d])
  then show ?thesis using pair_digits_next_sums [OF _ ds'(2)] len by simp
qed

lemma count_last_steps:
  fixes v v1 v2 v3 :: uword
  assumes v: "unat v = digits_val 256 gs" and len: "length gs = 8" and gs: "\<forall>g \<in> set gs. g \<le> 8"
    and v1: "v1 = v + drop_bit 8 v" and v2: "v2 = v1 + drop_bit 16 v1"
    and v3: "v3 = v2 + drop_bit 32 v2"
  shows "unat (v3 AND 127) = sum_list gs"
proof -
  obtain g0 g1 g2 g3 g4 g5 g6 g7 where g: "gs = [g0, g1, g2, g3, g4, g5, g6, g7]"
    using len by (auto simp: length_Suc_conv numeral_eq_Suc)
  have b: "g0 \<le> 8" "g1 \<le> 8" "g2 \<le> 8" "g3 \<le> 8" "g4 \<le> 8" "g5 \<le> 8" "g6 \<le> 8" "g7 \<le> 8"
    using gs by (simp_all add: g)
  let ?h0 = "digits_val 256 [g0 + g1, g1 + g2]"
  let ?h1 = "digits_val 256 [g2 + g3, g3 + g4]"
  let ?h2 = "digits_val 256 [g4 + g5, g5 + g6]"
  let ?h3 = "digits_val 256 [g6 + g7, g7]"
  have d1: "unat v div 256 = digits_val 256 [g1, g2, g3, g4, g5, g6, g7]"
    unfolding v g using b by simp
  have "unat v + unat v div 256 = digits_val 65536 [?h0, ?h1, ?h2, ?h3]"
    unfolding d1 by (simp add: v g)
  moreover have "digits_val 65536 [?h0, ?h1, ?h2, ?h3] < 2 ^ 64" using b by simp
  ultimately have u1: "unat v1 = digits_val 65536 [?h0, ?h1, ?h2, ?h3]"
    unfolding v1 using unat_add_drop_bit [of v 8] by (simp del: digits_val.simps)
  have h: "?h0 < 65536" "?h1 < 65536" "?h2 < 65536" "?h3 < 65536" using b by simp_all
  have d2: "unat v1 div 65536 = digits_val 65536 [?h1, ?h2, ?h3]"
    unfolding u1 using h(1) by (rule digits_val_div)
  let ?k0 = "?h0 + ?h1 + 65536 * (?h1 + ?h2)" and ?k1 = "?h2 + ?h3 + 65536 * ?h3"
  have "unat v1 + unat v1 div 65536 = digits_val 4294967296 [?k0, ?k1]"
    unfolding d2 by (simp add: u1)
  moreover have "digits_val 4294967296 [?k0, ?k1] < 2 ^ 64" using b by simp
  ultimately have u2: "unat v2 = digits_val 4294967296 [?k0, ?k1]"
    unfolding v2 using unat_add_drop_bit [of v1 16] by (simp del: digits_val.simps)
  have d3: "unat v2 div 4294967296 = ?h2 + ?h3 + 65536 * ?h3"
    unfolding u2 using b by simp
  have "unat v2 + ?k1 < 2 ^ 64" unfolding u2 using b by simp
  then have u3: "unat v3 = unat v2 + ?k1"
    unfolding v3 using unat_add_drop_bit [of v2 32] d3 by (simp del: digits_val.simps)
  have "unat (v3 AND 127) = unat v3 mod 128"
    unfolding unat_and_u64 using and_mask_nat [of "unat v3" 7] by simp
  also have "\<dots> = (g0 + g1 + g2 + g3 + g4 + g5 + g6 + g7) mod 128"
  proof -
    have "unat v3 = (g0 + g1 + g2 + g3 + g4 + g5 + g6 + g7)
        + 128 * (2 * (g1 + g2 + g3 + g4) + 512 * (?h1 + ?h2) + 2 * (g5 + g6 + g7) + 512 * ?h3
          + 33554432 * ?k1)"
      unfolding u3 u2 by simp
    then show ?thesis by (simp only: mod_mult_self2)
  qed
  also have "\<dots> = sum_list gs" using b by (simp add: g)
  finally show ?thesis .
qed

lemma count_set_bits_card: "count_set_bits x = of_nat (card {i. bit x i})"
proof -
  define y where y: "y = x - (drop_bit 1 x AND 0x5555555555555555)"
  define z where z: "z = (y AND 0x3333333333333333) + (drop_bit 2 y AND 0x3333333333333333)"
  define v where v: "v = (z + drop_bit 4 z) AND 0x0f0f0f0f0f0f0f0f"
  define v1 where v1: "v1 = v + drop_bit 8 v"
  define v2 where v2: "v2 = v1 + drop_bit 16 v1"
  define v3 where v3: "v3 = v2 + drop_bit 32 v2"
  let ?p1 = "pair_sums (bit_digits x)"
  let ?p2 = "pair_sums ?p1"
  have len: "length (bit_digits x) = 64" by (simp add: bit_digits_def)
  have "\<forall>d \<in> set (bit_digits x). d \<le> 1" by (auto simp: bit_digits_def)
  from pair_sums_le [OF _ this] have p1: "\<forall>d \<in> set ?p1. d \<le> 2" by (simp add: len)
  from pair_sums_le [OF _ this] have p2: "\<forall>d \<in> set ?p2. d \<le> 4" by (simp add: len)
  from pair_sums_le [OF _ this] have p3: "\<forall>d \<in> set (pair_sums ?p2). d \<le> 8" by (simp add: len)
  have "unat v = digits_val 256 (pair_sums ?p2)"
    unfolding v using p2 by (intro count_third_step count_first_steps [OF y z]) (simp_all add: len)
  from count_last_steps [OF this _ p3 v1 v2 v3] have "unat (v3 AND 127) = card {i. bit x i}"
    by (simp add: len sum_pair_sums sum_bit_digits)
  moreover have "count_set_bits x = v3 AND 127"
    by (simp add: count_set_bits_def Let_def y z v v1 v2 v3)
  ultimately have "unat (count_set_bits x) = card {i. bit x i}" by simp
  then have "of_nat (unat (count_set_bits x)) = (of_nat (card {i. bit x i}) :: uword)" by (rule arg_cong)
  then show ?thesis by simp
qed

section \<open>Properties\<close>

text \<open>
  the population count is the number of set bits.
\<close>

theorem count_set_bits_correct: "count_set_bits x = of_nat (card {i. bit x i})"
  by (rule count_set_bits_card)

text \<open>
  \<open>foreach_set_bit\<close> visits each set bit of the mask once, in increasing order.
\<close>

theorem foreach_set_bit_visits:
  "set (foreach_set_bit m) = {i. bit m i} \<and> sorted (foreach_set_bit m) \<and> distinct (foreach_set_bit m)"
  by (simp add: foreach_set_bit_eq)

end
