(* ===== verification/Clib_Vec.thy ===== *)
theory Clib_Vec
  imports Clib_Arith
begin

text \<open>
  Dynamic vectors: \<open>src/clib/vec_bootstrap.h\<close>, \<open>src/clib/vec.h\<close> and \<open>src/clib/vec.c\<close>.
  A vector pointer is \<open>None\<close> (the null pointer, a valid empty vector) or the heap object behind it:
  the length field of its header, the size in bytes the allocator gave, and the value of every
  element slot of the object, used or not. Slots beyond the length keep what was stored there,
  which the code relies on knowing (\<open>vec_validate\<close> clears them, \<open>vec_add2\<close> does not).
  The size of an element (\<open>es\<close>) and of the user's header (\<open>H\<close>) are arguments, as in the macros.
\<close>

section \<open>Vectors in memory\<close>

record 'a vec_obj =
  vlen :: nat
  alloc_bytes :: nat
  slots :: "'a list"

type_synonym 'a vec = "'a vec_obj option"

text \<open>
  What the code needs of the allocator (\<open>clib_mem_alloc_aligned_at_offset\<close> followed by
  \<open>clib_mem_size\<close>): the object is at least as large as was asked for.
\<close>

locale allocator =
  fixes alloc :: "nat \<Rightarrow> nat"
  assumes alloc_enough: "n \<le> alloc n"

definition vec_header_bytes :: "nat \<Rightarrow> nat" where
  "vec_header_bytes H = unat (round_pow2 (of_nat (H + 4)) 4)"

definition vec_len :: "'a vec \<Rightarrow> nat" where
  "vec_len v = (case v of None \<Rightarrow> 0 | Some x \<Rightarrow> vlen x)"

definition n_slots :: "nat \<Rightarrow> nat \<Rightarrow> nat \<Rightarrow> nat" where
  "n_slots es H bytes = (bytes - vec_header_bytes H) div es"

text \<open>
  \<open>vec_capacity (v, 0)\<close> is the size of the whole heap object of a vector without a user header,
  the vector header included.
\<close>

definition vec_capacity :: "'a vec \<Rightarrow> nat" where
  "vec_capacity v = (case v of None \<Rightarrow> 0 | Some x \<Rightarrow> alloc_bytes x)"

definition vec_max_len :: "nat \<Rightarrow> 'a vec \<Rightarrow> nat" where
  "vec_max_len es v = vec_capacity v div es"

definition vec_resize_allocate_memory ::
    "(nat \<Rightarrow> nat) \<Rightarrow> nat \<Rightarrow> nat \<Rightarrow> 'a::zero vec \<Rightarrow> nat \<Rightarrow> nat \<Rightarrow> 'a vec" where
  "vec_resize_allocate_memory alloc es H v length_increment data_bytes =
     (let data_bytes = data_bytes + vec_header_bytes H in
      case v of
        None \<Rightarrow>
          let new = alloc data_bytes in
          Some \<lparr>vlen = length_increment mod 2 ^ 32, alloc_bytes = new,
                slots = replicate (n_slots es H new) 0\<rparr>
      | Some x \<Rightarrow>
          let x = x\<lparr>vlen := (vlen x + length_increment) mod 2 ^ 32\<rparr>;
              old_alloc_bytes = alloc_bytes x
          in if data_bytes \<le> old_alloc_bytes then Some x
             else
               let new_alloc_bytes = old_alloc_bytes * 3 div 2;
                   new_alloc_bytes = (if new_alloc_bytes < data_bytes then data_bytes else new_alloc_bytes);
                   new = alloc new_alloc_bytes
               in Some (x\<lparr>alloc_bytes := new,
                          slots := slots x @ replicate (n_slots es H new - length (slots x)) 0\<rparr>))"

definition vec_resize_raw ::
    "(nat \<Rightarrow> nat) \<Rightarrow> nat \<Rightarrow> nat \<Rightarrow> 'a::zero vec \<Rightarrow> nat \<Rightarrow> nat \<Rightarrow> 'a vec" where
  "vec_resize_raw alloc es H v length_increment data_bytes =
     (let new_data_bytes = data_bytes + vec_header_bytes H in
      case v of
        Some x \<Rightarrow>
          if new_data_bytes \<le> alloc_bytes x
          then Some (x\<lparr>vlen := (vlen x + length_increment) mod 2 ^ 32\<rparr>)
          else vec_resize_allocate_memory alloc es H v length_increment data_bytes
      | None \<Rightarrow> vec_resize_allocate_memory alloc es H v length_increment data_bytes)"

definition vec_resize :: "(nat \<Rightarrow> nat) \<Rightarrow> nat \<Rightarrow> nat \<Rightarrow> 'a::zero vec \<Rightarrow> nat \<Rightarrow> 'a vec" where
  "vec_resize alloc es H v n = vec_resize_raw alloc es H v n ((vec_len v + n) * es)"

text \<open>Writes into the slots: one element, a run of elements, a run of zeros.\<close>

definition vec_store :: "'a vec \<Rightarrow> nat \<Rightarrow> 'a list \<Rightarrow> 'a vec" where
  "vec_store v i xs =
     map_option (\<lambda>x. x\<lparr>slots := take i (slots x) @ xs @ drop (i + length xs) (slots x)\<rparr>) v"

definition vec_read :: "'a vec \<Rightarrow> nat \<Rightarrow> nat \<Rightarrow> 'a list" where
  "vec_read v i n = (case v of None \<Rightarrow> [] | Some x \<Rightarrow> take n (drop i (slots x)))"

definition set_vec_len :: "'a vec \<Rightarrow> nat \<Rightarrow> 'a vec" where
  "set_vec_len v l = map_option (\<lambda>x. x\<lparr>vlen := l mod 2 ^ 32\<rparr>) v"

section \<open>The macros of vec.h\<close>

definition vec_alloc :: "(nat \<Rightarrow> nat) \<Rightarrow> nat \<Rightarrow> nat \<Rightarrow> 'a::zero vec \<Rightarrow> nat \<Rightarrow> 'a vec" where
  "vec_alloc alloc es H v n = (let l = vec_len v in set_vec_len (vec_resize alloc es H v n) l)"

definition vec_new :: "(nat \<Rightarrow> nat) \<Rightarrow> nat \<Rightarrow> nat \<Rightarrow> nat \<Rightarrow> 'a::zero vec" where
  "vec_new alloc es H n = vec_resize_raw alloc es H None n (n * es)"

definition vec_reset_length :: "'a vec \<Rightarrow> 'a vec" where
  "vec_reset_length v = set_vec_len v 0"

definition vec_dup :: "(nat \<Rightarrow> nat) \<Rightarrow> nat \<Rightarrow> nat \<Rightarrow> 'a::zero vec \<Rightarrow> 'a vec" where
  "vec_dup alloc es H v =
     (let l = vec_len v in
      if 0 < l then vec_store (vec_resize alloc es H None l) 0 (vec_read v 0 l) else None)"

definition vec_clone :: "(nat \<Rightarrow> nat) \<Rightarrow> nat \<Rightarrow> 'b vec \<Rightarrow> 'a::zero vec" where
  "vec_clone alloc es old = vec_resize_raw alloc es 0 None (vec_len old) (vec_len old * es)"

definition vec_validate :: "(nat \<Rightarrow> nat) \<Rightarrow> nat \<Rightarrow> nat \<Rightarrow> 'a::zero vec \<Rightarrow> nat \<Rightarrow> 'a vec" where
  "vec_validate alloc es H v i =
     (let l = vec_len v in
      if l \<le> i
      then vec_store (vec_resize alloc es H v (1 + (i - l))) l (replicate (1 + (i - l)) 0)
      else v)"

fun fill_slots :: "'a vec \<Rightarrow> nat \<Rightarrow> nat \<Rightarrow> 'a \<Rightarrow> 'a vec" where
  "fill_slots v l 0 init = v"
| "fill_slots v l (Suc n) init = fill_slots (vec_store v l [init]) (Suc l) n init"

definition vec_validate_init_empty ::
    "(nat \<Rightarrow> nat) \<Rightarrow> nat \<Rightarrow> nat \<Rightarrow> 'a::zero vec \<Rightarrow> nat \<Rightarrow> 'a \<Rightarrow> 'a vec" where
  "vec_validate_init_empty alloc es H v i init =
     (let l = vec_len v in
      if l \<le> i then fill_slots (vec_resize alloc es H v (1 + (i - l))) l (Suc i - l) init else v)"

definition vec_add1 :: "(nat \<Rightarrow> nat) \<Rightarrow> nat \<Rightarrow> nat \<Rightarrow> 'a::zero vec \<Rightarrow> 'a \<Rightarrow> 'a vec" where
  "vec_add1 alloc es H v e =
     (let l = vec_len v in vec_store (vec_resize_raw alloc es H v 1 ((l + 1) * es)) l [e])"

text \<open>\<open>vec_add2\<close> also returns the place of the new elements, which are left as they are in memory.\<close>

definition vec_add2 :: "(nat \<Rightarrow> nat) \<Rightarrow> nat \<Rightarrow> nat \<Rightarrow> 'a::zero vec \<Rightarrow> nat \<Rightarrow> 'a vec \<times> nat" where
  "vec_add2 alloc es H v n =
     (let l = vec_len v in (vec_resize_raw alloc es H v n ((l + n) * es), l))"

definition vec_add :: "(nat \<Rightarrow> nat) \<Rightarrow> nat \<Rightarrow> nat \<Rightarrow> 'a::zero vec \<Rightarrow> 'a list \<Rightarrow> 'a vec" where
  "vec_add alloc es H v xs =
     (let l = vec_len v; n = length xs
      in vec_store (vec_resize_raw alloc es H v n ((l + n) * es)) l xs)"

text \<open>\<open>vec_pop\<close> of an empty vector is outside the contract (an ASSERT); \<open>vec_pop2\<close> checks.\<close>

definition vec_pop :: "'a vec \<Rightarrow> ('a vec \<times> 'a) option" where
  "vec_pop v =
     (let l = vec_len v in
      if 0 < l then Some (set_vec_len v (l - 1), hd (vec_read v (l - 1) 1)) else None)"

definition vec_pop2 :: "'a vec \<Rightarrow> 'a \<Rightarrow> 'a vec \<times> 'a \<times> bool" where
  "vec_pop2 v e =
     (case vec_pop v of Some (v', x) \<Rightarrow> (v', x, True) | None \<Rightarrow> (v, e, False))"

definition vec_insert_init_empty ::
    "(nat \<Rightarrow> nat) \<Rightarrow> nat \<Rightarrow> nat \<Rightarrow> (u8 \<Rightarrow> 'a) \<Rightarrow> 'a::zero vec \<Rightarrow> nat \<Rightarrow> nat \<Rightarrow> u8 \<Rightarrow> 'a vec" where
  \<comment> \<open>the code fills bytes: \<open>of_byte b\<close> is the element all of whose bytes are \<open>b\<close>\<close>
  "vec_insert_init_empty alloc es H of_byte v n m init =
     (let l = vec_len v;
          v = vec_resize_raw alloc es H v n ((l + n) * es);
          v = vec_store v (m + n) (vec_read v m (l - m))
      in vec_store v m (replicate n (of_byte init)))"

definition vec_insert_elts ::
    "(nat \<Rightarrow> nat) \<Rightarrow> nat \<Rightarrow> nat \<Rightarrow> 'a::zero vec \<Rightarrow> 'a list \<Rightarrow> nat \<Rightarrow> 'a vec" where
  "vec_insert_elts alloc es H v xs m =
     (let l = vec_len v; n = length xs;
          v = vec_resize_raw alloc es H v n ((l + n) * es);
          v = vec_store v (m + n) (vec_read v m (l - m))
      in vec_store v m xs)"

definition vec_delete :: "'a::zero vec \<Rightarrow> nat \<Rightarrow> nat \<Rightarrow> 'a vec" where
  "vec_delete v n m =
     (let l = vec_len v;
          v = (if n + m < l then vec_store v m (vec_read v (m + n) (l - n - m)) else v);
          v = (if 0 < n then vec_store v (l - n) (replicate n 0) else v)
      in set_vec_len v (l - n))"

definition vec_append :: "(nat \<Rightarrow> nat) \<Rightarrow> nat \<Rightarrow> 'a::zero vec \<Rightarrow> 'a vec \<Rightarrow> 'a vec" where
  "vec_append alloc es v1 v2 =
     (let l1 = vec_len v1; l2 = vec_len v2
      in vec_store (vec_resize_raw alloc es 0 v1 l2 ((l1 + l2) * es)) l1 (vec_read v2 0 l2))"

definition vec_prepend :: "(nat \<Rightarrow> nat) \<Rightarrow> nat \<Rightarrow> 'a::zero vec \<Rightarrow> 'a vec \<Rightarrow> 'a vec" where
  "vec_prepend alloc es v1 v2 =
     (let l1 = vec_len v1; l2 = vec_len v2;
          v1 = vec_resize_raw alloc es 0 v1 l2 ((l1 + l2) * es);
          v1 = vec_store v1 l2 (vec_read v1 0 l1)
      in vec_store v1 0 (vec_read v2 0 l2))"

definition vec_zero :: "'a::zero vec \<Rightarrow> 'a vec" where
  "vec_zero v = vec_store v 0 (replicate (vec_len v) 0)"

definition vec_set :: "'a vec \<Rightarrow> 'a \<Rightarrow> 'a vec" where
  "vec_set v e = fill_slots v 0 (vec_len v) e"

definition vec_is_equal :: "'a vec \<Rightarrow> 'a vec \<Rightarrow> bool" where
  "vec_is_equal v1 v2 \<longleftrightarrow> vec_len v1 = vec_len v2 \<and> vec_read v1 0 (vec_len v1) = vec_read v2 0 (vec_len v1)"

text \<open>
  \<open>vec_cmp\<close> on vectors of \<open>word\<close>s. The length difference is computed in the type \<open>u32\<close> of the
  length field before it is stored in a \<open>word\<close>.
\<close>

fun vec_cmp_loop :: "uword list \<Rightarrow> uword list \<Rightarrow> uword" where
  "vec_cmp_loop (x # xs) (y # ys) = (if x - y \<noteq> 0 then x - y else vec_cmp_loop xs ys)"
| "vec_cmp_loop xs ys = 0"

definition vec_cmp :: "uword vec \<Rightarrow> uword vec \<Rightarrow> int" where
  "vec_cmp v1 v2 =
     (let l = min (vec_len v1) (vec_len v2);
          cmp = vec_cmp_loop (vec_read v1 0 l) (vec_read v2 0 l);
          cmp = (if cmp = 0 \<and> 0 < l
                 then ucast (of_nat (vec_len v1) - of_nat (vec_len v2) :: u32) else cmp)
      in if sint cmp < 0 then - 1 else if 0 < sint cmp then 1 else 0)"

text \<open>
  The allocator of the library, \<open>mheap_get_aligned\<close> (\<open>src/clib/mheap.c\<close>), rounds a request up to
  its unit of 4 bytes, at least 8: the least size of the object it hands out.
\<close>

definition mheap_object_bytes :: "nat \<Rightarrow> nat" where
  "mheap_object_bytes n_user_data_bytes =
     (let n = max n_user_data_bytes 8 in (n + 4 - 1) div 4 * 4)"

section \<open>Well-formed vectors and their elements\<close>

definition vec_ok :: "nat \<Rightarrow> nat \<Rightarrow> 'a vec \<Rightarrow> bool" where
  "vec_ok es H v \<longleftrightarrow> (case v of None \<Rightarrow> True | Some x \<Rightarrow>
     length (slots x) = n_slots es H (alloc_bytes x) \<and> vlen x \<le> length (slots x))"

definition vec_elts :: "'a vec \<Rightarrow> 'a list" where
  "vec_elts v = vec_read v 0 (vec_len v)"

lemma vec_ok_None [simp]: "vec_ok es H None"
  by (simp add: vec_ok_def)

lemma vec_elts_None [simp]: "vec_elts None = []"
  by (simp add: vec_elts_def vec_read_def)

lemma vec_len_None [simp]: "vec_len None = 0"
  by (simp add: vec_len_def)

lemma length_vec_elts: "vec_ok es H v \<Longrightarrow> length (vec_elts v) = vec_len v"
  by (auto simp: vec_ok_def vec_elts_def vec_read_def vec_len_def split: option.splits)

lemma vec_read_elts: "i + n \<le> vec_len v \<Longrightarrow> vec_read v i n = take n (drop i (vec_elts v))"
  by (cases v) (auto simp: vec_elts_def vec_read_def vec_len_def take_drop min_def)

text \<open>\<open>vec_is es H v xs\<close>: the vector is in good shape and its elements are \<open>xs\<close>.\<close>

definition vec_is :: "nat \<Rightarrow> nat \<Rightarrow> 'a vec \<Rightarrow> 'a list \<Rightarrow> bool" where
  "vec_is es H v xs \<longleftrightarrow> vec_ok es H v \<and> vec_elts v = xs"

text \<open>
  A vector in good shape with room for \<open>l\<close> elements whose first slots hold \<open>xs\<close>: the state
  between the allocation and the writes of a macro.
\<close>

definition holds_slots :: "nat \<Rightarrow> nat \<Rightarrow> 'a vec \<Rightarrow> nat \<Rightarrow> 'a list \<Rightarrow> bool" where
  "holds_slots es H v l xs \<longleftrightarrow> vec_ok es H v \<and> vec_len v = l \<and> length xs \<le> l
     \<and> (v = None \<longrightarrow> l = 0) \<and> vec_read v 0 (length xs) = xs"

lemma holds_slots_self: "vec_ok es H v \<Longrightarrow> holds_slots es H v (vec_len v) (vec_elts v)"
  by (simp add: holds_slots_def length_vec_elts vec_elts_def [symmetric])

lemma holds_slots_elts: "holds_slots es H v l xs \<Longrightarrow> length xs = l \<Longrightarrow> vec_elts v = xs"
  by (auto simp: holds_slots_def vec_elts_def)

lemma holds_slots_read:
  assumes "holds_slots es H v l xs" and "i + n \<le> length xs"
  shows "vec_read v i n = take n (drop i xs)"
proof (cases v)
  case (Some x)
  with assms(1) have "take (length xs) (slots x) = xs" by (simp add: holds_slots_def vec_read_def)
  with assms(2) have "take (i + n) (slots x) = take (i + n) xs" by (metis min.absorb1 take_take)
  with Some show ?thesis by (simp add: vec_read_def take_drop add.commute)
qed (use assms in \<open>auto simp: holds_slots_def vec_read_def\<close>)

lemma vec_len_store [simp]: "vec_len (vec_store v i xs) = vec_len v"
  by (cases v) (simp_all add: vec_len_def vec_store_def)

lemma vec_len_set_len: "vec_len (set_vec_len v l) = (if v = None then 0 else l mod 2 ^ 32)"
  by (cases v) (simp_all add: vec_len_def set_vec_len_def)

lemma vec_ok_store: "vec_ok es H v \<Longrightarrow> i + length xs \<le> vec_len v \<Longrightarrow> vec_ok es H (vec_store v i xs)"
  by (auto simp: vec_ok_def vec_store_def vec_len_def split: option.splits)

lemma holds_slots_store:
  assumes "holds_slots es H v l ys" and "i \<le> length ys" and "i + length xs \<le> l"
  shows "holds_slots es H (vec_store v i xs) l (take i ys @ xs @ drop (i + length xs) ys)"
proof (cases v)
  case (Some x)
  with assms have b: "i + length xs \<le> length (slots x)" "length ys \<le> length (slots x)"
    and ys: "take (length ys) (slots x) = ys"
    by (auto simp: holds_slots_def vec_ok_def vec_len_def vec_read_def)
  have t: "take i (slots x) = take i ys" using assms(2) ys by (metis min.absorb1 take_take)
  have d: "take (length ys - (i + length xs)) (drop (i + length xs) (slots x)) = drop (i + length xs) ys"
    using ys by (metis drop_take)
  show ?thesis
    using assms b Some
    by (auto simp: holds_slots_def vec_ok_def vec_len_def vec_read_def vec_store_def t d)
qed (use assms in \<open>auto simp: holds_slots_def vec_store_def vec_read_def\<close>)

lemma vec_elts_store:
  assumes "vec_ok es H v" and "i + length xs \<le> vec_len v"
  shows "vec_elts (vec_store v i xs) = take i (vec_elts v) @ xs @ drop (i + length xs) (vec_elts v)"
  using holds_slots_store [OF holds_slots_self [OF assms(1)], of i xs] assms(2)
  by (auto simp: length_vec_elts [OF assms(1)] intro: holds_slots_elts)

lemma holds_slots_is: "holds_slots es H v (length xs) xs \<Longrightarrow> vec_is es H v xs"
  by (simp add: vec_is_def holds_slots_elts) (simp add: holds_slots_def)

lemma holds_slots_is': "holds_slots es H v l xs \<Longrightarrow> length xs = l \<Longrightarrow> vec_is es H v xs"
  by (auto intro: holds_slots_is)

lemma vec_is_ok: "vec_is es H v xs \<Longrightarrow> vec_ok es H v"
  and vec_is_elts: "vec_is es H v xs \<Longrightarrow> vec_elts v = xs"
  by (simp_all add: vec_is_def)

lemma vec_is_len: "vec_is es H v xs \<Longrightarrow> vec_len v = length xs"
  by (metis vec_is_def length_vec_elts)

lemma holds_slots_stale:
  assumes "holds_slots es H v (length xs + n) xs"
  shows "\<exists>stale. length stale = n \<and> vec_is es H v (xs @ stale)"
proof -
  have ok: "vec_ok es H v" and l: "vec_len v = length xs + n" and r: "vec_read v 0 (length xs) = xs"
    using assms by (auto simp: holds_slots_def)
  have "take (length xs) (vec_elts v) = xs"
    using r vec_read_elts [of 0 "length xs" v] l by simp
  then have "vec_elts v = xs @ drop (length xs) (vec_elts v)" by (metis append_take_drop_id)
  moreover have "length (drop (length xs) (vec_elts v)) = n" using l length_vec_elts [OF ok] by simp
  ultimately show ?thesis using ok unfolding vec_is_def by metis
qed

lemma vec_is_read:
  assumes "vec_is es H v xs" and "i + n \<le> length xs"
  shows "vec_read v i n = take n (drop i xs)"
  using vec_read_elts [of i n v] assms vec_is_len [OF assms(1)] vec_is_elts [OF assms(1)] by simp

lemma vec_is_None: "vec_is es H None []"
  by (simp add: vec_is_def)

lemma vec_is_store:
  assumes v: "vec_is es H v xs" and b: "i + length ys \<le> length xs"
  shows "vec_is es H (vec_store v i ys) (take i xs @ ys @ drop (i + length ys) xs)"
proof -
  have l: "i + length ys \<le> vec_len v" using b vec_is_len [OF v] by simp
  show ?thesis unfolding vec_is_def
    using vec_ok_store [OF vec_is_ok [OF v] l] vec_elts_store [OF vec_is_ok [OF v] l] vec_is_elts [OF v]
    by simp
qed

lemma vec_is_set_len:
  assumes v: "vec_is es H v xs" and l: "l \<le> length xs" and "length xs < 2 ^ 32"
  shows "vec_is es H (set_vec_len v l) (take l xs)"
proof (cases v)
  case None
  with v l show ?thesis by (simp add: vec_is_def set_vec_len_def)
next
  case (Some x)
  have lx: "l mod 2 ^ 32 = l" "l \<le> vlen x" using l assms(3) vec_is_len [OF v] Some
    by (simp_all add: vec_len_def)
  have "vlen x \<le> length (slots x)" and "length (slots x) = n_slots es H (alloc_bytes x)"
    and xs: "xs = take (vlen x) (slots x)"
    using v Some by (simp_all add: vec_is_def vec_ok_def vec_elts_def vec_read_def vec_len_def)
  with lx Some show ?thesis
    by (simp add: vec_is_def vec_ok_def set_vec_len_def vec_elts_def vec_read_def vec_len_def min_def)
qed

lemma vec_pop_is:
  assumes v: "vec_is es H v xs" and "length xs < 2 ^ 32"
  shows "xs = [] \<Longrightarrow> vec_pop v = None"
    and "xs \<noteq> [] \<Longrightarrow> \<exists>v'. vec_pop v = Some (v', last xs) \<and> vec_is es H v' (butlast xs)"
proof -
  note l = vec_is_len [OF v]
  show "xs = [] \<Longrightarrow> vec_pop v = None" using l by (simp add: vec_pop_def)
  assume ne: "xs \<noteq> []"
  then have "vec_read v (length xs - 1) 1 = take 1 (drop (length xs - 1) xs)"
    by (intro vec_is_read [OF v]) (simp add: Suc_le_eq)
  also have "\<dots> = [last xs]" using ne by (cases xs rule: rev_cases) simp_all
  finally have "vec_read v (length xs - 1) 1 = [last xs]" .
  moreover have "vec_is es H (set_vec_len v (length xs - 1)) (butlast xs)"
    using vec_is_set_len [OF v _ assms(2), of "length xs - 1"] by (simp add: butlast_conv_take)
  ultimately show "\<exists>v'. vec_pop v = Some (v', last xs) \<and> vec_is es H v' (butlast xs)"
    using ne l by (simp add: vec_pop_def Let_def)
qed

section \<open>What the operations do to the elements\<close>

context allocator begin

lemma resize_holds:
  fixes v :: "'a::zero vec"
  assumes ok: "vec_ok es H v" and es: "0 < es" and small: "vec_len v + n < 2 ^ 32"
    and d: "(vec_len v + n) * es \<le> d"
  shows "holds_slots es H (vec_resize_raw alloc es H v n d) (vec_len v + n) (vec_elts v)"
    and "vec_resize_raw alloc es H v n d \<noteq> None"
proof -
  let ?b = "d + vec_header_bytes H"
  have room: "vec_len v + n \<le> n_slots es H b" if "?b \<le> b" for b
  proof -
    have "(vec_len v + n) * es \<le> b - vec_header_bytes H" using that d by simp
    then show ?thesis using es by (simp add: n_slots_def less_eq_div_iff_mult_less_eq)
  qed
  show "vec_resize_raw alloc es H v n d \<noteq> None"
    by (cases v) (simp_all add: vec_resize_raw_def vec_resize_allocate_memory_def Let_def)
  show "holds_slots es H (vec_resize_raw alloc es H v n d) (vec_len v + n) (vec_elts v)"
  proof (cases v)
    case None
    with room [OF alloc_enough] small show ?thesis
      by (simp add: holds_slots_def vec_resize_raw_def vec_resize_allocate_memory_def Let_def vec_ok_def
          vec_read_def vec_len_def)
  next
    case (Some x)
    with ok have x: "length (slots x) = n_slots es H (alloc_bytes x)" "vlen x \<le> length (slots x)"
      by (simp_all add: vec_ok_def)
    show ?thesis
    proof (cases "?b \<le> alloc_bytes x")
      case True
      with room [OF True] x small Some show ?thesis
        by (auto simp: holds_slots_def vec_resize_raw_def vec_ok_def vec_read_def vec_len_def vec_elts_def)
    next
      case False
      let ?w = "if alloc_bytes x * 3 div 2 < ?b then ?b else alloc_bytes x * 3 div 2"
      have w: "?b \<le> ?w" "?w \<le> alloc ?w" using alloc_enough by auto
      then have b: "?b \<le> alloc ?w" by (rule le_trans)
      have "alloc_bytes x \<le> alloc ?w" using False b by linarith
      then have "n_slots es H (alloc_bytes x) \<le> n_slots es H (alloc ?w)"
        by (simp add: n_slots_def div_le_mono)
      with room [OF b] x small Some False show ?thesis
        by (auto simp: holds_slots_def vec_resize_raw_def vec_resize_allocate_memory_def Let_def vec_ok_def
            vec_read_def vec_len_def vec_elts_def)
    qed
  qed
qed

lemma vec_is_resize:
  assumes "vec_is es H v xs" and "0 < es" and "length xs + n < 2 ^ 32"
  shows "holds_slots es H (vec_resize_raw alloc es H v n ((length xs + n) * es)) (length xs + n) xs"
  using resize_holds(1) [of es H v n] assms by (auto simp: vec_is_def length_vec_elts)

lemma vec_resize_is:
  assumes "vec_is es H v xs" and "0 < es" and "length xs + n < 2 ^ 32"
  shows "\<exists>stale. length stale = n \<and> vec_is es H (vec_resize alloc es H v n) (xs @ stale)"
  using holds_slots_stale [OF vec_is_resize [OF assms]] vec_is_len [OF assms(1)] by (simp add: vec_resize_def)

lemma vec_add1_is:
  assumes "vec_is es H v xs" and "0 < es" and "length xs + 1 < 2 ^ 32"
  shows "vec_is es H (vec_add1 alloc es H v e) (xs @ [e])"
  using holds_slots_store [OF vec_is_resize [OF assms], of "length xs" "[e]"] vec_is_len [OF assms(1)]
  by (intro holds_slots_is) (simp add: vec_add1_def Let_def)

lemma vec_add_is:
  assumes "vec_is es H v xs" and "0 < es" and "length xs + length ys < 2 ^ 32"
  shows "vec_is es H (vec_add alloc es H v ys) (xs @ ys)"
  using holds_slots_store [OF vec_is_resize [OF assms], of "length xs" ys] vec_is_len [OF assms(1)]
  by (intro holds_slots_is) (simp add: vec_add_def Let_def)

lemma vec_validate_is:
  assumes "vec_is es H v xs" and "0 < es" and "length xs < 2 ^ 32" and "i + 1 < 2 ^ 32"
  shows "vec_is es H (vec_validate alloc es H v i) (xs @ replicate (Suc i - length xs) 0)"
proof (cases "length xs \<le> i")
  case True
  let ?n = "1 + (i - length xs)"
  have small: "length xs + ?n < 2 ^ 32" using True assms(4) by simp
  show ?thesis
    using holds_slots_store [OF vec_is_resize [OF assms(1,2) small], of "length xs" "replicate ?n 0"]
      vec_is_len [OF assms(1)] True
    by (intro holds_slots_is) (simp add: vec_validate_def vec_resize_def Suc_diff_le Let_def)
qed (use assms vec_is_len [OF assms(1)] in \<open>simp add: vec_validate_def\<close>)

lemma insert_holds:
  assumes v: "vec_is es H v xs" and es: "0 < es" and small: "length xs + length ys < 2 ^ 32"
    and m: "m \<le> length xs"
  defines "w \<equiv> vec_resize_raw alloc es H v (length ys) ((length xs + length ys) * es)"
  shows "vec_is es H (vec_store (vec_store w (m + length ys) (vec_read w m (length xs - m))) m ys)
    (take m xs @ ys @ drop m xs)"
proof -
  note w = vec_is_resize [OF v es small, folded w_def]
  have rd: "vec_read w m (length xs - m) = drop m xs"
    using holds_slots_read [OF w, of m "length xs - m"] m by simp
  show ?thesis
  proof (cases "m + length ys \<le> length xs")
    case True
    have "holds_slots es H (vec_store w (m + length ys) (drop m xs)) (length xs + length ys)
        (take (m + length ys) xs @ drop m xs)"
      using holds_slots_store [OF w True, of "drop m xs"] m by simp
    from holds_slots_store [OF this, of m ys] True m
    have "holds_slots es H (vec_store (vec_store w (m + length ys) (drop m xs)) m ys) (length xs + length ys)
        (take m xs @ ys @ drop m xs)"
      by (simp add: min_def)
    then show ?thesis unfolding rd by (rule holds_slots_is') (use m in simp)
  next
    case False
    obtain stale where stale: "length stale = length ys" "vec_is es H w (xs @ stale)"
      using holds_slots_stale [OF w] by blast
    then have w': "holds_slots es H w (length xs + length ys) (xs @ stale)"
      using holds_slots_self [of es H w] vec_is_len [OF stale(2)] by (simp add: vec_is_def)
    from holds_slots_store [OF w', of "m + length ys" "drop m xs"] m stale
    have 1: "holds_slots es H (vec_store w (m + length ys) (drop m xs)) (length xs + length ys)
        (take (m + length ys) (xs @ stale) @ drop m xs)"
      by simp
    have len: "length (take (m + length ys) (xs @ stale)) = m + length ys" using m stale by simp
    have "take m (take (m + length ys) (xs @ stale) @ drop m xs) = take m xs"
      using m by (simp add: min_def)
    moreover have "drop (m + length ys) (take (m + length ys) (xs @ stale) @ drop m xs) = drop m xs"
      using len by (metis append_eq_conv_conj)
    ultimately have "holds_slots es H (vec_store (vec_store w (m + length ys) (drop m xs)) m ys)
        (length xs + length ys) (take m xs @ ys @ drop m xs)"
      using holds_slots_store [OF 1, of m ys] m len by (simp only: length_append)
    then show ?thesis unfolding rd by (rule holds_slots_is') (use m in simp)
  qed
qed

lemma vec_insert_elts_is:
  assumes "vec_is es H v xs" and "0 < es" and "length xs + length ys < 2 ^ 32" and "m \<le> length xs"
  shows "vec_is es H (vec_insert_elts alloc es H v ys m) (take m xs @ ys @ drop m xs)"
  using insert_holds [OF assms] vec_is_len [OF assms(1)] by (simp add: vec_insert_elts_def Let_def)

lemma vec_insert_init_empty_is:
  assumes "vec_is es H v xs" and "0 < es" and "length xs + n < 2 ^ 32" and "m \<le> length xs"
  shows "vec_is es H (vec_insert_init_empty alloc es H of_byte v n m init)
    (take m xs @ replicate n (of_byte init) @ drop m xs)"
  using insert_holds [of es H v xs "replicate n (of_byte init)" m] assms vec_is_len [OF assms(1)]
  by (simp add: vec_insert_init_empty_def Let_def)

lemma resize_None_zero:
  assumes "0 < es" and "n < 2 ^ 32"
  shows "vec_is es H (vec_resize_raw alloc es H None n (n * es)) (replicate n 0)"
proof -
  have "holds_slots es H (vec_resize_raw alloc es H None n (n * es)) n []"
    using vec_is_resize [of es H None "[]" n] assms by (simp add: vec_is_def)
  then have ok: "vec_ok es H (vec_resize_raw alloc es H None n (n * es))"
    and len: "vec_len (vec_resize_raw alloc es H None n (n * es)) = n"
    unfolding holds_slots_def by blast+
  then show ?thesis using assms(2)
    by (simp add: vec_is_def vec_elts_def)
      (auto simp: vec_resize_raw_def vec_resize_allocate_memory_def vec_read_def vec_ok_def Let_def min_def)
qed

lemma vec_new_is: "0 < es \<Longrightarrow> n < 2 ^ 32 \<Longrightarrow> vec_is es H (vec_new alloc es H n) (replicate n 0)"
  by (simp add: vec_new_def resize_None_zero)

lemma vec_clone_is:
  "vec_is es' H' w ys \<Longrightarrow> 0 < es \<Longrightarrow> length ys < 2 ^ 32 \<Longrightarrow>
    vec_is es 0 (vec_clone alloc es w) (replicate (length ys) 0)"
  by (simp add: vec_clone_def resize_None_zero vec_is_len)

lemma vec_dup_is:
  assumes v: "vec_is es H v xs" and "0 < es'" and "length xs < 2 ^ 32"
  shows "vec_is es' H' (vec_dup alloc es' H' v) xs"
proof (cases "xs = []")
  case False
  have w: "holds_slots es' H' (vec_resize_raw alloc es' H' None (length xs) (length xs * es')) (length xs) []"
    using vec_is_resize [OF vec_is_None assms(2), of "length xs" H'] assms(3) by simp
  show ?thesis
    using holds_slots_store [OF w, of 0 xs] vec_is_read [OF v, of 0 "length xs"] vec_is_len [OF v] False
    by (intro holds_slots_is) (simp add: vec_dup_def vec_resize_def Let_def)
qed (use vec_is_len [OF v] in \<open>simp add: vec_dup_def vec_is_None Let_def\<close>)

lemma vec_alloc_is:
  assumes v: "vec_is es H v xs" and "0 < es" and "length xs + n < 2 ^ 32"
  shows "vec_is es H (vec_alloc alloc es H v n) xs"
proof -
  obtain stale where st: "length stale = n" "vec_is es H (vec_resize alloc es H v n) (xs @ stale)"
    using vec_resize_is [OF assms] by blast
  have "vec_is es H (set_vec_len (vec_resize alloc es H v n) (length xs)) (take (length xs) (xs @ stale))"
    by (rule vec_is_set_len [OF st(2)]) (use st(1) assms(3) in simp_all)
  then show ?thesis using vec_is_len [OF v] by (simp add: vec_alloc_def Let_def)
qed

lemma vec_add2_is:
  assumes v: "vec_is es H v xs" and "0 < es" and "length xs + n < 2 ^ 32"
  shows "\<exists>w stale. vec_add2 alloc es H v n = (w, length xs) \<and> length stale = n \<and> vec_is es H w (xs @ stale)"
  using vec_resize_is [OF assms] vec_is_len [OF v] by (auto simp: vec_add2_def vec_resize_def Let_def)

lemma vec_append_is:
  assumes v: "vec_is es 0 v xs" and w: "vec_is es' H' w ys" and "0 < es"
    and "length xs + length ys < 2 ^ 32"
  shows "vec_is es 0 (vec_append alloc es v w) (xs @ ys)"
  using holds_slots_store [OF vec_is_resize [OF v assms(3,4)], of "length xs" ys]
    vec_is_read [OF w, of 0 "length ys"] vec_is_len [OF v] vec_is_len [OF w]
  by (intro holds_slots_is) (simp add: vec_append_def Let_def)

lemma vec_prepend_is:
  assumes v: "vec_is es 0 v xs" and w: "vec_is es' H' w ys" and "0 < es"
    and "length xs + length ys < 2 ^ 32"
  shows "vec_is es 0 (vec_prepend alloc es v w) (ys @ xs)"
  using insert_holds [OF v assms(3,4), of 0] vec_is_read [OF w, of 0 "length ys"] vec_is_len [OF v] vec_is_len [OF w]
  by (simp add: vec_prepend_def Let_def)

end

interpretation mheap: allocator mheap_object_bytes
  by unfold_locales (auto simp: mheap_object_bytes_def Let_def max_def)

lemma vec_delete_is:
  assumes v: "vec_is es H v xs" and "length xs < 2 ^ 32" and nm: "n + m \<le> length xs"
  shows "vec_is es H (vec_delete v n m) (take m xs @ drop (n + m) xs)"
proof -
  let ?l = "length xs"
  note l = vec_is_len [OF v]
  have rd: "vec_read v (m + n) (?l - n - m) = drop (n + m) xs"
    using vec_is_read [OF v, of "m + n" "?l - n - m"] nm by (simp add: add.commute)
  define v1 where "v1 = (if n + m < ?l then vec_store v m (drop (n + m) xs) else v)"
  define v2 where "v2 = (if 0 < n then vec_store v1 (?l - n) (replicate n 0) else v1)"
  obtain ys where ys: "vec_is es H v1 ys" "length ys = ?l" "take (?l - n) ys = take m xs @ drop (n + m) xs"
  proof (cases "n + m < ?l")
    case True
    with vec_is_store [OF v, of m "drop (n + m) xs"] that show ?thesis by (auto simp: v1_def)
  next
    case False
    then have "?l - n = m" "drop (n + m) xs = []" using nm by simp_all
    with v that [of xs] False show ?thesis by (simp add: v1_def)
  qed
  obtain zs where zs: "vec_is es H v2 zs" "length zs = ?l" "take (?l - n) zs = take (?l - n) ys"
  proof (cases "0 < n")
    case True
    with vec_is_store [OF ys(1), of "?l - n" "replicate n 0"] that ys(2) nm show ?thesis
      by (auto simp: v2_def)
  next
    case False
    with ys that [of ys] show ?thesis by (auto simp: v2_def)
  qed
  have "vec_is es H (set_vec_len v2 (?l - n)) (take (?l - n) zs)"
    by (rule vec_is_set_len [OF zs(1)]) (use zs assms in auto)
  moreover have "vec_delete v n m = set_vec_len v2 (?l - n)"
    unfolding vec_delete_def Let_def l rd v1_def v2_def ..
  ultimately show ?thesis by (simp add: zs ys)
qed

lemma fill_slots_is:
  "vec_is es H v xs \<Longrightarrow> l + n \<le> length xs \<Longrightarrow>
    vec_is es H (fill_slots v l n e) (take l xs @ replicate n e @ drop (l + n) xs)"
proof (induction n arbitrary: v l xs)
  case (Suc n)
  have "vec_is es H (vec_store v l [e]) (take l xs @ [e] @ drop (l + 1) xs)"
    using vec_is_store [OF Suc.prems(1), of l "[e]"] Suc.prems(2) by simp
  from Suc.IH [OF this, of "Suc l"] Suc.prems(2) show ?case
    by (simp add: min_def add.commute)
qed simp

lemma vec_zero_is: "vec_is es H v xs \<Longrightarrow> vec_is es H (vec_zero v) (replicate (length xs) 0)"
  using vec_is_store [of es H v xs 0 "replicate (length xs) 0"]
  by (simp add: vec_zero_def vec_is_len)

lemma vec_set_is: "vec_is es H v xs \<Longrightarrow> vec_is es H (vec_set v e) (replicate (length xs) e)"
  using fill_slots_is [of es H v xs 0 "length xs" e]
  by (simp add: vec_set_def vec_is_len)

lemma vec_is_equal_iff:
  assumes "vec_is es H v xs" and "vec_is es' H' w ys"
  shows "vec_is_equal v w \<longleftrightarrow> xs = ys"
proof -
  note l = vec_is_len [OF assms(1)] vec_is_len [OF assms(2)]
  moreover have "vec_read v 0 (vec_len v) = xs" "vec_read w 0 (vec_len w) = ys"
    using vec_is_elts [OF assms(1)] vec_is_elts [OF assms(2)] by (simp_all add: vec_elts_def)
  ultimately show ?thesis by (auto simp: vec_is_equal_def)
qed

lemma fill_slots_holds:
  "holds_slots es H v (l + n) xs \<Longrightarrow> length xs = l \<Longrightarrow> holds_slots es H (fill_slots v l n e) (l + n) (xs @ replicate n e)"
proof (induction n arbitrary: v l xs)
  case (Suc n)
  have "holds_slots es H (vec_store v l [e]) (Suc l + n) (xs @ [e])"
    using holds_slots_store [OF Suc.prems(1), of l "[e]"] Suc.prems(2) by simp
  from Suc.IH [OF this] Suc.prems(2) show ?case by simp
qed simp

lemma vec_validate_init_empty_is:
  assumes al: "allocator alloc" and v: "vec_is es H v xs" and "0 < es" and "length xs < 2 ^ 32" and "i + 1 < 2 ^ 32"
  shows "vec_is es H (vec_validate_init_empty alloc es H v i e) (xs @ replicate (Suc i - length xs) e)"
proof (cases "length xs \<le> i")
  case True
  then have n: "length xs + (Suc i - length xs) = Suc i" "1 + (i - length xs) = Suc i - length xs" by simp_all
  have "holds_slots es H (vec_resize alloc es H v (1 + (i - length xs))) (length xs + (Suc i - length xs)) xs"
    using allocator.vec_is_resize [OF al v assms(3), of "Suc i - length xs"] assms(5) n vec_is_len [OF v]
    by (simp add: vec_resize_def)
  from fill_slots_holds [OF this refl, of e] show ?thesis
    using True vec_is_len [OF v] by (intro holds_slots_is) (simp add: vec_validate_init_empty_def Let_def)
qed (use v vec_is_len [OF v] in \<open>simp add: vec_validate_init_empty_def\<close>)

section \<open>Properties\<close>

lemma mheap_allocator: "allocator mheap_object_bytes"
  by (rule mheap.allocator_axioms)

lemma vec_is_one: "vec_is 8 0 (vec_add1 mheap_object_bytes 8 0 None e) [e]"
  using mheap.vec_add1_is [OF vec_is_None, where es = 8 and H = 0 and e = e] by simp

text \<open>\<open>vec_validate\<close> keeps the elements and zero-fills all the new ones up to the index, whatever
  earlier, since removed, elements had left in the slots, with or without a reallocation.\<close>

theorem vec_validate_zero_fills:
  assumes "allocator alloc" and "vec_is es H v xs" and "0 < es" and "length xs < 2 ^ 32" and "i + 1 < 2 ^ 32"
  shows "vec_is es H (vec_validate alloc es H v i) (xs @ replicate (Suc i - length xs) 0)"
  using assms by (rule allocator.vec_validate_is)

theorem vec_validate_zero_fills_witness:
  "vec_is 8 0 (vec_validate mheap_object_bytes 8 0
     (vec_reset_length (vec_add1 mheap_object_bytes 8 0 None (7 :: nat))) 2) [0, 0, 0]"
proof -
  have "vec_is 8 0 (vec_reset_length (vec_add1 mheap_object_bytes 8 0 None (7 :: nat))) []"
    using vec_is_set_len [OF vec_is_one, of 0 "7 :: nat"] by (simp add: vec_reset_length_def)
  from vec_validate_zero_fills [OF mheap_allocator this, of 2] show ?thesis
    by (simp add: numeral_3_eq_3)
qed

text \<open>\<open>vec_insert_elts\<close> puts the new elements at position \<open>m\<close>, moving the rest up, and
  \<open>vec_delete\<close> of the same range brings the vector back.\<close>

theorem vec_insert_delete:
  assumes "allocator alloc" and "vec_is es H v xs" and "0 < es" and "length xs + length ys < 2 ^ 32"
    and "m \<le> length xs"
  shows "vec_is es H (vec_insert_elts alloc es H v ys m) (take m xs @ ys @ drop m xs)
    \<and> vec_is es H (vec_delete (vec_insert_elts alloc es H v ys m) (length ys) m) xs"
proof
  show i: "vec_is es H (vec_insert_elts alloc es H v ys m) (take m xs @ ys @ drop m xs)"
    using assms by (rule allocator.vec_insert_elts_is)
  show "vec_is es H (vec_delete (vec_insert_elts alloc es H v ys m) (length ys) m) xs"
    using vec_delete_is [OF i, of "length ys" m] assms by (simp add: min_def)
qed

theorem vec_insert_delete_witness:
  "vec_is 8 0 (vec_delete (vec_insert_elts mheap_object_bytes 8 0
     (vec_add1 mheap_object_bytes 8 0 None (7 :: nat)) [1, 2, 3] 0) 3 0) [7]"
  using vec_insert_delete [OF mheap_allocator vec_is_one, where ys = "[1, 2, 3 :: nat]" and m = 0 and e1 = 7] by (simp add: numeral_3_eq_3)

text \<open>\<open>vec_append\<close> and \<open>vec_prepend\<close> concatenate the elements of two vectors, in the two orders,
  and leave a vector in good shape.\<close>

theorem vec_append_prepend:
  assumes "allocator alloc" and "vec_is es 0 v xs" and "vec_is es 0 w ys" and "0 < es"
    and "length xs + length ys < 2 ^ 32"
  shows "vec_is es 0 (vec_append alloc es v w) (xs @ ys) \<and> vec_is es 0 (vec_prepend alloc es v w) (ys @ xs)"
  using allocator.vec_append_is [OF assms] allocator.vec_prepend_is [OF assms] by blast

theorem vec_append_prepend_witness:
  "vec_is 8 0 (vec_prepend mheap_object_bytes 8 (vec_add1 mheap_object_bytes 8 0 None (7 :: nat))
     (vec_add1 mheap_object_bytes 8 0 None 9)) [9, 7]"
  using vec_append_prepend [OF mheap_allocator vec_is_one vec_is_one, of "7 :: nat" 9] by simp

lemma vec_is_set_len_stale:
  assumes v: "vec_is es H v (xs @ ys)" and es: "0 < es" and small: "length xs + length ys < 2 ^ 32"
    and ne: "ys \<noteq> []"
  shows "vec_is es H (vec_resize_raw alloc es H (set_vec_len v (length xs)) (length ys)
    ((length xs + length ys) * es)) (xs @ ys)"
proof (cases v)
  case (Some x)
  have x: "length (slots x) = n_slots es H (alloc_bytes x)" "vlen x = length xs + length ys"
    "vlen x \<le> length (slots x)" "take (vlen x) (slots x) = xs @ ys"
    using v vec_is_len [OF v] Some by (simp_all add: vec_is_def vec_ok_def vec_elts_def vec_read_def vec_len_def)
  have sm: "length xs mod 2 ^ 32 = length xs" "(length xs + length ys) mod 2 ^ 32 = length xs + length ys"
    using small by simp_all
  have read: "take (length xs + length ys) (slots x) = xs @ ys" using x by simp
  have "length xs + length ys \<le> (alloc_bytes x - vec_header_bytes H) div es"
    using x by (simp add: n_slots_def)
  then have le: "(length xs + length ys) * es \<le> alloc_bytes x - vec_header_bytes H"
    using es by (simp add: less_eq_div_iff_mult_less_eq)
  moreover have "0 < (length xs + length ys) * es" using es ne by simp
  ultimately have room: "(length xs + length ys) * es + vec_header_bytes H \<le> alloc_bytes x" by linarith
  show ?thesis using x sm Some read room
    by (simp add: vec_resize_raw_def set_vec_len_def vec_is_def vec_ok_def vec_elts_def vec_read_def vec_len_def
        Let_def)
qed (use v ne in \<open>simp add: vec_is_def\<close>)

text \<open>\<open>vec_add2\<close> does not initialise: after a \<open>vec_pop\<close> the new element it exposes is the
  popped one.\<close>

theorem vec_add2_exposes_popped:
  assumes "vec_is es H v (xs @ [e])" and "0 < es" and "length xs + 1 < 2 ^ 32"
  shows "\<exists>v'. vec_pop v = Some (v', e) \<and> vec_is es H v' xs
    \<and> snd (vec_add2 alloc es H v' 1) = length xs
    \<and> vec_is es H (fst (vec_add2 alloc es H v' 1)) (xs @ [e])"
proof -
  obtain v' where v': "vec_pop v = Some (v', e)" "vec_is es H v' xs"
    using vec_pop_is(2) [OF assms(1)] assms(3) by auto
  have "v' = set_vec_len v (length xs)"
    using v'(1) vec_is_len [OF assms(1)] by (auto simp: vec_pop_def Let_def)
  with vec_is_set_len_stale [OF assms(1,2), of alloc] assms(3) v' vec_is_len [OF v'(2)] show ?thesis
    by (simp add: vec_add2_def Let_def)
qed

theorem vec_add2_exposes_popped_witness:
  "\<exists>v'. vec_pop (vec_add1 mheap_object_bytes 8 0 None (7 :: nat)) = Some (v', 7) \<and>
     vec_is 8 0 (fst (vec_add2 mheap_object_bytes 8 0 v' 1)) [7]"
  using vec_add2_exposes_popped [of 8 0 "vec_add1 mheap_object_bytes 8 0 None (7 :: nat)" "[]" 7] vec_is_one
  by fastforce

lemma vec_cmp_loop_prefix: "vec_cmp_loop xs xs = 0"
  by (induction xs) simp_all

lemma vec_cmp_loop_diff:
  "length xs = length ys \<Longrightarrow> vec_cmp_loop (ps @ x # xs) (ps @ y # ys) = (if x \<noteq> y then x - y else vec_cmp_loop xs ys)"
  by (induction ps) simp_all

lemma sint_ucast_u32: "sint (ucast (x :: u32) :: uword) = uint x"
proof -
  have "uint (ucast x :: uword) = uint x" by (simp add: uint_up_ucast is_up)
  moreover have "uint x < 2 ^ 63" using uint_bounded [of x] by simp
  moreover have "signed_take_bit 63 (uint x) = uint x"
    by (rule signed_take_bit_int_eq_self) (use calculation(2) in \<open>simp_all add: order_trans [of _ 0]\<close>)
  ultimately show ?thesis by (simp add: sint_uint)
qed

text \<open>of two distinct non-empty vectors one of which begins with the other, \<open>vec_cmp\<close> calls the
  first argument the larger one in both argument orders: the unsigned difference of the lengths is
  never negative. And an empty vector compares equal to every vector.\<close>

theorem vec_cmp_prefix:
  assumes "vec_is es H v xs" and "vec_is es H w (xs @ y # ys)" and "length xs + length ys + 1 < 2 ^ 32"
  shows "vec_cmp v w = (if xs = [] then 0 else 1) \<and> vec_cmp w v = (if xs = [] then 0 else 1)"
proof -
  note l = vec_is_len [OF assms(1)] vec_is_len [OF assms(2)]
  have rd: "vec_read v 0 (length xs) = xs" "vec_read w 0 (length xs) = xs"
    using vec_is_read [OF assms(1), of 0 "length xs"] vec_is_read [OF assms(2), of 0 "length xs"] by simp_all
  let ?d = "of_nat (length xs) - of_nat (length xs + Suc (length ys)) :: u32"
  have nz: "(of_nat (Suc (length ys)) :: u32) \<noteq> 0"
    using assms(3) by (simp only: word_of_nat_eq_0_iff) (auto dest: dvd_imp_le)
  have "?d = - of_nat (Suc (length ys))" by simp
  with nz have d: "?d \<noteq> 0" "- ?d \<noteq> 0" by (simp_all only: neg_equal_0_iff_equal not_False_eq_True minus_minus)
  then have "0 < uint ?d" "0 < uint (- ?d)" by (simp_all add: uint_0_iff less_le)
  moreover have "vec_read v 0 0 = []" "vec_read w 0 0 = []" by (simp_all add: vec_read_def split: option.split)
  ultimately show ?thesis
    using l rd by (simp add: vec_cmp_def Let_def vec_cmp_loop_prefix sint_ucast_u32 add.commute)
qed

theorem vec_cmp_prefix_witness:
  "vec_cmp (vec_add1 mheap_object_bytes 8 0 None 7)
     (vec_append mheap_object_bytes 8 (vec_add1 mheap_object_bytes 8 0 None 7)
        (vec_add1 mheap_object_bytes 8 0 None 9)) = 1"
  using vec_cmp_prefix [OF vec_is_one, of "vec_append mheap_object_bytes 8 (vec_add1 mheap_object_bytes 8 0 None 7)
        (vec_add1 mheap_object_bytes 8 0 None 9)" 7 9 "[]"]
    mheap.vec_append_is [OF vec_is_one vec_is_one, of "7 :: uword" 9] by simp

end
