(* ===== verification/Clib_Bitmap.thy ===== *)
theory Clib_Bitmap
  imports Clib_Bitops Clib_Vec
begin

text \<open>
  Bitmaps: \<open>src/clib/bitmap.h\<close>. A bitmap is a vector of words, possibly the null pointer; here it
  is \<open>None\<close> (null) or \<open>Some\<close> the list of its words, which is what \<open>Clib_Vec\<close> shows the vector
  macros to work on (\<open>clib_bitmap_vec_validate_refines\<close>). Bits beyond the end are zero. Bit
  numbers are natural numbers and \<open>~0\<close> is \<open>2 ^ 64 - 1\<close>. A function that the code lets read a
  null pointer or shift by 64 or more returns an option, \<open>None\<close> being the undefined behaviour.
\<close>

section \<open>The functions of bitmap.h\<close>

type_synonym bitmap = "uword list option"

definition words :: "bitmap \<Rightarrow> uword list" where
  "words a = (case a of None \<Rightarrow> [] | Some xs \<Rightarrow> xs)"

abbreviation infinity :: nat where
  "infinity \<equiv> 2 ^ 64 - 1"

definition clib_bitmap_is_zero :: "bitmap \<Rightarrow> bool" where
  "clib_bitmap_is_zero ai = list_all (\<lambda>w. w = 0) (words ai)"

definition clib_bitmap_is_equal :: "bitmap \<Rightarrow> bitmap \<Rightarrow> bool" where
  "clib_bitmap_is_equal a b =
     (length (words a) = length (words b) \<and> list_all2 (=) (words a) (words b))"

definition clib_bitmap_dup :: "bitmap \<Rightarrow> bitmap" where
  "clib_bitmap_dup a = (if 0 < length (words a) then Some (words a) else None)"

definition clib_bitmap_zero :: "bitmap \<Rightarrow> bitmap" where
  "clib_bitmap_zero a = map_option (map (\<lambda>_. 0)) a"

definition clib_bitmap_alloc :: "nat \<Rightarrow> bitmap" where
  "clib_bitmap_alloc n_bits = Some (replicate ((n_bits + 64 - 1) div 64) 0)"

definition clib_bitmap_vec_validate :: "bitmap \<Rightarrow> nat \<Rightarrow> bitmap" where
  "clib_bitmap_vec_validate a i =
     (if length (words a) \<le> i then Some (words a @ replicate (Suc i - length (words a)) 0) else a)"

definition clib_bitmap_validate :: "bitmap \<Rightarrow> nat \<Rightarrow> bitmap" where
  "clib_bitmap_validate a n_bits = clib_bitmap_vec_validate a ((n_bits - 1) div 64)"

definition set_word :: "bitmap \<Rightarrow> nat \<Rightarrow> uword \<Rightarrow> bitmap" where
  "set_word a i w = map_option (\<lambda>xs. xs[i := w]) a"

fun nonzero_prefix :: "uword list \<Rightarrow> nat \<Rightarrow> nat" where
  "nonzero_prefix xs 0 = 0"
| "nonzero_prefix xs (Suc i) = (if xs ! i \<noteq> 0 then Suc i else nonzero_prefix xs i)"

definition clib_bitmap_remove_trailing_zeros :: "bitmap \<Rightarrow> bitmap" where
  "clib_bitmap_remove_trailing_zeros a =
     map_option (\<lambda>xs. take (nonzero_prefix xs (length xs)) xs) a"

definition clib_bitmap_set_no_check :: "bitmap \<Rightarrow> nat \<Rightarrow> uword \<Rightarrow> (bitmap \<times> bool) option" where
  "clib_bitmap_set_no_check a i new_value =
     (let i0 = i div 64; i1 = i mod 64; bit = push_bit i1 1 in
      if length (words a) \<le> i0 then None
      else let ai = words a ! i0;
               old_value = (ai AND bit \<noteq> 0);
               ai = ai AND NOT bit;
               ai = ai OR push_bit i1 (of_bool (new_value \<noteq> 0))
           in Some (set_word a i0 ai, old_value))"

definition clib_bitmap_set :: "bitmap \<Rightarrow> nat \<Rightarrow> uword \<Rightarrow> bitmap" where
  "clib_bitmap_set ai i value =
     (let i0 = i div 64; i1 = i mod 64 in
      if value = 0 \<and> length (words ai) \<le> i0 then ai
      else
        let ai = clib_bitmap_vec_validate ai i0;
            a = words ai ! i0;
            a = a AND NOT (push_bit i1 1);
            a = a OR push_bit i1 (of_bool (value \<noteq> 0));
            ai = set_word ai i0 a
        in if a = 0 then clib_bitmap_remove_trailing_zeros ai else ai)"

definition clib_bitmap_get :: "bitmap \<Rightarrow> nat \<Rightarrow> bool" where
  "clib_bitmap_get ai i =
     (let i0 = i div 64; i1 = i mod 64
      in i0 < length (words ai) \<and> 0 \<noteq> (drop_bit i1 (words ai ! i0) AND 1))"

definition clib_bitmap_get_multiple_no_check :: "bitmap \<Rightarrow> nat \<Rightarrow> nat \<Rightarrow> bool option" where
  "clib_bitmap_get_multiple_no_check ai i n_bits =
     (let i0 = i div 64; i1 = i mod 64 in
      if length (words ai) \<le> i0 \<or> 64 \<le> n_bits then None
      else Some (0 \<noteq> (drop_bit i1 (words ai ! i0) AND pow2_mask n_bits)))"

definition clib_bitmap_get_multiple :: "bitmap \<Rightarrow> nat \<Rightarrow> nat \<Rightarrow> uword" where
  "clib_bitmap_get_multiple bitmap i n_bits =
     (let l = length (words bitmap);
          i0 = i div 64; i1 = i mod 64;
          result =
            (if i0 < l
             then let r = drop_bit i1 (words bitmap ! i0)
                  in if n_bits < 64 then r AND (push_bit n_bits 1 - 1) else r
             else 0);
          i0 = i0 + 1
      in if 64 < i1 + n_bits \<and> i0 < l
         then let n_bits = n_bits - (64 - i1)
              in result OR push_bit (64 - i1) (words bitmap ! i0 AND (push_bit n_bits 1 - 1))
         else result)"

definition clib_bitmap_set_multiple :: "bitmap \<Rightarrow> nat \<Rightarrow> uword \<Rightarrow> nat \<Rightarrow> bitmap" where
  "clib_bitmap_set_multiple bitmap i value n_bits =
     (let i0 = i div 64; i1 = i mod 64;
          bitmap = clib_bitmap_vec_validate bitmap ((i + n_bits) div 64);
          l = length (words bitmap);
          m = (if n_bits < 64 then push_bit n_bits 1 - 1 else NOT 0);
          value = value AND m;
          t = words bitmap ! i0;
          t = t AND NOT (push_bit i1 m);
          t = t OR push_bit i1 value;
          bitmap = set_word bitmap i0 t;
          i0 = i0 + 1
      in if 64 < i1 + n_bits \<and> i0 < l
         then let t = 64 - i1;
                  value = drop_bit t value;
                  n_bits = n_bits - t;
                  m = push_bit n_bits 1 - 1;
                  t = words bitmap ! i0;
                  t = t AND NOT m;
                  t = t OR value
              in set_word bitmap i0 t
         else bitmap)"

definition set_or_clear :: "uword \<Rightarrow> uword \<Rightarrow> uword \<Rightarrow> uword" where
  "set_or_clear value w m = (if value \<noteq> 0 then w OR m else w AND NOT m)"

fun fill_words :: "bitmap \<Rightarrow> nat \<Rightarrow> nat \<Rightarrow> uword \<Rightarrow> bitmap" where
  "fill_words a i 0 w = a"
| "fill_words a i (Suc n) w = fill_words (set_word a i w) (Suc i) n w"

text \<open>
  \<open>clib_bitmap_set_region\<close> shifts by the number of bits left after the first word, the middle
  words not subtracted; a shift by 64 or more is undefined.
\<close>

definition clib_bitmap_set_region :: "bitmap \<Rightarrow> nat \<Rightarrow> uword \<Rightarrow> nat \<Rightarrow> bitmap option" where
  "clib_bitmap_set_region bitmap i value n_bits =
     (let a0 = i div 64; a1 = i mod 64;
          b0 = (i + n_bits) div 64;
          bitmap = clib_bitmap_vec_validate bitmap b0;
          mask = (if n_bits < 64 then pow2_mask n_bits else NOT 0);
          mask = push_bit a1 mask;
          bitmap = set_word bitmap a0 (set_or_clear value (words bitmap ! a0) mask);
          a0 = a0 + 1;
          bitmap = fill_words bitmap a0 (b0 - a0) (if value \<noteq> 0 then NOT 0 else 0);
          a0 = max a0 b0
      in if a0 = b0
         then let n_bits_left = n_bits - (64 - a1)
              in if n_bits_left < 64
                 then Some (set_word bitmap a0 (set_or_clear value (words bitmap ! a0) (pow2_mask n_bits_left)))
                 else None
         else Some bitmap)"

fun bitmap_foreach_from :: "nat \<Rightarrow> uword list \<Rightarrow> nat list" where
  "bitmap_foreach_from i [] = []"
| "bitmap_foreach_from i (w # ws) =
     map (\<lambda>b. i * 64 + b) (foreach_set_bit w) @ bitmap_foreach_from (Suc i) ws"

definition clib_bitmap_foreach :: "bitmap \<Rightarrow> nat list" where
  "clib_bitmap_foreach ai = bitmap_foreach_from 0 (words ai)"

fun first_set_from :: "nat \<Rightarrow> uword list \<Rightarrow> nat" where
  "first_set_from i [] = infinity"
| "first_set_from i (x # xs) = (if x \<noteq> 0 then i * 64 + log2_first_set x else first_set_from (Suc i) xs)"

definition clib_bitmap_first_set :: "bitmap \<Rightarrow> nat" where
  "clib_bitmap_first_set ai = first_set_from 0 (words ai)"

fun first_clear_from :: "nat \<Rightarrow> uword list \<Rightarrow> nat" where
  "first_clear_from i [] = i * 64"
| "first_clear_from i (x # xs) =
     (if NOT x \<noteq> 0 then i * 64 + log2_first_set (NOT x) else first_clear_from (Suc i) xs)"

definition clib_bitmap_first_clear :: "bitmap \<Rightarrow> nat" where
  "clib_bitmap_first_clear ai = first_clear_from 0 (words ai)"

definition clib_bitmap_count_set_bits :: "bitmap \<Rightarrow> uword" where
  "clib_bitmap_count_set_bits ai = fold (\<lambda>w n_set. n_set + count_set_bits w) (words ai) 0"

text \<open>
  The functions of two bitmaps: the loop over the words of the first, extended to the length of
  the second, which counts the trailing zero words of the result on the way.
\<close>

fun alu_loop :: "(uword \<Rightarrow> uword \<Rightarrow> uword) \<Rightarrow> uword list \<Rightarrow> uword list \<Rightarrow> nat \<Rightarrow> uword list \<times> nat" where
  "alu_loop f [] bs n = ([], n)"
| "alu_loop f (a # as) bs n =
     (let b = (case bs of [] \<Rightarrow> 0 | b # _ \<Rightarrow> b);
          a = f a b;
          n = (if a \<noteq> 0 then 0 else n + 1);
          (rest, n) = alu_loop f as (tl bs) n
      in (a # rest, n))"

definition clib_bitmap_alu ::
    "(uword \<Rightarrow> uword \<Rightarrow> uword) \<Rightarrow> bool \<Rightarrow> bitmap \<Rightarrow> bitmap \<Rightarrow> bitmap option" where
  "clib_bitmap_alu f check_zero ai bi =
     (let bi_len = length (words bi);
          ai = (if 0 < bi_len then clib_bitmap_vec_validate ai (bi_len - 1) else ai);
          (xs, n_trailing_zeros) = alu_loop f (words ai) (words bi) 0;
          ai = map_option (\<lambda>_. xs) ai
      in if check_zero
         then case ai of None \<Rightarrow> None | Some xs \<Rightarrow> Some (Some (take (length xs - n_trailing_zeros) xs))
         else Some ai)"

definition clib_bitmap_and :: "bitmap \<Rightarrow> bitmap \<Rightarrow> bitmap option" where
  "clib_bitmap_and = clib_bitmap_alu (\<lambda>a b. a AND b) True"

definition clib_bitmap_andnot :: "bitmap \<Rightarrow> bitmap \<Rightarrow> bitmap option" where
  "clib_bitmap_andnot = clib_bitmap_alu (\<lambda>a b. a AND NOT b) True"

definition clib_bitmap_or :: "bitmap \<Rightarrow> bitmap \<Rightarrow> bitmap option" where
  "clib_bitmap_or = clib_bitmap_alu (\<lambda>a b. a OR b) False"

definition clib_bitmap_xor :: "bitmap \<Rightarrow> bitmap \<Rightarrow> bitmap option" where
  "clib_bitmap_xor = clib_bitmap_alu (\<lambda>a b. a XOR b) True"

definition clib_bitmap_dup_and :: "bitmap \<Rightarrow> bitmap \<Rightarrow> bitmap option" where
  "clib_bitmap_dup_and ai bi = clib_bitmap_and (clib_bitmap_dup ai) bi"

definition clib_bitmap_dup_andnot :: "bitmap \<Rightarrow> bitmap \<Rightarrow> bitmap option" where
  "clib_bitmap_dup_andnot ai bi = clib_bitmap_andnot (clib_bitmap_dup ai) bi"

definition clib_bitmap_dup_or :: "bitmap \<Rightarrow> bitmap \<Rightarrow> bitmap option" where
  "clib_bitmap_dup_or ai bi = clib_bitmap_or (clib_bitmap_dup ai) bi"

definition clib_bitmap_dup_xor :: "bitmap \<Rightarrow> bitmap \<Rightarrow> bitmap option" where
  "clib_bitmap_dup_xor ai bi = clib_bitmap_xor (clib_bitmap_dup ai) bi"

definition clib_bitmap_alui :: "(uword \<Rightarrow> uword \<Rightarrow> uword) \<Rightarrow> bool \<Rightarrow> bitmap \<Rightarrow> nat \<Rightarrow> bitmap" where
  "clib_bitmap_alui f check_zero ai i =
     (let i0 = i div 64; i1 = i mod 64;
          ai = clib_bitmap_vec_validate ai i0;
          a = words ai ! i0;
          b = push_bit i1 1;
          a = f a b;
          ai = set_word ai i0 a
      in if check_zero \<and> a = 0 then clib_bitmap_remove_trailing_zeros ai else ai)"

definition clib_bitmap_andi :: "bitmap \<Rightarrow> nat \<Rightarrow> bitmap" where
  "clib_bitmap_andi = clib_bitmap_alui (\<lambda>a b. a AND b) True"

definition clib_bitmap_andnoti :: "bitmap \<Rightarrow> nat \<Rightarrow> bitmap" where
  "clib_bitmap_andnoti = clib_bitmap_alui (\<lambda>a b. a AND NOT b) True"

definition clib_bitmap_ori :: "bitmap \<Rightarrow> nat \<Rightarrow> bitmap" where
  "clib_bitmap_ori = clib_bitmap_alui (\<lambda>a b. a OR b) False"

definition clib_bitmap_xori :: "bitmap \<Rightarrow> nat \<Rightarrow> bitmap" where
  "clib_bitmap_xori = clib_bitmap_alui (\<lambda>a b. a XOR b) True"

definition clib_bitmap_next_set :: "bitmap \<Rightarrow> nat \<Rightarrow> nat" where
  "clib_bitmap_next_set ai i =
     (let i0 = i div 64; i1 = i mod 64 in
      if i0 < length (words ai)
      then let t = push_bit i1 (drop_bit i1 (words ai ! i0))
           in if t \<noteq> 0 then log2_first_set t + i0 * 64
              else first_set_from (i0 + 1) (drop (i0 + 1) (words ai))
      else infinity)"

fun next_clear_from :: "nat \<Rightarrow> nat \<Rightarrow> uword list \<Rightarrow> nat" where
  "next_clear_from i i0 [] = i"
| "next_clear_from i i0 (x # xs) =
     (if NOT x \<noteq> 0 then log2_first_set (NOT x) + i0 * 64 else next_clear_from i (Suc i0) xs)"

definition clib_bitmap_next_clear :: "bitmap \<Rightarrow> nat \<Rightarrow> nat" where
  "clib_bitmap_next_clear ai i =
     (let i0 = i div 64; i1 = i mod 64 in
      if i0 < length (words ai)
      then let t = push_bit i1 (drop_bit i1 (NOT (words ai ! i0)))
           in if t \<noteq> 0 then log2_first_set t + i0 * 64
              else next_clear_from i (i0 + 1) (drop (i0 + 1) (words ai))
      else i)"

section \<open>The set of bits of a bitmap\<close>

definition bit_at :: "uword list \<Rightarrow> nat \<Rightarrow> bool" where
  "bit_at xs i \<longleftrightarrow> i div 64 < length xs \<and> bit (xs ! (i div 64)) (i mod 64)"

definition bits :: "bitmap \<Rightarrow> nat set" where
  "bits a = {i. bit_at (words a) i}"

text \<open>A bitmap in canonical form does not end in a zero word.\<close>

definition trimmed :: "bitmap \<Rightarrow> bool" where
  "trimmed a \<longleftrightarrow> words a = [] \<or> last (words a) \<noteq> 0"

lemma words_simps [simp]: "words None = []" "words (Some xs) = xs"
  by (simp_all add: words_def)

lemma words_map_option: "words (map_option f a) = (if a = None then [] else f (words a))"
  by (cases a) simp_all

lemma bit_at_div: "bit_at xs i \<Longrightarrow> i div 64 < length xs"
  by (simp add: bit_at_def)

lemma and_one_iff: "drop_bit k (w :: uword) AND 1 = 0 \<longleftrightarrow> \<not> bit w k"
  by (simp add: and_one_eq bit_iff_odd_drop_bit even_iff_mod_2_eq_zero)

lemma get_iff [simp]: "clib_bitmap_get a i \<longleftrightarrow> i \<in> bits a"
  by (auto simp: clib_bitmap_get_def bits_def bit_at_def Let_def and_one_iff eq_commute [of 0])

lemma bits_None [simp]: "bits None = {}"
  by (simp add: bits_def bit_at_def)

lemma bit_at_update:
  "bit_at (xs[k := w]) i \<longleftrightarrow>
    (if i div 64 = k then k < length xs \<and> bit w (i mod 64) else bit_at xs i)"
  by (auto simp: bit_at_def)

lemma bit_at_append: "bit_at (xs @ ys) i \<longleftrightarrow> bit_at xs i \<or> length xs * 64 \<le> i \<and> bit_at ys (i - length xs * 64)"
proof (cases "i div 64 < length xs")
  case True
  then have "i < length xs * 64" by (simp add: less_mult_imp_div_less div_less_iff_less_mult)
  with True show ?thesis by (auto simp: bit_at_def nth_append)
next
  case False
  then have i: "length xs * 64 \<le> i" by (simp add: div_less_iff_less_mult)
  then have "(i - length xs * 64) div 64 = i div 64 - length xs" "(i - length xs * 64) mod 64 = i mod 64"
    by (auto simp: le_iff_add)
  moreover from False have "i div 64 < length xs + length ys \<longleftrightarrow> i div 64 - length xs < length ys" by linarith
  ultimately show ?thesis using False i by (auto simp: bit_at_def nth_append)
qed

lemma bit_at_zeros [simp]: "\<not> bit_at (replicate n 0) i"
  by (simp add: bit_at_def)

lemma words_set_word: "words (set_word a k w) = (words a)[k := w]"
  by (cases a) (simp_all add: set_word_def)

lemma words_validate: "words (clib_bitmap_vec_validate a i) = words a @ replicate (Suc i - length (words a)) 0"
  by (simp add: clib_bitmap_vec_validate_def)

lemma validate_not_None: "clib_bitmap_vec_validate a i \<noteq> None"
  by (cases a) (auto simp: clib_bitmap_vec_validate_def)

lemma length_validate: "length (words (clib_bitmap_vec_validate a i)) = max (length (words a)) (Suc i)"
  by (simp add: words_validate)

lemma bits_validate [simp]: "bits (clib_bitmap_vec_validate a i) = bits a"
  by (auto simp: bits_def words_validate bit_at_append)

lemma bits_set_word:
  "k < length (words a) \<Longrightarrow>
    i \<in> bits (set_word a k w) \<longleftrightarrow> (if i div 64 = k then bit w (i mod 64) else i \<in> bits a)"
  by (auto simp: bits_def words_set_word bit_at_update)

lemma bit_word_at: "k < length (words a) \<Longrightarrow> j < 64 \<Longrightarrow> bit (words a ! k) j \<longleftrightarrow> k * 64 + j \<in> bits a"
  by (simp add: bits_def bit_at_def)

lemma bits_in_range: "i \<in> bits a \<Longrightarrow> i < length (words a) * 64"
  by (auto simp: bits_def div_less_iff_less_mult dest: bit_at_div)

lemma finite_bitmap_bits [simp]: "finite (bits a)"
  by (rule finite_subset [of _ "{..<length (words a) * 64}"]) (auto dest: bits_in_range)

subsection \<open>Removal of trailing zero words\<close>

lemma nonzero_prefix_le: "nonzero_prefix xs n \<le> n"
  by (induction n) auto

lemma nonzero_prefix_zero: "nonzero_prefix xs n \<le> i \<Longrightarrow> i < n \<Longrightarrow> xs ! i = 0"
  by (induction n) (auto simp: less_Suc_eq split: if_splits)

lemma nonzero_prefix_last: "0 < nonzero_prefix xs n \<Longrightarrow> xs ! (nonzero_prefix xs n - 1) \<noteq> 0"
  by (induction n) auto

lemma bit_at_take_zeros:
  assumes "\<And>i. n \<le> i \<Longrightarrow> i < length xs \<Longrightarrow> xs ! i = 0"
  shows "bit_at (take n xs) i \<longleftrightarrow> bit_at xs i"
  using assms [of "i div 64"] by (cases "i div 64 < n") (auto simp: bit_at_def)

lemma bits_trim [simp]: "bits (clib_bitmap_remove_trailing_zeros a) = bits a"
proof (cases a)
  case (Some xs)
  then show ?thesis
    by (auto simp: bits_def clib_bitmap_remove_trailing_zeros_def intro!: nonzero_prefix_zero
        dest: bit_at_take_zeros [THEN iffD1, rotated] bit_at_take_zeros [THEN iffD2, rotated])
qed (simp add: clib_bitmap_remove_trailing_zeros_def)

lemma trimmed_trim: "trimmed (clib_bitmap_remove_trailing_zeros a)"
proof (cases a)
  case (Some xs)
  obtain n where n: "n = nonzero_prefix xs (length xs)" by blast
  have "n \<le> length xs" "0 < n \<Longrightarrow> xs ! (n - 1) \<noteq> 0"
    unfolding n by (rule nonzero_prefix_le, rule nonzero_prefix_last)
  then show ?thesis using Some
    by (auto simp: trimmed_def clib_bitmap_remove_trailing_zeros_def n [symmetric] last_conv_nth min_def split: if_splits)
qed (simp add: clib_bitmap_remove_trailing_zeros_def trimmed_def)

lemma trimmed_eqI:
  assumes "trimmed a" and "trimmed b" and "bits a = bits b"
  shows "words a = words b"
proof -
  have le: "length (words a) \<le> length (words b)"
    if a: "trimmed a" and ab: "bits a = bits b" for a b
  proof (cases "words a = []")
    case False
    then have "last (words a) \<noteq> 0" using a by (simp add: trimmed_def)
    then obtain j where j: "j < 64" "bit (last (words a)) j" by (auto simp: uword_nonzero_bit)
    let ?k = "length (words a) - 1"
    have "?k * 64 + j \<in> bits a" using j False bit_word_at [of ?k a j] by (simp add: last_conv_nth)
    then have "?k * 64 + j < length (words b) * 64" using ab bits_in_range by blast
    then have "?k < length (words b)" by linarith
    then show ?thesis by simp
  qed simp
  have len: "length (words a) = length (words b)"
    using le [of a b] le [of b a] assms by simp
  show ?thesis
  proof (rule nth_equalityI [OF len])
    fix k assume "k < length (words a)"
    with len show "words a ! k = words b ! k"
      by (intro uword_eqI) (simp add: bit_word_at assms(3))
  qed
qed

subsection \<open>The operations on single bits\<close>

lemma bits_modify:
  fixes f :: "uword \<Rightarrow> uword" and a :: bitmap and i :: nat
  defines "b \<equiv> clib_bitmap_vec_validate a (i div 64)"
  shows "j \<in> bits (set_word b (i div 64) (f (words b ! (i div 64)))) \<longleftrightarrow>
    (if j div 64 = i div 64 then bit (f (words b ! (i div 64))) (j mod 64) else j \<in> bits a)"
  using bits_set_word [of "i div 64" b j "f (words b ! (i div 64))"] by (simp add: b_def length_validate)

lemma bit_validated_word:
  "j div 64 = i div 64 \<Longrightarrow> bit (words (clib_bitmap_vec_validate a (i div 64)) ! (i div 64)) (j mod 64) \<longleftrightarrow> j \<in> bits a"
proof -
  let ?b = "clib_bitmap_vec_validate a (i div 64)"
  assume "j div 64 = i div 64"
  then have "i div 64 * 64 + j mod 64 = j" by (metis div_mult_mod_eq)
  then show ?thesis using bit_word_at [of "i div 64" ?b "j mod 64"] by (simp add: length_validate)
qed

lemma div_mod_eq_64: "j div 64 = i div 64 \<Longrightarrow> j mod 64 = i mod 64 \<longleftrightarrow> j = (i :: nat)"
  by (metis div_mult_mod_eq)

lemma bits_alui:
  "j \<in> bits (clib_bitmap_alui f z a i) \<longleftrightarrow>
    (if j div 64 = i div 64
     then bit (f (words (clib_bitmap_vec_validate a (i div 64)) ! (i div 64)) (2 ^ (i mod 64))) (j mod 64)
     else j \<in> bits a)"
proof -
  have "bits (clib_bitmap_alui f z a i) = bits (set_word (clib_bitmap_vec_validate a (i div 64)) (i div 64)
      (f (words (clib_bitmap_vec_validate a (i div 64)) ! (i div 64)) (2 ^ (i mod 64))))"
    by (simp only: clib_bitmap_alui_def Let_def push_bit_of_1 if_distrib [of bits] bits_trim if_cancel)
  then show ?thesis using bits_modify [of j a i "\<lambda>w. f w (2 ^ (i mod 64))"] by simp
qed

lemma bits_ori [simp]: "bits (clib_bitmap_ori a i) = insert i (bits a)"
  by (auto simp: clib_bitmap_ori_def bits_alui bit_or_iff bit_validated_word bitwise div_mod_eq_64 split: if_splits)

lemma bits_andnoti [simp]: "bits (clib_bitmap_andnoti a i) = bits a - {i}"
  by (auto simp: clib_bitmap_andnoti_def bits_alui bit_and_iff bit_not_iff bit_validated_word bitwise div_mod_eq_64
      split: if_splits)

lemma bits_andi: "bits (clib_bitmap_andi a i) = {j \<in> bits a. j div 64 = i div 64 \<longrightarrow> j = i}"
  by (auto simp: clib_bitmap_andi_def bits_alui bit_and_iff bit_validated_word bitwise div_mod_eq_64 split: if_splits)

lemma bits_xori: "bits (clib_bitmap_xori a i) = (if i \<in> bits a then bits a - {i} else insert i (bits a))"
  by (auto simp: clib_bitmap_xori_def bits_alui bit_xor_iff bit_validated_word bitwise div_mod_eq_64 split: if_splits)

lemma bit_of_bool_shift: "bit (push_bit k (of_bool v) :: uword) j \<longleftrightarrow> v \<and> j = k \<and> k < 64"
  by (auto simp: bitwise)

lemma bits_set: "bits (clib_bitmap_set a i v) = (if v \<noteq> 0 then insert i (bits a) else bits a - {i})"
proof (cases "v = 0 \<and> length (words a) \<le> i div 64")
  case True
  then have "i \<notin> bits a" by (auto simp: bits_def dest: bit_at_div)
  with True show ?thesis by (simp add: clib_bitmap_set_def)
next
  case False
  let ?f = "\<lambda>w :: uword. w AND NOT (push_bit (i mod 64) 1) OR push_bit (i mod 64) (of_bool (v \<noteq> 0))"
  let ?b = "clib_bitmap_vec_validate a (i div 64)"
  have "bits (clib_bitmap_set a i v) = bits (set_word ?b (i div 64) (?f (words ?b ! (i div 64))))"
    using False by (simp only: clib_bitmap_set_def Let_def if_distrib [of bits] bits_trim if_cancel if_False)
  moreover have "j \<in> bits (set_word ?b (i div 64) (?f (words ?b ! (i div 64)))) \<longleftrightarrow>
      (if v \<noteq> 0 then j = i \<or> j \<in> bits a else j \<in> bits a \<and> j \<noteq> i)" for j
    unfolding bits_modify [of j a i ?f]
    by (auto simp: bit_or_iff bit_and_iff bit_not_iff bit_of_bool_shift bit_validated_word bitwise div_mod_eq_64)
  ultimately show ?thesis by auto
qed

lemma words_set_word_validate:
  assumes "trimmed a" and "w \<noteq> 0"
  shows "trimmed (set_word (clib_bitmap_vec_validate a k) k w)"
proof (cases "length (words a) \<le> k")
  case True
  then show ?thesis using assms
    by (simp add: trimmed_def words_set_word words_validate last_list_update list_update_append)
next
  case False
  then show ?thesis using assms
    by (auto simp: trimmed_def words_set_word words_validate last_list_update split: if_splits)
qed

lemma trimmed_set: "trimmed a \<Longrightarrow> trimmed (clib_bitmap_set a i v)"
  by (auto simp: clib_bitmap_set_def Let_def trimmed_trim intro: words_set_word_validate)

lemma trimmed_alui:
  "trimmed a \<Longrightarrow> z \<or> (\<forall>w. f w (2 ^ (i mod 64)) \<noteq> 0) \<Longrightarrow> trimmed (clib_bitmap_alui f z a i)"
  by (auto simp: clib_bitmap_alui_def Let_def trimmed_trim intro: words_set_word_validate)

lemma or_exp_nonzero: "k < 64 \<Longrightarrow> w OR 2 ^ k \<noteq> (0 :: uword)"
proof
  assume "k < 64" and "w OR 2 ^ k = 0"
  moreover have "bit (w OR 2 ^ k) k" using \<open>k < 64\<close> by (simp add: bit_or_iff bitwise)
  ultimately show False by simp
qed

lemma trimmed_ori: "trimmed a \<Longrightarrow> trimmed (clib_bitmap_ori a i)"
  unfolding clib_bitmap_ori_def by (rule trimmed_alui) (simp_all add: or_exp_nonzero)

lemma trimmed_andnoti: "trimmed a \<Longrightarrow> trimmed (clib_bitmap_andnoti a i)"
  unfolding clib_bitmap_andnoti_def by (rule trimmed_alui) simp_all

lemma bits_set_no_check:
  assumes "clib_bitmap_set_no_check a i v = Some (b, old)"
  shows "bits b = (if v \<noteq> 0 then insert i (bits a) else bits a - {i})" and "old \<longleftrightarrow> i \<in> bits a"
proof -
  let ?f = "\<lambda>w :: uword. w AND NOT (push_bit (i mod 64) 1) OR push_bit (i mod 64) (of_bool (v \<noteq> 0))"
  have i: "i div 64 < length (words a)" and b: "b = set_word a (i div 64) (?f (words a ! (i div 64)))"
    and old: "old \<longleftrightarrow> words a ! (i div 64) AND push_bit (i mod 64) 1 \<noteq> 0"
    using assms by (auto simp: clib_bitmap_set_no_check_def Let_def split: if_splits)
  have v: "clib_bitmap_vec_validate a (i div 64) = a" using i by (simp add: clib_bitmap_vec_validate_def)
  have "j \<in> bits b \<longleftrightarrow> (if v \<noteq> 0 then j = i \<or> j \<in> bits a else j \<in> bits a \<and> j \<noteq> i)" for j
  proof (cases "j div 64 = i div 64")
    case True
    note w = bit_validated_word [OF True, of a, unfolded v]
    have "j \<in> bits b \<longleftrightarrow> bit (?f (words a ! (i div 64))) (j mod 64)"
      unfolding b using bits_modify [of j a i ?f] True by (simp only: v simp_thms if_True)
    then show ?thesis
      by (simp only: bit_or_iff bit_and_iff bit_not_iff bit_of_bool_shift w push_bit_of_1 bit_exp_u64)
        (auto simp: div_mod_eq_64 [OF True])
  next
    case False
    then show ?thesis unfolding b using bits_modify [of j a i ?f] by (auto simp: v)
  qed
  then show "bits b = (if v \<noteq> 0 then insert i (bits a) else bits a - {i})"
    by (intro set_eqI) (cases "v = 0"; simp)
  have "words a ! (i div 64) AND push_bit (i mod 64) 1 \<noteq> 0 \<longleftrightarrow> bit (words a ! (i div 64)) (i mod 64)"
    by (simp add: and_exp_eq_0_iff_not_bit)
  then show "old \<longleftrightarrow> i \<in> bits a" using old bit_validated_word [of i i a] by (simp add: v)
qed

subsection \<open>Searching and counting\<close>

definition offset_bits :: "nat \<Rightarrow> uword list \<Rightarrow> nat set" where
  "offset_bits k xs = {i. k * 64 \<le> i \<and> bit_at xs (i - k * 64)}"

lemma offset_bits_Nil [simp]: "offset_bits k [] = {}"
  by (simp add: offset_bits_def bit_at_def)

lemma bit_at_Cons: "bit_at (x # xs) i \<longleftrightarrow> (if i < 64 then bit x i else bit_at xs (i - 64))"
  using bit_at_append [of "[x]" xs i] by (auto simp: bit_at_def)

lemma offset_bits_Cons: "offset_bits k (x # xs) = (\<lambda>b. k * 64 + b) ` {b. bit x b} \<union> offset_bits (Suc k) xs"
proof (rule set_eqI)
  fix i
  show "i \<in> offset_bits k (x # xs) \<longleftrightarrow> i \<in> (\<lambda>b. k * 64 + b) ` {b. bit x b} \<union> offset_bits (Suc k) xs"
  proof (cases "k * 64 \<le> i")
    case True
    then obtain j where j: "i = k * 64 + j" by (auto simp: le_iff_add)
    have "i \<in> offset_bits k (x # xs) \<longleftrightarrow> (if j < 64 then bit x j else bit_at xs (j - 64))"
      by (simp add: offset_bits_def j bit_at_Cons)
    moreover have "i \<in> offset_bits (Suc k) xs \<longleftrightarrow> 64 \<le> j \<and> bit_at xs (j - 64)"
      by (simp add: offset_bits_def j)
    moreover have "i \<in> (\<lambda>b. k * 64 + b) ` {b. bit x b} \<longleftrightarrow> bit x j" by (auto simp: j)
    ultimately show ?thesis using bit_u64_lt [of x j] by (simp only: Un_iff) auto
  qed (auto simp: offset_bits_def)
qed

lemma bits_offset: "bits a = offset_bits 0 (words a)"
  by (simp add: bits_def offset_bits_def)

lemma offset_bits_drop: "offset_bits k (drop k (words a)) = {i \<in> bits a. k * 64 \<le> i}"
proof (rule set_eqI)
  fix i
  show "i \<in> offset_bits k (drop k (words a)) \<longleftrightarrow> i \<in> {i \<in> bits a. k * 64 \<le> i}"
  proof (cases "k * 64 \<le> i")
    case True
    then obtain j where j: "i = k * 64 + j" by (auto simp: le_iff_add)
    show ?thesis by (auto simp: offset_bits_def bits_def bit_at_def j)
  qed (simp add: offset_bits_def)
qed

lemma foreach_from_props:
  "set (bitmap_foreach_from k xs) = offset_bits k xs" "sorted (bitmap_foreach_from k xs)"
  "distinct (bitmap_foreach_from k xs)"
proof (induction k xs rule: bitmap_foreach_from.induct)
  case (2 k w ws)
  note f = foreach_set_bit_eq [of w]
  have low: "x < Suc k * 64" if "x \<in> set (map ((+) (k * 64)) (foreach_set_bit w))" for x
    using that by (auto simp: f)
  have high: "Suc k * 64 \<le> x" if "x \<in> offset_bits (Suc k) ws" for x
    using that by (auto simp: offset_bits_def)
  {
    case 1
    then show ?case using 2 by (simp add: f offset_bits_Cons)
  next
    case 2
    have "sorted (map ((+) (k * 64)) (foreach_set_bit w))"
      by (simp add: f sorted_map) 
    with 2 low high show ?case by (force simp: sorted_append "2.IH")
  next
    case 3
    then show ?case using low high by (force simp: f "2.IH" distinct_map inj_on_def)
  }
qed simp_all

lemma foreach_eq: "clib_bitmap_foreach a = sorted_list_of_set (bits a)"
  unfolding clib_bitmap_foreach_def bits_offset
  using sorted_list_of_set.idem_if_sorted_distinct [of "bitmap_foreach_from 0 (words a)"]
  by (simp add: foreach_from_props)

lemma Least_offset_Cons:
  assumes "x \<noteq> 0"
  shows "k * 64 + log2_first_set x \<in> offset_bits k (x # xs)"
    and "i \<in> offset_bits k (x # xs) \<Longrightarrow> k * 64 + log2_first_set x \<le> i"
proof -
  show "k * 64 + log2_first_set x \<in> offset_bits k (x # xs)"
    using log2_first_set_spec [OF assms] by (simp add: offset_bits_Cons)
  assume "i \<in> offset_bits k (x # xs)"
  then consider b where "i = k * 64 + b" "bit x b" | "i \<in> offset_bits (Suc k) xs"
    by (auto simp: offset_bits_Cons)
  then show "k * 64 + log2_first_set x \<le> i"
  proof cases
    case 1
    then have "\<not> b < log2_first_set x" using log2_first_set_spec(2) [OF assms] by blast
    with 1 show ?thesis by simp
  next
    case 2
    then show ?thesis using log2_first_set_spec(3) [OF assms] by (simp add: offset_bits_def)
  qed
qed

lemma offset_bits_zero_Cons: "offset_bits k (0 # xs) = offset_bits (Suc k) xs"
  by (simp add: offset_bits_Cons)

lemma first_set_from_least:
  "first_set_from k xs = (if offset_bits k xs = {} then infinity else LEAST i. i \<in> offset_bits k xs)"
proof (induction k xs rule: first_set_from.induct)
  case (2 k x xs)
  show ?case
  proof (cases "x = 0")
    case False
    note l = Least_offset_Cons [OF False, where k = k and xs = xs]
    then have "(LEAST i. i \<in> offset_bits k (x # xs)) = k * 64 + log2_first_set x"
      by (intro Least_equality) blast+
    with False l(1) show ?thesis by auto
  qed (use 2 in \<open>simp add: offset_bits_zero_Cons\<close>)
qed simp

text \<open>The complement of the words: the clear bits below the end.\<close>

lemma bit_at_not: "i div 64 < length xs \<Longrightarrow> bit_at (map NOT xs) i \<longleftrightarrow> \<not> bit_at xs i"
  by (simp add: bit_at_def bit_not_iff)

lemma first_clear_from_least:
  "first_clear_from k xs = (LEAST i. k * 64 \<le> i \<and> i \<notin> offset_bits k xs)"
proof -
  have "first_clear_from k xs = (if offset_bits k (map NOT xs) = {} then (k + length xs) * 64
      else LEAST i. i \<in> offset_bits k (map NOT xs))"
  proof (induction k xs rule: first_clear_from.induct)
    case (2 k x xs)
    show ?case
    proof (cases "NOT x = 0")
      case False
      note l = Least_offset_Cons [OF False, where k = k and xs = "map NOT xs"]
      then have "(LEAST i. i \<in> offset_bits k (NOT x # map NOT xs)) = k * 64 + log2_first_set (NOT x)"
        by (intro Least_equality) blast+
      with False l(1) show ?thesis by auto
    qed (use 2 in \<open>simp add: offset_bits_zero_Cons\<close>)
  qed simp
  moreover have c: "i \<in> offset_bits k (map NOT xs) \<longleftrightarrow> k * 64 \<le> i \<and> i < (k + length xs) * 64 \<and> i \<notin> offset_bits k xs" for i
  proof (cases "k * 64 \<le> i")
    case True
    then obtain j where j: "i = k * 64 + j" by (auto simp: le_iff_add)
    show ?thesis
    proof (cases "j div 64 < length xs")
      case True
      then have "j < length xs * 64" by (simp add: div_less_iff_less_mult)
      then show ?thesis using bit_at_not [OF True] by (simp add: offset_bits_def j)
    next
      case False
      then have "\<not> j < length xs * 64" by (simp add: div_less_iff_less_mult)
      then show ?thesis using False by (auto simp: offset_bits_def j bit_at_def)
    qed
  qed (simp add: offset_bits_def)
  moreover have "(k + length xs) * 64 \<notin> offset_bits k xs" by (simp add: offset_bits_def bit_at_def)
  ultimately show ?thesis
  proof (cases "offset_bits k (map NOT xs) = {}")
    case True
    then have "first_clear_from k xs = (k + length xs) * 64"
      using \<open>first_clear_from k xs = _\<close> by simp
    moreover have "(LEAST i. k * 64 \<le> i \<and> i \<notin> offset_bits k xs) = (k + length xs) * 64"
      using True c \<open>(k + length xs) * 64 \<notin> _\<close> by (intro Least_equality) (auto simp: not_less [symmetric])
    ultimately show ?thesis by simp
  next
    case False
    let ?m = "LEAST i. i \<in> offset_bits k (map NOT xs)"
    obtain i where i: "i \<in> offset_bits k (map NOT xs)" using False by blast
    have m: "?m \<in> offset_bits k (map NOT xs)" using i by (rule LeastI)
    have "(LEAST i. k * 64 \<le> i \<and> i \<notin> offset_bits k xs) = ?m"
    proof (rule Least_equality)
      show "k * 64 \<le> ?m \<and> ?m \<notin> offset_bits k xs" using m c by blast
      fix i assume i: "k * 64 \<le> i \<and> i \<notin> offset_bits k xs"
      show "?m \<le> i"
      proof (cases "i < (k + length xs) * 64")
        case True
        with i c have "i \<in> offset_bits k (map NOT xs)" by blast
        then show ?thesis by (rule Least_le)
      next
        case False
        then show ?thesis using m c [of ?m] by simp
      qed
    qed
    then show ?thesis using False \<open>first_clear_from k xs = _\<close> by simp
  qed
qed

lemma bits_high_part:
  "i div 64 < length (words a) \<Longrightarrow>
    offset_bits (i div 64) (push_bit (i mod 64) (drop_bit (i mod 64) (words a ! (i div 64))) # drop (i div 64 + 1) (words a))
      = {j \<in> bits a. i \<le> j}"
proof (rule set_eqI)
  assume i: "i div 64 < length (words a)"
  let ?t = "push_bit (i mod 64) (drop_bit (i mod 64) (words a ! (i div 64)))"
  have t: "bit ?t b \<longleftrightarrow> i mod 64 \<le> b \<and> i div 64 * 64 + b \<in> bits a \<and> b < 64" for b
    using bit_word_at [OF i, of b] by (cases "b < 64") (auto simp: bit_simps)
  fix j
  define q r where "q = i div 64" and "r = i mod 64"
  have split: "i = q * 64 + r" "r < 64" by (simp_all add: q_def r_def)
  note t' = t [folded q_def r_def]
  show "j \<in> offset_bits (i div 64) (?t # drop (i div 64 + 1) (words a)) \<longleftrightarrow> j \<in> {j \<in> bits a. i \<le> j}"
    unfolding offset_bits_Cons Suc_eq_plus1 offset_bits_drop q_def [symmetric] r_def [symmetric]
  proof (cases "(q + 1) * 64 \<le> j")
    case True
    then have "i \<le> j" using split by simp
    have "j \<notin> (\<lambda>b. q * 64 + b) ` {b. bit (push_bit r (drop_bit r (words a ! q))) b}"
    proof
      assume "j \<in> (\<lambda>b. q * 64 + b) ` {b. bit (push_bit r (drop_bit r (words a ! q))) b}"
      then obtain b where "j = q * 64 + b" "b < 64" using t' by blast
      with True show False by simp
    qed
    with \<open>i \<le> j\<close> True show "j \<in> (\<lambda>b. q * 64 + b) ` {b. bit (push_bit r (drop_bit r (words a ! q))) b}
        \<union> {i \<in> bits a. (q + 1) * 64 \<le> i} \<longleftrightarrow> j \<in> {j \<in> bits a. i \<le> j}"
      by (simp only: Un_iff mem_Collect_eq simp_thms)
  next
    case False
    then have up: "j < q * 64 + 64" by simp
    have "i \<le> j \<and> j \<in> bits a \<longleftrightarrow> j \<in> (\<lambda>b. q * 64 + b) ` {b. bit (push_bit r (drop_bit r (words a ! q))) b}"
    proof
      assume ij: "i \<le> j \<and> j \<in> bits a"
      then have "j = q * 64 + (j - q * 64)" "r \<le> j - q * 64" "j - q * 64 < 64" using split up by linarith+
      with ij t' [of "j - q * 64"] show "j \<in> (\<lambda>b. q * 64 + b) ` {b. bit (push_bit r (drop_bit r (words a ! q))) b}"
        by (intro image_eqI [of _ _ "j - q * 64"]) simp_all
    next
      assume "j \<in> (\<lambda>b. q * 64 + b) ` {b. bit (push_bit r (drop_bit r (words a ! q))) b}"
      then obtain b where "j = q * 64 + b" "bit (push_bit r (drop_bit r (words a ! q))) b" by blast
      with t' [of b] split show "i \<le> j \<and> j \<in> bits a" by simp
    qed
    with False show "j \<in> (\<lambda>b. q * 64 + b) ` {b. bit (push_bit r (drop_bit r (words a ! q))) b}
        \<union> {i \<in> bits a. (q + 1) * 64 \<le> i} \<longleftrightarrow> j \<in> {j \<in> bits a. i \<le> j}"
      by (simp only: Un_iff mem_Collect_eq simp_thms) blast
  qed
qed

lemma next_set_least:
  "clib_bitmap_next_set a i =
    (if {j \<in> bits a. i \<le> j} = {} then infinity else LEAST j. j \<in> bits a \<and> i \<le> j)"
proof (cases "i div 64 < length (words a)")
  case True
  let ?t = "push_bit (i mod 64) (drop_bit (i mod 64) (words a ! (i div 64)))"
  let ?r = "drop (i div 64 + 1) (words a)"
  have "clib_bitmap_next_set a i = first_set_from (i div 64) (?t # ?r)"
    using True by (simp add: clib_bitmap_next_set_def Let_def)
  then show ?thesis unfolding first_set_from_least bits_high_part [OF True] mem_Collect_eq .
next
  case False
  then have "{j \<in> bits a. i \<le> j} = {}"
    using bits_in_range [of _ a] by (fastforce simp: div_less_iff_less_mult)
  with False show ?thesis by (simp add: clib_bitmap_next_set_def Let_def)
qed

lemma next_clear_from_eq:
  "next_clear_from i k xs = (if offset_bits k (map NOT xs) = {} then i else first_set_from k (map NOT xs))"
proof (induction i k xs rule: next_clear_from.induct)
  case (2 i k x xs)
  show ?case
  proof (cases "NOT x = 0")
    case False
    then have "offset_bits k (NOT x # map NOT xs) \<noteq> {}" using Least_offset_Cons(1) by blast
    with False show ?thesis by simp
  qed (use 2 in \<open>simp add: offset_bits_zero_Cons\<close>)
qed simp

lemma bits_complement:
  "j \<in> bits (Some (map NOT (words a))) \<longleftrightarrow> j < length (words a) * 64 \<and> j \<notin> bits a"
proof (cases "j div 64 < length (words a)")
  case True
  then have "j < length (words a) * 64" by (simp add: div_less_iff_less_mult)
  with True show ?thesis by (simp add: bits_def bit_at_not)
next
  case False
  then have "\<not> j < length (words a) * 64" by (simp add: div_less_iff_less_mult)
  with False show ?thesis by (simp add: bits_def bit_at_def)
qed

lemma next_clear_least:
  "clib_bitmap_next_clear a i =
    (if \<exists>j < length (words a) * 64. i \<le> j \<and> j \<notin> bits a then LEAST j. i \<le> j \<and> j \<notin> bits a else i)"
proof (cases "i div 64 < length (words a)")
  case True
  let ?c = "Some (map NOT (words a))"
  let ?t = "push_bit (i mod 64) (drop_bit (i mod 64) (words ?c ! (i div 64)))"
  let ?r = "drop (i div 64 + 1) (words ?c)"
  have "clib_bitmap_next_clear a i =
      (if offset_bits (i div 64) (?t # ?r) = {} then i else first_set_from (i div 64) (?t # ?r))"
    using True Least_offset_Cons(1) [of ?t "i div 64" ?r]
    by (auto simp: clib_bitmap_next_clear_def Let_def next_clear_from_eq drop_map offset_bits_zero_Cons add.commute)
  also have "offset_bits (i div 64) (?t # ?r) = {j. j < length (words a) * 64 \<and> j \<notin> bits a \<and> i \<le> j}"
    using bits_high_part [of i ?c] True bits_complement [of _ a] by auto
  finally have *: "clib_bitmap_next_clear a i =
      (if {j. j < length (words a) * 64 \<and> j \<notin> bits a \<and> i \<le> j} = {} then i
       else LEAST j. j < length (words a) * 64 \<and> j \<notin> bits a \<and> i \<le> j)"
    unfolding first_set_from_least
    using bits_high_part [of i ?c] True bits_complement [of _ a] by (auto split: if_splits)
  show ?thesis
  proof (cases "\<exists>j < length (words a) * 64. i \<le> j \<and> j \<notin> bits a")
    case ex: True
    let ?P = "\<lambda>j. j < length (words a) * 64 \<and> j \<notin> bits a \<and> i \<le> j"
    from ex have P: "?P (LEAST j. ?P j)" by (metis (mono_tags, lifting) LeastI)
    have "(LEAST j. i \<le> j \<and> j \<notin> bits a) = (LEAST j. ?P j)"
    proof (rule Least_equality)
      show "i \<le> (LEAST j. ?P j) \<and> (LEAST j. ?P j) \<notin> bits a" using P by blast
      fix j assume j: "i \<le> j \<and> j \<notin> bits a"
      show "(LEAST j. ?P j) \<le> j"
        using j P by (cases "j < length (words a) * 64") (auto intro: Least_le order.strict_implies_order)
    qed
    with ex * show ?thesis by auto
  next
    case False
    with * show ?thesis by auto
  qed
next
  case False
  then have "\<not> (\<exists>j < length (words a) * 64. i \<le> j \<and> j \<notin> bits a)"
    by (auto simp: div_less_iff_less_mult)
  with False show ?thesis by (simp only: clib_bitmap_next_clear_def Let_def if_False)
qed

lemma card_offset_bits_Cons: "card (offset_bits k (x # xs)) = card {b. bit x b} + card (offset_bits (Suc k) xs)"
proof -
  have "finite (offset_bits (Suc k) xs)"
    by (metis List.finite_set foreach_from_props(1))
  moreover have "(\<lambda>b. k * 64 + b) ` {b. bit x b} \<inter> offset_bits (Suc k) xs = {}"
    by (auto simp: offset_bits_def dest: bit_u64_lt)
  moreover have "card ((\<lambda>b. k * 64 + b) ` {b. bit x b}) = card {b. bit x b}"
    by (rule card_image) (simp add: inj_on_def)
  ultimately show ?thesis by (simp add: offset_bits_Cons card_Un_disjoint)
qed

lemma count_set_bits_eq: "clib_bitmap_count_set_bits a = of_nat (card (bits a))"
proof -
  have *: "fold (\<lambda>w n_set. n_set + count_set_bits w) xs n = n + of_nat (card (offset_bits k xs))" for xs n k
  proof (induction xs arbitrary: n k)
    case (Cons x xs)
    show ?case using Cons.IH [of "n + count_set_bits x" "Suc k"]
      by (simp add: card_offset_bits_Cons count_set_bits_card)
  qed simp
  show ?thesis using * [of "words a" 0 0] by (simp add: clib_bitmap_count_set_bits_def bits_offset)
qed

subsection \<open>Several bits at a time\<close>

lemma bit_exp_minus_1: "n \<le> 64 \<Longrightarrow> bit (2 ^ n - 1 :: uword) j \<longleftrightarrow> j < n"
  unfolding mask_eq_exp_minus_1 [symmetric] by (auto simp: bit_mask_iff)

lemma pow2_mask_bits: "n \<le> 64 \<Longrightarrow> bit (pow2_mask n) j \<longleftrightarrow> j < n"
  by (simp add: pow2_mask_def bit_exp_minus_1)

lemma bits_shifted:
  assumes "r < 64" and "j < 64"
  shows "q * 64 + r + j \<in> bits a \<longleftrightarrow>
    (if r + j < 64 then q < length (words a) \<and> bit (words a ! q) (r + j)
     else Suc q < length (words a) \<and> bit (words a ! Suc q) (r + j - 64))"
proof (cases "r + j < 64")
  case True
  then have "(q * 64 + r + j) div 64 = q" "(q * 64 + r + j) mod 64 = r + j" by (simp_all add: add.assoc)
  with True show ?thesis by (simp add: bits_def bit_at_def)
next
  case False
  then obtain s where s: "r + j = 64 + s" by (metis le_iff_add not_less)
  with assms have "s < 64" by simp
  moreover have e: "q * 64 + r + j = s + Suc q * 64" using s by simp
  ultimately have "(q * 64 + r + j) div 64 = Suc q" "(q * 64 + r + j) mod 64 = s"
    unfolding e mod_mult_self1 by simp_all
  with False s show ?thesis by (simp add: bits_def bit_at_def)
qed

lemma bit_get_multiple:
  assumes "n \<le> 64"
  shows "bit (clib_bitmap_get_multiple a i n) j \<longleftrightarrow> j < n \<and> i + j \<in> bits a"
proof (cases "j < 64")
  case True
  define q r where "q = i div 64" and "r = i mod 64"
  have r: "r < 64" and i: "i = q * 64 + r" by (simp_all add: q_def r_def)
  let ?f = "if q < length (words a)
    then let x = drop_bit r (words a ! q) in if n < 64 then x AND (push_bit n 1 - 1) else x else 0"
  let ?s = "push_bit (64 - r) (words a ! Suc q AND (push_bit (n - (64 - r)) 1 - 1))"
  have f: "bit ?f j \<longleftrightarrow> q < length (words a) \<and> bit (words a ! q) (r + j) \<and> j < n"
    using True assms by (auto simp: bit_and_iff bit_drop_bit_eq bit_exp_minus_1 Let_def)
  have s: "bit ?s j \<longleftrightarrow> 64 \<le> r + j \<and> bit (words a ! Suc q) (r + j - 64) \<and> r + j - 64 < n - (64 - r)"
    using True r assms by (auto simp: bit_push_bit_iff bit_and_iff bit_exp_minus_1 diff_diff_right le_diff_conv add.commute [of j r])
  have "clib_bitmap_get_multiple a i n = (if 64 < r + n \<and> Suc q < length (words a) then ?f OR ?s else ?f)"
    by (simp only: clib_bitmap_get_multiple_def Let_def q_def r_def Suc_eq_plus1)
  then have "bit (clib_bitmap_get_multiple a i n) j \<longleftrightarrow>
      bit ?f j \<or> (64 < r + n \<and> Suc q < length (words a) \<and> bit ?s j)"
    by (simp only: bit_or_iff split: if_split) blast
  also have "\<dots> \<longleftrightarrow> j < n \<and> i + j \<in> bits a"
    unfolding f s i bits_shifted [OF r True] using r True by (auto dest: bit_u64_lt split: if_splits)
  finally show ?thesis .
qed (use assms in auto)

text \<open>Insertion of the \<open>n\<close> low bits of a value at position \<open>r\<close> of a word, cut at its end.\<close>

lemma bit_insert:
  assumes "m = (if n < 64 then push_bit n 1 - 1 else NOT 0)" and "n \<le> 64" and "j < 64" and "r < 64"
  shows "bit ((t AND NOT (push_bit r m)) OR push_bit r (v AND m) :: uword) j \<longleftrightarrow>
    (if r \<le> j \<and> j < r + n then bit v (j - r) else bit t j)"
proof -
  have "bit m k \<longleftrightarrow> k < n" if "k < 64" for k
    using assms(1,2) that by (auto simp: bit_exp_minus_1 bit_not_iff)
  then show ?thesis using assms(3,4)
    by (auto simp: bit_or_iff bit_and_iff bit_not_iff bit_push_bit_iff)
qed

lemma words_set_word_nth: "k < length (words a) \<Longrightarrow> words (set_word a k w) ! j = (if j = k then w else words a ! j)"
  by (simp add: words_set_word nth_list_update)

lemma length_set_word [simp]: "length (words (set_word a k w)) = length (words a)"
  by (simp add: words_set_word)

lemma bits_insert_first:
  assumes n: "n \<le> 64" and q: "i div 64 < length (words b)"
    and m: "m = (if n < 64 then push_bit n 1 - 1 else NOT 0)"
  shows "k \<in> bits (set_word b (i div 64)
      ((words b ! (i div 64) AND NOT (push_bit (i mod 64) m)) OR push_bit (i mod 64) (v AND m))) \<longleftrightarrow>
    (if k div 64 = i div 64 \<and> i \<le> k \<and> k < i + n then bit v (k - i) else k \<in> bits b)"
proof (cases "k div 64 = i div 64")
  case True
  define j r where "j = k mod 64" and "r = i mod 64"
  have j: "j < 64" "r < 64" by (simp_all add: j_def r_def)
  have kj: "k = i div 64 * 64 + j" using div_mult_mod_eq [of k 64] True by (simp add: j_def)
  have "i = i div 64 * 64 + r" by (simp add: r_def)
  with kj have k: "k - i = j - r" "i \<le> k \<longleftrightarrow> r \<le> j" "k < i + n \<longleftrightarrow> j < r + n" by linarith+
  have w: "bit (words b ! (i div 64)) j \<longleftrightarrow> k \<in> bits b"
    using bit_word_at [OF q j(1)] kj by simp
  show ?thesis
    unfolding bits_set_word [OF q] True r_def [symmetric] j_def [symmetric] bit_insert [OF m n j] w k by simp
qed (simp add: bits_set_word [OF q])

lemma bits_insert_second:
  assumes n: "n \<le> 64" and q: "Suc (i div 64) < length (words b)" and over: "64 < i mod 64 + n"
    and m: "m = (if n < 64 then push_bit n 1 - 1 else NOT 0)"
  shows "k \<in> bits (set_word b (Suc (i div 64))
      ((words b ! Suc (i div 64) AND NOT (push_bit (n - (64 - i mod 64)) 1 - 1))
        OR drop_bit (64 - i mod 64) (v AND m))) \<longleftrightarrow>
    (if k div 64 = Suc (i div 64) \<and> i \<le> k \<and> k < i + n then bit v (k - i) else k \<in> bits b)"
proof (cases "k div 64 = Suc (i div 64)")
  case True
  define j r where "j = k mod 64" and "r = i mod 64"
  have j: "j < 64" "r < 64" by (simp_all add: j_def r_def)
  have kj: "k = i div 64 * 64 + 64 + j" using div_mult_mod_eq [of k 64] True by (simp add: j_def)
  have "i = i div 64 * 64 + r" by (simp add: r_def)
  with kj j have k: "k - i = 64 - r + j" "i \<le> k" "k < i + n \<longleftrightarrow> j < n - (64 - r)"
    using over [folded r_def] by linarith+
  have w: "bit (words b ! Suc (i div 64)) j \<longleftrightarrow> k \<in> bits b"
    using bit_word_at [OF q j(1)] kj by (simp add: add.commute)
  have "bit m l \<longleftrightarrow> l < n" if "l < 64" for l
    using n that by (auto simp: m bit_exp_minus_1 bit_not_iff)
  then have "bit ((words b ! Suc (i div 64) AND NOT (push_bit (n - (64 - r)) 1 - 1)) OR drop_bit (64 - r) (v AND m)) j
      \<longleftrightarrow> (if j < n - (64 - r) then bit v (64 - r + j) else bit (words b ! Suc (i div 64)) j)"
    using n j over by (auto simp: bit_or_iff bit_and_iff bit_not_iff bit_drop_bit_eq bit_exp_minus_1 r_def dest: bit_u64_lt)
  then show ?thesis
    unfolding bits_set_word [OF q] True r_def [symmetric] j_def [symmetric] w k using k(2) by simp
qed (simp add: bits_set_word [OF q])

lemma bits_set_multiple:
  assumes n: "n \<le> 64"
  shows "k \<in> bits (clib_bitmap_set_multiple a i v n) \<longleftrightarrow>
    (if i \<le> k \<and> k < i + n then bit v (k - i) else k \<in> bits a)"
proof -
  define b where "b = clib_bitmap_vec_validate a ((i + n) div 64)"
  define m where "m = (if n < 64 then push_bit n 1 - 1 else NOT 0 :: uword)"
  define c where "c = set_word b (i div 64)
      ((words b ! (i div 64) AND NOT (push_bit (i mod 64) m)) OR push_bit (i mod 64) (v AND m))"
  have bits_b: "bits b = bits a" and len: "(i + n) div 64 < length (words b)"
    by (simp_all add: b_def length_validate)
  have "i div 64 \<le> (i + n) div 64" by (rule div_le_mono) simp
  with len have q: "i div 64 < length (words b)" by simp
  note c = bits_insert_first [OF n q m_def, of k v, folded c_def, unfolded bits_b]
  show ?thesis
  proof (cases "64 < i mod 64 + n")
    case True
    then have "Suc (i div 64) * 64 \<le> i + n" by (cases i rule: split_64) simp
    then have "Suc (i div 64) \<le> (i + n) div 64" by (simp only: less_eq_div_iff_mult_less_eq zero_less_numeral)
    then have q1: "Suc (i div 64) < length (words c)" using len by (simp add: c_def)
    have "clib_bitmap_set_multiple a i v n = set_word c (Suc (i div 64))
      ((words c ! Suc (i div 64) AND NOT (push_bit (n - (64 - i mod 64)) 1 - 1))
        OR drop_bit (64 - i mod 64) (v AND m))"
      using True q1 unfolding clib_bitmap_set_multiple_def Let_def c_def m_def b_def
      by (simp only: Suc_eq_plus1 simp_thms if_True length_set_word)
    moreover have "i \<le> k \<and> k < i + n \<Longrightarrow> k div 64 = i div 64 \<or> k div 64 = Suc (i div 64)"
      using div_le_mono [of i k 64] div_le_mono [of k "i + 64" 64] n by auto
    ultimately show ?thesis using bits_insert_second [OF n q1 True m_def, of k v] c by auto
  next
    case False
    then have "clib_bitmap_set_multiple a i v n = c"
      unfolding clib_bitmap_set_multiple_def Let_def c_def m_def b_def by (simp only: simp_thms if_False)
    moreover have "k div 64 = i div 64" if "i \<le> k \<and> k < i + n"
    proof -
      have "k < Suc (i div 64) * 64" using False that by (cases i rule: split_64) simp
      then have "k div 64 < Suc (i div 64)" by (simp only: div_less_iff_less_mult zero_less_numeral)
      with div_le_mono [of i k 64] that show ?thesis by simp
    qed
    ultimately show ?thesis using c by auto
  qed
qed

lemma max_Suc_div: "max (Suc q) b = b \<longleftrightarrow> Suc q \<le> b"
  by auto

lemma bits_set_or_clear:
  assumes "q < length (words b)"
  shows "k \<in> bits (set_word b q (set_or_clear v (words b ! q) m)) \<longleftrightarrow>
    (if k div 64 = q \<and> bit m (k mod 64) then v \<noteq> 0 else k \<in> bits b)"
proof (cases k rule: split_64)
  case (1 p r)
  have "bit (words b ! q) r \<longleftrightarrow> k \<in> bits b" if "p = q"
    using bit_word_at [OF assms, of r] 1 that by simp
  then show ?thesis unfolding bits_set_word [OF assms] 1(3,4)
    by (auto simp: set_or_clear_def bit_or_iff bit_and_iff bit_not_iff)
qed

lemma set_region_defined:
  "clib_bitmap_set_region a i v n = None \<longleftrightarrow> Suc (i div 64) < (i + n) div 64"
proof -
  define b where "b = (i + n) div 64"
  have n: "n - (64 - i mod 64) < 64 \<longleftrightarrow> b \<le> Suc (i div 64)" if "Suc (i div 64) \<le> b"
  proof -
    have "Suc (i div 64) * 64 \<le> i + n"
      using that by (simp only: b_def less_eq_div_iff_mult_less_eq zero_less_numeral)
    moreover have "b < Suc (Suc (i div 64)) \<longleftrightarrow> i + n < Suc (Suc (i div 64)) * 64"
      by (simp only: b_def div_less_iff_less_mult zero_less_numeral)
    ultimately show ?thesis by (cases i rule: split_64) (auto simp: less_Suc_eq_le)
  qed
  have "clib_bitmap_set_region a i v n = None \<longleftrightarrow> Suc (i div 64) \<le> b \<and> \<not> n - (64 - i mod 64) < 64"
    by (simp only: clib_bitmap_set_region_def Let_def b_def [symmetric] Suc_eq_plus1 [symmetric] max_Suc_div)
      (simp split: if_split)
  then show ?thesis using n by (auto simp: b_def)
qed

lemma bits_set_region:
  assumes "clib_bitmap_set_region a i v n = Some c"
  shows "k \<in> bits c \<longleftrightarrow> (if i \<le> k \<and> k < i + n then v \<noteq> 0 else k \<in> bits a)"
proof -
  define q r where "q = i div 64" and "r = i mod 64"
  have i: "i = q * 64 + r" and r: "r < 64" by (simp_all add: q_def r_def)
  define b where "b = clib_bitmap_vec_validate a ((i + n) div 64)"
  define m where "m = (if n < 64 then pow2_mask n else NOT 0)"
  define d where "d = set_word b q (set_or_clear v (words b ! q) (push_bit r m))"
  have le: "(i + n) div 64 \<le> Suc q" using assms set_region_defined [of a i v n] by (auto simp: q_def)
  have "q \<le> (i + n) div 64" unfolding q_def by (rule div_le_mono) simp
  then have q: "q < length (words b)" and q1: "(i + n) div 64 = Suc q \<Longrightarrow> Suc q < length (words b)"
    by (simp_all add: b_def length_validate)
  have m: "bit m l \<longleftrightarrow> l < n" if "l < 64" for l
    using that by (auto simp: m_def pow2_mask_bits bit_not_iff)
  have first: "k \<in> bits d \<longleftrightarrow> (if k div 64 = q \<and> i \<le> k \<and> k < i + n then v \<noteq> 0 else k \<in> bits a)"
  proof -
    have "bit (push_bit r m) (k mod 64) \<longleftrightarrow> i \<le> k \<and> k < i + n" if "k div 64 = q"
    proof -
      have "k = q * 64 + k mod 64" using div_mult_mod_eq [of k 64] that by simp
      then have "i \<le> k \<longleftrightarrow> r \<le> k mod 64" "k < i + n \<longleftrightarrow> k mod 64 < r + n" using i by linarith+
      then show ?thesis using m [of "k mod 64 - r"] by (auto simp: bit_push_bit_iff)
    qed
    then show ?thesis unfolding d_def bits_set_or_clear [OF q] by (auto simp: b_def)
  qed
  show ?thesis
  proof (cases "(i + n) div 64 = Suc q")
    case True
    let ?n = "n - (64 - r)"
    have n: "Suc q * 64 \<le> i + n" "?n < 64"
      using div_mult_mod_eq [of "i + n" 64] True mod_less_divisor [of 64 "i + n"] i r by simp_all
    have "c = set_word d (Suc q) (set_or_clear v (words d ! Suc q) (pow2_mask ?n))"
      using assms True n(2) by (simp add: clib_bitmap_set_region_def Let_def q_def r_def b_def m_def d_def)
    moreover have "k < i + n \<longleftrightarrow> k mod 64 < ?n" if "k div 64 = Suc q"
      using div_mult_mod_eq [of k 64] that i n(1) r by simp linarith
    moreover have "i \<le> k" if "k div 64 = Suc q" using div_mult_mod_eq [of k 64] that i r by simp
    moreover have "k div 64 = q \<or> k div 64 = Suc q" if "i \<le> k \<and> k < i + n"
      using div_le_mono [of i k 64] div_le_mono [of k "i + n" 64] that True by (auto simp: q_def)
    ultimately show ?thesis
      using bits_set_or_clear [of "Suc q" d k v "pow2_mask ?n"] q1 [OF True] n(2) first
      by (auto simp: pow2_mask_bits d_def)
  next
    case False
    then have "c = d" using assms le
      by (simp add: clib_bitmap_set_region_def Let_def q_def r_def b_def m_def d_def max_Suc_div split: if_splits)
    moreover have "k div 64 = q" if "i \<le> k \<and> k < i + n"
      using div_le_mono [of i k 64] div_le_mono [of k "i + n" 64] that False le by (simp add: q_def)
    ultimately show ?thesis using first by auto
  qed
qed

subsection \<open>The operations on two bitmaps\<close>

definition hd0 :: "uword list \<Rightarrow> uword" where
  "hd0 bs = (if bs = [] then 0 else hd bs)"

lemma alu_step [step_simps]:
  "fst (alu_loop f (a # as) bs n) = f a (hd0 bs) # fst (alu_loop f as (tl bs) (if f a (hd0 bs) \<noteq> 0 then 0 else n + 1))"
  "snd (alu_loop f (a # as) bs n) = snd (alu_loop f as (tl bs) (if f a (hd0 bs) \<noteq> 0 then 0 else n + 1))"
  by (cases bs; simp add: Let_def hd0_def split: prod.split)+

lemma length_alu [simp]: "length (fst (alu_loop f xs ys n)) = length xs"
  by (induction xs arbitrary: ys n) (simp_all add: step_simps del: alu_loop.simps(2))

lemma nth_alu:
  "i < length xs \<Longrightarrow> fst (alu_loop f xs ys n) ! i = f (xs ! i) (if i < length ys then ys ! i else 0)"
proof (induction xs arbitrary: ys n i)
  case (Cons a as)
  show ?case
  proof (cases i)
    case 0
    then show ?thesis by (cases ys) (simp_all add: step_simps hd0_def del: alu_loop.simps(2))
  next
    case (Suc j)
    with Cons.prems have "j < length as" by simp
    from Cons.IH [OF this] Suc show ?thesis
      by (cases ys) (simp_all add: step_simps del: alu_loop.simps(2))
  qed
qed simp

text \<open>The number of zeros at the end of a list, the count before the list included if all are zero.\<close>

definition end_zeros :: "nat \<Rightarrow> uword list \<Rightarrow> nat" where
  "end_zeros n zs = (if list_all (\<lambda>w. w = 0) zs then n + length zs else length (takeWhile (\<lambda>w. w = 0) (rev zs)))"

lemma end_zeros_Cons: "end_zeros n (z # zs) = end_zeros (if z \<noteq> 0 then 0 else n + 1) zs"
  by (auto simp: end_zeros_def list_all_iff takeWhile_append)

lemma alu_zeros: "snd (alu_loop f xs ys n) = end_zeros n (fst (alu_loop f xs ys n))"
proof (induction xs arbitrary: ys n)
  case Nil
  then show ?case by (simp add: end_zeros_def)
next
  case (Cons a as)
  then show ?case by (simp add: step_simps end_zeros_Cons del: alu_loop.simps(2))
qed

lemma take_end_zeros: "take (length zs - end_zeros 0 zs) zs = rev (dropWhile (\<lambda>w. w = 0) (rev zs))"
proof (cases "list_all (\<lambda>w. w = 0) zs")
  case True
  then have "dropWhile (\<lambda>w. w = 0) (rev zs) = []" by (simp add: list_all_iff)
  with True show ?thesis by (simp add: end_zeros_def)
next
  case False
  then show ?thesis
    by (simp add: end_zeros_def) (metis dropWhile_eq_drop length_rev rev_drop rev_rev_ident)
qed

lemma trimmed_rev_dropWhile:
  assumes "words c = rev (dropWhile (\<lambda>w. w = 0) (rev zs))"
  shows "trimmed c"
proof (cases "dropWhile (\<lambda>w. w = 0) (rev zs) = []")
  case False
  then show ?thesis using hd_dropWhile [OF False] by (simp add: trimmed_def assms last_rev)
qed (simp add: trimmed_def assms)

lemma bit_at_rev_dropWhile: "bit_at (rev (dropWhile (\<lambda>w. w = 0) (rev zs))) i \<longleftrightarrow> bit_at zs i"
proof (induction zs rule: rev_induct)
  case (snoc z zs)
  then show ?case
    using bit_at_append [of zs "[0]" i] bit_at_zeros [of 1 "i - length zs * 64"] by simp
qed (simp add: bit_at_def)

lemma bit_at_alu:
  assumes "\<And>a b i. i < 64 \<Longrightarrow> bit (f a b) i \<longleftrightarrow> g (bit a i) (bit b i)" and "length ys \<le> length xs"
  shows "bit_at (fst (alu_loop f xs ys n)) i \<longleftrightarrow> i div 64 < length xs \<and> g (bit_at xs i) (bit_at ys i)"
  using assms(2) by (cases "i div 64 < length ys") (simp_all add: bit_at_def nth_alu assms(1) conj_commute cong: conj_cong)

text \<open>
  What a word operation \<open>f\<close> that acts bit by bit as \<open>g\<close> does to two bitmaps. A null first
  argument with an empty second one is dereferenced when the trailing zeros are removed.
\<close>

lemma alu_None:
  "clib_bitmap_alu f z a b = None \<longleftrightarrow> z \<and> a = None \<and> words b = []"
  using validate_not_None [of a "length (words b) - 1"]
  by (auto simp: clib_bitmap_alu_def Let_def split: prod.split option.split)

lemma alu_Some:
  assumes "clib_bitmap_alu f z a b = Some c"
    and f: "\<And>a b i. i < 64 \<Longrightarrow> bit (f a b) i \<longleftrightarrow> g (bit a i) (bit b i)" and g: "\<not> g False False"
  shows "bits c = {i. g (i \<in> bits a) (i \<in> bits b)}" and "z \<Longrightarrow> trimmed c"
proof -
  let ?a = "if 0 < length (words b) then clib_bitmap_vec_validate a (length (words b) - 1) else a"
  let ?zs = "fst (alu_loop f (words ?a) (words b) 0)"
  have len: "length (words b) \<le> length (words ?a)" by (simp add: length_validate max_def)
  have a: "bits ?a = bits a" by simp
  have c: "words c = (if z then rev (dropWhile (\<lambda>w. w = 0) (rev ?zs)) else ?zs)"
    using assms(1) by (auto simp: clib_bitmap_alu_def Let_def case_prod_beta alu_zeros take_end_zeros simp del: length_alu
        split: option.splits if_splits)
  have mem: "i \<in> bits c \<longleftrightarrow> i div 64 < length (words ?a) \<and> g (i \<in> bits a) (i \<in> bits b)" for i
    unfolding a [symmetric] unfolding bits_def mem_Collect_eq c
    by (simp only: if_distrib [of "\<lambda>xs. bit_at xs i"] bit_at_rev_dropWhile if_cancel bit_at_alu [where f = f and g = g, OF f len])
  have out: "i \<notin> bits a" "i \<notin> bits b" if "\<not> i div 64 < length (words ?a)" for i
    using that len a by (auto simp: bits_def dest: bit_at_div)
  show "bits c = {i. g (i \<in> bits a) (i \<in> bits b)}"
  proof (rule set_eqI)
    fix i
    show "i \<in> bits c \<longleftrightarrow> i \<in> {i. g (i \<in> bits a) (i \<in> bits b)}"
    proof (cases "i div 64 < length (words ?a)")
      case False
      then show ?thesis unfolding mem mem_Collect_eq using out [OF False] g by (simp only: simp_thms)
    qed (simp only: mem mem_Collect_eq simp_thms)
  qed
  assume z
  with c show "trimmed c" by (intro trimmed_rev_dropWhile) simp
qed


section \<open>The interfaces the other components use\<close>

text \<open>
  A set of indices kept beside the list of its elements, as the free bitmap and the free list of a
  pool: the operations on single bits, and what keeps the two in agreement.
\<close>

locale bit_set =
  fixes get :: "'b \<Rightarrow> nat \<Rightarrow> bool" and ins :: "'b \<Rightarrow> nat \<Rightarrow> 'b" and rem :: "'b \<Rightarrow> nat \<Rightarrow> 'b" and null :: 'b
  assumes get_null: "\<not> get null j"
    and get_ins: "get (ins b i) j \<longleftrightarrow> j = i \<or> get b j"
    and get_rem: "get (rem b i) j \<longleftrightarrow> get b j \<and> j \<noteq> i"
begin

definition agrees :: "'b \<Rightarrow> nat list \<Rightarrow> bool" where
  "agrees b xs \<longleftrightarrow> distinct xs \<and> (\<forall>j. get b j \<longleftrightarrow> j \<in> set xs)"

lemma agrees_null: "agrees null []"
  by (simp add: agrees_def get_null)

lemma agrees_push: "agrees b xs \<Longrightarrow> \<not> get b i \<Longrightarrow> agrees (ins b i) (xs @ [i])"
  by (auto simp: agrees_def get_ins)

lemma agrees_pop: "agrees b (xs @ [i]) \<Longrightarrow> agrees (rem b i) xs"
  by (auto simp: agrees_def get_rem)

lemma agrees_get: "agrees b xs \<Longrightarrow> get b j \<longleftrightarrow> j \<in> set xs"
  by (simp add: agrees_def)

lemma agrees_cong: "agrees b xs \<Longrightarrow> (\<And>j. get c j \<longleftrightarrow> get b j) \<Longrightarrow> agrees c xs"
  by (simp add: agrees_def)

end

interpretation bm: bit_set clib_bitmap_get clib_bitmap_ori clib_bitmap_andnoti None
  by unfold_locales auto

text \<open>Runs of up to 64 bits stored at a bit position, as the compressed numbers of \<open>zvec.c\<close> are.\<close>

locale bit_store =
  fixes load :: "'b \<Rightarrow> nat \<Rightarrow> nat \<Rightarrow> uword" and store :: "'b \<Rightarrow> nat \<Rightarrow> uword \<Rightarrow> nat \<Rightarrow> 'b"
  assumes load_store_same: "n \<le> 64 \<Longrightarrow> load (store b i v n) i n = take_bit n v"
    and load_store_other:
      "n \<le> 64 \<Longrightarrow> m \<le> 64 \<Longrightarrow> k + m \<le> i \<or> i + n \<le> k \<Longrightarrow> load (store b i v n) k m = load b k m"
    and load_prefix: "m \<le> n \<Longrightarrow> n \<le> 64 \<Longrightarrow> load b i m = take_bit m (load b i n)"
begin

lemma load_store_prefix:
  assumes "m \<le> n" and "n \<le> 64" and "take_bit n v = v"
  shows "load (store b i v n) i m = take_bit m v"
  using load_prefix [OF assms(1,2), of "store b i v n" i] load_store_same [OF assms(2), of b i v] assms(3) by simp

end

interpretation bm_store: bit_store clib_bitmap_get_multiple clib_bitmap_set_multiple
proof
  fix n m i k :: nat and b and v :: uword
  show "n \<le> 64 \<Longrightarrow> clib_bitmap_get_multiple (clib_bitmap_set_multiple b i v n) i n = take_bit n v"
    by (rule bit_word_eqI) (auto simp: bit_get_multiple bits_set_multiple bit_take_bit_iff)
  show "n \<le> 64 \<Longrightarrow> m \<le> 64 \<Longrightarrow> k + m \<le> i \<or> i + n \<le> k \<Longrightarrow>
      clib_bitmap_get_multiple (clib_bitmap_set_multiple b i v n) k m = clib_bitmap_get_multiple b k m"
    by (rule bit_word_eqI) (auto simp: bit_get_multiple bits_set_multiple)
  show "m \<le> n \<Longrightarrow> n \<le> 64 \<Longrightarrow> clib_bitmap_get_multiple b i m = take_bit m (clib_bitmap_get_multiple b i n)"
    by (rule bit_word_eqI) (auto simp: bit_get_multiple bit_take_bit_iff)
qed

text \<open>The vector macro behind \<open>clib_bitmap_vec_validate\<close> does to the elements what the model does.\<close>

lemma clib_bitmap_vec_validate_refines:
  assumes "allocator alloc" and "vec_is 8 0 v (words a)" and "length (words a) < 2 ^ 32" and "i + 1 < 2 ^ 32"
  shows "vec_is 8 0 (vec_validate alloc 8 0 v i) (words (clib_bitmap_vec_validate a i))"
  using allocator.vec_validate_is [OF assms(1,2) _ assms(3,4)] by (simp add: words_validate)

lemma is_zero_iff: "clib_bitmap_is_zero a \<longleftrightarrow> bits a = {}"
proof
  assume e: "bits a = {}"
  have "w = 0" if "w \<in> set (words a)" for w
  proof -
    from that obtain k where "k < length (words a)" "w = words a ! k" by (auto simp: in_set_conv_nth)
    then show ?thesis using bit_word_at [of k a] e by (intro uword_eqI) simp
  qed
  then show "clib_bitmap_is_zero a" by (simp add: clib_bitmap_is_zero_def list_all_iff)
next
  assume "clib_bitmap_is_zero a"
  then have "words a ! k = 0" if "k < length (words a)" for k
    using that by (simp add: clib_bitmap_is_zero_def list_all_iff)
  then show "bits a = {}" by (simp add: bits_def bit_at_def)
qed

section \<open>Properties\<close>

text \<open>C29: setting a bit to a value changes that bit and no other, for every bitmap, position and
  value, writes beyond the end included, and keeps a bitmap without trailing zero words.\<close>

theorem bitmap_set_get:
  "(clib_bitmap_get (clib_bitmap_set a i v) j \<longleftrightarrow> (if j = i then v \<noteq> 0 else clib_bitmap_get a j))
    \<and> (trimmed a \<longrightarrow> trimmed (clib_bitmap_set a i v))"
  by (auto simp: bits_set trimmed_set)

theorem bitmap_set_get_witness:
  "trimmed (clib_bitmap_set None 70 1) \<and> \<not> clib_bitmap_get (clib_bitmap_set None 70 1) 3"
  using bitmap_set_get [of None 70 1 3] by (simp add: trimmed_def)

text \<open>C30: on bitmaps without trailing zero words, word by word comparison decides whether they hold
  the same set of bits, and a bitmap is zero only when it has no word at all.\<close>

theorem bitmap_is_equal_canonical:
  assumes "trimmed a" and "trimmed b"
  shows "clib_bitmap_is_equal a b \<longleftrightarrow> (\<forall>i. clib_bitmap_get a i = clib_bitmap_get b i)"
proof -
  have "clib_bitmap_is_equal a b \<longleftrightarrow> words a = words b"
    by (auto simp: clib_bitmap_is_equal_def list_all2_eq [symmetric])
  moreover have "words a = words b \<longleftrightarrow> bits a = bits b"
    using trimmed_eqI [OF assms] by (auto simp: bits_def)
  ultimately show ?thesis by auto
qed

theorem bitmap_is_equal_canonical_witness:
  "clib_bitmap_is_equal (clib_bitmap_set (clib_bitmap_set None 70 1) 70 0) None"
proof -
  have n: "trimmed None" by (simp add: trimmed_def)
  then have "trimmed (clib_bitmap_set (clib_bitmap_set None 70 1) 70 0)" by (intro trimmed_set)
  with n show ?thesis
    by (subst bitmap_is_equal_canonical) (simp_all add: bits_set)
qed

text \<open>C27: the operations on two bitmaps are intersection, difference, union and symmetric
  difference of their sets of bits; all but union remove trailing zero words, and for that
  dereference a null first argument when the second one is empty.\<close>

theorem bitmap_alu_sets:
  "(\<forall>c. clib_bitmap_and a b = Some c \<longrightarrow> bits c = bits a \<inter> bits b \<and> trimmed c)
   \<and> (\<forall>c. clib_bitmap_andnot a b = Some c \<longrightarrow> bits c = bits a - bits b \<and> trimmed c)
   \<and> (\<forall>c. clib_bitmap_xor a b = Some c \<longrightarrow> bits c = (bits a - bits b) \<union> (bits b - bits a) \<and> trimmed c)
   \<and> (\<exists>c. clib_bitmap_or a b = Some c \<and> bits c = bits a \<union> bits b)
   \<and> (clib_bitmap_and a b = None \<longleftrightarrow> a = None \<and> words b = [])
   \<and> (clib_bitmap_andnot a b = None \<longleftrightarrow> a = None \<and> words b = [])
   \<and> (clib_bitmap_xor a b = None \<longleftrightarrow> a = None \<and> words b = [])"
proof (intro conjI)
  show "\<forall>c. clib_bitmap_and a b = Some c \<longrightarrow> bits c = bits a \<inter> bits b \<and> trimmed c"
    using alu_Some [of "\<lambda>a b. a AND b" True a b _ "(\<and>)"] by (auto simp: clib_bitmap_and_def bit_and_iff)
  show "\<forall>c. clib_bitmap_andnot a b = Some c \<longrightarrow> bits c = bits a - bits b \<and> trimmed c"
    using alu_Some [of "\<lambda>a b. a AND NOT b" True a b _ "\<lambda>x y. x \<and> \<not> y"]
    by (auto simp: clib_bitmap_andnot_def bit_and_iff bit_not_iff)
  show "\<forall>c. clib_bitmap_xor a b = Some c \<longrightarrow> bits c = (bits a - bits b) \<union> (bits b - bits a) \<and> trimmed c"
    using alu_Some [of "\<lambda>a b. a XOR b" True a b _ "(\<noteq>)"] by (auto simp: clib_bitmap_xor_def bit_xor_iff)
  obtain c where c: "clib_bitmap_or a b = Some c"
    using alu_None [of "\<lambda>a b. a OR b" False a b] by (auto simp: clib_bitmap_or_def)
  then show "\<exists>c. clib_bitmap_or a b = Some c \<and> bits c = bits a \<union> bits b"
    using alu_Some(1) [of "\<lambda>a b. a OR b" False a b c "(\<or>)"] by (auto simp: clib_bitmap_or_def bit_or_iff)
qed (simp_all add: clib_bitmap_and_def clib_bitmap_andnot_def clib_bitmap_xor_def alu_None)

theorem bitmap_alu_sets_witness:
  "\<exists>c. clib_bitmap_or (Some [5]) (Some [3]) = Some c \<and> bits c = bits (Some [5]) \<union> bits (Some [3])"
  using bitmap_alu_sets [of "Some [5]" "Some [3]"] by blast

text \<open>C28: reading back up to 64 bits written at any position, also across a word boundary, gives the
  value cut to that many bits, and the write changes no bit outside the range.\<close>

theorem bitmap_multiple_round_trip:
  assumes "n \<le> 64"
  shows "clib_bitmap_get_multiple (clib_bitmap_set_multiple a i v n) i n = take_bit n v
    \<and> (\<forall>k. k < i \<or> i + n \<le> k \<longrightarrow>
        clib_bitmap_get (clib_bitmap_set_multiple a i v n) k = clib_bitmap_get a k)"
  using bm_store.load_store_same [OF assms] by (auto simp: bits_set_multiple [OF assms])

theorem bitmap_multiple_round_trip_witness:
  "clib_bitmap_get_multiple (clib_bitmap_set_multiple None 60 0x2a5 10) 60 10 = take_bit 10 0x2a5"
  using bitmap_multiple_round_trip [of 10 None 60 "0x2a5"] by simp

text \<open>C32: \<open>clib_bitmap_set_region\<close> sets exactly the bits of the region when the region ends in the
  word after its first one or before; for a longer region it shifts by 64 or more.\<close>

theorem bitmap_set_region_bits:
  "case clib_bitmap_set_region a i v n of
     None \<Rightarrow> i div 64 + 1 < (i + n) div 64
   | Some c \<Rightarrow> (i + n) div 64 \<le> i div 64 + 1 \<and>
       bits c = (if v \<noteq> 0 then bits a \<union> {i..<i + n} else bits a - {i..<i + n})"
proof (cases "clib_bitmap_set_region a i v n")
  case None
  then show ?thesis using set_region_defined [of a i v n] by simp
next
  case (Some c)
  have "bits c = (if v \<noteq> 0 then bits a \<union> {i..<i + n} else bits a - {i..<i + n})"
    using bits_set_region [OF Some] by (intro set_eqI) (simp split: if_split, blast)
  then show ?thesis using Some set_region_defined [of a i v n] by simp
qed

text \<open>C33: \<open>clib_bitmap_next_set\<close> returns the least set bit not below the position, infinity when
  there is none.\<close>

theorem bitmap_next_set_least:
  "clib_bitmap_next_set a i =
    (if \<exists>j. clib_bitmap_get a j \<and> i \<le> j then LEAST j. clib_bitmap_get a j \<and> i \<le> j else infinity)"
  using next_set_least [of a i] by auto

text \<open>\<open>clib_bitmap_next_clear\<close> returns the least clear bit not below the position as long as one
  of the bitmap's own words has it; otherwise it returns the position itself, which is then a
  set bit if it lies within the bitmap.\<close>

theorem bitmap_next_clear_cases:
  "clib_bitmap_next_clear a i =
    (if \<exists>j < length (words a) * 64. i \<le> j \<and> \<not> clib_bitmap_get a j
     then LEAST j. i \<le> j \<and> \<not> clib_bitmap_get a j else i)"
  unfolding get_iff by (rule next_clear_least)

text \<open>the iteration visits the set bits once each in increasing order, and the count is
  their number.\<close>

theorem bitmap_foreach_count:
  "clib_bitmap_foreach a = sorted_list_of_set (bits a)
    \<and> clib_bitmap_count_set_bits a = of_nat (length (clib_bitmap_foreach a))"
  by (simp add: foreach_eq count_set_bits_eq)

end
