(* ===== verification/Clib_Pool.thy ===== *)
theory Clib_Pool
  imports Clib_Bitmap
begin

text \<open>
  Pools of fixed size elements: \<open>src/clib/pool.h\<close>. A pool is a vector of elements whose user header
  holds a bitmap of the free indices and the list of the same indices, used as a stack. The null
  pool has no header; the memory of a new one is zero, so its header is null, too. The elements
  live in a vector of \<open>Clib_Vec\<close> with a header, the list of free indices (numbers below the
  vector's length, a \<open>u32\<close>) is the list of its elements, and the bitmap is one of \<open>Clib_Bitmap\<close>.
\<close>

section \<open>The macros of pool.h\<close>

record 'a pool =
  pool_vec :: "'a vec"
  free_bitmap :: bitmap
  free_indices :: "nat list"

definition null_pool :: "'a pool" where
  "null_pool = \<lparr>pool_vec = None, free_bitmap = None, free_indices = []\<rparr>"

definition pool_aligned_header_bytes :: nat where
  "pool_aligned_header_bytes = unat (round_pow2 (16 + 4) 8)"

text \<open>\<open>_vec_resize\<close> on a pool: a new vector comes with a zero header.\<close>

definition pool_resize :: "(nat \<Rightarrow> nat) \<Rightarrow> nat \<Rightarrow> 'a::zero pool \<Rightarrow> nat \<Rightarrow> nat \<Rightarrow> 'a pool" where
  "pool_resize alloc es p n data_bytes =
     (let q = (if pool_vec p = None then null_pool else p)
      in q\<lparr>pool_vec := vec_resize_raw alloc es pool_aligned_header_bytes (pool_vec p) n data_bytes\<rparr>)"

definition pool_validate :: "'a pool \<Rightarrow> bool" where
  "pool_validate p \<longleftrightarrow> pool_vec p = None \<or>
     (clib_bitmap_count_set_bits (free_bitmap p) = of_nat (length (free_indices p))
      \<and> list_all (\<lambda>i. clib_bitmap_get (free_bitmap p) i) (free_indices p))"

definition pool_header_validate_index :: "'a pool \<Rightarrow> nat \<Rightarrow> 'a pool" where
  "pool_header_validate_index p index =
     (if pool_vec p \<noteq> None
      then p\<lparr>free_bitmap := clib_bitmap_vec_validate (free_bitmap p) (index div 64)\<rparr> else p)"

definition pool_validate_index :: "(nat \<Rightarrow> nat) \<Rightarrow> nat \<Rightarrow> 'a::zero pool \<Rightarrow> nat \<Rightarrow> 'a pool" where
  "pool_validate_index alloc es p i =
     (let q = (if pool_vec p = None then null_pool else p);
          q = q\<lparr>pool_vec := vec_validate alloc es pool_aligned_header_bytes (pool_vec p) i\<rparr>
      in pool_header_validate_index q i)"

definition pool_elts :: "'a pool \<Rightarrow> nat" where
  "pool_elts p =
     (let ret = vec_len (pool_vec p)
      in if pool_vec p \<noteq> None then ret - length (free_indices p) else ret)"

text \<open>\<open>vec_capacity\<close> is in bytes, whatever the size of an element.\<close>

definition pool_free_elts :: "'a pool \<Rightarrow> nat" where
  "pool_free_elts p =
     (if pool_vec p \<noteq> None
      then length (free_indices p) + (vec_capacity (pool_vec p) - vec_len (pool_vec p)) else 0)"

definition pool_get :: "(nat \<Rightarrow> nat) \<Rightarrow> nat \<Rightarrow> 'a::zero pool \<Rightarrow> 'a pool \<times> nat" where
  "pool_get alloc es p =
     (let l = (if pool_vec p \<noteq> None then length (free_indices p) else 0) in
      if 0 < l
      then let i = free_indices p ! (l - 1)
           in (p\<lparr>free_bitmap := clib_bitmap_andnoti (free_bitmap p) i,
                 free_indices := take (l - 1) (free_indices p)\<rparr>, i)
      else let p = pool_resize alloc es p 1 ((vec_len (pool_vec p) + 1) * es)
           in (p, vec_len (pool_vec p) - 1))"

definition pool_is_free_index :: "'a pool \<Rightarrow> nat \<Rightarrow> bool" where
  "pool_is_free_index p i = (if i < vec_len (pool_vec p) then clib_bitmap_get (free_bitmap p) i else True)"

text \<open>The ASSERTs of \<open>pool_put\<close> guard against freeing what is not an element in use.\<close>

definition pool_put_index :: "'a pool \<Rightarrow> nat \<Rightarrow> 'a pool option" where
  "pool_put_index p l =
     (if \<not> l < vec_len (pool_vec p) \<or> pool_is_free_index p l then None
      else Some (p\<lparr>free_bitmap := clib_bitmap_ori (free_bitmap p) l,
                   free_indices := free_indices p @ [l mod 2 ^ 32]\<rparr>))"

definition pool_alloc :: "(nat \<Rightarrow> nat) \<Rightarrow> nat \<Rightarrow> 'a::zero pool \<Rightarrow> nat \<Rightarrow> 'a pool" where
  "pool_alloc alloc es p n = pool_resize alloc es p 0 ((vec_len (pool_vec p) + n) * es)"

definition pool_free :: "'a pool \<Rightarrow> 'a pool" where
  "pool_free p = null_pool"

text \<open>
  \<open>pool_foreach_region\<close>: the regions between free indices. The body of the model's loop runs on
  the successive values of \<open>hi\<close>: the free indices in the order \<open>first_set\<close> finds them word by
  word, then, for the word after the last, the length of the pool.
\<close>

fun region_loop :: "nat \<Rightarrow> nat list \<Rightarrow> (nat \<times> nat) list" where
  "region_loop lo [] = []"
| "region_loop lo (hi # his) = (if lo < hi then [(lo, hi)] else []) @ region_loop (hi + 1) his"

definition pool_foreach_region :: "'a pool \<Rightarrow> (nat \<times> nat) list" where
  "pool_foreach_region p =
     (let b = (if pool_vec p \<noteq> None then free_bitmap p else None);
          len = vec_len (pool_vec p)
      in region_loop 0 (clib_bitmap_foreach b @ [len]))"

definition pool_foreach :: "'a pool \<Rightarrow> nat list" where
  "pool_foreach p = concat (map (\<lambda>(lo, hi). [lo..<hi]) (pool_foreach_region p))"

definition pool_next_index :: "'a pool \<Rightarrow> nat \<Rightarrow> nat" where
  "pool_next_index p i =
     (let rv = i + 1
      in if rv < vec_len (pool_vec p) then clib_bitmap_next_clear (free_bitmap p) rv else infinity)"

definition pool_foreach_index :: "'a pool \<Rightarrow> nat list" where
  "pool_foreach_index p = filter (\<lambda>i. \<not> pool_is_free_index p i) [0..<vec_len (pool_vec p)]"

text \<open>Writing an element through the pointer the macros return.\<close>

definition pool_write :: "'a pool \<Rightarrow> nat \<Rightarrow> 'a \<Rightarrow> 'a pool" where
  "pool_write p i x = p\<lparr>pool_vec := vec_store (pool_vec p) i [x]\<rparr>"

section \<open>The invariant and the elements in use\<close>

definition live :: "'a pool \<Rightarrow> nat set" where
  "live p = {i. \<not> pool_is_free_index p i}"

definition pool_elt :: "'a pool \<Rightarrow> nat \<Rightarrow> 'a" where
  "pool_elt p i = vec_elts (pool_vec p) ! i"

definition pool_ok :: "nat \<Rightarrow> 'a pool \<Rightarrow> bool" where
  "pool_ok es p \<longleftrightarrow> vec_ok es pool_aligned_header_bytes (pool_vec p)
     \<and> vec_len (pool_vec p) < 2 ^ 32
     \<and> bm.agrees (free_bitmap p) (free_indices p)
     \<and> (\<forall>i \<in> set (free_indices p). i < vec_len (pool_vec p))"

lemma live_eq: "live p = {..<vec_len (pool_vec p)} - bits (free_bitmap p)"
  by (auto simp: live_def pool_is_free_index_def split: if_splits)

lemma pool_ok_free:
  assumes "pool_ok es p"
  shows "bits (free_bitmap p) = set (free_indices p)" and "distinct (free_indices p)"
    and "set (free_indices p) \<subseteq> {..<vec_len (pool_vec p)}"
  using assms by (auto simp: pool_ok_def bm.agrees_def)

lemma pool_ok_None: "pool_ok es p \<Longrightarrow> pool_vec p = None \<Longrightarrow> free_indices p = [] \<and> bits (free_bitmap p) = {}"
  using pool_ok_free [of es p] by auto

lemma null_pool_ok: "pool_ok es null_pool"
  by (simp add: pool_ok_def null_pool_def bm.agrees_null)

lemma card_live: "pool_ok es p \<Longrightarrow> card (live p) = pool_elts p"
  using pool_ok_free [of es p] pool_ok_None [of es p]
  by (simp add: live_eq pool_elts_def card_Diff_subset distinct_card Let_def)

context allocator begin

lemma pool_resize_ok:
  fixes p :: "'a::zero pool"
  assumes p: "pool_ok es p" and es: "0 < es" and n: "vec_len (pool_vec p) + n < 2 ^ 32" and m: "n \<le> m"
  shows "pool_ok es (pool_resize alloc es p n ((vec_len (pool_vec p) + m) * es))"
    and "vec_len (pool_vec (pool_resize alloc es p n ((vec_len (pool_vec p) + m) * es))) = vec_len (pool_vec p) + n"
    and "bits (free_bitmap (pool_resize alloc es p n ((vec_len (pool_vec p) + m) * es))) = bits (free_bitmap p)"
    and "i < vec_len (pool_vec p) \<Longrightarrow>
      pool_elt (pool_resize alloc es p n ((vec_len (pool_vec p) + m) * es)) i = pool_elt p i"
proof -
  let ?d = "(vec_len (pool_vec p) + m) * es"
  let ?v = "vec_resize_raw alloc es pool_aligned_header_bytes (pool_vec p) n ?d"
  have ok: "vec_ok es pool_aligned_header_bytes (pool_vec p)" using p by (simp add: pool_ok_def)
  note h = resize_holds [OF ok es n, of ?d]
  have v: "vec_ok es pool_aligned_header_bytes ?v" "vec_len ?v = vec_len (pool_vec p) + n"
    "vec_read ?v 0 (vec_len (pool_vec p)) = vec_elts (pool_vec p)"
    using h m length_vec_elts [OF ok] by (auto simp: holds_slots_def)
  have f: "free_indices (pool_resize alloc es p n ?d) = free_indices p"
    and b: "bits (free_bitmap (pool_resize alloc es p n ?d)) = bits (free_bitmap p)"
    and vec: "pool_vec (pool_resize alloc es p n ?d) = ?v"
    using pool_ok_None [OF p] by (auto simp: pool_resize_def null_pool_def Let_def)
  show "bits (free_bitmap (pool_resize alloc es p n ?d)) = bits (free_bitmap p)" by (rule b)
  show "vec_len (pool_vec (pool_resize alloc es p n ?d)) = vec_len (pool_vec p) + n" using v vec by simp
  have "bm.agrees (free_bitmap (pool_resize alloc es p n ?d)) (free_indices p)"
    by (rule bm.agrees_cong [of "free_bitmap p"]) (use p b in \<open>simp_all add: pool_ok_def\<close>)
  moreover have "i < vec_len ?v" if "i \<in> set (free_indices p)" for i
    using p that v(2) unfolding pool_ok_def by (metis trans_less_add1)
  ultimately show "pool_ok es (pool_resize alloc es p n ?d)"
    unfolding pool_ok_def vec f using v(1) v(2) n by metis
  assume i: "i < vec_len (pool_vec p)"
  have "take (vec_len (pool_vec p)) (vec_elts ?v) = vec_elts (pool_vec p)"
    using vec_read_elts [of 0 "vec_len (pool_vec p)" ?v] v by simp
  with i show "pool_elt (pool_resize alloc es p n ?d) i = pool_elt p i"
    unfolding pool_elt_def vec by (metis nth_take)
qed

lemma pool_get_new:
  assumes p: "pool_ok es p" and es: "0 < es" and small: "vec_len (pool_vec p) + 1 < 2 ^ 32"
    and e: "free_indices p = []" and get: "pool_get alloc es p = (p', i)"
  shows "pool_ok es p'" and "i = vec_len (pool_vec p)" and "live p' = insert i (live p)"
    and "\<forall>j \<in> live p. pool_elt p' j = pool_elt p j"
proof -
  note r = pool_resize_ok [OF p es small, of 1]
  have p': "p' = pool_resize alloc es p 1 ((vec_len (pool_vec p) + 1) * es)"
    and i: "i = vec_len (pool_vec p') - 1"
    using get unfolding pool_get_def Let_def e by (auto split: if_splits)
  show "pool_ok es p'" "i = vec_len (pool_vec p)" using r(1,2) p' i by simp_all
  show "live p' = insert i (live p)"
    using r(2,3) pool_ok_free(1) [OF p] e p' i by (auto simp: live_eq)
  show "\<forall>j \<in> live p. pool_elt p' j = pool_elt p j" using r(4) p' by (simp add: live_eq)
qed

end

lemma pool_get_reuse:
  assumes p: "pool_ok es p" and ne: "free_indices p \<noteq> []" and get: "pool_get alloc es p = (p', i)"
  shows "pool_ok es p'" and "i = last (free_indices p)" and "live p' = insert i (live p)" and "pool_vec p' = pool_vec p"
proof -
  have vec: "pool_vec p \<noteq> None" using pool_ok_None [OF p] ne by auto
  obtain ys where fi: "free_indices p = ys @ [last (free_indices p)]"
    using ne by (metis append_butlast_last_id)
  have i: "i = last (free_indices p)"
    and p': "p' = p\<lparr>free_bitmap := clib_bitmap_andnoti (free_bitmap p) i, free_indices := ys\<rparr>"
    using get ne vec fi by (auto simp: pool_get_def Let_def last_conv_nth)
  have "bm.agrees (clib_bitmap_andnoti (free_bitmap p) i) ys"
    using p fi i by (intro bm.agrees_pop) (simp add: pool_ok_def)
  moreover have "set ys \<subseteq> set (free_indices p)" by (subst fi) auto
  ultimately show "pool_ok es p'" using p by (auto simp: pool_ok_def p')
  have "i < vec_len (pool_vec p)" using pool_ok_free(3) [OF p] i ne by (meson last_in_set lessThan_iff subsetD)
  then show "live p' = insert i (live p)" by (auto simp: live_eq p')
  show "i = last (free_indices p)" "pool_vec p' = pool_vec p" by (simp_all add: i p')
qed

lemma pool_get_spec:
  assumes al: "allocator alloc" and p: "pool_ok es p" and es: "0 < es" and small: "vec_len (pool_vec p) + 1 < 2 ^ 32"
    and get: "pool_get alloc es p = (p', i)"
  shows "pool_ok es p'" and "i \<notin> live p" and "live p' = insert i (live p)"
    and "\<forall>j \<in> live p. pool_elt p' j = pool_elt p j"
proof -
  have "pool_ok es p' \<and> i \<notin> live p \<and> live p' = insert i (live p) \<and> (\<forall>j \<in> live p. pool_elt p' j = pool_elt p j)"
  proof (cases "free_indices p = []")
    case True
    note n = allocator.pool_get_new [OF al p es small True get]
    then show ?thesis by (auto simp: live_eq)
  next
    case False
    note n = pool_get_reuse [OF p False get]
    moreover have "i \<in> bits (free_bitmap p)" using n(2) pool_ok_free(1) [OF p] False by simp
    ultimately show ?thesis by (simp add: live_eq pool_elt_def)
  qed
  then show "pool_ok es p'" "i \<notin> live p" "live p' = insert i (live p)" "\<forall>j \<in> live p. pool_elt p' j = pool_elt p j"
    by blast+
qed

lemma pool_put_spec:
  assumes p: "pool_ok es p" and put: "pool_put_index p i = Some p'"
  shows "pool_ok es p'" and "i \<in> live p" and "live p' = live p - {i}" and "pool_vec p' = pool_vec p"
proof -
  have i: "i \<in> live p" and p': "p' = p\<lparr>free_bitmap := clib_bitmap_ori (free_bitmap p) i,
      free_indices := free_indices p @ [i mod 2 ^ 32]\<rparr>"
    using put by (auto simp: pool_put_index_def live_def split: if_splits)
  have lt: "i < vec_len (pool_vec p)" "i \<notin> bits (free_bitmap p)" using i by (simp_all add: live_eq)
  then have "i mod 2 ^ 32 = i" using p by (simp add: pool_ok_def)
  moreover have "bm.agrees (clib_bitmap_ori (free_bitmap p) i) (free_indices p @ [i])"
    using p lt by (intro bm.agrees_push) (simp_all add: pool_ok_def)
  ultimately show "pool_ok es p'" using p lt by (auto simp: pool_ok_def p')
  show "i \<in> live p" by (rule i)
  show "live p' = live p - {i}" "pool_vec p' = pool_vec p" by (auto simp: live_eq p')
qed

lemma pool_put_defined: "i \<in> live p \<Longrightarrow> pool_put_index p i \<noteq> None"
  by (auto simp: pool_put_index_def live_def pool_is_free_index_def split: if_splits)


section \<open>Iteration\<close>

lemma region_loop_covers:
  "sorted his \<Longrightarrow> distinct his \<Longrightarrow> \<forall>h \<in> set his. lo \<le> h \<and> h < len \<Longrightarrow>
    concat (map (\<lambda>(lo, hi). [lo..<hi]) (region_loop lo (his @ [len]))) = filter (\<lambda>i. i \<notin> set his) [lo..<len]"
proof (induction his arbitrary: lo)
  case (Cons h his)
  have h: "lo \<le> h" "h < len" "\<forall>x \<in> set his. h < x" using Cons.prems by (auto simp: order.strict_iff_order)
  then have "[lo..<len] = [lo..<h] @ h # [h + 1..<len]"
    by (metis Suc_eq_plus1 less_imp_le upt_add_eq_append upt_conv_Cons le_add_diff_inverse)
  moreover have "filter (\<lambda>i. i \<notin> set (h # his)) [lo..<h] = [lo..<h]"
    using h by (auto simp: filter_id_conv)
  moreover have "filter (\<lambda>i. i \<notin> set (h # his)) [h + 1..<len] = filter (\<lambda>i. i \<notin> set his) [h + 1..<len]"
    by (rule filter_cong) auto
  moreover have "concat (map (\<lambda>(lo, hi). [lo..<hi]) (region_loop (h + 1) (his @ [len])))
      = filter (\<lambda>i. i \<notin> set his) [h + 1..<len]"
    using Cons.prems h by (intro Cons.IH) auto
  ultimately show ?case by simp
qed simp

lemma pool_foreach_filter:
  assumes "pool_ok es p"
  shows "pool_foreach p = filter (\<lambda>i. i \<notin> bits (free_bitmap p)) [0..<vec_len (pool_vec p)]"
proof (cases "pool_vec p")
  case None
  then show ?thesis by (simp add: pool_foreach_def pool_foreach_region_def foreach_eq)
next
  case (Some v)
  have "\<forall>h \<in> bits (free_bitmap p). h < vec_len (pool_vec p)" using pool_ok_free [OF assms] by auto
  then show ?thesis using Some region_loop_covers [of "clib_bitmap_foreach (free_bitmap p)" 0 "vec_len (pool_vec p)"]
    by (simp add: pool_foreach_def pool_foreach_region_def foreach_eq Let_def)
qed

lemma filter_upt_eq_sorted_list: "filter P [0..<n] = sorted_list_of_set {i. i < n \<and> P i}"
proof -
  have "sorted_list_of_set (set (filter P [0..<n])) = filter P [0..<n]"
    by (rule sorted_list_of_set.idem_if_sorted_distinct) (simp_all add: sorted_wrt_filter)
  moreover have "set (filter P [0..<n]) = {i. i < n \<and> P i}" by auto
  ultimately show ?thesis by simp
qed

lemma live_set: "live p = {i. i < vec_len (pool_vec p) \<and> i \<notin> bits (free_bitmap p)}"
  by (auto simp: live_eq)

section \<open>Histories of a pool\<close>

text \<open>What a client does to a pool, operation by operation, from the null pool on.\<close>

inductive pool_step :: "(nat \<Rightarrow> nat) \<Rightarrow> nat \<Rightarrow> 'a::zero pool \<Rightarrow> 'a pool \<Rightarrow> bool" for alloc es where
  get: "vec_len (pool_vec p) + 1 < 2 ^ 32 \<Longrightarrow> pool_get alloc es p = (p', i) \<Longrightarrow> pool_step alloc es p p'"
| put: "pool_put_index p i = Some p' \<Longrightarrow> pool_step alloc es p p'"
| store: "i \<in> live p \<Longrightarrow> pool_step alloc es p (pool_write p i x)"
| alloc: "pool_step alloc es p (pool_alloc alloc es p n)"
| validate_index: "i + 1 < 2 ^ 32 \<Longrightarrow> pool_step alloc es p (pool_validate_index alloc es p i)"
| free: "pool_step alloc es p (pool_free p)"

inductive pool_reachable :: "(nat \<Rightarrow> nat) \<Rightarrow> nat \<Rightarrow> 'a::zero pool \<Rightarrow> bool" for alloc es where
  start: "pool_reachable alloc es null_pool"
| step: "pool_reachable alloc es p \<Longrightarrow> pool_step alloc es p p' \<Longrightarrow> pool_reachable alloc es p'"

lemma pool_write_ok:
  assumes "pool_ok es p" and "i < vec_len (pool_vec p)"
  shows "pool_ok es (pool_write p i x)" and "live (pool_write p i x) = live p"
  using assms vec_ok_store [of es pool_aligned_header_bytes "pool_vec p" i "[x]"]
  by (auto simp: pool_ok_def pool_write_def live_eq)

lemma pool_validate_index_ok:
  assumes al: "allocator alloc" and p: "pool_ok es p" and es: "0 < es" and i: "i + 1 < 2 ^ 32"
  shows "pool_ok es (pool_validate_index alloc es p i)"
    and "live (pool_validate_index alloc es p i) = live p \<union> {vec_len (pool_vec p)..i}"
proof -
  let ?H = pool_aligned_header_bytes
  let ?v = "vec_validate alloc es ?H (pool_vec p) i"
  have w: "vec_is es ?H (pool_vec p) (vec_elts (pool_vec p))" and "vec_len (pool_vec p) < 2 ^ 32"
    using p by (simp_all add: pool_ok_def vec_is_def)
  then have "length (vec_elts (pool_vec p)) < 2 ^ 32" using vec_is_len [OF w] by simp
  note u = allocator.vec_validate_is [OF al w es this i]
  have v: "vec_ok es ?H ?v" "vec_len ?v = max (vec_len (pool_vec p)) (Suc i)"
    using vec_is_ok [OF u] vec_is_len [OF u] vec_is_len [OF w] by simp_all
  have vec: "pool_vec (pool_validate_index alloc es p i) = ?v"
    and f: "free_indices (pool_validate_index alloc es p i) = free_indices p"
    and b: "bits (free_bitmap (pool_validate_index alloc es p i)) = bits (free_bitmap p)"
    using pool_ok_None [OF p]
    by (auto simp: pool_validate_index_def pool_header_validate_index_def null_pool_def Let_def)
  have "bm.agrees (free_bitmap (pool_validate_index alloc es p i)) (free_indices p)"
    by (rule bm.agrees_cong [of "free_bitmap p"]) (use p b in \<open>simp_all add: pool_ok_def\<close>)
  moreover have "max (vec_len (pool_vec p)) (Suc i) < 2 ^ 32" using p i by (simp add: pool_ok_def)
  moreover have "\<forall>j \<in> set (free_indices p). j < max (vec_len (pool_vec p)) (Suc i)"
    using p by (auto simp: pool_ok_def)
  ultimately show "pool_ok es (pool_validate_index alloc es p i)"
    unfolding pool_ok_def vec f v(2) using v(1) by blast
  show "live (pool_validate_index alloc es p i) = live p \<union> {vec_len (pool_vec p)..i}"
    using pool_ok_free [OF p] unfolding live_eq vec b v(2) by auto
qed

lemma pool_step_ok:
  assumes al: "allocator alloc" and es: "0 < es" and "pool_step alloc es p p'" and p: "pool_ok es p"
  shows "pool_ok es p'"
  using assms(3)
proof (cases rule: pool_step.cases)
  case get
  then show ?thesis using pool_get_spec(1) [OF al p es] by blast
next
  case put
  then show ?thesis using pool_put_spec(1) [OF p] by blast
next
  case store
  then show ?thesis using pool_write_ok [OF p] by (simp add: live_eq)
next
  case alloc
  have "vec_len (pool_vec p) < 2 ^ 32" using p by (simp add: pool_ok_def)
  then show ?thesis using allocator.pool_resize_ok(1) [OF al p es, of 0] alloc by (simp add: pool_alloc_def)
next
  case validate_index
  then show ?thesis using pool_validate_index_ok [OF al p es] by blast
next
  case free
  then show ?thesis by (simp add: pool_free_def null_pool_ok)
qed

lemma pool_reachable_ok: "pool_reachable alloc es p \<Longrightarrow> allocator alloc \<Longrightarrow> 0 < es \<Longrightarrow> pool_ok es p"
  by (induction rule: pool_reachable.induct) (auto intro: null_pool_ok pool_step_ok)

lemma pool_ok_validate: "pool_ok es p \<Longrightarrow> pool_validate p"
  using pool_ok_free [of es p] by (simp add: pool_validate_def count_set_bits_eq distinct_card list_all_iff)

section \<open>Properties\<close>

text \<open>C2: in every state a pool can get into, its free bitmap and its list of free indices describe
  the same set of indices, all within the vector; the consistency check of the code succeeds, and
  \<open>pool_elts\<close> is the number of elements in use.\<close>

theorem pool_reachable_consistent:
  assumes "allocator alloc" and "0 < es" and "pool_reachable alloc es p"
  shows "pool_validate p \<and> pool_elts p = card (live p)
    \<and> bits (free_bitmap p) = set (free_indices p) \<and> distinct (free_indices p)
    \<and> bits (free_bitmap p) \<subseteq> {..<vec_len (pool_vec p)}"
  using pool_reachable_ok [OF assms(3,1,2)] pool_ok_free card_live pool_ok_validate by metis

theorem pool_reachable_consistent_witness:
  "pool_elts (fst (pool_get mheap_object_bytes 8 (null_pool :: nat pool)))
    = card (live (fst (pool_get mheap_object_bytes 8 (null_pool :: nat pool))))"
proof -
  have "pool_reachable mheap_object_bytes 8 (fst (pool_get mheap_object_bytes 8 (null_pool :: nat pool)))"
    by (rule pool_reachable.step [OF pool_reachable.start], rule pool_step.get [OF _ prod.collapse [symmetric]])
      (simp add: null_pool_def)
  from pool_reachable_consistent [OF mheap_allocator _ this] show ?thesis by simp
qed

text \<open>C7: \<open>pool_get\<close> never hands out an element in use: the index it returns was free or beyond the
  end, becomes the one new element in use, and every element in use keeps its contents.\<close>

theorem pool_get_fresh:
  assumes "allocator alloc" and "0 < es" and "pool_reachable alloc es p" and "vec_len (pool_vec p) + 1 < 2 ^ 32"
    and "pool_get alloc es p = (p', i)"
  shows "i \<notin> live p \<and> live p' = insert i (live p) \<and> (\<forall>j \<in> live p. pool_elt p' j = pool_elt p j)"
  using pool_get_spec [OF assms(1) pool_reachable_ok [OF assms(3,1,2)] assms(2,4,5)] by blast

theorem pool_get_fresh_witness:
  "snd (pool_get mheap_object_bytes 8 (null_pool :: nat pool)) \<notin> live (null_pool :: nat pool)"
  using pool_get_fresh [OF mheap_allocator _ pool_reachable.start [where 'a = nat] _ prod.collapse [symmetric], of 8]
  by (simp add: null_pool_def)

text \<open>C25: freeing an element in use succeeds and takes exactly that element out of use; the next
  \<open>pool_get\<close> returns it again and brings the pool back to the same elements in use.\<close>

theorem pool_put_get:
  assumes "allocator alloc" and "0 < es" and "pool_reachable alloc es p" and "i \<in> live p"
  shows "\<exists>p' p''. pool_put_index p i = Some p' \<and> live p' = live p - {i} \<and> pool_get alloc es p' = (p'', i)
    \<and> live p'' = live p \<and> pool_vec p'' = pool_vec p"
proof -
  note ok = pool_reachable_ok [OF assms(3,1,2)]
  obtain p' where p': "pool_put_index p i = Some p'" using pool_put_defined [OF assms(4)] by blast
  note s = pool_put_spec [OF ok p']
  have "i mod 2 ^ 32 = i" using assms(4) ok by (simp add: live_eq pool_ok_def)
  then have f: "free_indices p' = free_indices p @ [i]"
    using p' by (auto simp: pool_put_index_def split: if_splits)
  obtain p'' j where get: "pool_get alloc es p' = (p'', j)" by fastforce
  note g = pool_get_reuse [OF s(1) _ get, unfolded f]
  then have "j = i" "live p'' = insert i (live p - {i})" "pool_vec p'' = pool_vec p" using s by simp_all
  then show ?thesis using p' s get assms(4) by auto
qed

theorem pool_put_get_witness:
  "\<exists>p'. pool_put_index (fst (pool_get mheap_object_bytes 8 (null_pool :: nat pool))) 0 = Some p'"
proof -
  let ?p = "fst (pool_get mheap_object_bytes 8 (null_pool :: nat pool))"
  have r: "pool_reachable mheap_object_bytes 8 ?p"
    by (rule pool_reachable.step [OF pool_reachable.start], rule pool_step.get [OF _ prod.collapse [symmetric]])
      (simp add: null_pool_def)
  have "live ?p = {0}"
    using allocator.pool_get_new [OF mheap_allocator null_pool_ok [where 'a = nat] _ _ _ prod.collapse [symmetric], of 8]
    by (simp add: null_pool_def live_eq)
  then show ?thesis using pool_put_get [OF mheap_allocator _ r, of 0] by auto
qed

text \<open>C26: the region iteration covers exactly the elements in use, once each and in increasing
  order, and agrees with the iteration that asks for every index.\<close>

theorem pool_foreach_live:
  assumes "allocator alloc" and "0 < es" and "pool_reachable alloc es p"
  shows "pool_foreach p = sorted_list_of_set (live p) \<and> pool_foreach_index p = pool_foreach p"
proof -
  note ok = pool_reachable_ok [OF assms(3,1,2)]
  have "pool_foreach p = sorted_list_of_set (live p)"
    by (simp only: pool_foreach_filter [OF ok] filter_upt_eq_sorted_list live_set)
  moreover have "pool_foreach_index p = pool_foreach p"
    unfolding pool_foreach_index_def pool_foreach_filter [OF ok]
    by (rule filter_cong) (auto simp: pool_is_free_index_def)
  ultimately show ?thesis by simp
qed

theorem pool_foreach_live_witness: "pool_foreach (null_pool :: nat pool) = sorted_list_of_set (live (null_pool :: nat pool))"
  using pool_foreach_live [OF mheap_allocator _ pool_reachable.start [where 'a = nat], of 8] by simp

text \<open>\<open>pool_next_index\<close> can return an index that is not in use. When all the bits of the free
  bitmap's words from the next index on are set, it returns that next index, a free one.\<close>

theorem pool_next_index_free:
  assumes "i + 1 < vec_len (pool_vec p)" and "i + 1 < length (words (free_bitmap p)) * 64"
    and "\<forall>j. i < j \<and> j < length (words (free_bitmap p)) * 64 \<longrightarrow> clib_bitmap_get (free_bitmap p) j"
  shows "pool_next_index p i = i + 1 \<and> pool_is_free_index p (i + 1)"
proof -
  have "clib_bitmap_next_clear (free_bitmap p) (i + 1) = i + 1"
    using assms(3) by (subst next_clear_least) auto
  then show ?thesis using assms by (simp add: pool_next_index_def pool_is_free_index_def)
qed

theorem pool_next_index_free_witness:
  "pool_next_index \<lparr>pool_vec = Some \<lparr>vlen = 70, alloc_bytes = 1000, slots = replicate 100 (0 :: nat)\<rparr>,
     free_bitmap = Some [NOT 1], free_indices = [1..<64]\<rparr> 0 = 1"
proof -
  have "j \<in> bits (Some [NOT 1])" if "0 < j \<and> j < 64" for j
    using that by (simp add: bits_def bit_at_def bit_not_iff)
  then show ?thesis
    using pool_next_index_free [of 0 "\<lparr>pool_vec = Some \<lparr>vlen = 70, alloc_bytes = 1000, slots = replicate 100 (0 :: nat)\<rparr>,
      free_bitmap = Some [NOT 1], free_indices = [1..<64]\<rparr>"]
    by (simp add: vec_len_def)
qed

end
