(* ===== verification/Clib_Fifo.thy ===== *)
theory Clib_Fifo
  imports Clib_Vec
begin

text \<open>
  First in, first out queues: \<open>src/clib/fifo.h\<close> and \<open>src/clib/fifo.c\<close>. A fifo is a vector used as a
  ring, the vector length being the size of the ring, with a header of two indices. A full ring is
  marked by a tail one ring length beyond the head. The null pointer is an empty fifo. The size of
  an element only scales the byte counts of the code, so memory is a list of elements here; \<open>fill\<close>
  is the element all of whose bytes have the value given for the empty space.
\<close>

section \<open>The functions of fifo.h and fifo.c\<close>

record 'a fifo_obj =
  head_index :: nat
  tail_index :: nat
  fifo_len :: nat
  elts :: "'a list"

type_synonym 'a fifo = "'a fifo_obj option"

definition clib_fifo_len :: "'a fifo \<Rightarrow> nat" where
  "clib_fifo_len v = (case v of None \<Rightarrow> 0 | Some f \<Rightarrow> fifo_len f)"

definition clib_fifo_elts :: "'a fifo \<Rightarrow> nat" where
  "clib_fifo_elts v =
     (case v of
        None \<Rightarrow> 0
      | Some f \<Rightarrow>
          let l = int (fifo_len f);
              r = int (tail_index f) - int (head_index f)
          in nat (if r < 0 then r + l else r))"

definition clib_fifo_free_elts :: "'a fifo \<Rightarrow> nat" where
  "clib_fifo_free_elts v = clib_fifo_len v - clib_fifo_elts v"

definition clib_fifo_reset :: "'a fifo \<Rightarrow> 'a fifo" where
  "clib_fifo_reset v = map_option (\<lambda>f. f\<lparr>head_index := 0, tail_index := 0, fifo_len := 0\<rparr>) v"

definition clib_fifo_resize :: "'a \<Rightarrow> 'a fifo \<Rightarrow> nat \<Rightarrow> 'a fifo" where
  "clib_fifo_resize fill v_old n_new_elts =
     (let n_old_elts = clib_fifo_elts v_old;
          n_new_elts = n_new_elts + n_old_elts;
          n_new_elts = (if n_new_elts < 32 then 32 else unat (max_pow2 (of_nat n_new_elts)));
          copied =
            (case v_old of
               None \<Rightarrow> []
             | Some f_old \<Rightarrow>
                 if 0 < n_old_elts
                 then if fifo_len f_old \<le> head_index f_old + n_old_elts
                      then let n = fifo_len f_old - head_index f_old
                           in take n (drop (head_index f_old) (elts f_old))
                              @ take (n_old_elts - n) (elts f_old)
                      else take n_old_elts (drop (head_index f_old) (elts f_old))
                 else [])
      in Some \<lparr>head_index = 0, tail_index = n_old_elts mod 2 ^ 32, fifo_len = n_new_elts mod 2 ^ 32,
               elts = copied @ replicate (n_new_elts - n_old_elts) fill\<rparr>)"

definition clib_fifo_validate :: "'a \<Rightarrow> 'a fifo \<Rightarrow> nat \<Rightarrow> 'a fifo" where
  "clib_fifo_validate fill v n_elts =
     (if clib_fifo_free_elts v < n_elts then clib_fifo_resize fill v n_elts else v)"

text \<open>Moves the tail by a positive or negative number; also returns where the new elements go.\<close>

definition clib_fifo_advance_tail :: "'a \<Rightarrow> 'a fifo \<Rightarrow> int \<Rightarrow> ('a fifo \<times> nat) option" where
  "clib_fifo_advance_tail zero v n_elts =
     (let n_free = int (clib_fifo_free_elts v);
          v = (if n_free < n_elts then clib_fifo_resize zero v (nat n_elts) else v);
          n_free = int (clib_fifo_free_elts v) - n_elts
      in case v of
           None \<Rightarrow> None
         | Some f \<Rightarrow>
             let l = int (fifo_len f);
                 i = tail_index f;
                 f = (if n_free = 0 then f\<lparr>tail_index := (head_index f + fifo_len f) mod 2 ^ 32\<rparr>
                      else let n = int (tail_index f) + n_elts;
                               n = (if l \<le> n then n - l else if n < 0 then n + l else n)
                           in f\<lparr>tail_index := nat n mod 2 ^ 32\<rparr>)
             in Some (Some f, if 0 < n_elts then i else tail_index f))"

text \<open>The ASSERT on the number of elements is the guard of the operations that take some out.\<close>

definition clib_fifo_advance_head :: "'a fifo \<Rightarrow> nat \<Rightarrow> ('a fifo \<times> nat) option" where
  "clib_fifo_advance_head v n_elts =
     (case v of
        None \<Rightarrow> None
      | Some f \<Rightarrow>
          if clib_fifo_elts v < n_elts then None
          else
            let l = fifo_len f;
                f = (if tail_index f = head_index f + l then f\<lparr>tail_index := head_index f\<rparr> else f);
                i = head_index f;
                n = i + n_elts;
                n = (if l \<le> n then n - l else n)
            in Some (Some (f\<lparr>head_index := n mod 2 ^ 32\<rparr>), i))"

definition fifo_store :: "'a fifo \<Rightarrow> nat \<Rightarrow> 'a list \<Rightarrow> 'a fifo" where
  "fifo_store v i xs =
     map_option (\<lambda>f. f\<lparr>elts := take i (elts f) @ xs @ drop (i + length xs) (elts f)\<rparr>) v"

definition clib_fifo_add1 :: "'a \<Rightarrow> 'a fifo \<Rightarrow> 'a \<Rightarrow> 'a fifo" where
  "clib_fifo_add1 zero f e =
     (case clib_fifo_advance_tail zero f 1 of None \<Rightarrow> None | Some (f, i) \<Rightarrow> fifo_store f i [e])"

definition clib_fifo_add2 :: "'a \<Rightarrow> 'a fifo \<Rightarrow> ('a fifo \<times> nat) option" where
  "clib_fifo_add2 zero f = clib_fifo_advance_tail zero f 1"

definition clib_fifo_add :: "'a \<Rightarrow> 'a fifo \<Rightarrow> 'a list \<Rightarrow> 'a fifo" where
  "clib_fifo_add zero f e =
     (case clib_fifo_advance_tail zero f (int (length e)) of
        None \<Rightarrow> None
      | Some (f, i) \<Rightarrow>
          let n0 = int (length e);
              l = clib_fifo_len f;
              n1 = int i + n0 - int l;
              n1 = (if n1 < 0 then 0 else n1);
              n0 = n0 - n1;
              f = fifo_store f i (take (nat n0) e)
          in if n1 \<noteq> 0 then fifo_store f 0 (take (nat n1) (drop (nat n0) e)) else f)"

definition clib_fifo_sub1 :: "'a fifo \<Rightarrow> ('a fifo \<times> 'a) option" where
  "clib_fifo_sub1 f =
     (case clib_fifo_advance_head f 1 of
        None \<Rightarrow> None
      | Some (None, i) \<Rightarrow> None
      | Some (Some f, i) \<Rightarrow> Some (Some f, elts f ! i))"

definition clib_fifo_head_index :: "'a fifo \<Rightarrow> nat" where
  "clib_fifo_head_index v = (case v of None \<Rightarrow> 0 | Some f \<Rightarrow> head_index f)"

definition clib_fifo_tail_index :: "'a fifo \<Rightarrow> nat" where
  "clib_fifo_tail_index v = (case v of None \<Rightarrow> 0 | Some f \<Rightarrow> tail_index f)"

definition clib_fifo_elt_index :: "'a fifo \<Rightarrow> nat \<Rightarrow> nat" where
  "clib_fifo_elt_index v i =
     (case v of
        None \<Rightarrow> 0
      | Some f \<Rightarrow>
          let result = head_index f + i
          in if fifo_len f \<le> result then result - fifo_len f else result)"

definition clib_fifo_index_for_elt_index :: "'a fifo \<Rightarrow> nat \<Rightarrow> nat" where
  "clib_fifo_index_for_elt_index v ei =
     (case v of
        None \<Rightarrow> 0
      | Some f \<Rightarrow>
          let i = int ei - int (head_index f)
          in nat (if i < 0 then i + int (fifo_len f) else i))"

text \<open>The indices on which \<open>clib_fifo_foreach\<close> runs its body.\<close>

fun fifo_foreach_loop :: "nat \<Rightarrow> nat \<Rightarrow> nat \<Rightarrow> nat list" where
  "fifo_foreach_loop l i 0 = []"
| "fifo_foreach_loop l i (Suc n) = i # fifo_foreach_loop l (if l \<le> i + 1 then 0 else i + 1) n"

definition clib_fifo_foreach :: "'a fifo \<Rightarrow> nat list" where
  "clib_fifo_foreach f = fifo_foreach_loop (clib_fifo_len f) (clib_fifo_head_index f) (clib_fifo_elts f)"

section \<open>The ring and the sequence it holds\<close>

definition fifo_ok :: "'a fifo \<Rightarrow> bool" where
  "fifo_ok v \<longleftrightarrow> (case v of None \<Rightarrow> True | Some f \<Rightarrow>
     fifo_len f \<le> length (elts f) \<and> fifo_len f \<le> 2 ^ 31
     \<and> (if fifo_len f = 0 then head_index f = 0 \<and> tail_index f = 0
        else head_index f < fifo_len f \<and> (tail_index f < fifo_len f \<or> tail_index f = head_index f + fifo_len f)))"

definition fifo_list :: "'a fifo \<Rightarrow> 'a list" where
  "fifo_list v = (case v of None \<Rightarrow> [] | Some f \<Rightarrow>
     map (\<lambda>i. elts f ! ((head_index f + i) mod fifo_len f)) [0..<clib_fifo_elts v])"

lemma length_fifo_list [simp]: "length (fifo_list v) = clib_fifo_elts v"
  by (cases v) (simp_all add: fifo_list_def clib_fifo_elts_def)

lemma fifo_elts_Some:
  assumes "fifo_ok (Some f)" and "0 < fifo_len f"
  shows "clib_fifo_elts (Some f) =
    (if head_index f \<le> tail_index f then tail_index f - head_index f
     else tail_index f + fifo_len f - head_index f)"
    and "clib_fifo_elts (Some f) \<le> fifo_len f"
  using assms by (auto simp: clib_fifo_elts_def fifo_ok_def Let_def)

lemma fifo_elts_le: "fifo_ok v \<Longrightarrow> clib_fifo_elts v \<le> clib_fifo_len v"
proof (cases v)
  case (Some f)
  assume "fifo_ok v"
  then show ?thesis using Some fifo_elts_Some(2) [of f]
    by (cases "fifo_len f = 0") (auto simp: clib_fifo_len_def clib_fifo_elts_def fifo_ok_def)
qed (simp add: clib_fifo_elts_def)

text \<open>Where the \<open>n\<close>-th slot after \<open>h\<close> is in a ring of length \<open>l\<close>, and the tail of \<open>n\<close> elements.\<close>

definition ring_pos :: "nat \<Rightarrow> nat \<Rightarrow> nat \<Rightarrow> nat" where
  "ring_pos l h n = (if h + n < l then h + n else h + n - l)"

lemma ring_pos_mod: "h < l \<Longrightarrow> n \<le> l \<Longrightarrow> (h + n) mod l = (if n = l then h else ring_pos l h n)"
  by (auto simp: ring_pos_def mod_if)

lemma ring_pos_less: "h < l \<Longrightarrow> n < l \<Longrightarrow> ring_pos l h n < l"
  by (auto simp: ring_pos_def)

lemma ring_tail:
  assumes "fifo_ok (Some f)" and "0 < fifo_len f"
  shows "tail_index f = (if clib_fifo_elts (Some f) = fifo_len f then head_index f + fifo_len f
    else ring_pos (fifo_len f) (head_index f) (clib_fifo_elts (Some f)))"
  using fifo_elts_Some [OF assms] assms by (auto simp: fifo_ok_def ring_pos_def split: if_splits)

lemma ring_intro:
  assumes "h < l" and "n \<le> l" and "l \<le> length b" and "l \<le> 2 ^ 31"
    and "t = (if n = l then h + l else ring_pos l h n)"
  shows "fifo_ok (Some \<lparr>head_index = h, tail_index = t, fifo_len = l, elts = b\<rparr>)"
    and "clib_fifo_elts (Some \<lparr>head_index = h, tail_index = t, fifo_len = l, elts = b\<rparr>) = n"
  using assms by (auto simp: fifo_ok_def clib_fifo_elts_def ring_pos_def Let_def)

lemma fifo_list_ring:
  assumes "fifo_ok (Some f)"
  shows "fifo_list (Some f) = map (\<lambda>i. elts f ! ring_pos (fifo_len f) (head_index f) i) [0..<clib_fifo_elts (Some f)]"
proof (cases "fifo_len f = 0")
  case True
  then show ?thesis using assms by (simp add: fifo_list_def fifo_ok_def clib_fifo_elts_def)
next
  case False
  then show ?thesis using assms fifo_elts_Some(2) [OF assms]
    by (auto simp: fifo_list_def fifo_ok_def ring_pos_mod)
qed

subsection \<open>Resizing\<close>

definition fifo_new_len :: "nat \<Rightarrow> nat" where
  "fifo_new_len n = (if n < 32 then 32 else unat (max_pow2 (of_nat n)))"

lemma fifo_new_len:
  assumes "n \<le> 2 ^ 31"
  shows "n \<le> fifo_new_len n" and "32 \<le> fifo_new_len n" and "fifo_new_len n \<le> 2 ^ 31"
proof -
  have "n \<le> fifo_new_len n \<and> fifo_new_len n \<le> 2 ^ 31" if n: "32 \<le> n"
  proof -
    let ?x = "of_nat n :: uword"
    have x: "unat ?x = n" using assms by (intro unat_of_nat_u64) simp
    then have nz: "?x \<noteq> 0" using n by auto
    have pow: "unat (max_pow2 ?x) = 2 ^ (if 2 ^ min_log2 ?x < unat ?x then Suc (min_log2 ?x) else min_log2 ?x)"
      by (rule unat_max_pow2 [OF nz]) (use x assms in simp)
    have lo: "2 ^ min_log2 ?x \<le> n" "n < 2 ^ Suc (min_log2 ?x)" using min_log2_bounds [of ?x] nz x by auto
    have "min_log2 ?x \<le> 31" by (rule unat_le_imp_min_log2_le [OF _ nz]) (use x assms in simp)
    moreover have "min_log2 ?x \<noteq> 31" if "2 ^ min_log2 ?x < n" using that assms by auto
    ultimately have "(if 2 ^ min_log2 ?x < unat ?x then Suc (min_log2 ?x) else min_log2 ?x) \<le> 31"
      using x by auto
    then have "unat (max_pow2 ?x) \<le> 2 ^ 31" unfolding pow by (intro power_increasing) simp_all
    then show ?thesis using n lo pow x by (auto simp: fifo_new_len_def split: if_splits)
  qed
  then show "n \<le> fifo_new_len n" "32 \<le> fifo_new_len n" "fifo_new_len n \<le> 2 ^ 31"
    by (cases "32 \<le> n"; fastforce simp: fifo_new_len_def)+
qed

lemma nth_copied:
  assumes "h < l" and "n \<le> l" and "l \<le> length b" and "i < n"
  shows "(if l \<le> h + n then take (l - h) (drop h b) @ take (n - (l - h)) b else take n (drop h b)) ! i
    = b ! ring_pos l h i"
  using assms by (auto simp: ring_pos_def nth_append add.commute)

lemma resize_fifo:
  assumes v: "fifo_ok v" and n: "n + clib_fifo_elts v \<le> 2 ^ 31"
  shows "\<exists>b. clib_fifo_resize fill v n = Some \<lparr>head_index = 0, tail_index = clib_fifo_elts v,
      fifo_len = fifo_new_len (n + clib_fifo_elts v), elts = fifo_list v @ b\<rparr>
    \<and> clib_fifo_elts v + length b = fifo_new_len (n + clib_fifo_elts v)"
proof -
  note len = fifo_new_len [OF n]
  let ?b = "replicate (fifo_new_len (n + clib_fifo_elts v) - clib_fifo_elts v) fill"
  let ?c = "case v of None \<Rightarrow> [] | Some f \<Rightarrow> if 0 < clib_fifo_elts v
      then if fifo_len f \<le> head_index f + clib_fifo_elts v
           then take (fifo_len f - head_index f) (drop (head_index f) (elts f))
                @ take (clib_fifo_elts v - (fifo_len f - head_index f)) (elts f)
           else take (clib_fifo_elts v) (drop (head_index f) (elts f)) else []"
  have "?c = fifo_list v"
  proof (cases v)
    case (Some f)
    show ?thesis
    proof (cases "0 < clib_fifo_elts v")
      case True
      then have l: "head_index f < fifo_len f" "fifo_len f \<le> length (elts f)" "clib_fifo_elts v \<le> fifo_len f"
        using v Some fifo_elts_le [OF v] by (auto simp: fifo_ok_def clib_fifo_len_def split: if_splits)
      have "length ?c = clib_fifo_elts v" using True l Some by auto
      moreover have "?c ! i = fifo_list v ! i" if "i < clib_fifo_elts v" for i
        using that True nth_copied [OF l(1,3,2) that] fifo_list_ring [of f] v Some by simp
      ultimately show ?thesis by (intro nth_equalityI) simp_all
    qed (use Some in \<open>simp add: fifo_list_def\<close>)
  qed (simp add: fifo_list_def)
  moreover have "clib_fifo_elts v mod 2 ^ 32 = clib_fifo_elts v"
    "fifo_new_len (n + clib_fifo_elts v) mod 2 ^ 32 = fifo_new_len (n + clib_fifo_elts v)"
    using n len(3) by simp_all
  ultimately have "clib_fifo_resize fill v n = Some \<lparr>head_index = 0, tail_index = clib_fifo_elts v,
      fifo_len = fifo_new_len (n + clib_fifo_elts v), elts = fifo_list v @ ?b\<rparr>"
    unfolding clib_fifo_resize_def Let_def fifo_new_len_def [symmetric] by simp
  then show ?thesis using len(1) by (intro exI [of _ ?b]) simp
qed


subsection \<open>Moving the tail and the head\<close>

lemma fifo_fields: "f = \<lparr>head_index = head_index f, tail_index = tail_index f, fifo_len = fifo_len f, elts = elts f\<rparr>"
  by simp

lemma mod_tail:
  assumes "fifo_ok (Some f)" and "0 < fifo_len f" and "k \<le> fifo_len f"
  shows "(head_index f + fifo_len f) mod 2 ^ 32 = head_index f + fifo_len f"
    and "ring_pos (fifo_len f) (head_index f) k mod 2 ^ 32 = ring_pos (fifo_len f) (head_index f) k"
  using assms by (auto simp: fifo_ok_def ring_pos_def)

lemma advance_tail_room:
  assumes ok: "fifo_ok (Some f)" and l: "0 < fifo_len f" and k: "0 < k"
    and room: "clib_fifo_elts (Some f) + k \<le> fifo_len f"
  defines "n \<equiv> clib_fifo_elts (Some f)"
  shows "clib_fifo_advance_tail zero (Some f) (int k) =
    Some (Some (f\<lparr>tail_index := (if n + k = fifo_len f then head_index f + fifo_len f
       else ring_pos (fifo_len f) (head_index f) (n + k))\<rparr>), ring_pos (fifo_len f) (head_index f) n)"
proof -
  have t: "tail_index f = ring_pos (fifo_len f) (head_index f) n" using ring_tail [OF ok l] room k by (simp add: n_def)
  have h: "head_index f < fifo_len f" using ok l by (simp add: fifo_ok_def)
  have free: "clib_fifo_free_elts (Some f) = fifo_len f - n"
    by (simp add: clib_fifo_free_elts_def clib_fifo_len_def n_def)
  have le: "n + k \<le> fifo_len f" using room by (simp add: n_def)
  have step: "(let m = int (tail_index f) + int k
       in if int (fifo_len f) \<le> m then m - int (fifo_len f) else if m < 0 then m + int (fifo_len f) else m)
      = int (ring_pos (fifo_len f) (head_index f) (n + k))" if "n + k < fifo_len f"
    using that h t by (auto simp: ring_pos_def Let_def)
  show ?thesis
  proof (cases "n + k = fifo_len f")
    case True
    then show ?thesis using t k free mod_tail(1) [OF ok l le_refl] by (simp add: clib_fifo_advance_tail_def Let_def)
  next
    case False
    then have lt: "n + k < fifo_len f" using le by simp
    then have "\<not> int (fifo_len f - n) < int k" "int (fifo_len f - n) - int k \<noteq> 0" by auto
    then show ?thesis
      using t k free step [OF lt] mod_tail(2) [OF ok l le] lt
      by (simp add: clib_fifo_advance_tail_def Let_def)
  qed
qed

lemma nth_store:
  "i + length xs \<le> length b \<Longrightarrow> p < length b \<Longrightarrow>
    (take i b @ xs @ drop (i + length xs) b) ! p = (if i \<le> p \<and> p < i + length xs then xs ! (p - i) else b ! p)"
  by (auto simp: nth_append)

lemma nth_prefix:
  "length ys \<le> length b \<Longrightarrow> p < length b \<Longrightarrow> (ys @ drop (length ys) b) ! p = (if p < length ys then ys ! p else b ! p)"
  by (auto simp: nth_append)

text \<open>The two copies of \<open>clib_fifo_add\<close>: up to the end of the ring, then from its start.\<close>

definition ring_write :: "nat \<Rightarrow> 'a list \<Rightarrow> nat \<Rightarrow> 'a list \<Rightarrow> 'a list" where
  "ring_write l b i xs =
     (let n1 = i + length xs - l; n0 = length xs - n1;
          b = take i b @ take n0 xs @ drop (i + n0) b
      in take n1 (drop n0 xs) @ drop n1 b)"

lemma ring_write_props:
  assumes "i < l" and "length xs \<le> l" and "l \<le> length b"
  shows "length (ring_write l b i xs) = length b"
    and "j < length xs \<Longrightarrow> ring_write l b i xs ! ring_pos l i j = xs ! j"
    and "p < l \<Longrightarrow> \<forall>j < length xs. p \<noteq> ring_pos l i j \<Longrightarrow> ring_write l b i xs ! p = b ! p"
proof -
  let ?n1 = "i + length xs - l"
  let ?n0 = "length xs - ?n1"
  let ?b = "take i b @ take ?n0 xs @ drop (i + ?n0) b"
  have len: "length (take ?n0 xs) = ?n0" "length (take ?n1 (drop ?n0 xs)) = ?n1" "i + ?n0 \<le> length b" "length ?b = length b"
    using assms by auto
  have b: "?b ! p = (if i \<le> p \<and> p < i + ?n0 then xs ! (p - i) else b ! p)" if "p < length b" for p
    using nth_store [of i "take ?n0 xs" b p] len that by auto
  have w: "ring_write l b i xs = take ?n1 (drop ?n0 xs) @ drop ?n1 ?b" unfolding ring_write_def Let_def ..
  have nth: "ring_write l b i xs ! p = (if p < ?n1 then xs ! (?n0 + p) else ?b ! p)" if "p < length b" for p
  proof -
    have "?n1 \<le> length ?b" "?n0 + ?n1 = length xs" using len(4) assms by linarith+
    then show ?thesis
      using nth_prefix [of "take ?n1 (drop ?n0 xs)" ?b p] that unfolding w len(2,4) by simp
  qed
  show "length (ring_write l b i xs) = length b" using w len assms by auto
  show "ring_write l b i xs ! ring_pos l i j = xs ! j" if "j < length xs"
  proof (cases "i + j < l")
    case True
    then have "ring_pos l i j = i + j" "\<not> i + j < ?n1" "i + j < i + ?n0" using assms that by (auto simp: ring_pos_def)
    then show ?thesis using nth [of "i + j"] b [of "i + j"] True assms by simp
  next
    case False
    then have "ring_pos l i j = i + j - l" "i + j - l < ?n1" "?n0 + (i + j - l) = j" using assms that by (auto simp: ring_pos_def)
    then show ?thesis using nth [of "i + j - l"] assms that by simp
  qed
  assume p: "p < l" "\<forall>j < length xs. p \<noteq> ring_pos l i j"
  have 1: "\<not> p < ?n1"
  proof
    assume "p < ?n1"
    then have "l + p - i < length xs" "ring_pos l i (l + p - i) = p" using assms p(1) by (auto simp: ring_pos_def)
    then show False using p(2) by auto
  qed
  have 2: "\<not> (i \<le> p \<and> p < i + ?n0)"
  proof
    assume "i \<le> p \<and> p < i + ?n0"
    then have "p - i < length xs" "ring_pos l i (p - i) = p" using p(1) by (auto simp: ring_pos_def)
    then show False using p(2) by auto
  qed
  have pl: "p < length b" using p(1) assms by simp
  show "ring_write l b i xs ! p = b ! p" by (simp only: nth [OF pl] b [OF pl] 1 2 if_False)
qed

lemma add_stores:
  assumes "i < fifo_len g" and "length xs \<le> fifo_len g" and "fifo_len g \<le> length (elts g)"
  shows "(let n0 = int (length xs); l = clib_fifo_len (Some g); n1 = int i + n0 - int l;
              n1 = (if n1 < 0 then 0 else n1); n0 = n0 - n1; f = fifo_store (Some g) i (take (nat n0) xs)
          in if n1 \<noteq> 0 then fifo_store f 0 (take (nat n1) (drop (nat n0) xs)) else f)
    = Some (g\<lparr>elts := ring_write (fifo_len g) (elts g) i xs\<rparr>)"
proof -
  define N1 N0 where "N1 = i + length xs - fifo_len g" and "N0 = length xs - N1"
  have n1: "(if int i + int (length xs) - int (fifo_len g) < 0 then 0 else int i + int (length xs) - int (fifo_len g)) = int N1"
    by (auto simp: N1_def)
  have "N1 \<le> length xs" using assms by (simp add: N1_def)
  then have n0: "int (length xs) - int N1 = int N0" and len: "length (take N0 xs) = N0" "length (take N1 (drop N0 xs)) = N1"
    by (auto simp: N0_def)
  have w: "ring_write (fifo_len g) (elts g) i xs
      = take N1 (drop N0 xs) @ drop N1 (take i (elts g) @ take N0 xs @ drop (i + N0) (elts g))"
    unfolding ring_write_def Let_def N1_def N0_def ..
  show ?thesis
    unfolding w Let_def clib_fifo_len_def option.case n1 n0 nat_int fifo_store_def option.map len by simp
qed

lemma ring_pos_add: "h < l \<Longrightarrow> n < l \<Longrightarrow> n + j < l \<Longrightarrow> ring_pos l (ring_pos l h n) j = ring_pos l h (n + j)"
  by (auto simp: ring_pos_def)

lemma ring_pos_inj: "h < l \<Longrightarrow> i < l \<Longrightarrow> j < l \<Longrightarrow> ring_pos l h i = ring_pos l h j \<Longrightarrow> i = j"
  by (auto simp: ring_pos_def split: if_splits)

lemma add_room:
  assumes ok: "fifo_ok (Some f)" and l: "0 < fifo_len f" and xs: "xs \<noteq> []"
    and room: "clib_fifo_elts (Some f) + length xs \<le> fifo_len f"
  shows "fifo_ok (clib_fifo_add zero (Some f) xs)"
    and "fifo_list (clib_fifo_add zero (Some f) xs) = fifo_list (Some f) @ xs"
proof -
  define n h len where "n = clib_fifo_elts (Some f)" and "h = head_index f" and "len = fifo_len f"
  note defs = n_def [symmetric] h_def [symmetric] len_def [symmetric]
  have h: "h < len" and b: "len \<le> length (elts f)" "len \<le> 2 ^ 31" using ok l by (auto simp: fifo_ok_def h_def len_def)
  have "0 < length xs" using xs by simp
  then have n: "n < len" "n + length xs \<le> len" using room unfolding n_def len_def by linarith+
  let ?t = "if n + length xs = len then h + len else ring_pos len h (n + length xs)"
  let ?i = "ring_pos len h n"
  have i: "?i < len" using ring_pos_less [OF h n(1)] .
  let ?g = "\<lparr>head_index = h, tail_index = ?t, fifo_len = len, elts = ring_write len (elts f) ?i xs\<rparr>"
  have adv: "clib_fifo_advance_tail zero (Some f) (int (length xs)) = Some (Some (f\<lparr>tail_index := ?t\<rparr>), ?i)"
    using advance_tail_room [OF ok l _ room] xs by (simp add: defs)
  have "clib_fifo_add zero (Some f) xs = Some ?g"
    using add_stores [of ?i "f\<lparr>tail_index := ?t\<rparr>" xs] i n b fifo_fields [of f]
    by (auto simp: clib_fifo_add_def adv defs)
  note g = this
  note w = ring_write_props [OF i _ b(1), of xs]
  have lw: "length xs \<le> len" using n by simp
  have ri: "fifo_ok (Some ?g)" "clib_fifo_elts (Some ?g) = n + length xs"
    using ring_intro [OF h n(2) _ b(2) refl, of "ring_write len (elts f) ?i xs"] w(1) [OF lw] b(1) by auto
  show "fifo_ok (clib_fifo_add zero (Some f) xs)" using ri(1) g by simp
  have "fifo_list (Some ?g) ! k = (fifo_list (Some f) @ xs) ! k" if k: "k < n + length xs" for k
  proof (cases "k < n")
    case True
    have "ring_pos len h k \<noteq> ring_pos len ?i j" if "j < length xs" for j
      using ring_pos_add [OF h n(1), of j] ring_pos_inj [OF h, of k "n + j"] that n True by auto
    then have "ring_write len (elts f) ?i xs ! ring_pos len h k = elts f ! ring_pos len h k"
      using w(3) [OF lw, of "ring_pos len h k"] ring_pos_less [OF h, of k] True n by auto
    then show ?thesis using True k by (simp add: fifo_list_ring ri ok nth_append defs)
  next
    case False
    then obtain j where j: "k = n + j" "j < length xs" using k by (metis add_less_cancel_left le_iff_add not_less)
    then have "ring_pos len h k = ring_pos len ?i j" using ring_pos_add [OF h n(1), of j] n by simp
    then show ?thesis using w(2) [OF lw j(2)] j by (simp add: fifo_list_ring ri ok nth_append defs)
  qed
  then have "fifo_list (Some ?g) = fifo_list (Some f) @ xs"
    by (intro nth_equalityI) (simp_all add: ri(2) defs)
  then show "fifo_list (clib_fifo_add zero (Some f) xs) = fifo_list (Some f) @ xs" using g by simp
qed

lemma fifo_empty_len: "fifo_ok (Some f) \<Longrightarrow> fifo_len f = 0 \<Longrightarrow> clib_fifo_elts (Some f) = 0"
  by (simp add: fifo_ok_def clib_fifo_elts_def)

lemma resize_ok:
  assumes v: "fifo_ok v" and n: "n + clib_fifo_elts v \<le> 2 ^ 31"
  shows "\<exists>f. clib_fifo_resize fill v n = Some f \<and> fifo_ok (Some f) \<and> 0 < fifo_len f
    \<and> n + clib_fifo_elts v \<le> fifo_len f \<and> fifo_list (Some f) = fifo_list v"
proof -
  let ?l = "fifo_new_len (n + clib_fifo_elts v)"
  note len = fifo_new_len [OF n]
  obtain b where f: "clib_fifo_resize fill v n = Some \<lparr>head_index = 0, tail_index = clib_fifo_elts v,
      fifo_len = ?l, elts = fifo_list v @ b\<rparr>" and b: "clib_fifo_elts v + length b = ?l"
    using resize_fifo [OF assms] by blast
  let ?f = "\<lparr>head_index = 0, tail_index = clib_fifo_elts v, fifo_len = ?l, elts = fifo_list v @ b\<rparr>"
  have ok: "fifo_ok (Some ?f)" "clib_fifo_elts (Some ?f) = clib_fifo_elts v"
    using ring_intro [of 0 ?l "clib_fifo_elts v" "fifo_list v @ b" "clib_fifo_elts v"] len b
    by (auto simp: ring_pos_def)
  have "fifo_list (Some ?f) = fifo_list v"
  proof (rule nth_equalityI)
    fix i assume "i < length (fifo_list (Some ?f))"
    then have "i < clib_fifo_elts v" using ok(2) by simp
    then show "fifo_list (Some ?f) ! i = fifo_list v ! i"
      using b unfolding fifo_list_ring [OF ok(1)] ok(2) by (simp add: ring_pos_def nth_append)
  qed (simp add: ok(2))
  with f ok(1) len show ?thesis by (intro exI [of _ ?f]) auto
qed

lemma advance_tail_grow:
  assumes "clib_fifo_free_elts v < k" and "clib_fifo_resize zero v k = Some f" and "k \<le> clib_fifo_free_elts (Some f)"
  shows "clib_fifo_advance_tail zero v (int k) = clib_fifo_advance_tail zero (Some f) (int k)"
  using assms by (simp add: clib_fifo_advance_tail_def Let_def)

lemma fifo_add_ok:
  assumes v: "fifo_ok v" and xs: "xs \<noteq> []" and n: "clib_fifo_elts v + length xs \<le> 2 ^ 31"
  shows "fifo_ok (clib_fifo_add zero v xs)" and "fifo_list (clib_fifo_add zero v xs) = fifo_list v @ xs"
proof -
  have "fifo_ok (clib_fifo_add zero v xs) \<and> fifo_list (clib_fifo_add zero v xs) = fifo_list v @ xs"
  proof (cases "clib_fifo_free_elts v < length xs")
    case True
    obtain f where f: "clib_fifo_resize zero v (length xs) = Some f" "fifo_ok (Some f)" "0 < fifo_len f"
      "length xs + clib_fifo_elts v \<le> fifo_len f" "fifo_list (Some f) = fifo_list v"
      using resize_ok [OF v, of "length xs" zero] n by (auto simp: add.commute)
    have e: "clib_fifo_elts (Some f) = clib_fifo_elts v" using arg_cong [OF f(5), of length] by simp
    then have "length xs \<le> clib_fifo_free_elts (Some f)" using f(4) by (simp add: clib_fifo_free_elts_def clib_fifo_len_def)
    then have "clib_fifo_add zero v xs = clib_fifo_add zero (Some f) xs"
      using advance_tail_grow [OF True f(1)] by (simp add: clib_fifo_add_def)
    with add_room [OF f(2,3) xs] e f show ?thesis by (simp add: add.commute)
  next
    case False
    then obtain f where f: "v = Some f"
      using xs by (cases v) (auto simp: clib_fifo_free_elts_def clib_fifo_len_def clib_fifo_elts_def)
    moreover have "0 < length xs" using xs by simp
    ultimately have "0 < fifo_len f" "clib_fifo_elts (Some f) + length xs \<le> fifo_len f"
      using False fifo_elts_le [OF v] unfolding clib_fifo_free_elts_def clib_fifo_len_def option.case
      by (simp_all only: option.case)
    with add_room [OF _ _ xs] v f show ?thesis by blast
  qed
  then show "fifo_ok (clib_fifo_add zero v xs)" "fifo_list (clib_fifo_add zero v xs) = fifo_list v @ xs" by blast+
qed

lemma advance_tail_index:
  assumes v: "fifo_ok v" and n: "clib_fifo_elts v + 1 \<le> 2 ^ 31"
    and adv: "clib_fifo_advance_tail zero v 1 = Some (w, i)"
  shows "i < clib_fifo_len w"
proof -
  have main: "i < clib_fifo_len w" if ok: "fifo_ok (Some f)" and l: "clib_fifo_elts (Some f) + 1 \<le> fifo_len f"
    and a: "clib_fifo_advance_tail zero (Some f) (int 1) = Some (w, i)" for f
  proof -
    have "0 < fifo_len f" using l by simp
    moreover have "head_index f < fifo_len f" using ok l by (auto simp: fifo_ok_def split: if_splits)
    ultimately show ?thesis using advance_tail_room [OF ok _ _ l, of zero] a ring_pos_less [of "head_index f" "fifo_len f"] l
      by (auto simp: clib_fifo_len_def)
  qed
  show ?thesis
  proof (cases "clib_fifo_free_elts v < 1")
    case True
    obtain f where f: "clib_fifo_resize zero v 1 = Some f" "fifo_ok (Some f)" "0 < fifo_len f"
      "1 + clib_fifo_elts v \<le> fifo_len f" "fifo_list (Some f) = fifo_list v"
      using resize_ok [OF v, of 1 zero] n by (auto simp: add.commute)
    have e: "clib_fifo_elts (Some f) = clib_fifo_elts v" using arg_cong [OF f(5), of length] by simp
    have "1 \<le> clib_fifo_free_elts (Some f)" using f(4) e by (simp add: clib_fifo_free_elts_def clib_fifo_len_def)
    from advance_tail_grow [OF True f(1) this] adv have "clib_fifo_advance_tail zero (Some f) (int 1) = Some (w, i)" by simp
    with main [OF f(2)] f(4) e show ?thesis by simp
  next
    case False
    then obtain f where "v = Some f"
      by (cases v) (auto simp: clib_fifo_free_elts_def clib_fifo_len_def clib_fifo_elts_def)
    with main [of f] v adv False show ?thesis by (simp add: clib_fifo_free_elts_def clib_fifo_len_def)
  qed
qed

text \<open>Adding one element is adding a sequence of one.\<close>

lemma add1_eq_add:
  assumes "fifo_ok v" and "clib_fifo_elts v + 1 \<le> 2 ^ 31"
  shows "clib_fifo_add1 zero v x = clib_fifo_add zero v [x]"
proof (cases "clib_fifo_advance_tail zero v 1")
  case (Some p)
  obtain w i where p: "p = (w, i)" by fastforce
  have "i < clib_fifo_len w" using advance_tail_index [OF assms] Some p by blast
  then show ?thesis using Some p by (simp add: clib_fifo_add1_def clib_fifo_add_def Let_def)
qed (simp add: clib_fifo_add1_def clib_fifo_add_def)

lemma fifo_add1_ok:
  assumes "fifo_ok v" and "clib_fifo_elts v + 1 \<le> 2 ^ 31"
  shows "fifo_ok (clib_fifo_add1 zero v x)" and "fifo_list (clib_fifo_add1 zero v x) = fifo_list v @ [x]"
  using fifo_add_ok [OF assms(1), of "[x]"] assms by (simp_all add: add1_eq_add)

lemma advance_head_ok:
  assumes v: "fifo_ok v" and k: "0 < k" "k \<le> clib_fifo_elts v"
  shows "\<exists>f g. v = Some f \<and> clib_fifo_advance_head v k = Some (Some g, head_index f) \<and> elts g = elts f
    \<and> fifo_ok (Some g) \<and> fifo_list (Some g) = drop k (fifo_list v)"
proof -
  obtain f where f: "v = Some f" using k by (cases v) (auto simp: clib_fifo_elts_def)
  have ok: "fifo_ok (Some f)" and l: "0 < fifo_len f" using v f k fifo_empty_len [of f] by auto
  define n h l where "n = clib_fifo_elts (Some f)" and "h = head_index f" and "l = fifo_len f"
  note defs = n_def [symmetric] h_def [symmetric] l_def [symmetric]
  have h: "h < l" "l \<le> length (elts f)" "l \<le> 2 ^ 31" using ok l by (auto simp: fifo_ok_def h_def l_def)
  have n: "n \<le> l" "k \<le> n" using fifo_elts_Some(2) [OF ok l] k f by (auto simp: n_def l_def)
  have t: "tail_index f = (if n = l then h + l else ring_pos l h n)" using ring_tail [OF ok l] by (simp add: defs)
  let ?h = "if l \<le> h + k then h + k - l else h + k"
  let ?g = "\<lparr>head_index = ?h, tail_index = ring_pos l ?h (n - k), fifo_len = l, elts = elts f\<rparr>"
  have hl: "?h < l" using h n k by auto
  have tail: "(if tail_index f = h + l then h else tail_index f) = ring_pos l ?h (n - k)"
    using t h n k by (auto simp: ring_pos_def)
  have "?h mod 2 ^ 32 = ?h" using hl h by simp
  then have g: "clib_fifo_advance_head v k = Some (Some ?g, h)"
    using n f tail fifo_fields [of f] by (auto simp: clib_fifo_advance_head_def Let_def defs)
  have "n - k \<noteq> l" using n k by auto
  then have ri: "fifo_ok (Some ?g)" "clib_fifo_elts (Some ?g) = n - k"
    using ring_intro [OF hl _ h(2,3), of "n - k" "ring_pos l ?h (n - k)"] n by auto
  have "fifo_list (Some ?g) = drop k (fifo_list (Some f))"
  proof (rule nth_equalityI)
    fix i assume "i < length (fifo_list (Some ?g))"
    then have i: "k + i < n" using ri(2) by simp
    then have "ring_pos l ?h i = ring_pos l h (k + i)" using h n by (auto simp: ring_pos_def)
    then show "fifo_list (Some ?g) ! i = drop k (fifo_list (Some f)) ! i"
      using i unfolding fifo_list_ring [OF ri(1)] fifo_list_ring [OF ok] ri(2) by (simp add: defs split: if_splits)
  qed (simp add: ri(2) defs)
  then show ?thesis using f g ri(1) by (auto simp: h_def)
qed

lemma fifo_sub1_ok:
  assumes v: "fifo_ok v"
  shows "fifo_list v = [] \<Longrightarrow> clib_fifo_sub1 v = None"
    and "fifo_list v \<noteq> [] \<Longrightarrow> \<exists>w. clib_fifo_sub1 v = Some (w, hd (fifo_list v)) \<and> fifo_ok w \<and> fifo_list w = tl (fifo_list v)"
proof -
  show "clib_fifo_sub1 v = None" if "fifo_list v = []"
    using arg_cong [OF that, of length]
    by (cases v) (simp_all add: clib_fifo_sub1_def clib_fifo_advance_head_def)
  assume ne: "fifo_list v \<noteq> []"
  then have "0 < clib_fifo_elts v" using length_fifo_list [of v] by (metis length_greater_0_conv)
  then obtain f g where f: "v = Some f" "clib_fifo_advance_head v 1 = Some (Some g, head_index f)" "elts g = elts f"
    "fifo_ok (Some g)" "fifo_list (Some g) = drop 1 (fifo_list v)"
    using advance_head_ok [OF v, of 1] by auto
  have "hd (fifo_list v) = fifo_list v ! 0" using ne by (rule hd_conv_nth)
  also have "\<dots> = elts f ! head_index f"
    using \<open>0 < clib_fifo_elts v\<close> f(1) v fifo_list_ring [of f] by (auto simp: ring_pos_def fifo_ok_def fifo_empty_len split: if_splits)
  finally show "\<exists>w. clib_fifo_sub1 v = Some (w, hd (fifo_list v)) \<and> fifo_ok w \<and> fifo_list w = tl (fifo_list v)"
    using f by (auto simp: clib_fifo_sub1_def drop_Suc)
qed

lemma foreach_loop_ring:
  "i < l \<Longrightarrow> n \<le> l \<Longrightarrow> fifo_foreach_loop l i n = map (ring_pos l i) [0..<n]"
proof (induction n arbitrary: i)
  case (Suc n)
  let ?j = "if l \<le> i + 1 then 0 else i + 1"
  have "fifo_foreach_loop l ?j n = map (ring_pos l ?j) [0..<n]" using Suc.prems by (intro Suc.IH) auto
  also have "\<dots> = map (\<lambda>k. ring_pos l i (Suc k)) [0..<n]"
    using Suc.prems by (intro map_cong refl) (auto simp: ring_pos_def)
  finally have "fifo_foreach_loop l ?j n = map (ring_pos l i) (map Suc [0..<n])" by simp
  then have "fifo_foreach_loop l ?j n = map (ring_pos l i) [Suc 0..<Suc n]" by (simp only: map_Suc_upt)
  then show ?case using Suc.prems by (simp add: upt_conv_Cons [of 0] ring_pos_def del: upt_Suc)
qed simp


section \<open>The queue interface\<close>

text \<open>
  A bounded queue: \<open>contents\<close> is the sequence it holds, \<open>enq\<close> appends, \<open>deq\<close> takes the first
  element, \<open>None\<close> when there is none. A client that enqueues and dequeues (only when the queue is
  not empty, as \<open>test_fifo.c\<close> does) sees exactly the behaviour of a list.
\<close>

datatype 'a queue_op = Enq 'a | Deq

fun list_run :: "'a list \<Rightarrow> 'a queue_op list \<Rightarrow> 'a list \<times> 'a list" where
  "list_run xs [] = (xs, [])"
| "list_run xs (Enq x # ops) = list_run (xs @ [x]) ops"
| "list_run [] (Deq # ops) = list_run [] ops"
| "list_run (x # xs) (Deq # ops) = (let (ys, out) = list_run xs ops in (ys, x # out))"

fun queue_run :: "('q \<Rightarrow> 'a \<Rightarrow> 'q) \<Rightarrow> ('q \<Rightarrow> ('q \<times> 'a) option) \<Rightarrow> 'q \<Rightarrow> 'a queue_op list \<Rightarrow> 'q \<times> 'a list" where
  "queue_run enq deq q [] = (q, [])"
| "queue_run enq deq q (Enq x # ops) = queue_run enq deq (enq q x) ops"
| "queue_run enq deq q (Deq # ops) =
     (case deq q of
        None \<Rightarrow> queue_run enq deq q ops
      | Some (q, x) \<Rightarrow> let (q, out) = queue_run enq deq q ops in (q, x # out))"

locale bounded_queue =
  fixes inv :: "'q \<Rightarrow> bool" and contents :: "'q \<Rightarrow> 'a list" and bound :: nat
    and enq :: "'q \<Rightarrow> 'a \<Rightarrow> 'q" and deq :: "'q \<Rightarrow> ('q \<times> 'a) option"
  assumes enq_inv: "inv q \<Longrightarrow> length (contents q) < bound \<Longrightarrow> inv (enq q x)"
    and enq_contents: "inv q \<Longrightarrow> length (contents q) < bound \<Longrightarrow> contents (enq q x) = contents q @ [x]"
    and deq_empty: "inv q \<Longrightarrow> contents q = [] \<Longrightarrow> deq q = None"
    and deq_first: "inv q \<Longrightarrow> contents q = x # xs \<Longrightarrow> \<exists>q'. deq q = Some (q', x) \<and> inv q' \<and> contents q' = xs"
begin

lemma run_refines:
  assumes "inv q" and "length (contents q) + length ops \<le> bound"
  shows "inv (fst (queue_run enq deq q ops))
    \<and> contents (fst (queue_run enq deq q ops)) = fst (list_run (contents q) ops)
    \<and> snd (queue_run enq deq q ops) = snd (list_run (contents q) ops)"
  using assms
proof (induction ops arbitrary: q)
  case (Cons op ops)
  show ?case
  proof (cases op)
    case (Enq x)
    then have "length (contents q) < bound" using Cons.prems(2) by simp
    note e = enq_inv [OF Cons.prems(1) this, of x] enq_contents [OF Cons.prems(1) this, of x]
    then show ?thesis using Cons.IH [OF e(1)] Cons.prems(2) Enq by simp
  next
    case Deq
    show ?thesis
    proof (cases "contents q")
      case Nil
      then show ?thesis using Cons Deq deq_empty by simp
    next
      case (Cons x xs)
      then obtain q' where "deq q = Some (q', x)" "inv q'" "contents q' = xs"
        using deq_first Cons.prems(1) by blast
      then show ?thesis using Cons.IH [of q'] Cons.prems(2) Deq Cons
        by (simp add: case_prod_beta Let_def)
    qed
  qed
qed simp

end

interpretation fifo: bounded_queue fifo_ok fifo_list "2 ^ 31" "clib_fifo_add1 zero" clib_fifo_sub1
proof
  fix q :: "'a fifo" and x xs
  assume q: "fifo_ok q"
  show "length (fifo_list q) < 2 ^ 31 \<Longrightarrow> fifo_ok (clib_fifo_add1 zero q x)"
    "length (fifo_list q) < 2 ^ 31 \<Longrightarrow> fifo_list (clib_fifo_add1 zero q x) = fifo_list q @ [x]"
    using fifo_add1_ok [OF q] by simp_all
  show "fifo_list q = [] \<Longrightarrow> clib_fifo_sub1 q = None" by (rule fifo_sub1_ok(1) [OF q])
  show "fifo_list q = x # xs \<Longrightarrow> \<exists>q'. clib_fifo_sub1 q = Some (q', x) \<and> fifo_ok q' \<and> fifo_list q' = xs"
    using fifo_sub1_ok(2) [OF q] by simp
qed

lemma fifo_null: "fifo_ok None" "fifo_list None = []"
  by (simp_all add: fifo_ok_def fifo_list_def)

section \<open>Properties\<close>



text \<open>adding several elements at once appends them in order, also when they wrap around the end
  of the ring or need a bigger one.\<close>

theorem fifo_add_appends:
  assumes "fifo_ok v" and "xs \<noteq> []" and "clib_fifo_elts v + length xs \<le> 2 ^ 31"
  shows "fifo_ok (clib_fifo_add zero v xs) \<and> fifo_list (clib_fifo_add zero v xs) = fifo_list v @ xs"
  using fifo_add_ok [OF assms] by blast

theorem fifo_add_appends_witness:
  "fifo_list (clib_fifo_add 0 (clib_fifo_add 0 None [1, 2]) [3 :: nat]) = [1, 2, 3]"
proof -
  have "fifo_ok (clib_fifo_add 0 None [1, 2 :: nat]) \<and> fifo_list (clib_fifo_add 0 None [1, 2 :: nat]) = [1, 2]"
    using fifo_add_appends [of None "[1, 2 :: nat]" 0] by (simp add: fifo_null clib_fifo_elts_def)
  moreover from this have "clib_fifo_elts (clib_fifo_add 0 None [1, 2 :: nat]) = 2"
    using length_fifo_list [of "clib_fifo_add 0 None [1, 2 :: nat]"] by simp
  ultimately show ?thesis using fifo_add_appends [of "clib_fifo_add 0 None [1, 2 :: nat]" "[3]" 0] by simp
qed

text \<open>advancing the head by zero empties a full fifo: the mark of a full ring is taken back before
  the number of elements to remove is looked at.\<close>

theorem fifo_advance_head_zero_full:
  assumes "fifo_ok (Some f)" and "0 < fifo_len f" and "clib_fifo_elts (Some f) = fifo_len f"
  shows "\<exists>g i. clib_fifo_advance_head (Some f) 0 = Some (g, i) \<and> clib_fifo_elts g = 0"
proof -
  have "tail_index f = head_index f + fifo_len f" using ring_tail [OF assms(1,2)] assms(3) by simp
  moreover have "head_index f < fifo_len f" "fifo_len f \<le> 2 ^ 31"
    using assms(1,2) by (simp_all add: fifo_ok_def)
  ultimately show ?thesis by (simp add: clib_fifo_advance_head_def Let_def clib_fifo_elts_def)
qed

theorem fifo_advance_head_zero_full_witness:
  "\<exists>g i. clib_fifo_advance_head (Some \<lparr>head_index = 1, tail_index = 3, fifo_len = 2, elts = [4, 5 :: nat]\<rparr>) 0
     = Some (g, i) \<and> clib_fifo_elts g = 0"
  by (rule fifo_advance_head_zero_full) (simp_all add: fifo_ok_def clib_fifo_elts_def)

text \<open>the iteration visits the slots of the elements in queue order.\<close>

theorem fifo_foreach_order:
  assumes "fifo_ok (Some f)"
  shows "map (\<lambda>i. elts f ! i) (clib_fifo_foreach (Some f)) = fifo_list (Some f)"
proof (cases "fifo_len f = 0")
  case True
  then show ?thesis using assms fifo_empty_len [OF assms True]
    by (simp add: clib_fifo_foreach_def fifo_list_def)
next
  case False
  then have "head_index f < fifo_len f" using assms by (simp add: fifo_ok_def)
  then show ?thesis using foreach_loop_ring [of "head_index f" "fifo_len f"] fifo_elts_Some(2) [OF assms] False
    by (simp add: clib_fifo_foreach_def clib_fifo_len_def clib_fifo_head_index_def fifo_list_ring [OF assms])
qed

theorem fifo_foreach_order_witness:
  "map (\<lambda>i. [4, 5 :: nat] ! i) (clib_fifo_foreach (Some \<lparr>head_index = 1, tail_index = 3, fifo_len = 2, elts = [4, 5 :: nat]\<rparr>)) = [5, 4]"
  using fifo_foreach_order [of "\<lparr>head_index = 1, tail_index = 3, fifo_len = 2, elts = [4, 5 :: nat]\<rparr>"]
  by (simp add: fifo_ok_def fifo_list_def clib_fifo_elts_def upt_conv_Cons)

end
