(* ===== verification/Clib_Qsort.thy ===== *)
theory Clib_Qsort
  imports Clib_Prelude "HOL-Library.Multiset"
begin

text \<open>
  The library's sort: \<open>src/clib/qsort.c\<close>, quicksort down to partitions of fewer than \<open>THRESH\<close> elements,
  then one insertion sort over everything with the least element as sentinel. The array is a list,
  pointers are indices of elements (the code counts bytes, always in multiples of the element
  size), and the comparison routine is a parameter. The insertion sort runs down without a bound
  check; a read below the array is \<open>None\<close>.
\<close>

section \<open>The functions of qsort.c\<close>

abbreviation "THRESH \<equiv> 4 :: nat"
abbreviation "MTHRESH \<equiv> 6 :: nat"

definition swap :: "'a list \<Rightarrow> nat \<Rightarrow> nat \<Rightarrow> 'a list" where
  "swap v ii jj = (let c = v ! ii; v = v[ii := v ! jj] in v[jj := c])"

text \<open>The median of the first, the middle and the last element goes to the middle.\<close>

definition median_to_mid :: "('a \<Rightarrow> 'a \<Rightarrow> int) \<Rightarrow> 'a list \<Rightarrow> nat \<Rightarrow> nat \<Rightarrow> nat \<Rightarrow> 'a list" where
  "median_to_mid cmp xs base i mx =
     (let jj = base;
          j = (if 0 < cmp (xs ! jj) (xs ! i) then jj else i);
          tmp = mx - 1;
          j = (if 0 < cmp (xs ! j) (xs ! tmp)
               then let j = (if j = jj then i else jj)
                    in if cmp (xs ! j) (xs ! tmp) < 0 then tmp else j
               else j)
      in if j \<noteq> i then swap xs i j else xs)"

function scan_up :: "('a \<Rightarrow> 'a \<Rightarrow> int) \<Rightarrow> 'a list \<Rightarrow> nat \<Rightarrow> nat \<Rightarrow> nat" where
  "scan_up cmp xs mid i = (if i < mid \<and> cmp (xs ! i) (xs ! mid) \<le> 0 then scan_up cmp xs mid (i + 1) else i)"
  by pat_completeness auto
termination by (relation "measure (\<lambda>(cmp, xs, mid, i). mid - i)") auto

function scan_down :: "('a \<Rightarrow> 'a \<Rightarrow> int) \<Rightarrow> 'a list \<Rightarrow> nat \<Rightarrow> nat \<Rightarrow> nat" where
  "scan_down cmp xs mid j = (if mid < j \<and> cmp (xs ! mid) (xs ! j) \<le> 0 then scan_down cmp xs mid (j - 1) else j)"
  by pat_completeness auto
termination by (relation "measure (\<lambda>(cmp, xs, mid, j). j)") auto

declare scan_up.simps [simp del] scan_down.simps [simp del]

lemma scan_up_bounds: "i \<le> mid \<Longrightarrow> i \<le> scan_up cmp xs mid i \<and> scan_up cmp xs mid i \<le> mid"
proof (induction cmp xs mid i rule: scan_up.induct)
  case (1 cmp xs mid i)
  then show ?case by (subst (1 2) scan_up.simps) auto
qed

lemma scan_down_bounds: "mid \<le> j \<Longrightarrow> mid \<le> scan_down cmp xs mid j \<and> scan_down cmp xs mid j \<le> j"
proof (induction cmp xs mid j rule: scan_down.induct)
  case (1 cmp xs mid j)
  show ?case
  proof (cases "mid < j \<and> cmp (xs ! mid) (xs ! j) \<le> 0")
    case True
    then have "mid \<le> j - 1" by linarith
    with 1(1) True have "mid \<le> scan_down cmp xs mid (j - 1) \<and> scan_down cmp xs mid (j - 1) \<le> j - 1" by blast
    then have "scan_down cmp xs mid (j - 1) \<le> j" "mid \<le> scan_down cmp xs mid (j - 1)" by linarith+
    then show ?thesis using True by (subst (1 2) scan_down.simps) simp
  next
    case False
    then show ?thesis using 1(2) by (subst (1 2) scan_down.simps) auto
  qed
qed

text \<open>
  One round of the partitioning loop, up to and including its swap; \<open>None\<close> is the break. The code
  enters the loop with \<open>i \<le> mid \<le> j\<close>, which every round keeps; the loop returns the array and the
  place of the discriminator.
\<close>

definition part_step :: "('a \<Rightarrow> 'a \<Rightarrow> int) \<Rightarrow> 'a list \<Rightarrow> nat \<Rightarrow> nat \<Rightarrow> nat \<Rightarrow> ('a list \<times> nat \<times> nat \<times> nat) option" where
  "part_step cmp xs i j mid =
     (let i = scan_up cmp xs mid i;
          j = scan_down cmp xs mid j
      in if mid < j
         then if i = mid then Some (swap xs i j, i + 1, j, j)
              else Some (swap xs i j, i + 1, j - 1, mid)
         else if i = mid then None
         else Some (swap xs i mid, i, j - 1, i))"

lemma part_step_bounds:
  assumes "part_step cmp xs i j mid = Some (xs', i', j', mid')" and "i \<le> mid" and "mid \<le> j"
  shows "i \<le> i'" "i' \<le> mid'" "mid' \<le> j'" "j' \<le> j" "j' - i' < j - i"
  using assms scan_up_bounds [OF assms(2), of cmp xs] scan_down_bounds [OF assms(3), of cmp xs]
  by (auto simp: part_step_def Let_def split: if_splits)

function part_loop :: "('a \<Rightarrow> 'a \<Rightarrow> int) \<Rightarrow> 'a list \<Rightarrow> nat \<Rightarrow> nat \<Rightarrow> nat \<Rightarrow> 'a list \<times> nat" where
  "part_loop cmp xs i j mid =
     (if i \<le> mid \<and> mid \<le> j
      then case part_step cmp xs i j mid of
             None \<Rightarrow> (xs, mid)
           | Some (xs', i', j', mid') \<Rightarrow> part_loop cmp xs' i' j' mid'
      else (xs, mid))"
  by pat_completeness auto
termination
  by (relation "measure (\<lambda>(cmp, xs, i, j, mid). j - i)") (auto dest: part_step_bounds(5))

declare part_loop.simps [simp del]

lemma part_loop_bounds:
  "i \<le> mid \<Longrightarrow> mid \<le> j \<Longrightarrow> i \<le> snd (part_loop cmp xs i j mid) \<and> snd (part_loop cmp xs i j mid) \<le> j"
proof (induction cmp xs i j mid rule: part_loop.induct)
  case (1 cmp xs i j mid)
  show ?case
  proof (cases "part_step cmp xs i j mid")
    case None
    with 1(2,3) show ?thesis by (simp add: part_loop.simps [of cmp xs i])
  next
    case (Some r)
    obtain ys i' j' m where r: "r = (ys, i', j', m)" by (cases r)
    note b = part_step_bounds [OF Some [unfolded r] 1(2,3)]
    have "i' \<le> snd (part_loop cmp ys i' j' m) \<and> snd (part_loop cmp ys i' j' m) \<le> j'"
      using 1(1) [of "(ys, i', j', m)" ys "(i', j', m)" i' "(j', m)" j' m] 1(2,3) Some r b by simp
    then show ?thesis using 1(2,3) Some r b by (simp add: part_loop.simps [of cmp xs i])
  qed
qed

lemma qst_mid:
  "base < mx \<Longrightarrow> base \<le> snd (part_loop cmp ys base (mx - 1) (base + (mx - base) div 2))
    \<and> snd (part_loop cmp ys base (mx - 1) (base + (mx - base) div 2)) < mx"
proof -
  assume "base < mx"
  then have "(mx - base) div 2 < mx - base" by simp
  then have "base + (mx - base) div 2 \<le> mx - 1" by linarith
  from part_loop_bounds [OF _ this, of base cmp ys] \<open>base < mx\<close> show ?thesis by simp linarith
qed

function qst :: "('a \<Rightarrow> 'a \<Rightarrow> int) \<Rightarrow> 'a list \<Rightarrow> nat \<Rightarrow> nat \<Rightarrow> 'a list" where
  "qst cmp xs base mx =
     (if mx \<le> base then xs
      else
        let n = mx - base;
            mid = base + n div 2;
            xs = (if MTHRESH \<le> n then median_to_mid cmp xs base mid mx else xs);
            (xs, mid) = part_loop cmp xs base (mx - 1) mid;
            lo = mid - base;
            hi = mx - (mid + 1)
        in if lo \<le> hi
           then let xs = (if THRESH \<le> lo then qst cmp xs base mid else xs)
                in if THRESH \<le> hi then qst cmp xs (mid + 1) mx else xs
           else let xs = (if THRESH \<le> hi then qst cmp xs (mid + 1) mx else xs)
                in if THRESH \<le> lo then qst cmp xs base mid else xs)"
  by pat_completeness auto
termination
proof (relation "measure (\<lambda>(cmp, xs, base, mx). mx - base)", goal_cases)
  case 1
  then show ?case by simp
next
  case (2 cmp xs base mx n mid ys p zs m lo hi)
  then have "base \<le> m \<and> m < mx" using qst_mid [of base mx cmp ys] by (metis not_le snd_conv)
  then show ?case using 2(1) by auto
next
  case (3 cmp xs base mx n mid ys p zs m lo hi)
  then have "base \<le> m \<and> m < mx" using qst_mid [of base mx cmp ys] by (metis not_le snd_conv)
  then show ?case using 3(1) by auto
next
  case (4 cmp xs base mx n mid ys p zs m lo hi)
  then have "base \<le> m \<and> m < mx" using qst_mid [of base mx cmp ys] by (metis not_le snd_conv)
  then show ?case using 4(1) by auto
next
  case (5 cmp xs base mx n mid ys p zs m lo hi)
  then have "base \<le> m \<and> m < mx" using qst_mid [of base mx cmp ys] by (metis not_le snd_conv)
  then show ?case using 5(1) by auto
qed

declare qst.simps [simp del]

text \<open>The index of the least element among the first ones.\<close>

fun min_loop :: "('a \<Rightarrow> 'a \<Rightarrow> int) \<Rightarrow> 'a list \<Rightarrow> nat \<Rightarrow> nat \<Rightarrow> nat \<Rightarrow> nat" where
  "min_loop cmp xs j lo 0 = j"
| "min_loop cmp xs j lo (Suc n) = min_loop cmp xs (if 0 < cmp (xs ! j) (xs ! lo) then lo else j) (lo + 1) n"

text \<open>Running down from \<open>mn\<close>; below the first element is outside the array.\<close>

fun find_pos :: "('a \<Rightarrow> 'a \<Rightarrow> int) \<Rightarrow> 'a list \<Rightarrow> nat \<Rightarrow> nat \<Rightarrow> nat option" where
  "find_pos cmp xs mn 0 = None"
| "find_pos cmp xs mn (Suc hi) = (if 0 < cmp (xs ! hi) (xs ! mn) then find_pos cmp xs mn hi else Some (Suc hi))"

definition move_down :: "'a list \<Rightarrow> nat \<Rightarrow> nat \<Rightarrow> 'a list" where
  "move_down xs hi mn = take hi xs @ xs ! mn # drop hi (take mn xs) @ drop (mn + 1) xs"

fun insertion_loop :: "('a \<Rightarrow> 'a \<Rightarrow> int) \<Rightarrow> 'a list \<Rightarrow> nat \<Rightarrow> nat \<Rightarrow> 'a list option" where
  "insertion_loop cmp xs mn 0 = Some xs"
| "insertion_loop cmp xs mn (Suc n) =
     (case find_pos cmp xs mn mn of
        None \<Rightarrow> None
      | Some hi \<Rightarrow> insertion_loop cmp (if hi \<noteq> mn then move_down xs hi mn else xs) (mn + 1) n)"

definition qsort :: "('a \<Rightarrow> 'a \<Rightarrow> int) \<Rightarrow> 'a list \<Rightarrow> 'a list option" where
  "qsort compar xs =
     (let n = length xs in
      if n \<le> 1 then Some xs
      else
        let (xs, hi) = (if THRESH \<le> n then (qst compar xs 0 n, THRESH) else (xs, n));
            j = min_loop compar xs 0 1 (hi - 1);
            xs = (if j \<noteq> 0 then swap xs 0 j else xs)
        in insertion_loop compar xs 1 (n - 1))"


section \<open>Permutations within a range\<close>

definition perm_in :: "nat \<Rightarrow> nat \<Rightarrow> 'a list \<Rightarrow> 'a list \<Rightarrow> bool" where
  "perm_in b m xs ys \<longleftrightarrow> mset ys = mset xs \<and> take b ys = take b xs \<and> drop m ys = drop m xs"

lemma perm_in_refl [simp]: "perm_in b m xs xs"
  by (simp add: perm_in_def)

lemma perm_in_trans [trans]: "perm_in b m xs ys \<Longrightarrow> perm_in b m ys zs \<Longrightarrow> perm_in b m xs zs"
  by (simp add: perm_in_def)

lemma perm_in_length: "perm_in b m xs ys \<Longrightarrow> length ys = length xs"
  by (metis perm_in_def size_mset)

lemma perm_in_set: "perm_in b m xs ys \<Longrightarrow> set ys = set xs"
  by (metis perm_in_def set_mset_mset)

lemma perm_in_mono: "perm_in b m xs ys \<Longrightarrow> b' \<le> b \<Longrightarrow> m \<le> m' \<Longrightarrow> perm_in b' m' xs ys"
  unfolding perm_in_def
  by (metis drop_drop le_add_diff_inverse2 min.absorb1 take_take)

lemma perm_in_swap:
  assumes "b \<le> i" "i < m" "b \<le> j" "j < m" "m \<le> length xs"
  shows "perm_in b m xs (swap xs i j)"
  using assms mset_swap [of j xs i] by (simp add: perm_in_def swap_def Let_def)

lemma perm_in_out:
  assumes p: "perm_in b m xs ys" and k: "k < b \<or> m \<le> k" "k < length xs"
  shows "ys ! k = xs ! k"
proof (cases "k < b")
  case True
  then show ?thesis using p by (metis perm_in_def nth_take)
next
  case False
  then show ?thesis using p k perm_in_length [OF p] nth_drop [of m ys "k - m"] nth_drop [of m xs "k - m"]
    by (simp add: perm_in_def)
qed

lemma perm_in_nth:
  assumes p: "perm_in b m xs ys" and k: "b \<le> k" "k < m" "m \<le> length xs"
  shows "\<exists>k'. b \<le> k' \<and> k' < m \<and> ys ! k = xs ! k'"
proof -
  let ?s = "\<lambda>zs. drop b (take m zs)"
  have split: "zs = take b zs @ ?s zs @ drop m zs" if "b \<le> m" for zs :: "'a list"
    using that by (metis append_assoc append_take_drop_id min.absorb1 take_take)
  have bm: "b \<le> m" using k by simp
  have "mset ys = mset (take b ys) + mset (?s ys) + mset (drop m ys)"
    "mset xs = mset (take b xs) + mset (?s xs) + mset (drop m xs)"
    by (metis split [OF bm] mset_append add.assoc)+
  with p have "mset (?s ys) = mset (?s xs)"
    unfolding perm_in_def by (metis add_left_imp_eq add_right_imp_eq)
  then have "set (?s ys) = set (?s xs)" by (metis set_mset_mset)
  moreover have "ys ! k \<in> set (?s ys)"
    using k perm_in_length [OF p] by (auto simp: in_set_conv_nth intro!: exI [of _ "k - b"])
  ultimately obtain i where "i < length (?s xs)" "ys ! k = ?s xs ! i" by (metis in_set_conv_nth)
  then show ?thesis using k by (intro exI [of _ "b + i"]) auto
qed


section \<open>Orders given by comparison routines\<close>

text \<open>
  What a comparison routine owes to \<open>qsort\<close>, on the elements it is used for: swapping the arguments
  swaps the sign, and being not greater is transitive.
\<close>

locale comparator =
  fixes A :: "'a set" and cmp :: "'a \<Rightarrow> 'a \<Rightarrow> int"
  assumes cmp_flip: "x \<in> A \<Longrightarrow> y \<in> A \<Longrightarrow> 0 < cmp x y \<longleftrightarrow> cmp y x < 0"
    and cmp_trans: "x \<in> A \<Longrightarrow> y \<in> A \<Longrightarrow> z \<in> A \<Longrightarrow> cmp x y \<le> 0 \<Longrightarrow> cmp y z \<le> 0 \<Longrightarrow> cmp x z \<le> 0"
begin

abbreviation le :: "'a \<Rightarrow> 'a \<Rightarrow> bool" where
  "le x y \<equiv> cmp x y \<le> 0"

lemma le_refl: "x \<in> A \<Longrightarrow> le x x"
  using cmp_flip [of x x] by linarith

lemma not_le: "x \<in> A \<Longrightarrow> y \<in> A \<Longrightarrow> \<not> le x y \<Longrightarrow> le y x"
  using cmp_flip [of x y] by linarith

text \<open>Everything before \<open>i\<close> is not above the discriminator, everything after \<open>j\<close> not below it.\<close>

definition split_at :: "'a list \<Rightarrow> nat \<Rightarrow> nat \<Rightarrow> nat \<Rightarrow> nat \<Rightarrow> nat \<Rightarrow> bool" where
  "split_at xs b m i j mid \<longleftrightarrow> (\<forall>k. b \<le> k \<and> k < i \<longrightarrow> le (xs ! k) (xs ! mid)) \<and> (\<forall>k. j < k \<and> k < m \<longrightarrow> le (xs ! mid) (xs ! k))"

lemma scan_up_le: "i \<le> k \<Longrightarrow> k < scan_up cmp xs mid i \<Longrightarrow> le (xs ! k) (xs ! mid)"
proof (induction cmp xs mid i rule: scan_up.induct)
  case (1 cmp xs mid i)
  then show ?case using scan_up.simps [of cmp xs mid i]
    by (cases "i < mid \<and> cmp (xs ! i) (xs ! mid) \<le> 0"; cases "k = i") auto
qed

lemma scan_up_stop: "i \<le> mid \<Longrightarrow> scan_up cmp xs mid i \<noteq> mid \<Longrightarrow> \<not> le (xs ! scan_up cmp xs mid i) (xs ! mid)"
proof (induction cmp xs mid i rule: scan_up.induct)
  case (1 cmp xs mid i)
  then show ?case using scan_up.simps [of cmp xs mid i]
    by (cases "i < mid \<and> cmp (xs ! i) (xs ! mid) \<le> 0") auto
qed

lemma scan_down_le: "scan_down cmp xs mid j < k \<Longrightarrow> k \<le> j \<Longrightarrow> le (xs ! mid) (xs ! k)"
proof (induction cmp xs mid j rule: scan_down.induct)
  case (1 cmp xs mid j)
  then show ?case using scan_down.simps [of cmp xs mid j]
    by (cases "mid < j \<and> cmp (xs ! mid) (xs ! j) \<le> 0"; cases "k = j") auto
qed

lemma scan_down_stop: "mid < scan_down cmp xs mid j \<Longrightarrow> \<not> le (xs ! mid) (xs ! scan_down cmp xs mid j)"
proof (induction cmp xs mid j rule: scan_down.induct)
  case (1 cmp xs mid j)
  then show ?case using scan_down.simps [of cmp xs mid j]
    by (cases "mid < j \<and> cmp (xs ! mid) (xs ! j) \<le> 0") auto
qed

end

context comparator begin

lemma elt_after_swap:
  assumes "ii < length v" and "jj < length v"
  shows "swap v ii jj ! k = (if k = jj then v ! ii else if k = ii then v ! jj else v ! k)"
  using assms unfolding swap_def Let_def by (cases "k = jj") auto

lemma part_step_split:
  assumes st: "part_step cmp xs i j mid = Some (ys, i', j', mid')"
    and A: "set xs \<subseteq> A" and b: "b \<le> i" "i \<le> mid" "mid \<le> j" "j < m" "m \<le> length xs"
    and s: "split_at xs b m i j mid"
  shows "perm_in b m xs ys \<and> split_at ys b m i' j' mid'"
proof -
  define I J where "I = scan_up cmp xs mid i" and "J = scan_down cmp xs mid j"
  have bi: "i \<le> I" "I \<le> mid" and bj: "mid \<le> J" "J \<le> j"
    using scan_up_bounds [OF b(2), of cmp xs] scan_down_bounds [OF b(3), of cmp xs] by (simp_all add: I_def J_def)
  have len: "I < length xs" "J < length xs" "mid < length xs" using bi bj b by auto
  have inA: "xs ! I \<in> A" "xs ! J \<in> A" "xs ! mid \<in> A" using A len nth_mem by blast+
  have low: "le (xs ! k) (xs ! mid)" if "b \<le> k" "k < I" for k
    using s scan_up_le [of i k xs mid] that by (cases "k < i") (auto simp: split_at_def I_def)
  have high: "le (xs ! mid) (xs ! k)" if "J < k" "k < m" for k
    using s scan_down_le [of xs mid j k] that by (cases "j < k") (auto simp: split_at_def J_def)
  have gt: "le (xs ! mid) (xs ! I)" if "I \<noteq> mid"
    using scan_up_stop [OF b(2), of xs, folded I_def, OF that] by (rule not_le [OF inA(1,3)])
  have lt: "le (xs ! J) (xs ! mid)" if "mid < J"
    using scan_down_stop [of mid xs j, folded J_def, OF that] by (rule not_le [OF inA(3,2)])
  consider (a) "mid < J" "I = mid" "ys = swap xs I J" "i' = I + 1" "j' = J" "mid' = J"
    | (b) "mid < J" "I < mid" "ys = swap xs I J" "i' = I + 1" "j' = J - 1" "mid' = mid"
    | (c) "J = mid" "I < mid" "ys = swap xs I mid" "i' = I" "j' = J - 1" "mid' = I"
  proof -
    have st': "(if mid < J then if I = mid then Some (swap xs I J, I + 1, J, J) else Some (swap xs I J, I + 1, J - 1, mid)
        else if I = mid then None else Some (swap xs I mid, I, J - 1, I)) = Some (ys, i', j', mid')"
      using st by (simp only: part_step_def I_def J_def Let_def)
    consider "mid < J" "I = mid" | "mid < J" "I < mid" | "J = mid" "I = mid" | "J = mid" "I < mid"
      using bi bj by linarith
    then show thesis
    proof cases
      case 1
      show thesis by (rule a) (use st' 1 in auto)
    next
      case 2
      show thesis by (rule b) (use st' 2 in auto)
    next
      case 3
      with st' show thesis by simp
    next
      case 4
      show thesis by (rule c) (use st' 4 in auto)
    qed
  qed
  then show ?thesis
  proof cases
    case a
    have "split_at ys b m i' j' mid'" unfolding a split_at_def elt_after_swap [OF len(3,2)]
      using low high lt bi bj a by (auto simp: less_Suc_eq)
    then show ?thesis using a bi bj b by (auto intro!: perm_in_swap)
  next
    case b
    have "split_at ys b m i' j' mid'" unfolding b split_at_def elt_after_swap [OF len(1,2)]
      using low high lt gt bi bj b by (auto simp: less_Suc_eq)
    then show ?thesis using b bi bj \<open>b \<le> i\<close> \<open>j < m\<close> \<open>m \<le> length xs\<close> by (auto intro!: perm_in_swap)
  next
    case c
    have "split_at ys b m i' j' mid'" unfolding c split_at_def elt_after_swap [OF len(1,3)]
      using low high gt bi bj c by auto
    then show ?thesis using c bi bj b by (auto intro!: perm_in_swap)
  qed
qed

lemma part_step_None:
  assumes "part_step cmp xs i j mid = None" and "i \<le> mid" and "mid \<le> j"
    and s: "split_at xs b m i j mid"
  shows "split_at xs b m mid mid mid"
proof -
  have e: "scan_up cmp xs mid i = mid" "scan_down cmp xs mid j = mid"
    using assms(1) scan_down_bounds [OF assms(3), of cmp xs]
    by (auto simp: part_step_def Let_def split: if_splits)
  have "le (xs ! k) (xs ! mid)" if "b \<le> k" "k < mid" for k
    using s scan_up_le [of i k xs mid] that e by (cases "k < i") (auto simp: split_at_def)
  moreover have "le (xs ! mid) (xs ! k)" if "mid < k" "k < m" for k
    using s scan_down_le [of xs mid j k] that e by (cases "j < k") (auto simp: split_at_def)
  ultimately show ?thesis by (simp add: split_at_def)
qed

lemma part_loop_split:
  assumes "set xs \<subseteq> A" and "b \<le> i" "i \<le> mid" "mid \<le> j" "j < m" "m \<le> length xs" and "split_at xs b m i j mid"
  shows "perm_in b m xs (fst (part_loop cmp xs i j mid))
    \<and> split_at (fst (part_loop cmp xs i j mid)) b m (snd (part_loop cmp xs i j mid))
        (snd (part_loop cmp xs i j mid)) (snd (part_loop cmp xs i j mid))"
  using assms
proof (induction "j - i" arbitrary: xs i j mid rule: less_induct)
  case less
  show ?case
  proof (cases "part_step cmp xs i j mid")
    case None
    then show ?thesis using less.prems part_step_None [OF None less.prems(3,4,7)]
      by (simp add: part_loop.simps [of cmp xs i])
  next
    case (Some r)
    obtain ys i' j' m' where r: "r = (ys, i', j', m')" by (cases r)
    note bd = part_step_bounds [OF Some [unfolded r] less.prems(3,4)]
    have p: "perm_in b m xs ys" and s: "split_at ys b m i' j' m'"
      using part_step_split [OF Some [unfolded r] less.prems] by blast+
    have "part_loop cmp xs i j mid = part_loop cmp ys i' j' m'"
      using less.prems Some r by (simp add: part_loop.simps [of cmp xs i])
    moreover have "perm_in b m ys (fst (part_loop cmp ys i' j' m'))
        \<and> split_at (fst (part_loop cmp ys i' j' m')) b m (snd (part_loop cmp ys i' j' m'))
          (snd (part_loop cmp ys i' j' m')) (snd (part_loop cmp ys i' j' m'))"
      using bd less.prems perm_in_set [OF p] perm_in_length [OF p] s by (intro less.hyps) auto
    ultimately show ?thesis using p perm_in_trans by metis
  qed
qed

text \<open>What is left after \<open>qst\<close>: short blocks, with a discriminator between two blocks.\<close>

inductive blocks :: "'a list \<Rightarrow> nat \<Rightarrow> nat \<Rightarrow> bool" for xs where
  short: "m - b < THRESH \<Longrightarrow> blocks xs b m"
| split: "b \<le> mid \<Longrightarrow> mid < m \<Longrightarrow> split_at xs b m mid mid mid \<Longrightarrow> blocks xs b mid \<Longrightarrow> blocks xs (mid + 1) m \<Longrightarrow> blocks xs b m"

lemma blocks_cong:
  "blocks xs b m \<Longrightarrow> (\<And>k. b \<le> k \<Longrightarrow> k < m \<Longrightarrow> ys ! k = xs ! k) \<Longrightarrow> blocks ys b m"
proof (induction rule: blocks.induct)
  case (split b mid m)
  show ?case
  proof (rule blocks.split [of b mid])
    show "split_at ys b m mid mid mid" using split.hyps(1-3) split.prems by (auto simp: split_at_def)
    show "blocks ys b mid" "blocks ys (mid + 1) m" using split by auto
  qed (use split in auto)
qed (rule blocks.short)

lemma blocks_least_first:
  assumes "blocks xs b m" and "set xs \<subseteq> A" and "m \<le> length xs" and "b \<le> k" and "k < m"
  shows "\<exists>k'. b \<le> k' \<and> k' < b + THRESH \<and> k' < m \<and> le (xs ! k') (xs ! k)"
  using assms
proof (induction arbitrary: k rule: blocks.induct)
  case (short m b)
  then have "xs ! k \<in> A" using nth_mem [of k xs] by auto
  with short show ?case by (intro exI [of _ k]) (auto simp: le_refl)
next
  case (split b mid m)
  have inA: "xs ! b \<in> A" "xs ! mid \<in> A" "xs ! k \<in> A" using split by (auto intro!: subsetD [OF split.prems(1)] nth_mem)
  show ?case
  proof (cases "k < mid")
    case True
    then obtain k' where "b \<le> k'" "k' < b + THRESH" "k' < mid" "le (xs ! k') (xs ! k)"
      using split.IH(1) [OF split.prems(1) _ split.prems(3) True] split.hyps(2) split.prems(2) by auto
    then show ?thesis using split.hyps(2) by (intro exI [of _ k']) auto
  next
    case False
    have "le (xs ! b) (xs ! mid)" using split.hyps(1,3) inA le_refl by (cases "b = mid") (auto simp: split_at_def)
    moreover have "le (xs ! mid) (xs ! k)" using split.hyps(3) split.prems inA le_refl False
      by (cases "k = mid") (auto simp: split_at_def)
    ultimately have "le (xs ! b) (xs ! k)" using cmp_trans inA by blast
    then show ?thesis using split by (intro exI [of _ b]) auto
  qed
qed

end


lemma median_perm:
  assumes "base \<le> i" "i < mx" "mx \<le> length xs"
  shows "perm_in base mx xs (median_to_mid cmp xs base i mx)"
proof -
  have "\<exists>j. (median_to_mid cmp xs base i mx = xs \<or> median_to_mid cmp xs base i mx = swap xs i j) \<and> base \<le> j \<and> j < mx"
    using assms by (auto simp: median_to_mid_def Let_def)
  then show ?thesis using assms perm_in_swap [of base i mx _ xs] by auto
qed

context comparator begin

lemma split_at_perm_left:
  assumes p: "perm_in b mid xs ys" and s: "split_at xs b m mid mid mid" and "mid < m" "m \<le> length xs"
  shows "split_at ys b m mid mid mid"
proof -
  have mid: "ys ! mid = xs ! mid" using perm_in_out [OF p, of mid] assms by simp
  have "le (ys ! k) (xs ! mid)" if "b \<le> k" "k < mid" for k
    using perm_in_nth [OF p that] s assms(3,4) by (auto simp: split_at_def)
  moreover have "ys ! k = xs ! k" if "mid < k" "k < m" for k
    using perm_in_out [OF p, of k] that assms by simp
  ultimately show ?thesis using s mid by (simp add: split_at_def)
qed

lemma split_at_perm_right:
  assumes p: "perm_in (mid + 1) m xs ys" and s: "split_at xs b m mid mid mid" and "mid < m" "m \<le> length xs"
  shows "split_at ys b m mid mid mid"
proof -
  have out: "ys ! k = xs ! k" if "k \<le> mid" for k
    using perm_in_out [OF p, of k] that assms by simp
  have "le (xs ! mid) (ys ! k)" if "mid < k" "k < m" for k
    using perm_in_nth [OF p, of k] that s assms(3,4) by (auto simp: split_at_def)
  then show ?thesis using s out by (simp add: split_at_def)
qed

text \<open>The two recursive calls, in either order.\<close>

lemma two_parts:
  assumes s: "split_at xs b m mid mid mid" and b: "b \<le> mid" "mid < m" "m \<le> length xs"
    and p: "perm_in b mid xs ys" "blocks ys b mid" and q: "perm_in (mid + 1) m ys zs" "blocks zs (mid + 1) m"
  shows "perm_in b m xs zs \<and> blocks zs b m"
proof
  show "perm_in b m xs zs"
    using perm_in_mono [OF p(1), of b m] perm_in_mono [OF q(1), of b m] b perm_in_trans by (metis le_add1 le_trans order.strict_implies_order order_refl)
  have len: "m \<le> length ys" using perm_in_length [OF p(1)] b by simp
  have sz: "split_at zs b m mid mid mid"
    by (rule split_at_perm_right [OF q(1) split_at_perm_left [OF p(1) s b(2,3)] b(2) len])
  have bz: "blocks zs b mid"
    by (rule blocks_cong [OF p(2)]) (use perm_in_out [OF q(1)] b len in auto)
  show "blocks zs b m" by (rule blocks.split [OF b(1,2) sz bz q(2)])
qed

lemma two_parts':
  assumes s: "split_at xs b m mid mid mid" and b: "b \<le> mid" "mid < m" "m \<le> length xs"
    and q: "perm_in (mid + 1) m xs ys" "blocks ys (mid + 1) m" and p: "perm_in b mid ys zs" "blocks zs b mid"
  shows "perm_in b m xs zs \<and> blocks zs b m"
proof
  show "perm_in b m xs zs"
    using perm_in_mono [OF p(1), of b m] perm_in_mono [OF q(1), of b m] b perm_in_trans by (metis le_add1 le_trans order.strict_implies_order order_refl)
  have len: "m \<le> length ys" using perm_in_length [OF q(1)] b by simp
  have sz: "split_at zs b m mid mid mid"
    by (rule split_at_perm_left [OF p(1) split_at_perm_right [OF q(1) s b(2,3)] b(2) len])
  have bz: "blocks zs (mid + 1) m"
    by (rule blocks_cong [OF q(2)]) (use perm_in_out [OF p(1)] b len in auto)
  show "blocks zs b m" by (rule blocks.split [OF b(1,2) sz p(2) bz])
qed

lemma qst_spec:
  assumes "set xs \<subseteq> A" and "b < m" and "m \<le> length xs"
  shows "perm_in b m xs (qst cmp xs b m) \<and> blocks (qst cmp xs b m) b m"
  using assms
proof (induction "m - b" arbitrary: xs b m rule: less_induct)
  case less
  define mid0 where "mid0 = b + (m - b) div 2"
  define xs1 where "xs1 = (if MTHRESH \<le> m - b then median_to_mid cmp xs b mid0 m else xs)"
  define xs2 mid where "xs2 = fst (part_loop cmp xs1 b (m - 1) mid0)" and "mid = snd (part_loop cmp xs1 b (m - 1) mid0)"
  have "(m - b) div 2 < m - b" using less.prems(2) by simp
  then have m0: "b \<le> mid0" "mid0 \<le> m - 1" using less.prems(2) unfolding mid0_def by linarith+
  have p1: "perm_in b m xs xs1" using median_perm [of b mid0 m xs cmp] m0 less.prems by (auto simp: xs1_def)
  have mid: "b \<le> mid" "mid < m" using qst_mid [OF less.prems(2), of cmp xs1] by (simp_all add: mid_def mid0_def)
  have len1: "m \<le> length xs1" "set xs1 \<subseteq> A" using perm_in_length [OF p1] perm_in_set [OF p1] less.prems by simp_all
  have "split_at xs1 b m b (m - 1) mid0" by (auto simp: split_at_def)
  then have p2: "perm_in b m xs1 xs2" and s: "split_at xs2 b m mid mid mid"
    using part_loop_split [OF len1(2) order_refl m0 _ len1(1)] less.prems by (simp_all add: xs2_def mid_def)
  have len2: "m \<le> length xs2" "set xs2 \<subseteq> A" using perm_in_length [OF p2] perm_in_set [OF p2] len1 by simp_all
  have rec: "perm_in b' m' ys (if THRESH \<le> m' - b' then qst cmp ys b' m' else ys)
      \<and> blocks (if THRESH \<le> m' - b' then qst cmp ys b' m' else ys) b' m'"
    if "m' - b' < m - b" "m' \<le> length ys" "set ys \<subseteq> A" for ys b' m'
    using less.hyps [OF that(1), of ys] that by (auto intro: blocks.short)
  let ?l = "if THRESH \<le> mid - b then qst cmp xs2 b mid else xs2"
  let ?r = "if THRESH \<le> m - (mid + 1) then qst cmp xs2 (mid + 1) m else xs2"
  have q: "qst cmp xs b m = (if mid - b \<le> m - (mid + 1)
      then if THRESH \<le> m - (mid + 1) then qst cmp ?l (mid + 1) m else ?l
      else if THRESH \<le> mid - b then qst cmp ?r b mid else ?r)"
    using less.prems(2) unfolding qst.simps [of cmp xs b m] Let_def mid0_def [symmetric] xs1_def [symmetric]
      case_prod_beta xs2_def [symmetric] mid_def [symmetric] by simp
  have l: "perm_in b mid xs2 ?l \<and> blocks ?l b mid" and r: "perm_in (mid + 1) m xs2 ?r \<and> blocks ?r (mid + 1) m"
    using rec [of mid b xs2] rec [of m "mid + 1" xs2] mid len2 by auto
  have "perm_in b m xs2 (qst cmp xs b m) \<and> blocks (qst cmp xs b m) b m"
  proof (cases "mid - b \<le> m - (mid + 1)")
    case True
    have "m \<le> length ?l" "set ?l \<subseteq> A"
      unfolding perm_in_length [OF conjunct1 [OF l]] perm_in_set [OF conjunct1 [OF l]] by (rule len2)+
    moreover have "m - (mid + 1) < m - b" using mid by linarith
    ultimately have r2: "perm_in (mid + 1) m ?l (if THRESH \<le> m - (mid + 1) then qst cmp ?l (mid + 1) m else ?l)
        \<and> blocks (if THRESH \<le> m - (mid + 1) then qst cmp ?l (mid + 1) m else ?l) (mid + 1) m"
      by (intro rec)
    show ?thesis unfolding q if_P [OF True]
      by (rule two_parts [OF s mid len2(1) conjunct1 [OF l] conjunct2 [OF l] conjunct1 [OF r2] conjunct2 [OF r2]])
  next
    case False
    have "m \<le> length ?r" "set ?r \<subseteq> A"
      unfolding perm_in_length [OF conjunct1 [OF r]] perm_in_set [OF conjunct1 [OF r]] by (rule len2)+
    then have "mid \<le> length ?r" "set ?r \<subseteq> A" using mid(2) by simp_all
    moreover have "mid - b < m - b" using mid by linarith
    ultimately have l2: "perm_in b mid ?r (if THRESH \<le> mid - b then qst cmp ?r b mid else ?r)
        \<and> blocks (if THRESH \<le> mid - b then qst cmp ?r b mid else ?r) b mid"
      by (intro rec)
    show ?thesis unfolding q if_not_P [OF False]
      by (rule two_parts' [OF s mid len2(1) conjunct1 [OF r] conjunct2 [OF r] conjunct1 [OF l2] conjunct2 [OF l2]])
  qed
  then show ?case using p1 p2 perm_in_trans by metis
qed

end


section \<open>The insertion sort with a sentinel\<close>

lemma length_move_down: "hi \<le> mn \<Longrightarrow> mn < length xs \<Longrightarrow> length (move_down xs hi mn) = length xs"
  by (simp add: move_down_def)

lemma mset_move_down:
  assumes "hi \<le> mn" and "mn < length xs"
  shows "mset (move_down xs hi mn) = mset xs"
proof -
  have "xs = take hi xs @ drop hi (take mn xs) @ xs ! mn # drop (mn + 1) xs"
    using assms by (metis Suc_eq_plus1 append_assoc append_take_drop_id id_take_nth_drop min.absorb1 take_take)
  then have "mset xs = mset (take hi xs @ drop hi (take mn xs) @ xs ! mn # drop (mn + 1) xs)" by simp
  then show ?thesis by (simp add: move_down_def)
qed

lemma find_pos_Some:
  "find_pos cmp xs mn h = Some hi \<Longrightarrow>
    0 < hi \<and> hi \<le> h \<and> cmp (xs ! (hi - 1)) (xs ! mn) \<le> 0 \<and> (\<forall>k. hi \<le> k \<and> k < h \<longrightarrow> 0 < cmp (xs ! k) (xs ! mn))"
  by (induction h) (auto simp: less_Suc_eq split: if_splits)

lemma find_pos_stops: "cmp (xs ! 0) (xs ! mn) \<le> 0 \<Longrightarrow> 0 < h \<Longrightarrow> \<exists>hi. find_pos cmp xs mn h = Some hi"
proof (induction h)
  case (Suc h)
  then show ?case by (cases h) auto
qed simp

context comparator begin

lemma min_loop_least:
  assumes "set xs \<subseteq> A" and "j < lo" and "lo + n \<le> length xs" and "\<And>k. k < lo \<Longrightarrow> le (xs ! j) (xs ! k)"
  shows "min_loop cmp xs j lo n < lo + n \<and> (\<forall>k < lo + n. le (xs ! min_loop cmp xs j lo n) (xs ! k))"
  using assms(2-4)
proof (induction n arbitrary: j lo)
  case (Suc n)
  let ?j = "if 0 < cmp (xs ! j) (xs ! lo) then lo else j"
  have inA: "xs ! k \<in> A" if "k < lo + Suc n" for k using that Suc.prems assms(1) nth_mem [of k xs] by auto
  have j: "le (xs ! ?j) (xs ! k)" if "k < lo + 1" for k
  proof (cases "0 < cmp (xs ! j) (xs ! lo)")
    case True
    then have lj: "le (xs ! lo) (xs ! j)" using not_le [of "xs ! j" "xs ! lo"] inA [of j] inA [of lo] Suc.prems by auto
    show ?thesis
    proof (cases "k = lo")
      case False
      then have "le (xs ! j) (xs ! k)" using Suc.prems(3) [of k] that by simp
      then show ?thesis using lj cmp_trans [of "xs ! lo" "xs ! j" "xs ! k"] inA [of j] inA [of lo] inA [of k] that Suc.prems True
        by simp
    qed (use le_refl [of "xs ! lo"] inA [of lo] True in simp)
  next
    case False
    then show ?thesis using Suc.prems(3) [of k] that by (cases "k = lo") auto
  qed
  from Suc.IH [of ?j "lo + 1"] j Suc.prems show ?case by auto
qed simp

lemma insert_sorted:
  assumes sorted: "sorted_wrt le (take mn xs)" and mn: "mn < length xs" and A: "set xs \<subseteq> A"
    and hi: "find_pos cmp xs mn mn = Some hi"
  shows "sorted_wrt le (take (mn + 1) (move_down xs hi mn))"
proof -
  note h = find_pos_Some [OF hi]
  have inA: "xs ! k \<in> A" if "k < length xs" for k using that A nth_mem by blast
  have pair: "le (xs ! k) (xs ! l)" if "k < l" "l < mn" for k l
    using sorted_wrt_nth_less [OF sorted, of k l] that mn by simp
  have before: "le (xs ! k) (xs ! mn)" if k: "k < hi" for k
  proof (cases "k = hi - 1")
    case False
    moreover have "hi - 1 < mn" using h by linarith
    ultimately have "le (xs ! k) (xs ! (hi - 1))" using pair [of k "hi - 1"] k by linarith
    moreover have "k < length xs" "hi - 1 < length xs" using k h mn by linarith+
    ultimately show ?thesis using cmp_trans [of "xs ! k" "xs ! (hi - 1)" "xs ! mn"] inA mn h by blast
  qed (use h in simp)
  have after: "le (xs ! mn) (xs ! k)" if "hi \<le> k" "k < mn" for k
    using not_le [of "xs ! k" "xs ! mn"] h that inA mn by force
  have eq: "take (mn + 1) (move_down xs hi mn) = take hi xs @ xs ! mn # drop hi (take mn xs)"
    using h mn by (simp add: move_down_def min_def Suc_diff_le)
  have "sorted_wrt le (take hi xs @ drop hi (take mn xs))"
    using sorted h by (metis append_take_drop_id min.absorb1 take_take)
  moreover have "\<forall>x \<in> set (take hi xs). le x (xs ! mn)"
    using before h mn by (auto simp: in_set_conv_nth)
  moreover have "\<forall>x \<in> set (drop hi (take mn xs)). le (xs ! mn) x"
    using after h mn by (auto simp: in_set_conv_nth)
  ultimately show ?thesis unfolding eq by (auto simp: sorted_wrt_append)
qed

lemma move_down_first: "0 < hi \<Longrightarrow> hi \<le> mn \<Longrightarrow> mn < length xs \<Longrightarrow> move_down xs hi mn ! 0 = xs ! 0"
  by (simp add: move_down_def nth_append)

lemma insertion_sorts:
  assumes "set xs \<subseteq> A" and "0 < mn" and "mn + n = length xs" and "sorted_wrt le (take mn xs)"
    and "\<forall>x \<in> set xs. le (xs ! 0) x"
  shows "\<exists>ys. insertion_loop cmp xs mn n = Some ys \<and> sorted_wrt le ys \<and> mset ys = mset xs"
  using assms
proof (induction n arbitrary: xs mn)
  case (Suc n)
  have mn: "mn < length xs" using Suc.prems by simp
  have "le (xs ! 0) (xs ! mn)" using Suc.prems(5) mn by simp
  then obtain hi where hi: "find_pos cmp xs mn mn = Some hi" using find_pos_stops Suc.prems(2) by blast
  note h = find_pos_Some [OF hi]
  let ?ys = "move_down xs hi mn"
  have same: "(if hi \<noteq> mn then ?ys else xs) = ?ys"
    using id_take_nth_drop [OF mn] by (simp add: move_down_def)
  have ms: "mset ?ys = mset xs" using mset_move_down h mn by blast
  then have st: "set ?ys = set xs" by (metis set_mset_mset)
  have "\<exists>zs. insertion_loop cmp ?ys (mn + 1) n = Some zs \<and> sorted_wrt le zs \<and> mset zs = mset ?ys"
  proof (rule Suc.IH)
    show "mn + 1 + n = length ?ys" using length_move_down [of hi mn xs] h mn Suc.prems(3) by simp
    show "sorted_wrt le (take (mn + 1) ?ys)" by (rule insert_sorted [OF Suc.prems(4) mn Suc.prems(1) hi])
    show "\<forall>x \<in> set ?ys. le (?ys ! 0) x" using move_down_first [of hi mn xs] h mn st Suc.prems(5) by simp
  qed (use st Suc.prems in auto)
  then show ?case using hi same ms by simp
qed simp

lemma swap_least_first:
  assumes "j < length xs" and "\<forall>k < length xs. le (xs ! j) (xs ! k)"
  shows "\<forall>x \<in> set (if j \<noteq> 0 then swap xs 0 j else xs). le ((if j \<noteq> 0 then swap xs 0 j else xs) ! 0) x"
    and "mset (if j \<noteq> 0 then swap xs 0 j else xs) = mset xs"
proof -
  let ?ys = "if j \<noteq> 0 then swap xs 0 j else xs"
  have l: "0 < length xs" using assms(1) by linarith
  show ms: "mset ?ys = mset xs" using mset_swap [of j xs 0] assms(1) l by (simp add: swap_def Let_def)
  have "set ?ys = set xs" using ms by (metis set_mset_mset)
  moreover have "?ys ! 0 = xs ! j" using assms(1) l by (simp add: elt_after_swap)
  moreover have "\<forall>x \<in> set xs. le (xs ! j) x" using assms(2) by (auto simp: in_set_conv_nth)
  ultimately show "\<forall>x \<in> set ?ys. le (?ys ! 0) x" by simp
qed

lemma least_found:
  assumes A: "set zs \<subseteq> A" and hi: "0 < hi" "hi \<le> length zs"
    and found: "\<And>k. k < length zs \<Longrightarrow> \<exists>k'. k' < hi \<and> le (zs ! k') (zs ! k)"
  shows "min_loop cmp zs 0 1 (hi - 1) < length zs \<and> (\<forall>k < length zs. le (zs ! min_loop cmp zs 0 1 (hi - 1)) (zs ! k))"
proof -
  let ?j = "min_loop cmp zs 0 1 (hi - 1)"
  have inA: "zs ! k \<in> A" if "k < length zs" for k using that A nth_mem by blast
  have "le (zs ! 0) (zs ! k)" if "k < 1" for k using that le_refl [of "zs ! 0"] inA [of 0] hi by force
  then have j: "?j < hi" "\<forall>k < hi. le (zs ! ?j) (zs ! k)"
    using min_loop_least [OF A, of 0 1 "hi - 1"] hi by auto
  have "le (zs ! ?j) (zs ! k)" if k: "k < length zs" for k
  proof -
    obtain k' where k': "k' < hi" "le (zs ! k') (zs ! k)" using found [OF k] by blast
    have "zs ! ?j \<in> A" "zs ! k' \<in> A" "zs ! k \<in> A" using inA k k'(1) j(1) hi(2) by auto
    then show ?thesis using j(2) k' cmp_trans by blast
  qed
  then show ?thesis using j(1) hi(2) by auto
qed

text \<open>The list on which the insertion sort starts, and what the search for the sentinel relies on.\<close>

lemma presorted:
  assumes A: "set xs \<subseteq> A" and n: "1 < length xs"
  defines "zs \<equiv> if THRESH \<le> length xs then qst cmp xs 0 (length xs) else xs"
    and "hi \<equiv> if THRESH \<le> length xs then THRESH else length xs"
  shows "mset zs = mset xs" and "k < length zs \<Longrightarrow> \<exists>k'. k' < hi \<and> le (zs ! k') (zs ! k)"
proof -
  have "0 < length xs" using n by linarith
  note qs = qst_spec [OF A this order_refl]
  have q: "perm_in 0 (length xs) xs zs" "blocks zs 0 (length xs)" if "THRESH \<le> length xs"
    using qs that by (simp_all add: zs_def)
  show ms: "mset zs = mset xs"
    using q by (cases "THRESH \<le> length xs") (auto simp: perm_in_def zs_def)
  then have z: "length zs = length xs" "set zs \<subseteq> A" using A by (metis size_mset, metis set_mset_mset)
  assume k: "k < length zs"
  show "\<exists>k'. k' < hi \<and> le (zs ! k') (zs ! k)"
  proof (cases "THRESH \<le> length xs")
    case True
    then show ?thesis using blocks_least_first [OF q(2) [OF True], of k] z k by (auto simp: hi_def)
  next
    case False
    moreover have "zs ! k \<in> A" using nth_mem [OF k] z(2) by blast
    ultimately show ?thesis using k z le_refl [of "zs ! k"] by (intro exI [of _ k]) (auto simp: hi_def)
  qed
qed

lemma qsort_sorts:
  assumes "set xs \<subseteq> A"
  shows "\<exists>ys. qsort cmp xs = Some ys \<and> sorted_wrt le ys \<and> mset ys = mset xs"
proof (cases "length xs \<le> 1")
  case True
  then have "sorted_wrt le xs" by (cases xs) (auto simp: Suc_le_eq)
  with True show ?thesis by (simp add: qsort_def)
next
  case False
  define zs hi where "zs = (if THRESH \<le> length xs then qst cmp xs 0 (length xs) else xs)"
    and "hi = (if THRESH \<le> length xs then THRESH else length xs)"
  define j where "j = min_loop cmp zs 0 1 (hi - 1)"
  define ys where "ys = (if j \<noteq> 0 then swap zs 0 j else zs)"
  have n: "1 < length xs" using False by simp
  note pre = presorted [OF assms n, folded zs_def hi_def]
  then have z: "length zs = length xs" "set zs \<subseteq> A" using assms by (metis size_mset, metis set_mset_mset)
  have "0 < hi" "hi \<le> length zs" using n z by (auto simp: hi_def)
  note l = least_found [OF z(2) this pre(2), folded j_def]
  note y = swap_least_first [OF conjunct1 [OF l] conjunct2 [OF l], folded ys_def]
  have ys: "length ys = length xs" "set ys \<subseteq> A" using y(2) z by (metis size_mset, metis set_mset_mset)
  then have "sorted_wrt le (take 1 ys)" using n by (cases ys) auto
  then have "\<exists>ws. insertion_loop cmp ys 1 (length xs - 1) = Some ws \<and> sorted_wrt le ws \<and> mset ws = mset ys"
    using insertion_sorts [OF ys(2), of 1 "length xs - 1"] ys(1) y(1) n by simp
  moreover have "qsort cmp xs = insertion_loop cmp ys 1 (length xs - 1)"
    using False by (simp add: qsort_def Let_def ys_def j_def zs_def hi_def)
  ultimately show ?thesis using pre(1) y(2) by metis
qed

end


section \<open>The comparison routines of the library\<close>

text \<open>
  The order in which \<open>mheap.c\<close> lists its allocation traces; the difference of two \<open>u32\<close> fields is
  taken in a \<open>word\<close> and returned as an \<open>int\<close> of 32 bits.
\<close>

record mheap_trace =
  n_allocations :: u32
  n_bytes :: u32

definition to_int32 :: "int \<Rightarrow> int" where
  "to_int32 x = sint (word_of_int x :: 32 word)"

definition mheap_trace_sort :: "mheap_trace \<Rightarrow> mheap_trace \<Rightarrow> int" where
  "mheap_trace_sort t1 t2 =
     (let cmp = uint (n_bytes t2) - uint (n_bytes t1);
          cmp = (if cmp = 0 then uint (n_allocations t2) - uint (n_allocations t1) else cmp)
      in to_int32 cmp)"

text \<open>The order in which \<open>phash.c\<close> takes its buckets: by decreasing number of keys.\<close>

definition phash_tabb_compare :: "(nat \<Rightarrow> nat) \<Rightarrow> nat \<Rightarrow> nat \<Rightarrow> int" where
  "phash_tabb_compare n_keys b1 b2 = to_int32 (int (n_keys b2)) - to_int32 (int (n_keys b1))"

lemma to_int32_small:
  assumes "- (2 ^ 31) \<le> x" and "x < 2 ^ 31"
  shows "to_int32 x = x"
proof -
  have "sint (word_of_int x :: 32 word) = signed_take_bit 31 x" by (simp add: sint_sbintrunc')
  also have "\<dots> = x" by (rule signed_take_bit_int_eq_self) (use assms in simp_all)
  finally show ?thesis by (simp add: to_int32_def)
qed

lemma to_int32_wrap: "to_int32 (x - 2 ^ 32) = to_int32 x"
  unfolding to_int32_def int_word_sint using mod_add_self2 [of "x - 2 ^ 32 + 2 ^ 31" "2 ^ 32"] by (simp add: algebra_simps)

definition small_trace :: "mheap_trace \<Rightarrow> bool" where
  "small_trace t \<longleftrightarrow> uint (n_bytes t) < 2 ^ 31 \<and> uint (n_allocations t) < 2 ^ 31"

lemma mheap_trace_sort_small:
  assumes "small_trace t1" and "small_trace t2"
  shows "mheap_trace_sort t1 t2 =
    (if n_bytes t1 = n_bytes t2 then uint (n_allocations t2) - uint (n_allocations t1)
     else uint (n_bytes t2) - uint (n_bytes t1))"
proof -
  have "uint x = uint y \<longleftrightarrow> x = y" for x y :: u32 by (rule word_uint_eq_iff [symmetric])
  moreover
  have "to_int32 (uint x - uint y) = uint x - uint y" if "uint x < 2 ^ 31" "uint y < 2 ^ 31" for x y :: u32
    using that uint_ge_0 [of x] uint_ge_0 [of y] by (intro to_int32_small) linarith+
  ultimately show ?thesis using assms
    by (auto simp: mheap_trace_sort_def small_trace_def Let_def)
qed

interpretation trace_order: comparator "{t. small_trace t}" mheap_trace_sort
proof
  fix x y z
  assume x: "x \<in> {t. small_trace t}" and y: "y \<in> {t. small_trace t}"
  show "0 < mheap_trace_sort x y \<longleftrightarrow> mheap_trace_sort y x < 0"
    using x y by (auto simp: mheap_trace_sort_small)
  assume z: "z \<in> {t. small_trace t}" and "mheap_trace_sort x y \<le> 0" "mheap_trace_sort y z \<le> 0"
  then show "mheap_trace_sort x z \<le> 0"
    using x y by (auto simp: mheap_trace_sort_small word_uint_eq_iff split: if_splits)
qed

interpretation tabb_order: comparator "{b. n_keys b < 2 ^ 31}" "phash_tabb_compare n_keys" for n_keys
proof
  fix x y z
  assume x: "x \<in> {b. n_keys b < 2 ^ 31}" and y: "y \<in> {b. n_keys b < 2 ^ 31}"
  have e: "phash_tabb_compare n_keys a b = int (n_keys b) - int (n_keys a)"
    if "a \<in> {b. n_keys b < 2 ^ 31}" "b \<in> {b. n_keys b < 2 ^ 31}" for a b
    using that by (simp add: phash_tabb_compare_def to_int32_small)
  show "0 < phash_tabb_compare n_keys x y \<longleftrightarrow> phash_tabb_compare n_keys y x < 0" using x y by (simp add: e)
  assume "z \<in> {b. n_keys b < 2 ^ 31}" "phash_tabb_compare n_keys x y \<le> 0" "phash_tabb_compare n_keys y z \<le> 0"
  then show "phash_tabb_compare n_keys x z \<le> 0" using x y by (simp add: e)
qed

section \<open>Properties\<close>



text \<open>buckets of a perfect hash come out of the sort by decreasing number of keys.\<close>

theorem phash_buckets_descending:
  assumes "\<forall>b \<in> set bs. n_keys b < 2 ^ 31"
  shows "\<exists>cs. qsort (phash_tabb_compare n_keys) bs = Some cs \<and> mset cs = mset bs \<and> sorted_wrt (\<ge>) (map n_keys cs)"
proof -
  have A: "set bs \<subseteq> {b. n_keys b < 2 ^ 31}" using assms by auto
  obtain cs where cs: "qsort (phash_tabb_compare n_keys) bs = Some cs"
    "sorted_wrt (\<lambda>x y. phash_tabb_compare n_keys x y \<le> 0) cs" "mset cs = mset bs"
    using tabb_order.qsort_sorts [OF A] by blast
  have "set cs = set bs" using cs(3) by (metis set_mset_mset)
  then have "sorted_wrt (\<lambda>x y. n_keys y \<le> n_keys x) cs"
    using cs(2) assms by (elim sorted_wrt_mono_rel [rotated]) (simp add: phash_tabb_compare_def to_int32_small)
  then show ?thesis using cs by (simp add: sorted_wrt_map)
qed

theorem phash_buckets_descending_witness:
  "\<exists>cs. qsort (phash_tabb_compare (\<lambda>b. b mod 7)) [3, 9, 4, 20, 6, 13] = Some cs
     \<and> sorted_wrt (\<ge>) (map (\<lambda>b. b mod 7) cs)"
  using phash_buckets_descending [of "[3, 9, 4, 20, 6, 13]" "\<lambda>b. b mod 7"] by auto

text \<open>C39: the order of allocation traces breaks when two byte counts differ by more than \<open>2 ^ 31\<close>: the
  trace with fewer bytes is then sorted first.\<close>

theorem mheap_trace_sort_wraps:
  assumes "uint (n_bytes t1) + 2 ^ 31 < uint (n_bytes t2)"
  shows "mheap_trace_sort t1 t2 < 0"
proof -
  let ?d = "uint (n_bytes t2) - uint (n_bytes t1)"
  have "uint (n_bytes t2) < 2 ^ 32" using uint_bounded [of "n_bytes t2"] by simp
  then have d: "2 ^ 31 < ?d" "?d < 2 ^ 32" using assms uint_ge_0 [of "n_bytes t1"] by linarith+
  have "to_int32 ?d = to_int32 (?d - 2 ^ 32)" by (rule to_int32_wrap [symmetric])
  also have "\<dots> = ?d - 2 ^ 32" using d by (intro to_int32_small) auto
  finally have "to_int32 ?d < 0" using d by simp
  then show ?thesis using d by (simp add: mheap_trace_sort_def Let_def)
qed

theorem mheap_trace_sort_wraps_witness:
  "mheap_trace_sort \<lparr>n_allocations = 1, n_bytes = 16\<rparr> \<lparr>n_allocations = 1, n_bytes = 0xf0000000\<rparr> < 0"
  by (rule mheap_trace_sort_wraps) simp

end
