(* ===== verification/Clib_Zvec.thy ===== *)
theory Clib_Zvec
  imports Clib_Bitmap
begin

text \<open>
  Compressed vectors: \<open>src/clib/zvec.c\<close> and \<open>src/clib/zvec.h\<close>. A coding is a word whose set bits are
  the sizes of successive ranges of numbers; a number is stored as its offset in its range, behind
  a mark for the range, in a bitmap. Functions that return a second value through a pointer return
  a pair. Data elements are the integers the C types hold, \<open>None\<close> is \<open>os_panic\<close> for an element
  size the code does not know.
\<close>

section \<open>The functions of zvec.c\<close>

lemma coding_decreases:
  "coding \<noteq> 0 \<Longrightarrow> card {i. bit (coding XOR first_set coding) i} < card {i. bit coding i}"
  unfolding bits_clear_first_set by (intro card_Diff1_less) (simp_all add: log2_first_set_spec)

lemma first_set_neq: "first_set coding \<noteq> coding \<Longrightarrow> coding \<noteq> 0"
  by auto

text \<open>The loop also returns the coding it ends with, which the code looks at afterwards.\<close>

function zvec_decode_loop :: "uword \<Rightarrow> uword \<Rightarrow> uword \<Rightarrow> nat \<Rightarrow> uword \<times> nat \<times> uword" where
  "zvec_decode_loop coding zdata result n_bits =
     (let c = first_set coding;
          implicit_end = (c = coding);
          explicit_end = (zdata AND 1 \<noteq> 0 \<and> \<not> implicit_end);
          d = drop_bit (of_bool explicit_end) zdata AND (c - 1)
      in if explicit_end \<or> implicit_end
         then (result + d, n_bits + (min_log2 c + of_bool explicit_end), coding)
         else zvec_decode_loop (coding XOR c) (drop_bit 1 zdata) (result + c) (n_bits + 1))"
  by pat_completeness auto
termination
  by (relation "measure (\<lambda>(coding, _). card {i. bit coding i})") (auto intro!: coding_decreases [OF first_set_neq])

definition zvec_decode :: "uword \<Rightarrow> uword \<Rightarrow> uword \<times> nat" where
  "zvec_decode coding zdata =
     (let (result, n_bits, coding) = zvec_decode_loop coding zdata 0 0
      in (result, if coding = 0 then 64 else n_bits))"

function zvec_encode_loop :: "uword \<Rightarrow> uword \<Rightarrow> nat \<Rightarrow> uword \<times> nat" where
  "zvec_encode_loop coding data shift =
     (let c = first_set coding;
          implicit_end = (c = coding);
          explicit_end = (data AND (c - 1) = data)
      in if explicit_end \<or> implicit_end
         then let t = (explicit_end \<and> \<not> implicit_end)
              in (push_bit shift (push_bit (of_bool t) data OR of_bool t),
                  (if c = 0 then 64 else min_log2 c) + shift + of_bool t)
         else zvec_encode_loop (coding XOR c) (data - c) (shift + 1))"
  by pat_completeness auto
termination
  by (relation "measure (\<lambda>(coding, _). card {i. bit coding i})") (auto intro!: coding_decreases [OF first_set_neq])

definition zvec_encode :: "uword \<Rightarrow> uword \<Rightarrow> uword \<times> nat" where
  "zvec_encode coding data = zvec_encode_loop coding data 0"

declare zvec_decode_loop.simps [simp del] zvec_encode_loop.simps [simp del]

text \<open>A \<open>word\<close> is a 64 bit word read as a signed number.\<close>

definition zvec_signed_to_unsigned :: "uword \<Rightarrow> uword" where
  "zvec_signed_to_unsigned s =
     (let a = of_bool (sint s < 0); s = 2 * s + a in if a \<noteq> 0 then - s else s)"

definition zvec_unsigned_to_signed :: "uword \<Rightarrow> uword" where
  "zvec_unsigned_to_signed u = (let a = u AND 1; u = drop_bit 1 u in if a \<noteq> 0 then - u else u)"

definition get_data :: "int \<Rightarrow> nat \<Rightarrow> bool \<Rightarrow> uword option" where
  "get_data x data_bytes is_signed =
     (if data_bytes \<in> {1, 2, 4, 8}
      then Some (if is_signed then zvec_signed_to_unsigned (word_of_int x) else word_of_int x)
      else None)"

definition put_data :: "nat \<Rightarrow> bool \<Rightarrow> uword \<Rightarrow> int option" where
  "put_data data_bytes is_signed x =
     (if data_bytes \<in> {1, 2, 4, 8}
      then Some (if is_signed then signed_take_bit (8 * data_bytes - 1) (uint (zvec_unsigned_to_signed x))
                 else take_bit (8 * data_bytes) (uint x))
      else None)"

fun zvec_encode_inline ::
    "bitmap \<Rightarrow> nat \<Rightarrow> uword \<Rightarrow> int list \<Rightarrow> nat \<Rightarrow> bool \<Rightarrow> (bitmap \<times> nat) option" where
  "zvec_encode_inline zvec i coding [] data_bytes is_signed = Some (zvec, i)"
| "zvec_encode_inline zvec i coding (x # xs) data_bytes is_signed =
     (case get_data x data_bytes is_signed of
        None \<Rightarrow> None
      | Some d0 \<Rightarrow>
          let (z0, l0) = zvec_encode coding d0;
              zvec = clib_bitmap_set_multiple zvec i z0 l0
          in zvec_encode_inline zvec (i + l0) coding xs data_bytes is_signed)"

definition coding_max_n_bits :: "uword \<Rightarrow> nat" where
  "coding_max_n_bits coding = snd (zvec_decode coding 0)"

fun zvec_decode_loop_inline ::
    "bitmap \<Rightarrow> nat \<Rightarrow> uword \<Rightarrow> nat \<Rightarrow> nat \<Rightarrow> nat \<Rightarrow> bool \<Rightarrow> (int list \<times> nat) option" where
  "zvec_decode_loop_inline zvec i coding n_max 0 data_bytes is_signed = Some ([], i)"
| "zvec_decode_loop_inline zvec i coding n_max (Suc n_data) data_bytes is_signed =
     (let z0 = clib_bitmap_get_multiple zvec i n_max;
          (d0, l0) = zvec_decode coding z0
      in case put_data data_bytes is_signed d0 of
           None \<Rightarrow> None
         | Some x \<Rightarrow>
             (case zvec_decode_loop_inline zvec (i + l0) coding n_max n_data data_bytes is_signed of
                None \<Rightarrow> None
              | Some (xs, i) \<Rightarrow> Some (x # xs, i)))"

definition zvec_decode_inline ::
    "bitmap \<Rightarrow> nat \<Rightarrow> uword \<Rightarrow> nat \<Rightarrow> nat \<Rightarrow> bool \<Rightarrow> (int list \<times> nat) option" where
  "zvec_decode_inline zvec i coding n_data data_bytes is_signed =
     zvec_decode_loop_inline zvec i coding (coding_max_n_bits coding) n_data data_bytes is_signed"

text \<open>
  The number of bits a coding needs for data with the given cumulated histogram, \<open>~0\<close> when the
  coding is too small or no better than \<open>min_bits\<close>.
\<close>

function zvec_coding_bits_loop ::
    "uword \<Rightarrow> uword list \<Rightarrow> uword \<Rightarrow> uword \<Rightarrow> uword \<Rightarrow> uword \<Rightarrow> uword \<Rightarrow> uword" where
  "zvec_coding_bits_loop coding counts min_bits n_bits n_type_bits last_count i =
     (if coding = 0 then n_bits
      else
        let max_count_index = of_nat (length counts) - 1;
            b = first_set coding;
            l = of_nat (min_log2 b);
            i = i + b;
            this_count = counts ! unat (if max_count_index < i then max_count_index else i - 1)
        in if this_count = last_count then n_bits
           else
             let n_type_bits = (if coding = b then n_type_bits - 1 else n_type_bits);
                 n_bits = n_bits + (this_count - last_count) * (n_type_bits + l)
             in if min_bits \<le> n_bits then NOT 0
                else zvec_coding_bits_loop (coding XOR b) counts min_bits n_bits (n_type_bits + 1) this_count i)"
  by pat_completeness auto
termination
proof (relation "measure (\<lambda>(coding, _). card {i. bit coding i})", goal_cases)
  case (2 coding)
  then show ?case unfolding in_measure prod.case using coding_decreases by blast
qed simp

declare zvec_coding_bits_loop.simps [simp del]

definition zvec_coding_bits :: "uword \<Rightarrow> uword list \<Rightarrow> uword \<Rightarrow> uword" where
  "zvec_coding_bits coding histogram_counts min_bits =
     (if coding \<le> of_nat (length histogram_counts) - 1 then NOT 0
      else zvec_coding_bits_loop coding histogram_counts min_bits 0 1 0 0)"

text \<open>
  The best coding for a histogram. The counts are the \<open>u32\<close> numbers of the histogram's elements.
  The two fields of the quotient of floating point numbers that \<open>ave_coding_bits\<close> holds are kept as a pair.
  A null \<open>coding_return\<close> is \<open>False\<close>. The search over the codings with a given number of set bits is a loop
  with fuel: \<open>max_coding\<close> rounds are enough, see \<open>coding_search_returns\<close> below.
\<close>

record zvec_coding_info =
  zc_coding :: uword
  zc_min_coding_bits :: uword
  zc_n_data :: uword
  zc_n_codes :: uword
  zc_ave_coding_bits :: "uword \<times> uword"

fun zvec_cumulate :: "uword \<Rightarrow> 32 word list \<Rightarrow> uword list" where
  "zvec_cumulate total_count [] = []"
| "zvec_cumulate total_count (this_count # hs) =
     (let total_count = total_count + ucast this_count in total_count # zvec_cumulate total_count hs)"

fun coding_search :: "nat \<Rightarrow> uword \<Rightarrow> uword list \<Rightarrow> uword \<Rightarrow> uword \<times> uword \<Rightarrow> (uword \<times> uword) option" where
  "coding_search 0 max_coding counts c best = None"
| "coding_search (Suc fuel) max_coding counts c best =
     (if c < max_coding
      then let n = zvec_coding_bits c counts (snd best);
               best = (if snd best \<le> n then best else (c, n))
           in coding_search fuel max_coding counts (next_with_same_number_of_set_bits c) best
      else Some best)"

fun coding_rounds :: "nat \<Rightarrow> uword \<Rightarrow> uword list \<Rightarrow> nat list \<Rightarrow> uword \<times> uword \<Rightarrow> (uword \<times> uword) option" where
  "coding_rounds fuel max_coding counts [] best = Some best"
| "coding_rounds fuel max_coding counts (n_bits_set # ns) best =
     (case coding_search fuel max_coding counts (pow2_mask n_bits_set) best of
        None \<Rightarrow> None
      | Some best \<Rightarrow> coding_rounds fuel max_coding counts ns best)"

definition zvec_coding_from_histogram ::
    "32 word list \<Rightarrow> uword \<Rightarrow> bool \<Rightarrow> (uword \<times> zvec_coding_info option) option" where
  "zvec_coding_from_histogram histogram max_value_to_encode coding_return =
     (if length histogram < 1
      then if coding_return
           then Some (0, Some \<lparr>zc_coding = 0, zc_min_coding_bits = 0, zc_n_data = 0, zc_n_codes = 0, zc_ave_coding_bits = (0, 1)\<rparr>)
           else None
      else
        let counts = zvec_cumulate 0 histogram;
            total_count = last counts;
            base_coding = (if max_value_to_encode \<noteq> NOT 0 then 1 + max_value_to_encode else of_nat (length counts));
            max_coding = max_pow2 (2 * base_coding)
        in case coding_rounds (Suc (unat max_coding)) max_coding counts [1..<9] (0, NOT 0) of
             None \<Rightarrow> None
           | Some (min_coding, n) \<Rightarrow>
               Some (min_coding,
                 if coding_return
                 then Some \<lparr>zc_coding = min_coding, zc_min_coding_bits = take_bit 32 n, zc_n_data = take_bit 32 total_count,
                            zc_n_codes = take_bit 32 (of_nat (length counts)), zc_ave_coding_bits = (n, total_count)\<rparr>
                 else None))"


section \<open>One number\<close>

lemma coding_induct [case_names step]:
  assumes "\<And>coding :: uword. (first_set coding \<noteq> coding \<Longrightarrow> P (coding XOR first_set coding)) \<Longrightarrow> P coding"
  shows "P coding"
proof (induction "card {i. bit coding i}" arbitrary: coding rule: less_induct)
  case less
  show ?case by (rule assms) (use less coding_decreases first_set_neq in blast)
qed

lemma push_bit_Suc_word: "push_bit (s + 1) (x :: uword) = push_bit s (push_bit 1 x)"
  by (simp add: push_bit_push_bit add.commute)

lemma encode_end:
  "data AND (first_set coding - 1) = data \<or> first_set coding = coding \<Longrightarrow>
    zvec_encode_loop coding data shift =
      (let t = (first_set coding \<noteq> coding)
       in (push_bit shift (push_bit (of_bool t) data OR of_bool t),
           (if first_set coding = 0 then 64 else min_log2 (first_set coding)) + shift + of_bool t))"
  by (auto simp: zvec_encode_loop.simps [of coding data] Let_def)

lemma encode_next:
  "data AND (first_set coding - 1) \<noteq> data \<Longrightarrow> first_set coding \<noteq> coding \<Longrightarrow>
    zvec_encode_loop coding data shift = zvec_encode_loop (coding XOR first_set coding) (data - first_set coding) (shift + 1)"
  by (simp add: zvec_encode_loop.simps [of coding data] Let_def)

lemma encode_shift:
  "zvec_encode_loop coding data shift =
    (push_bit shift (fst (zvec_encode_loop coding data 0)), snd (zvec_encode_loop coding data 0) + shift)"
proof (induction coding arbitrary: data shift rule: coding_induct)
  case (step coding)
  show ?case
  proof (cases "data AND (first_set coding - 1) = data \<or> first_set coding = coding")
    case True
    then show ?thesis by (simp add: encode_end Let_def)
  next
    case False
    let ?r = "zvec_encode_loop (coding XOR first_set coding) (data - first_set coding)"
    have IH: "?r s = (push_bit s (fst (?r 0)), snd (?r 0) + s)" for s using step False by blast
    have "zvec_encode_loop coding data s = ?r (s + 1)" for s using False by (simp add: encode_next)
    then show ?thesis using IH [of "shift + 1"] IH [of 1] by (simp only: push_bit_Suc_word) simp
  qed
qed

lemma and_mask_eq_iff: "k < 64 \<Longrightarrow> data AND (2 ^ k - 1) = (data :: uword) \<longleftrightarrow> unat data < 2 ^ k"
proof -
  assume "k < 64"
  have "data AND (2 ^ k - 1) = data \<longleftrightarrow> (\<forall>i \<ge> k. \<not> bit data i)"
  proof
    assume e: "data AND (2 ^ k - 1) = data"
    show "\<forall>i \<ge> k. \<not> bit data i"
    proof (intro allI impI notI)
      fix i assume "k \<le> i" "bit data i"
      then have "bit (data AND (2 ^ k - 1)) i" using e by simp
      then show False using \<open>k < 64\<close> \<open>k \<le> i\<close> by (simp add: bit_and_iff bit_exp_minus_1)
    qed
  next
    assume "\<forall>i \<ge> k. \<not> bit data i"
    then show "data AND (2 ^ k - 1) = data" using \<open>k < 64\<close>
      by (intro uword_eqI) (simp add: bit_and_iff bit_exp_minus_1, meson not_le)
  qed
  then show ?thesis by (simp add: unat_less_exp_iff)
qed

text \<open>The facts about a coding with more than one range.\<close>

lemma coding_split:
  assumes "first_set coding \<noteq> coding"
  obtains k where "k < 64" "first_set coding = 2 ^ k" "coding XOR first_set coding \<noteq> 0" "k < min_log2 coding"
    "unat (coding XOR first_set coding) + 2 ^ k = unat coding"
    "min_log2 (coding XOR first_set coding) = min_log2 coding"
proof -
  let ?k = "log2_first_set coding"
  let ?d = "coding XOR first_set coding"
  have nz: "coding \<noteq> 0" using assms by auto
  note k = log2_first_set_spec [OF nz]
  have c: "first_set coding = 2 ^ ?k" by (rule first_set_eq_exp [OF nz])
  have nd: "?d \<noteq> 0"
  proof
    assume "?d = 0"
    moreover have "?d XOR first_set coding = coding" by (simp only: xor.assoc xor_self_eq xor.right_neutral)
    ultimately have "coding = first_set coding" by simp
    with assms show False by simp
  qed
  have top: "min_log2 ?d = min_log2 coding"
  proof (rule min_log2_unique [symmetric])
    note m = min_log2_spec [OF nd]
    show "bit coding (min_log2 ?d)" using m(1) by (simp add: bit_clear_first_set)
    fix j assume j: "min_log2 ?d < j"
    have "?k \<le> min_log2 ?d" using m(1) k(2) by (meson bit_clear_first_set not_less)
    then show "\<not> bit coding j" using m(2) [OF j] j by (simp add: bit_clear_first_set)
  qed
  have "?k < min_log2 coding"
    using min_log2_spec(1) [OF nd] top k(2) by (metis bit_clear_first_set linorder_neqE_nat)
  moreover have "unat ?d + 2 ^ ?k = unat coding"
  proof -
    have "{i. i < 64 \<and> bit coding i} = insert ?k {i. i < 64 \<and> bit ?d i}"
      using k by (auto simp: bit_clear_first_set)
    moreover have "?k \<notin> {i. i < 64 \<and> bit ?d i}" by (simp add: bit_clear_first_set)
    ultimately show ?thesis unfolding unat_eq_bits [of coding] unat_eq_bits [of ?d] by simp
  qed
  ultimately show thesis using that [OF k(3) c nd _ _ top] by blast
qed

lemma first_set_single: "first_set coding = coding \<Longrightarrow> coding \<noteq> 0 \<Longrightarrow> \<exists>k<64. coding = 2 ^ k \<and> min_log2 coding = k"
  using first_set_eq_exp [of coding] log2_first_set_spec(3) [of coding] by (metis min_log2_exp)

lemma and_1_odd: "(z :: uword) AND 1 = 0 \<longleftrightarrow> even z"
  by (simp add: and_one_eq even_iff_mod_2_eq_zero)

lemma decode_end:
  "odd zdata \<or> first_set coding = coding \<Longrightarrow>
    zvec_decode_loop coding zdata r n =
      (let t = (first_set coding \<noteq> coding)
       in (r + (drop_bit (of_bool t) zdata AND (first_set coding - 1)), n + (min_log2 (first_set coding) + of_bool t), coding))"
  by (auto simp: zvec_decode_loop.simps [of coding zdata] Let_def and_1_odd)

lemma decode_next:
  "even zdata \<Longrightarrow> first_set coding \<noteq> coding \<Longrightarrow>
    zvec_decode_loop coding zdata r n =
      zvec_decode_loop (coding XOR first_set coding) (drop_bit 1 zdata) (r + first_set coding) (n + 1)"
  by (simp add: zvec_decode_loop.simps [of coding zdata] Let_def and_1_odd)

lemma decode_coding_nonzero: "coding \<noteq> 0 \<Longrightarrow> snd (snd (zvec_decode_loop coding z r n)) \<noteq> 0"
proof (induction coding arbitrary: z r n rule: coding_induct)
  case (step coding)
  show ?case
  proof (cases "odd z \<or> first_set coding = coding")
    case True
    then show ?thesis using step.prems by (simp add: decode_end Let_def)
  next
    case False
    then obtain k where "coding XOR first_set coding \<noteq> 0" using coding_split [of coding] by metis
    then show ?thesis using False step.IH by (simp add: decode_next)
  qed
qed


text \<open>What decoding reads: the low bits of its argument, whatever follows them.\<close>

lemma low_bits_eq: "take_bit n z = take_bit n (w :: uword) \<Longrightarrow> i < n \<Longrightarrow> bit z i \<longleftrightarrow> bit w i"
  by (metis bit_take_bit_iff)

lemma odd_bit_0: "odd (z :: uword) \<longleftrightarrow> bit z 0"
  by (simp add: bit_0)

lemma data_in_mask:
  assumes "k < 64" and "unat (data :: uword) < 2 ^ k" and "\<And>i. i < k \<Longrightarrow> bit z i \<longleftrightarrow> bit data i"
  shows "z AND (2 ^ k - 1) = data"
proof (rule uword_eqI)
  fix i :: nat assume "i < 64"
  show "bit (z AND (2 ^ k - 1)) i \<longleftrightarrow> bit data i"
    using assms(1,3) assms(2) [unfolded unat_less_exp_iff] by (cases "i < k") (simp_all add: bit_and_iff bit_exp_minus_1)
qed

lemma decode_encode_loop:
  assumes "coding \<noteq> 0" and "unat data < unat coding" and "snd (zvec_encode_loop coding data 0) \<le> 64"
    and "take_bit (snd (zvec_encode_loop coding data 0)) z
      = take_bit (snd (zvec_encode_loop coding data 0)) (fst (zvec_encode_loop coding data 0))"
  shows "\<exists>c. zvec_decode_loop coding z r n = (r + data, n + snd (zvec_encode_loop coding data 0), c)"
  using assms
proof (induction coding arbitrary: data z r n rule: coding_induct)
  case (step coding)
  let ?c = "first_set coding"
  show ?case
  proof (cases "?c = coding")
    case True
    then obtain k where k: "k < 64" "coding = 2 ^ k" "min_log2 coding = k" using first_set_single step.prems(1) by blast
    have e: "zvec_encode_loop coding data 0 = (data, k)"
      using True k step.prems(1) by (simp add: encode_end Let_def)
    have "z AND (2 ^ k - 1) = data"
      by (rule data_in_mask [OF k(1)])
        (use step.prems k e in \<open>auto simp: unat_exp_u64 dest: low_bits_eq\<close>)
    then show ?thesis using True k e by (simp add: decode_end Let_def)
  next
    case False
    then obtain k where k: "k < 64" "?c = 2 ^ k" "coding XOR ?c \<noteq> 0" "k < min_log2 coding"
      "unat (coding XOR ?c) + 2 ^ k = unat coding"
      using coding_split by metis
    show ?thesis
    proof (cases "unat data < 2 ^ k")
      case small: True
      then have e: "zvec_encode_loop coding data 0 = (push_bit 1 data OR 1, k + 1)"
        using False k step.prems(1) and_mask_eq_iff [OF k(1), of data] by (simp add: encode_end Let_def)
      have low: "bit z i \<longleftrightarrow> bit (push_bit 1 data OR 1) i" if "i < k + 1" for i
        using low_bits_eq [OF step.prems(4)] that e by simp
      have "odd z" using low [of 0] by (simp add: odd_bit_0 bit_or_iff)
      moreover have "bit (drop_bit 1 z) i \<longleftrightarrow> bit data i" if "i < k" for i
        using low [of "i + 1"] that k(1) unfolding bit_or_iff bit_push_bit_iff by (simp add: bit_drop_bit_eq bit_1_iff)
      then have "drop_bit 1 z AND (2 ^ k - 1) = data" by (rule data_in_mask [OF k(1) small])
      ultimately show ?thesis using False k e by (simp add: decode_end Let_def)
    next
      case big: False
      let ?d = "data - ?c"
      let ?e = "zvec_encode_loop (coding XOR ?c) ?d 0"
      have "zvec_encode_loop coding data 0 = zvec_encode_loop (coding XOR ?c) ?d 1"
        using encode_next [OF _ False, of data 0] and_mask_eq_iff [OF k(1), of data] big k(2) by simp
      then have e: "zvec_encode_loop coding data 0 = (push_bit 1 (fst ?e), snd ?e + 1)"
        by (simp only: encode_shift [of "coding XOR ?c" ?d 1])
      have ud: "unat ?d = unat data - 2 ^ k"
        using big k(1,2) by (simp add: unat_sub_u64 unat_exp_u64)
      have low: "bit z i \<longleftrightarrow> bit (push_bit 1 (fst ?e)) i" if "i < snd ?e + 1" for i
        using low_bits_eq [OF step.prems(4)] that e by simp
      have ev: "even z" using low [of 0] unfolding bit_push_bit_iff by (simp add: bit_0)
      have "take_bit (snd ?e) (drop_bit 1 z) = take_bit (snd ?e) (fst ?e)"
      proof (rule uword_eqI)
        fix i :: nat
        show "bit (take_bit (snd ?e) (drop_bit 1 z)) i \<longleftrightarrow> bit (take_bit (snd ?e) (fst ?e)) i"
          using low [of "i + 1"] step.prems(3) e unfolding bit_push_bit_iff bit_take_bit_iff bit_drop_bit_eq
          by (auto simp: not_less)
      qed
      moreover have "unat ?d < unat (coding XOR ?c)" using ud big step.prems(2) k(5) by linarith
      ultimately obtain c where "zvec_decode_loop (coding XOR ?c) (drop_bit 1 z) (r + ?c) (n + 1)
          = (r + ?c + ?d, n + 1 + snd ?e, c)"
        using step.IH [OF False k(3), of ?d "drop_bit 1 z" "r + ?c" "n + 1"] step.prems(3) e by auto
      then show ?thesis using decode_next [OF ev False] e by simp
    qed
  qed
qed

lemma decode_encode:
  assumes "data \<le> coding - 1" and "snd (zvec_encode coding data) \<le> 64"
    and "take_bit (snd (zvec_encode coding data)) z = take_bit (snd (zvec_encode coding data)) (fst (zvec_encode coding data))"
  shows "zvec_decode coding z = (data, snd (zvec_encode coding data))"
proof (cases "coding = 0")
  case True
  have "zvec_encode 0 data = (data, 64)" by (simp add: zvec_encode_def encode_end Let_def)
  moreover have "take_bit 64 (x :: uword) = x" for x by (rule uword_eqI) (simp add: bit_take_bit_iff)
  ultimately show ?thesis using assms(3) True by (simp add: zvec_decode_def decode_end Let_def)
next
  case False
  then have pos: "0 < unat coding" by (simp add: unat_gt_0)
  then have "unat (coding - 1) = unat coding - 1" by (simp add: unat_sub_u64)
  then have "unat data < unat coding" using assms(1) pos by (simp add: word_le_nat_alt)
  with decode_encode_loop [OF False, of data z 0 0] assms
  obtain c where "zvec_decode_loop coding z 0 0 = (data, snd (zvec_encode coding data), c)" by (auto simp: zvec_encode_def)
  moreover from this have "c \<noteq> 0" using decode_coding_nonzero [OF False, of z 0 0] by simp
  ultimately show ?thesis by (simp add: zvec_decode_def)
qed

text \<open>The longest code of a coding is the one that \<open>coding_max_n_bits\<close> decodes.\<close>

lemma decode_zero_bits:
  "coding \<noteq> 0 \<Longrightarrow> \<exists>r' m c. zvec_decode_loop coding 0 r n = (r', n + m, c) \<and> min_log2 coding \<le> m
    \<and> (\<forall>data. unat data < unat coding \<longrightarrow> snd (zvec_encode_loop coding data 0) \<le> m)"
proof (induction coding arbitrary: r n rule: coding_induct)
  case (step coding)
  let ?c = "first_set coding"
  show ?case
  proof (cases "?c = coding")
    case True
    then show ?thesis using step.prems by (auto simp: decode_end encode_end Let_def)
  next
    case False
    then obtain k where k: "k < 64" "?c = 2 ^ k" "coding XOR ?c \<noteq> 0" "k < min_log2 coding"
      "unat (coding XOR ?c) + 2 ^ k = unat coding" "min_log2 (coding XOR ?c) = min_log2 coding"
      using coding_split by metis
    obtain r' m c where m: "zvec_decode_loop (coding XOR ?c) 0 (r + ?c) (n + 1) = (r', n + 1 + m, c)"
      "min_log2 coding \<le> m" "\<forall>data. unat data < unat (coding XOR ?c) \<longrightarrow> snd (zvec_encode_loop (coding XOR ?c) data 0) \<le> m"
      using step.IH [OF False k(3), of "r + ?c" "n + 1"] k(6) by auto
    have "snd (zvec_encode_loop coding data 0) \<le> m + 1" if d: "unat data < unat coding" for data
    proof (cases "unat data < 2 ^ k")
      case True
      then have "snd (zvec_encode_loop coding data 0) = k + 1"
        using False k step.prems and_mask_eq_iff [OF k(1), of data] by (simp add: encode_end Let_def)
      then show ?thesis using k(4) m(2) by simp
    next
      case big: False
      have "unat (data - ?c) = unat data - 2 ^ k" using big k(1,2) by (simp add: unat_sub_u64 unat_exp_u64)
      then have "snd (zvec_encode_loop (coding XOR ?c) (data - ?c) 0) \<le> m" using m(3) d big k(5) by auto
      moreover have "zvec_encode_loop coding data 0 = zvec_encode_loop (coding XOR ?c) (data - ?c) 1"
        using encode_next [OF _ False, of data 0] and_mask_eq_iff [OF k(1), of data] big k(2) by simp
      ultimately show ?thesis by (simp add: encode_shift [of _ _ "Suc 0"])
    qed
    then show ?thesis using decode_next [OF _ False, of 0 r n] m by auto
  qed
qed


lemma decode_zero_data: "fst (zvec_decode 0 z) = z"
  by (simp add: zvec_decode_def decode_end Let_def)

lemma encode_max_bits:
  assumes "data \<le> coding - 1"
  shows "snd (zvec_encode coding data) \<le> coding_max_n_bits coding"
proof (cases "coding = 0")
  case True
  then show ?thesis
    by (simp add: coding_max_n_bits_def zvec_decode_def zvec_encode_def decode_end encode_end Let_def)
next
  case False
  then have pos: "0 < unat coding" by (simp add: unat_gt_0)
  then have "unat (coding - 1) = unat coding - 1" by (simp add: unat_sub_u64)
  then have d: "unat data < unat coding" using assms pos by (simp add: word_le_nat_alt)
  obtain r m c where m: "zvec_decode_loop coding 0 0 0 = (r, m, c)" "snd (zvec_encode_loop coding data 0) \<le> m"
    using decode_zero_bits [OF False, of 0 0] d by auto
  then have "c \<noteq> 0" using decode_coding_nonzero [OF False, of 0 0 0] by simp
  with m show ?thesis by (simp add: coding_max_n_bits_def zvec_decode_def zvec_encode_def)
qed

section \<open>A sequence of numbers\<close>

definition fits :: "uword \<Rightarrow> nat \<Rightarrow> bool \<Rightarrow> int \<Rightarrow> bool" where
  "fits coding data_bytes is_signed x \<longleftrightarrow>
     (case get_data x data_bytes is_signed of None \<Rightarrow> False | Some d \<Rightarrow>
        d \<le> coding - 1 \<and> put_data data_bytes is_signed d = Some x)"

lemma load_mono:
  "k \<le> n \<Longrightarrow> n \<le> 64 \<Longrightarrow> clib_bitmap_get_multiple b i k = take_bit k w \<Longrightarrow>
    take_bit k (clib_bitmap_get_multiple b i n) = take_bit k w"
  using bm_store.load_prefix [of k n b i] by simp

text \<open>Encoding writes from its position on, upwards.\<close>

lemma encode_inline_before:
  "zvec_encode_inline b i coding xs n s = Some (b', j) \<Longrightarrow> coding_max_n_bits coding \<le> 64 \<Longrightarrow>
    \<forall>x \<in> set xs. fits coding n s x \<Longrightarrow> k + m \<le> i \<Longrightarrow> m \<le> 64 \<Longrightarrow>
    clib_bitmap_get_multiple b' k m = clib_bitmap_get_multiple b k m"
proof (induction xs arbitrary: b i)
  case (Cons x xs)
  from Cons.prems(3) obtain d where d: "get_data x n s = Some d" "d \<le> coding - 1"
    by (auto simp: fits_def split: option.splits)
  obtain z l where z: "zvec_encode coding d = (z, l)" by fastforce
  have l: "l \<le> 64" using encode_max_bits [OF d(2)] z Cons.prems(2) by simp
  have "clib_bitmap_get_multiple b' k m = clib_bitmap_get_multiple (clib_bitmap_set_multiple b i z l) k m"
    using Cons.prems d z by (intro Cons.IH [of "clib_bitmap_set_multiple b i z l" "i + l"]) simp_all
  also have "\<dots> = clib_bitmap_get_multiple b k m"
    using bm_store.load_store_other [OF l Cons.prems(5)] Cons.prems(4) by blast
  finally show ?case .
qed simp

lemma encode_inline_defined:
  "\<forall>x \<in> set xs. fits coding n s x \<Longrightarrow> \<exists>b' j. zvec_encode_inline b i coding xs n s = Some (b', j)"
proof (induction xs arbitrary: b i)
  case (Cons x xs)
  then obtain d where d: "get_data x n s = Some d" by (auto simp: fits_def split: option.splits)
  then show ?case using Cons by (simp add: case_prod_beta Let_def)
qed simp

lemma decode_inline_encode:
  assumes "coding_max_n_bits coding \<le> 64" and "\<forall>x \<in> set xs. fits coding n s x"
    and "zvec_encode_inline b i coding xs n s = Some (b', j)"
  shows "zvec_decode_loop_inline b' i coding (coding_max_n_bits coding) (length xs) n s = Some (xs, j)"
  using assms(2,3)
proof (induction xs arbitrary: b i)
  case (Cons x xs)
  let ?m = "coding_max_n_bits coding"
  from Cons.prems(1) obtain d where d: "get_data x n s = Some d" "d \<le> coding - 1" "put_data n s d = Some x"
    by (auto simp: fits_def split: option.splits)
  obtain z l where z: "zvec_encode coding d = (z, l)" by fastforce
  have l: "l \<le> ?m" using encode_max_bits [OF d(2)] z by simp
  have l64: "l \<le> 64" using l assms(1) by simp
  let ?b = "clib_bitmap_set_multiple b i z l"
  have rest: "zvec_encode_inline ?b (i + l) coding xs n s = Some (b', j)"
    using Cons.prems(2) d z by simp
  then have "clib_bitmap_get_multiple b' i l = clib_bitmap_get_multiple ?b i l"
    using Cons.prems(1) assms(1) l64 by (intro encode_inline_before) auto
  also have "\<dots> = take_bit l z" by (rule bm_store.load_store_same [OF l64])
  finally have "take_bit l (clib_bitmap_get_multiple b' i ?m) = take_bit l z"
    by (rule load_mono [OF l assms(1)])
  then have "zvec_decode coding (clib_bitmap_get_multiple b' i ?m) = (d, l)"
    using decode_encode [OF d(2)] z l64 by simp
  moreover have "zvec_decode_loop_inline b' (i + l) coding ?m (length xs) n s = Some (xs, j)"
    using Cons.IH [OF _ rest] Cons.prems(1) by simp
  ultimately show ?case using d(3) by simp
qed simp

lemma fits_unsigned:
  assumes "n \<in> {1, 2, 4, 8}" and "0 \<le> x" and "x < 2 ^ (8 * n)" and "word_of_int x \<le> coding - 1"
  shows "fits coding n False x"
proof -
  have "x < 2 ^ 64"
  proof -
    have "(2 :: int) ^ (8 * n) \<le> 2 ^ 64" using assms(1) by (intro power_increasing) auto
    with assms(3) show ?thesis by linarith
  qed
  then have "uint (word_of_int x :: uword) = x" using assms(2) by (simp add: uint_word_of_int take_bit_int_eq_self)
  moreover have "take_bit (8 * n) x = x" by (rule take_bit_int_eq_self [OF assms(2,3)])
  ultimately show ?thesis using assms by (simp add: fits_def get_data_def put_data_def)
qed

section \<open>Properties\<close>

text \<open>C9: decoding what was encoded gives the number back and consumes exactly the bits of its code,
  whatever bits follow the code, for every coding and every number in its range, as long as the
  code fits into a word.\<close>

theorem zvec_decode_encode:
  assumes "data \<le> coding - 1" and "snd (zvec_encode coding data) \<le> 64"
    and "take_bit (snd (zvec_encode coding data)) zdata = take_bit (snd (zvec_encode coding data)) (fst (zvec_encode coding data))"
  shows "zvec_decode coding zdata = (data, snd (zvec_encode coding data))"
  using assms by (rule decode_encode)

theorem zvec_decode_encode_witness:
  "zvec_encode 5 3 = (4, 3) \<and> zvec_decode 5 (4 + 8 * 5) = (3, 3)"
proof -
  have e: "zvec_encode 5 3 = (4, 3)" by code_simp
  then show ?thesis using zvec_decode_encode [of 3 5 "4 + 8 * 5"] by (simp add: take_bit_eq_mod)
qed

text \<open>C8: a sequence of unsigned numbers of 1, 2, 4 or 8 bytes written one after the other at any
  bit position of a bitmap is read back unchanged, both sides ending at the same position.\<close>

theorem zvec_stream_round_trip:
  assumes "coding_max_n_bits coding \<le> 64" and "n \<in> {1, 2, 4, 8}"
    and "\<forall>x \<in> set xs. 0 \<le> x \<and> x < 2 ^ (8 * n) \<and> word_of_int x \<le> coding - 1"
  shows "\<exists>b' j. zvec_encode_inline b i coding xs n False = Some (b', j)
    \<and> zvec_decode_inline b' i coding (length xs) n False = Some (xs, j)"
proof -
  have f: "\<forall>x \<in> set xs. fits coding n False x" using assms fits_unsigned by blast
  then obtain b' j where "zvec_encode_inline b i coding xs n False = Some (b', j)"
    using encode_inline_defined by blast
  with decode_inline_encode [OF assms(1) f] show ?thesis by (simp add: zvec_decode_inline_def)
qed

theorem zvec_stream_round_trip_witness:
  "\<exists>b' j. zvec_encode_inline None 3 5 [0, 4, 2] 1 False = Some (b', j)
    \<and> zvec_decode_inline b' 3 5 3 1 False = Some ([0, 4, 2], j)"
proof -
  have "coding_max_n_bits 5 \<le> 64" by code_simp
  from zvec_stream_round_trip [OF this, of 1 "[0, 4, 2]" None 3] show ?thesis by (simp add: numeral_3_eq_3)
qed

text \<open>\<open>zvec_unsigned_to_signed\<close> undoes \<open>zvec_signed_to_unsigned\<close> on the numbers from 0 up only: every
  negative number comes back increased by one, for every word.\<close>

theorem zvec_signed_round_trip:
  "zvec_unsigned_to_signed (zvec_signed_to_unsigned s) = (if sint s < 0 then s + 1 else s)"
proof -
  have "zvec_signed_to_unsigned s = (if sint s < 0 then - (2 * s + 1) else 2 * s)"
    by (simp add: zvec_signed_to_unsigned_def)
  then show ?thesis
    using signed_code_loses_one [of s] by (simp only: zvec_unsigned_to_signed_def) (simp only: Let_def)
qed

text \<open>\<open>zvec_coding_bits\<close> stops at the first range of a coding that no datum of the histogram falls
  into, and does not count the data above it: for five zeros and three fives the coding with ranges 1, 2
  and 4 is said to take 5 bits; the codes take 17.\<close>

theorem zvec_coding_bits_empty_range:
  "zvec_coding_bits 7 (zvec_cumulate 0 [5, 0, 0, 0, 0, 3]) (NOT 0) = 5
    \<and> 5 * snd (zvec_encode 7 0) + 3 * snd (zvec_encode 7 5) = 17"
  by code_simp

section \<open>The search for a coding\<close>

lemma or_increases: "unat (x :: uword) \<le> unat (x OR y)"
  unfolding unat_eq_bits [of x] unat_eq_bits [of "x OR y"] by (intro sum_mono2) (auto simp: bit_or_iff)

lemma next_same_bits_greater:
  assumes "x \<noteq> 0" and "unat x < 2 ^ 63"
  shows "unat x < unat (next_with_same_number_of_set_bits x)"
proof -
  let ?s = "x AND - x"
  have s: "?s = 2 ^ log2_first_set x" using first_set_eq_exp [OF assms(1)] by (simp add: first_set_def)
  note k = log2_first_set_spec [OF assms(1)]
  have u: "unat ?s = 2 ^ log2_first_set x" using s k(3) by (simp add: unat_exp_u64)
  then have "unat ?s \<le> unat x" using bit_imp_exp_le [OF k(1)] by simp
  then have "unat (x + ?s) = unat x + unat ?s" using assms(2) by (intro unat_add_u64) simp
  then have "unat x < unat (x + ?s)" using u by simp
  also have "\<dots> \<le> unat (next_with_same_number_of_set_bits x)"
    unfolding next_with_same_number_of_set_bits_def Let_def by (rule or_increases)
  finally show ?thesis .
qed

text \<open>The codings the search keeps.\<close>

definition good_coding :: "uword list \<Rightarrow> uword \<times> uword \<Rightarrow> bool" where
  "good_coding counts best \<longleftrightarrow> best = (0, NOT 0) \<or> of_nat (length counts) - 1 < fst best"

lemma coding_bits_good:
  "zvec_coding_bits c counts m < n \<Longrightarrow> of_nat (length counts) - 1 < c"
  by (rule ccontr) (simp add: zvec_coding_bits_def not_less)

lemma coding_search_returns:
  "c \<noteq> 0 \<Longrightarrow> unat m \<le> 2 ^ 63 \<Longrightarrow> unat m - unat c < fuel \<Longrightarrow> good_coding counts best \<Longrightarrow>
    \<exists>best'. coding_search fuel m counts c best = Some best' \<and> good_coding counts best'"
proof (induction fuel m counts c best rule: coding_search.induct)
  case (2 fuel m counts c best)
  show ?case
  proof (cases "c < m")
    case True
    let ?bits = "zvec_coding_bits c counts (snd best)"
    let ?best = "if snd best \<le> ?bits then best else (c, ?bits)"
    have lt: "unat c < unat m" using True by (simp add: word_less_nat_alt)
    then have gt: "unat c < unat (next_with_same_number_of_set_bits c)"
      using 2(2,3) by (intro next_same_bits_greater) simp_all
    have "good_coding counts ?best"
      using 2(5) coding_bits_good [of c counts "snd best" "snd best"] by (auto simp: good_coding_def not_le)
    then show ?thesis using 2(1) [OF True refl refl] gt lt 2(3,4) True by (simp add: Let_def) force
  qed (use 2 in simp)
qed simp

lemma coding_rounds_returns:
  "unat m \<le> 2 ^ 63 \<Longrightarrow> unat m < fuel \<Longrightarrow> \<forall>n \<in> set ns. 0 < n \<and> n < 64 \<Longrightarrow> good_coding counts best \<Longrightarrow>
    \<exists>best'. coding_rounds fuel m counts ns best = Some best' \<and> good_coding counts best'"
proof (induction ns arbitrary: best)
  case (Cons n ns)
  have "pow2_mask n \<noteq> 0"
  proof -
    have "bit (pow2_mask n) 0" using Cons.prems(3) by (simp add: pow2_mask_def bit_exp_minus_1)
    then show ?thesis by auto
  qed
  moreover have "unat m - unat (pow2_mask n) < fuel" using Cons.prems(2) by linarith
  ultimately obtain b where "coding_search fuel m counts (pow2_mask n) best = Some b" "good_coding counts b"
    using coding_search_returns [of "pow2_mask n" m fuel counts best] Cons.prems by blast
  then show ?case using Cons by simp
qed simp

lemma max_pow2_le: "unat (max_pow2 x) \<le> 2 ^ 63"
proof -
  let ?k = "min_log2 x"
  have k: "?k \<le> 63" by (simp add: min_log2_def)
  then have y: "unat (push_bit ?k 1 :: uword) \<le> 2 ^ 63"
    by (simp add: unat_exp_u64 power_increasing [of ?k 63 "2 :: nat", simplified])
  have "unat (push_bit ?k 1 * 2 :: uword) \<le> 2 ^ 63"
  proof (cases "?k = 63")
    case False
    then have "unat (2 ^ Suc ?k :: uword) = 2 ^ Suc ?k" using k by (intro unat_exp_u64) simp
    then show ?thesis using False k power_increasing [of "Suc ?k" 63 "2 :: nat"] by (simp add: mult.commute)
  qed simp
  with y show ?thesis by (simp add: max_pow2_def Let_def)
qed

lemma length_cumulate: "length (zvec_cumulate t h) = length h"
  by (induction h arbitrary: t) (simp_all add: Let_def)

text \<open>C31: the search for a coding ends for every histogram, and the coding it returns can encode every
  value that the histogram has a count for.\<close>

theorem zvec_coding_from_histogram_covers:
  assumes "histogram \<noteq> []" and "length histogram < 2 ^ 64"
  shows "\<exists>c info. zvec_coding_from_histogram histogram max_value coding_return = Some (c, info)
    \<and> (\<forall>v < length histogram. of_nat v \<le> c - 1)"
proof -
  let ?counts = "zvec_cumulate 0 histogram"
  define m where "m = max_pow2 (2 * (if max_value \<noteq> NOT 0 then 1 + max_value else of_nat (length ?counts)))"
  obtain c n where r: "coding_rounds (Suc (unat m)) m ?counts [1..<9] (0, NOT 0) = Some (c, n)"
    and g: "good_coding ?counts (c, n)"
    using coding_rounds_returns [of m "Suc (unat m)" "[1..<9]" ?counts "(0, NOT 0)"] max_pow2_le
    by (auto simp: m_def good_coding_def)
  have "of_nat v \<le> c - 1" if v: "v < length histogram" for v
  proof (cases "c = 0")
    case True
    then show ?thesis by simp
  next
    case False
    then have u: "0 < unat c" by (simp add: unat_gt_0)
    then have "unat (c - 1) = unat c - 1" by (simp add: unat_sub_u64)
    note u = u this
    have "of_nat (length histogram) - 1 < c" using g False by (auto simp: good_coding_def length_cumulate)
    moreover have "unat (of_nat (length histogram) - 1 :: uword) = length histogram - 1"
      using assms unat_of_nat_u64 [OF assms(2)] by (subst unat_sub_u64) (auto simp: Suc_le_eq)
    ultimately show ?thesis
      using v u unat_of_nat_u64 [of v] assms(2) by (simp add: word_less_nat_alt word_le_nat_alt)
  qed
  moreover have "length histogram \<noteq> 0" using assms(1) by simp
  ultimately show ?thesis using r assms(1)
    unfolding zvec_coding_from_histogram_def Let_def m_def [symmetric] by auto
qed

theorem zvec_coding_from_histogram_covers_witness:
  "\<exists>c info. zvec_coding_from_histogram [9, 3, 1] (NOT 0) True = Some (c, info) \<and> (\<forall>v < 3. of_nat v \<le> c - 1)"
  using zvec_coding_from_histogram_covers [of "[9, 3, 1]" "NOT 0" True] by (simp add: numeral_3_eq_3)

end
