(* ===== verification/Clib_Stream.thy ===== *)
theory Clib_Stream
  imports Clib_Prelude
begin

text \<open>
  The byte streams of \<open>src/clib/serialize.h\<close> and \<open>src/clib/serialize.c\<close>: a buffer that is
  filled or read from the front, an overflow vector for data that does not fit at the end of the
  buffer, and a data function that is called for a new buffer. A client asks for the address of
  the next \<open>n\<close> bytes and then stores or loads them there; \<open>position\<close> is such an address.

  A call is a function of the whole state. \<open>Done\<close> is a normal return, \<open>Longjmp\<close> the jump to the
  outermost \<open>serialize\<close> with its error, \<open>Crash\<close> the use of an address outside the memory it
  belongs to (the null pointer included), and \<open>None\<close> a call that does not return. The state is
  kept by all of them. The sizes of a stream are natural numbers: the \<open>u32\<close> fields of the code
  bound a stream's buffers to 4 GB.
\<close>

section \<open>State and outcomes\<close>

datatype serialize_error = SERIALIZE_END_OF_STREAM_ERROR | Clib_error string

datatype 'a outcome = Done 'a | Longjmp serialize_error | Crash

text \<open>
  The memory of the buffer is \<open>buffer\<close>, the length in its vector header \<open>buffer_len\<close>. What the
  data function keeps for itself (\<open>data_function_opaque\<close> and what it stands for) is \<open>io\<close>.
\<close>

record 'io serialize_main =
  recursion_level :: nat
  buffer :: "u8 list"
  buffer_len :: nat
  n_buffer_bytes :: nat
  current_buffer_index :: nat
  overflow_buffer :: "u8 list"
  current_overflow_index :: nat
  end_of_stream :: bool
  io :: 'io

type_synonym ('io, 'a) stm = "'io serialize_main \<Rightarrow> ('a outcome \<times> 'io serialize_main) option"

type_synonym 'io data_function = "'io serialize_main \<Rightarrow> unit outcome \<times> 'io serialize_main"

datatype position = Null | In_buffer nat | In_overflow nat

definition result :: "'a \<Rightarrow> ('io, 'a) stm" where
  "result x s = Some (Done x, s)"

definition serialize_error :: "serialize_error \<Rightarrow> ('io, 'a) stm" where
  "serialize_error e s = Some (Longjmp e, s)"

fun lift_outcome :: "'a outcome \<Rightarrow> ('a \<Rightarrow> ('io, 'b) stm) \<Rightarrow> ('io, 'b) stm" where
  "lift_outcome (Done x) f s = f x s"
| "lift_outcome (Longjmp e) f s = Some (Longjmp e, s)"
| "lift_outcome Crash f s = Some (Crash, s)"

definition after :: "('io, 'a) stm \<Rightarrow> ('a \<Rightarrow> ('io, 'b) stm) \<Rightarrow> ('io, 'b) stm" where
  "after p f s = (case p s of None \<Rightarrow> None | Some (r, s') \<Rightarrow> lift_outcome r f s')"

section \<open>Memory\<close>

definition store_at :: "u8 list \<Rightarrow> nat \<Rightarrow> u8 list \<Rightarrow> u8 list" where
  "store_at mem i bs = take i mem @ bs @ drop (i + length bs) mem"

text \<open>A load or a store at a position: outside of the vector it crashes.\<close>

fun load :: "position \<Rightarrow> nat \<Rightarrow> ('io, u8 list) stm" where
  "load Null n s = Some (if n = 0 then Done [] else Crash, s)"
| "load (In_buffer i) n s =
     Some (if i + n \<le> length (buffer s) then Done (take n (drop i (buffer s))) else Crash, s)"
| "load (In_overflow i) n s =
     Some (if i + n \<le> length (overflow_buffer s) then Done (take n (drop i (overflow_buffer s))) else Crash, s)"

fun store :: "position \<Rightarrow> u8 list \<Rightarrow> ('io, unit) stm" where
  "store Null bs s = Some (if bs = [] then Done () else Crash, s)"
| "store (In_buffer i) bs s =
     (if i + length bs \<le> length (buffer s)
      then Some (Done (), s\<lparr>buffer := store_at (buffer s) i bs\<rparr>) else Some (Crash, s))"
| "store (In_overflow i) bs s =
     (if i + length bs \<le> length (overflow_buffer s)
      then Some (Done (), s\<lparr>overflow_buffer := store_at (overflow_buffer s) i bs\<rparr>) else Some (Crash, s))"

section \<open>Writing\<close>

text \<open>
  The loop of \<open>serialize_write_not_inline\<close>, which copies the overflow vector into the buffer and
  calls the data function for every buffer it fills. Its result are \<open>cur_bi\<close>, \<open>n_left_b\<close> and
  \<open>n_left_o\<close>.
\<close>

definition flush_part :: "'io serialize_main \<Rightarrow> nat \<Rightarrow> nat \<Rightarrow> 'io serialize_main" where
  "flush_part s cur_bi n = s\<lparr>buffer := store_at (buffer s) cur_bi (take n (overflow_buffer s)),
                             overflow_buffer := drop n (overflow_buffer s)\<rparr>"

partial_function (option) write_loop ::
  "'io data_function option \<Rightarrow> 'io serialize_main \<Rightarrow> nat \<Rightarrow> nat \<Rightarrow> nat
   \<Rightarrow> ((nat \<times> nat \<times> nat) outcome \<times> 'io serialize_main) option" where
  "write_loop data_function s cur_bi n_left_b n_left_o =
     (let n = (if 0 < n_left_o \<and> 0 < n_left_b then min n_left_b n_left_o else 0);
          s = (if 0 < n_left_o \<and> 0 < n_left_b then flush_part s cur_bi n else s);
          cur_bi = cur_bi + n; n_left_b = n_left_b - n; n_left_o = n_left_o - n
      in if n_left_b = 0
         then (case data_function of
                 None \<Rightarrow> Some (Done (cur_bi, n_left_b, n_left_o), s)
               | Some f \<Rightarrow>
                   (case f (s\<lparr>current_buffer_index := cur_bi\<rparr>) of
                      (Done _, s) \<Rightarrow>
                        (if 0 < n_left_o
                         then write_loop data_function s (current_buffer_index s)
                                (n_buffer_bytes s - current_buffer_index s) n_left_o
                         else Some (Done (current_buffer_index s,
                                          n_buffer_bytes s - current_buffer_index s, n_left_o), s))
                    | (Longjmp e, s) \<Rightarrow> Some (Longjmp e, s)
                    | (Crash, s) \<Rightarrow> Some (Crash, s)))
         else if 0 < n_left_o then write_loop data_function s cur_bi n_left_b n_left_o
         else Some (Done (cur_bi, n_left_b, n_left_o), s))"

text \<open>The bytes \<open>vec_add2\<close> adds have no value until the client stores some.\<close>

definition serialize_write_not_inline :: "'io data_function option \<Rightarrow> nat \<Rightarrow> ('io, position) stm" where
  "serialize_write_not_inline data_function n s =
     (case write_loop data_function s (current_buffer_index s)
             (n_buffer_bytes s - current_buffer_index s) (length (overflow_buffer s)) of
        None \<Rightarrow> None
      | Some (r, s) \<Rightarrow>
          lift_outcome r (\<lambda>(cur_bi, n_left_b, n_left_o) s.
            if 0 < n_left_o \<or> n_left_b < n
            then Some (Done (In_overflow (length (overflow_buffer s))),
                       s\<lparr>overflow_buffer := overflow_buffer s @ replicate n 0\<rparr>)
            else Some (Done (In_buffer cur_bi), s\<lparr>current_buffer_index := cur_bi + n\<rparr>)) s)"

section \<open>Reading\<close>

definition save_left_over :: "'io serialize_main \<Rightarrow> nat \<Rightarrow> nat \<Rightarrow> 'io serialize_main" where
  "save_left_over s cur_bi n = s\<lparr>overflow_buffer := overflow_buffer s @ take n (drop cur_bi (buffer s))\<rparr>"

text \<open>
  One turn of the loop of \<open>serialize_read_not_inline\<close> up to the call of the data function, then
  the loop; \<open>cur_oi\<close> is the index read at the beginning of the call.
\<close>

definition read_refill ::
  "'io data_function option \<Rightarrow> nat \<Rightarrow> nat \<times> nat \<times> nat \<times> nat \<Rightarrow> 'io serialize_main
   \<Rightarrow> (nat \<times> nat \<times> nat \<times> nat) outcome \<times> 'io serialize_main" where
  "read_refill data_function n_bytes_to_read =
     (\<lambda>(cur_bi, n_left_b, n_left_o, n_left_to_read) s.
       if n_left_o + n_left_b < n_bytes_to_read
       then let s = (if 0 < n_left_b then save_left_over s cur_bi n_left_b else s);
                cur_bi = (if 0 < n_left_b then n_buffer_bytes s else cur_bi);
                n_left_o = n_left_o + n_left_b; n_left_to_read = n_left_to_read - n_left_b
            in case data_function of
                 None \<Rightarrow> (Done (cur_bi, 0, n_left_o, n_left_to_read), s\<lparr>end_of_stream := True\<rparr>)
               | Some f \<Rightarrow>
                   (case f s of
                      (Done _, s) \<Rightarrow>
                        (Done (current_buffer_index s, n_buffer_bytes s - current_buffer_index s,
                               n_left_o, n_left_to_read), s)
                    | (Longjmp e, s) \<Rightarrow> (Longjmp e, s)
                    | (Crash, s) \<Rightarrow> (Crash, s))
       else (Done (cur_bi, n_left_b, n_left_o, n_left_to_read), s))"

partial_function (option) read_loop ::
  "'io data_function option \<Rightarrow> nat \<Rightarrow> nat \<Rightarrow> nat \<times> nat \<times> nat \<times> nat \<Rightarrow> 'io serialize_main
   \<Rightarrow> (position outcome \<times> 'io serialize_main) option" where
  "read_loop data_function n_bytes_to_read cur_oi v s =
     (if snd (snd (snd v)) = 0
      then Some (Done (In_overflow cur_oi),
                 s\<lparr>current_buffer_index := fst v, current_overflow_index := cur_oi + n_bytes_to_read\<rparr>)
      else (case read_refill data_function n_bytes_to_read v s of
              (Longjmp e, s) \<Rightarrow> Some (Longjmp e, s)
            | (Crash, s) \<Rightarrow> Some (Crash, s)
            | (Done (cur_bi, n_left_b, n_left_o, n_left_to_read), s) \<Rightarrow>
                if n_left_o = 0 \<and> n_left_to_read = n_bytes_to_read \<and> n_left_to_read \<le> n_left_b
                then Some (Done (In_buffer cur_bi),
                           s\<lparr>current_buffer_index := cur_bi + n_bytes_to_read,
                             end_of_stream := end_of_stream s
                               \<or> cur_bi + n_bytes_to_read = n_buffer_bytes s \<and> data_function = None\<rparr>)
                else if end_of_stream s
                then Some (if 0 < recursion_level s then Longjmp SERIALIZE_END_OF_STREAM_ERROR
                           else Done Null, s)
                else let n = min n_left_to_read n_left_b
                     in read_loop data_function n_bytes_to_read cur_oi
                          (cur_bi + n, n_left_b - n, n_left_o + n, n_left_to_read - n)
                          (save_left_over s cur_bi n)))"

text \<open>
  The difference \<open>vec_len (s->overflow_buffer) - cur_oi\<close> is one of \<open>uword\<close>s: an index beyond the
  end makes it a huge number.
\<close>

definition n_overflow_left :: "'io serialize_main \<Rightarrow> nat" where
  "n_overflow_left s =
     (if current_overflow_index s \<le> length (overflow_buffer s)
      then length (overflow_buffer s) - current_overflow_index s
      else 2 ^ 64 + length (overflow_buffer s) - current_overflow_index s)"

definition serialize_read_not_inline :: "'io data_function option \<Rightarrow> nat \<Rightarrow> ('io, position) stm" where
  "serialize_read_not_inline data_function n s =
     (let cur_bi = current_buffer_index s; cur_oi = current_overflow_index s;
          n_left_b = n_buffer_bytes s - cur_bi; n_left_o = n_overflow_left s
      in if n \<le> n_left_o
         then Some (Done (In_overflow cur_oi), s\<lparr>current_overflow_index := cur_oi + n\<rparr>)
         else let s = (if n_left_o = 0 then s\<lparr>current_overflow_index := 0, overflow_buffer := []\<rparr> else s)
              in read_loop data_function n cur_oi (cur_bi, n_left_b, n_left_o, n) s)"

section \<open>The operations of the clients\<close>

definition serialize_stream_read_write :: "'io data_function option \<Rightarrow> bool \<Rightarrow> nat \<Rightarrow> ('io, position) stm" where
  "serialize_stream_read_write data_function is_read n_bytes s =
     (let l = length (overflow_buffer s); n = n_buffer_bytes s; i = current_buffer_index s;
          j = i + n_bytes;
          s = s\<lparr>end_of_stream := end_of_stream s \<or> j = n \<and> data_function = None\<rparr>
      in if l = 0 \<and> j \<le> n
         then Some (Done (In_buffer i), s\<lparr>current_buffer_index := j\<rparr>)
         else (if is_read then serialize_read_not_inline else serialize_write_not_inline)
                data_function n_bytes s)"

definition unserialize_get :: "'io data_function option \<Rightarrow> nat \<Rightarrow> ('io, u8 list) stm" where
  "unserialize_get data_function n =
     after (serialize_stream_read_write data_function True n) (\<lambda>p. load p n)"

definition serialize_get :: "'io data_function option \<Rightarrow> u8 list \<Rightarrow> ('io, unit) stm" where
  "serialize_get data_function bs =
     after (serialize_stream_read_write data_function False (length bs)) (\<lambda>p. store p bs)"

text \<open>
  Closing flushes the overflow vector and calls the data function once more; there is no check
  that there is one.
\<close>

definition call_data_function :: "'io data_function option \<Rightarrow> ('io, unit) stm" where
  "call_data_function data_function s =
     (case data_function of None \<Rightarrow> Some (Crash, s) | Some f \<Rightarrow> Some (f s))"

definition serialize_read_write_close :: "'io data_function option \<Rightarrow> bool \<Rightarrow> ('io, unit) stm" where
  "serialize_read_write_close data_function is_write s =
     (if end_of_stream s then Some (Done (), s)
      else after (if is_write
                  then after (serialize_write_not_inline data_function 0) (\<lambda>p. result ())
                  else result ())
             (\<lambda>_ s. after (call_data_function data_function)
                (\<lambda>_ s. Some (Done (), s\<lparr>overflow_buffer := []\<rparr>)) (s\<lparr>end_of_stream := True\<rparr>)) s)"

text \<open>\<open>va_serialize\<close>, of which \<open>serialize\<close> and \<open>unserialize\<close> are the variadic forms.\<close>

definition va_serialize :: "('io, 'a) stm \<Rightarrow> 'io serialize_main \<Rightarrow> ((serialize_error + 'a) outcome \<times> 'io serialize_main) option" where
  "va_serialize f s =
     (let s = s\<lparr>recursion_level := recursion_level s + 1\<rparr>
      in case f s of
           None \<Rightarrow> None
         | Some (Done x, s) \<Rightarrow> Some (Done (Inr x), s\<lparr>recursion_level := recursion_level s - 1\<rparr>)
         | Some (Crash, s) \<Rightarrow> Some (Crash, s)
         | Some (Longjmp e, s') \<Rightarrow>
             if recursion_level s = 1
             then Some (Done (Inl e), s'\<lparr>recursion_level := recursion_level s' - 1\<rparr>)
             else Some (Longjmp e, s'))"

section \<open>Opening and the data functions\<close>

definition serialize_open_data :: "u8 list \<Rightarrow> unit serialize_main" where
  "serialize_open_data data =
     \<lparr>recursion_level = 0, buffer = data, buffer_len = 0, n_buffer_bytes = length data, current_buffer_index = 0,
      overflow_buffer = [], current_overflow_index = 0, end_of_stream = False, io = ()\<rparr>"

definition serialize_vector_write :: "unit data_function" where
  "serialize_vector_write s =
     (Done (),
      if end_of_stream s then s
      else let l = buffer_len s; n = (if 0 < l then l else 64)
           in s\<lparr>buffer := buffer s @ replicate n 0, buffer_len := l + n, n_buffer_bytes := l + n\<rparr>)"

definition serialize_open_vector :: "u8 list \<Rightarrow> unit serialize_main" where
  "serialize_open_vector vec = (serialize_open_data vec)\<lparr>buffer_len := length vec\<rparr>"

definition serialize_close_vector :: "(unit, u8 list) stm" where
  "serialize_close_vector =
     after (serialize_read_write_close (Some serialize_vector_write) True)
       (\<lambda>_ s. Some (Done (take (current_buffer_index s) (buffer s)), serialize_open_data []))"

text \<open>
  The data function that reads a file: \<open>read\<close> is the system call with its buffer size. Its result
  is the bytes read, or an error that is fatal or not.
\<close>

datatype read_result = Bytes "u8 list" | Read_error bool

definition unix_file_read :: "('io \<Rightarrow> nat \<Rightarrow> read_result \<times> 'io) \<Rightarrow> 'io data_function" where
  "unix_file_read read s =
     (case read (io s) (buffer_len s) of
        (Read_error True, f) \<Rightarrow> (Longjmp (Clib_error ''read''), s\<lparr>io := f\<rparr>)
      | (Read_error False, f) \<Rightarrow> (Done (), s\<lparr>io := f, current_buffer_index := 0, n_buffer_bytes := 0\<rparr>)
      | (Bytes bs, f) \<Rightarrow>
          (Done (), s\<lparr>io := f, buffer := store_at (buffer s) 0 bs, end_of_stream := end_of_stream s \<or> bs = [],
                      current_buffer_index := 0, n_buffer_bytes := length bs\<rparr>))"

definition unserialize_open_unix_file_descriptor :: "'io \<Rightarrow> 'io serialize_main" where
  "unserialize_open_unix_file_descriptor fd =
     \<lparr>recursion_level = 0, buffer = replicate 4096 0, buffer_len = 4096, n_buffer_bytes = 0, current_buffer_index = 0,
      overflow_buffer = [], current_overflow_index = 0, end_of_stream = False, io = fd\<rparr>"

text \<open>
  The data function that writes a file: \<open>write\<close> is the system call, its result the number of bytes
  written. What the call leaves over is moved to the front by \<open>vec_delete\<close>, which works with the
  length in the vector header.
\<close>

datatype write_result = Written nat | Write_error bool

definition unix_file_write :: "('io \<Rightarrow> u8 list \<Rightarrow> write_result \<times> 'io) \<Rightarrow> 'io data_function" where
  "unix_file_write write s =
     (case write (io s) (take (current_buffer_index s) (buffer s)) of
        (Write_error True, f) \<Rightarrow> (Longjmp (Clib_error ''write''), s\<lparr>io := f\<rparr>)
      | (r, f) \<Rightarrow>
          let n = (case r of Written n \<Rightarrow> n | _ \<Rightarrow> 0); l = buffer_len s; s = s\<lparr>io := f\<rparr>
          in if n = current_buffer_index s
             then (Done (), s\<lparr>buffer_len := 0, current_buffer_index := 0\<rparr>)
             else if l < n then (Crash, s)
             else (Done (), s\<lparr>buffer := store_at (buffer s) 0 (take (l - n) (drop n (buffer s))),
                              buffer_len := l - n, current_buffer_index := l - n\<rparr>))"

definition serialize_open_unix_file_descriptor :: "'io \<Rightarrow> 'io serialize_main" where
  "serialize_open_unix_file_descriptor fd =
     (unserialize_open_unix_file_descriptor fd)\<lparr>n_buffer_bytes := 4096, buffer_len := 0\<rparr>"

section \<open>Memory and sequencing\<close>

lemma length_store_at: "i + length bs \<le> length mem \<Longrightarrow> length (store_at mem i bs) = length mem"
  by (simp add: store_at_def)

lemma take_store_at:
  "i + length bs \<le> length mem \<Longrightarrow> take (i + length bs) (store_at mem i bs) = take i mem @ bs"
  by (simp add: store_at_def)

lemma store_at_end: "store_at (mem @ replicate (length bs) x) (length mem) bs = mem @ bs"
  by (simp add: store_at_def)

lemma after_Done: "p s = Some (Done x, s') \<Longrightarrow> after p f s = f x s'"
  by (simp add: after_def)

lemma after_Longjmp: "p s = Some (Longjmp e, s') \<Longrightarrow> after p f s = Some (Longjmp e, s')"
  by (simp add: after_def)

section \<open>The contract of a sink\<close>

text \<open>
  A sink takes pieces of data. \<open>may ps\<close> holds of a state in which the pieces \<open>ps\<close> can be written
  one after the other; writing appends the piece to the contents. What is written does not depend
  on the level of recursion.
\<close>

locale byte_sink =
  fixes data_function :: "'io data_function option"
    and contents :: "'io serialize_main \<Rightarrow> u8 list"
    and may :: "u8 list list \<Rightarrow> 'io serialize_main \<Rightarrow> bool"
  assumes put: "may (p # ps) s \<Longrightarrow>
      \<exists>s'. serialize_get data_function p s = Some (Done (), s') \<and> contents s' = contents s @ p
           \<and> may ps s' \<and> recursion_level s' = recursion_level s"
    and level: "may ps (s\<lparr>recursion_level := l\<rparr>) = may ps s"
      "contents (s\<lparr>recursion_level := l\<rparr>) = contents s"

text \<open>A computation that writes the pieces \<open>ps\<close>, whatever it writes afterwards.\<close>

definition writes ::
  "('io serialize_main \<Rightarrow> u8 list) \<Rightarrow> (u8 list list \<Rightarrow> 'io serialize_main \<Rightarrow> bool)
   \<Rightarrow> ('io, unit) stm \<Rightarrow> u8 list list \<Rightarrow> bool" where
  "writes contents may p ps \<longleftrightarrow>
     (\<forall>s qs. may (ps @ qs) s \<longrightarrow>
       (\<exists>s'. p s = Some (Done (), s') \<and> contents s' = contents s @ concat ps \<and> may qs s'
             \<and> recursion_level s' = recursion_level s))"

lemma writesE:
  assumes "writes contents may p ps" "may (ps @ qs) s"
  obtains s' where "p s = Some (Done (), s')" "contents s' = contents s @ concat ps" "may qs s'"
    "recursion_level s' = recursion_level s"
  using assms unfolding writes_def by blast

lemma writes_result: "writes contents may (result ()) []"
  by (simp add: writes_def result_def)

lemma writes_after:
  assumes "writes contents may p ps" "writes contents may q qs"
  shows "writes contents may (after p (\<lambda>_. q)) (ps @ qs)"
  unfolding writes_def
proof (intro allI impI)
  fix s rs assume "may ((ps @ qs) @ rs) s"
  then have "may (ps @ qs @ rs) s" by simp
  then obtain s1 where 1: "p s = Some (Done (), s1)" "contents s1 = contents s @ concat ps" "may (qs @ rs) s1"
    "recursion_level s1 = recursion_level s"
    by (rule writesE [OF assms(1)])
  from 1(3) obtain s2 where 2: "q s1 = Some (Done (), s2)" "contents s2 = contents s1 @ concat qs" "may rs s2"
    "recursion_level s2 = recursion_level s1"
    by (rule writesE [OF assms(2)])
  show "\<exists>s'. after p (\<lambda>_. q) s = Some (Done (), s') \<and> contents s' = contents s @ concat (ps @ qs) \<and> may rs s'
      \<and> recursion_level s' = recursion_level s"
    using 1 2 by (intro exI [of _ s2]) (simp add: after_Done)
qed

context byte_sink
begin

lemma writes_get: "writes contents may (serialize_get data_function p) [p]"
  unfolding writes_def using put by simp

end

section \<open>The contract of a source\<close>

text \<open>
  A source gives back the bytes of \<open>unread\<close>; \<open>fits n\<close> says which reads it can serve. A read beyond
  the end jumps out with the error of the end of the stream.
\<close>

locale byte_source =
  fixes data_function :: "'io data_function option"
    and unread :: "'io serialize_main \<Rightarrow> u8 list"
    and ok :: "'io serialize_main \<Rightarrow> bool"
    and fits :: "nat \<Rightarrow> bool"
  assumes get: "ok s \<Longrightarrow> fits (length bs) \<Longrightarrow> unread s = bs @ rest \<Longrightarrow>
      \<exists>s'. unserialize_get data_function (length bs) s = Some (Done bs, s') \<and> unread s' = rest
           \<and> ok s' \<and> recursion_level s' = recursion_level s"
    and get_end: "ok s \<Longrightarrow> fits n \<Longrightarrow> length (unread s) < n \<Longrightarrow> 0 < recursion_level s \<Longrightarrow>
      \<exists>s'. unserialize_get data_function n s = Some (Longjmp SERIALIZE_END_OF_STREAM_ERROR, s')"
    and fits_numbers: "n \<le> 8 \<Longrightarrow> fits n"
    and source_level: "ok (s\<lparr>recursion_level := l\<rparr>) = ok s" "unread (s\<lparr>recursion_level := l\<rparr>) = unread s"

text \<open>A computation that reads the bytes \<open>bs\<close>, whatever follows them, and returns \<open>x\<close>.\<close>

definition reads ::
  "('io serialize_main \<Rightarrow> u8 list) \<Rightarrow> ('io serialize_main \<Rightarrow> bool) \<Rightarrow> ('io, 'a) stm \<Rightarrow> u8 list \<Rightarrow> 'a \<Rightarrow> bool" where
  "reads unread ok p bs x \<longleftrightarrow>
     (\<forall>s rest. ok s \<and> unread s = bs @ rest \<longrightarrow>
       (\<exists>s'. p s = Some (Done x, s') \<and> unread s' = rest \<and> ok s' \<and> recursion_level s' = recursion_level s))"

lemma readsE:
  assumes "reads unread ok p bs x" "ok s" "unread s = bs @ rest"
  obtains s' where "p s = Some (Done x, s')" "unread s' = rest" "ok s'" "recursion_level s' = recursion_level s"
  using assms unfolding reads_def by blast

lemma reads_result: "reads unread ok (result x) [] x"
  by (simp add: reads_def result_def)

lemma reads_after:
  assumes "reads unread ok p bs x" "reads unread ok (f x) cs y"
  shows "reads unread ok (after p f) (bs @ cs) y"
  unfolding reads_def
proof (intro allI impI)
  fix s rest assume s: "ok s \<and> unread s = (bs @ cs) @ rest"
  then have "ok s" "unread s = bs @ cs @ rest" by simp_all
  then obtain s1 where 1: "p s = Some (Done x, s1)" "unread s1 = cs @ rest" "ok s1" "recursion_level s1 = recursion_level s"
    by (rule readsE [OF assms(1)])
  from 1(3,2) obtain s2 where 2: "f x s1 = Some (Done y, s2)" "unread s2 = rest" "ok s2" "recursion_level s2 = recursion_level s1"
    by (rule readsE [OF assms(2)])
  show "\<exists>s'. after p f s = Some (Done y, s') \<and> unread s' = rest \<and> ok s' \<and> recursion_level s' = recursion_level s"
    using 1 2 by (intro exI [of _ s2]) (simp add: after_Done)
qed

context byte_source
begin

lemma reads_get_n: "length bs = n \<Longrightarrow> fits n \<Longrightarrow> reads unread ok (unserialize_get data_function n) bs bs"
  unfolding reads_def using get by blast

lemma reads_get: "fits (length bs) \<Longrightarrow> reads unread ok (unserialize_get data_function (length bs)) bs bs"
  unfolding reads_def using get by blast

end

end
