(* ===== verification/Clib_Stream_Laws.thy ===== *)
theory Clib_Stream_Laws
  imports Clib_Stream
begin

text \<open>
  Which streams meet the contracts of \<open>Clib_Stream\<close>: a fixed memory area and a growing vector as
  sinks, a memory area and a file as sources, and the cases in which the code does not.
\<close>

section \<open>A fixed memory area as sink\<close>

definition data_room :: "u8 list list \<Rightarrow> 'io serialize_main \<Rightarrow> bool" where
  "data_room ps s \<longleftrightarrow> overflow_buffer s = [] \<and> n_buffer_bytes s = length (buffer s)
     \<and> current_buffer_index s + length (concat ps) \<le> n_buffer_bytes s"

definition written :: "'io serialize_main \<Rightarrow> u8 list" where
  "written s = take (current_buffer_index s) (buffer s)"

interpretation data_sink: byte_sink None written data_room
proof
  fix p ps and s :: "'io serialize_main"
  assume "data_room (p # ps) s"
  then show "\<exists>s'. serialize_get None p s = Some (Done (), s') \<and> written s' = written s @ p
      \<and> data_room ps s' \<and> recursion_level s' = recursion_level s"
    by (simp add: serialize_get_def after_def serialize_stream_read_write_def data_room_def written_def
        Let_def length_store_at take_store_at)
qed (simp_all add: data_room_def written_def)

section \<open>Data functions that make room\<close>

text \<open>
  A data function for writing gets a full buffer and leaves one with room for twice the largest
  piece \<open>B\<close>, either a larger one or an empty one after it has sent the old one. \<open>shape\<close> is what it
  needs of the lengths of the buffer, \<open>sent\<close> what it has sent so far.
\<close>

definition full_contents :: "('io \<Rightarrow> u8 list) \<Rightarrow> 'io serialize_main \<Rightarrow> u8 list" where
  "full_contents sent s = sent (io s) @ written s @ overflow_buffer s"

definition makes_room ::
  "(nat \<Rightarrow> nat \<Rightarrow> bool) \<Rightarrow> ('io \<Rightarrow> u8 list) \<Rightarrow> nat \<Rightarrow> 'io serialize_main \<Rightarrow> 'io serialize_main \<Rightarrow> bool" where
  "makes_room shape sent B s s' \<longleftrightarrow>
     shape (buffer_len s') (n_buffer_bytes s') \<and> length (buffer s') = n_buffer_bytes s'
     \<and> current_buffer_index s' \<le> n_buffer_bytes s' \<and> 2 * B \<le> n_buffer_bytes s' - current_buffer_index s'
     \<and> 0 < n_buffer_bytes s' - current_buffer_index s'
     \<and> sent (io s') @ written s' = sent (io s) @ written s
     \<and> overflow_buffer s' = overflow_buffer s \<and> end_of_stream s' = end_of_stream s
     \<and> recursion_level s' = recursion_level s"

definition write_ok :: "(nat \<Rightarrow> nat \<Rightarrow> bool) \<Rightarrow> nat \<Rightarrow> 'io serialize_main \<Rightarrow> bool" where
  "write_ok shape B s \<longleftrightarrow>
     shape (buffer_len s) (n_buffer_bytes s) \<and> length (buffer s) = n_buffer_bytes s
     \<and> current_buffer_index s \<le> n_buffer_bytes s \<and> \<not> end_of_stream s
     \<and> length (overflow_buffer s) \<le> B
     \<and> (overflow_buffer s \<noteq> [] \<longrightarrow> n_buffer_bytes s - current_buffer_index s < length (overflow_buffer s))"

locale data_writer =
  fixes f :: "'io data_function"
    and shape :: "nat \<Rightarrow> nat \<Rightarrow> bool"
    and sent :: "'io \<Rightarrow> u8 list"
    and B :: nat
  assumes makes_room: "shape (buffer_len s) (n_buffer_bytes s) \<Longrightarrow> length (buffer s) = n_buffer_bytes s
      \<Longrightarrow> current_buffer_index s = n_buffer_bytes s \<Longrightarrow> \<not> end_of_stream s
      \<Longrightarrow> \<exists>s'. f s = (Done (), s') \<and> makes_room shape sent B s s'"

lemma write_loop_room:
  "0 < n_left_b \<Longrightarrow> n_left_o < n_left_b \<Longrightarrow>
   write_loop df s cur_bi n_left_b n_left_o
   = Some (Done (cur_bi + n_left_o, n_left_b - n_left_o, 0),
           if 0 < n_left_o then flush_part s cur_bi n_left_o else s)"
  by (subst write_loop.simps) (simp add: Let_def)

text \<open>A loop that finds the buffer full goes on with the one it is given.\<close>

lemma write_loop_full:
  assumes "f (s\<lparr>current_buffer_index := cur_bi\<rparr>) = (Done (), s')"
    and "n_left_o < n_buffer_bytes s' - current_buffer_index s'"
  shows "write_loop (Some f) s cur_bi 0 n_left_o
   = Some (Done (current_buffer_index s' + n_left_o, n_buffer_bytes s' - current_buffer_index s' - n_left_o, 0),
           if 0 < n_left_o then flush_part s' (current_buffer_index s') n_left_o else s')"
  using assms by (subst write_loop.simps) (simp add: Let_def write_loop_room)

lemma write_loop_fills:
  assumes "0 < n_left_b" "n_left_b < n_left_o"
  shows "write_loop (Some f) s cur_bi n_left_b n_left_o
   = write_loop (Some f) (flush_part s cur_bi n_left_b) (cur_bi + n_left_b) 0 (n_left_o - n_left_b)"
  using assms
  by (subst (1 2) write_loop.simps) (simp add: Let_def split: prod.split outcome.split)

lemma written_flush_part:
  assumes "length (buffer s) = n_buffer_bytes s" "n \<le> length (overflow_buffer s)" "cur_bi + n \<le> n_buffer_bytes s"
  shows "take (cur_bi + n) (buffer (flush_part s cur_bi n)) = take cur_bi (buffer s) @ take n (overflow_buffer s)"
  using assms take_store_at [of cur_bi "take n (overflow_buffer s)" "buffer s"]
  by (simp add: flush_part_def)

lemma flush_part_sel [simp]:
  "overflow_buffer (flush_part s c n) = drop n (overflow_buffer s)"
  "n_buffer_bytes (flush_part s c n) = n_buffer_bytes s" "buffer_len (flush_part s c n) = buffer_len s"
  "end_of_stream (flush_part s c n) = end_of_stream s" "recursion_level (flush_part s c n) = recursion_level s"
  "io (flush_part s c n) = io s" "current_buffer_index (flush_part s c n) = current_buffer_index s"
  by (simp_all add: flush_part_def)

lemma length_buffer_flush_part:
  "length (buffer s) = n_buffer_bytes s \<Longrightarrow> c + n \<le> n_buffer_bytes s \<Longrightarrow> n \<le> length (overflow_buffer s) \<Longrightarrow>
   length (buffer (flush_part s c n)) = n_buffer_bytes s"
  by (simp add: flush_part_def length_store_at)

context data_writer
begin

text \<open>
  What the loop leaves: the overflow vector is empty, everything is sent or in the buffer below
  the returned index, and there is room for a piece. The state's own index may be behind.
\<close>

definition flushed :: "'io serialize_main \<Rightarrow> nat \<Rightarrow> nat \<Rightarrow> 'io serialize_main \<Rightarrow> bool" where
  "flushed s cur_bi n_left_b s' \<longleftrightarrow>
     shape (buffer_len s') (n_buffer_bytes s') \<and> length (buffer s') = n_buffer_bytes s'
     \<and> cur_bi + n_left_b = n_buffer_bytes s' \<and> 0 < n_left_b \<and> overflow_buffer s' = []
     \<and> sent (io s') @ take cur_bi (buffer s') = full_contents sent s
     \<and> \<not> end_of_stream s' \<and> recursion_level s' = recursion_level s"

lemma full_buffer_flushed:
  assumes shape: "shape (buffer_len s) (n_buffer_bytes s)" "length (buffer s) = n_buffer_bytes s" "\<not> end_of_stream s"
    and small: "length (overflow_buffer s) \<le> B"
  obtains cur_bi n_left_b s' where
    "write_loop (Some f) s (n_buffer_bytes s) 0 (length (overflow_buffer s)) = Some (Done (cur_bi, n_left_b, 0), s')"
    "flushed (s\<lparr>current_buffer_index := n_buffer_bytes s\<rparr>) cur_bi n_left_b s'" "B \<le> n_left_b"
proof -
  let ?s = "s\<lparr>current_buffer_index := n_buffer_bytes s\<rparr>"
  let ?o = "length (overflow_buffer s)"
  obtain s' where f: "f ?s = (Done (), s')" and room: "makes_room shape sent B ?s s'"
    using makes_room [of ?s] shape by auto
  let ?t = "if 0 < ?o then flush_part s' (current_buffer_index s') ?o else s'"
  from room small have less: "?o < n_buffer_bytes s' - current_buffer_index s'"
    by (auto simp: makes_room_def)
  have "flushed ?s (current_buffer_index s' + ?o) (n_buffer_bytes s' - current_buffer_index s' - ?o) ?t"
    using room less shape(3) written_flush_part [of s' ?o "current_buffer_index s'"]
      length_buffer_flush_part [of s' "current_buffer_index s'" ?o]
    by (auto simp: flushed_def makes_room_def full_contents_def written_def)
  moreover have "B \<le> n_buffer_bytes s' - current_buffer_index s' - ?o"
    using room small by (auto simp: makes_room_def)
  ultimately show ?thesis
    using that write_loop_full [where f = f and s = s and cur_bi = "n_buffer_bytes s", OF f less] by blast
qed

lemma full_flushed:
  assumes "write_ok shape B s" "current_buffer_index s = n_buffer_bytes s"
  obtains cur_bi n_left_b s' where
    "write_loop (Some f) s (n_buffer_bytes s) 0 (length (overflow_buffer s)) = Some (Done (cur_bi, n_left_b, 0), s')"
    "flushed s cur_bi n_left_b s'" "B \<le> n_left_b"
proof -
  have "s\<lparr>current_buffer_index := n_buffer_bytes s\<rparr> = s" using assms(2) by simp
  with assms(1) that show ?thesis by (metis full_buffer_flushed write_ok_def)
qed

lemma not_inline_room:
  assumes ok: "write_ok shape B s" and over: "overflow_buffer s \<noteq> []"
  obtains cur_bi n_left_b s' where
    "write_loop (Some f) s (current_buffer_index s) (n_buffer_bytes s - current_buffer_index s)
       (length (overflow_buffer s)) = Some (Done (cur_bi, n_left_b, 0), s')"
    "flushed s cur_bi n_left_b s'" "B \<le> n_left_b"
proof (cases "current_buffer_index s = n_buffer_bytes s")
  case True
  with that show ?thesis by (auto elim: full_flushed [OF ok])
next
  case False
  let ?r = "n_buffer_bytes s - current_buffer_index s"
  let ?s = "flush_part s (current_buffer_index s) ?r"
  have r: "0 < ?r" "?r < length (overflow_buffer s)" "current_buffer_index s + ?r = n_buffer_bytes s"
    using ok over False by (auto simp: write_ok_def)
  have s: "length (buffer ?s) = n_buffer_bytes s"
    "full_contents sent (?s\<lparr>current_buffer_index := n_buffer_bytes s\<rparr>) = full_contents sent s"
    using ok r written_flush_part [of s ?r "current_buffer_index s"]
    by (simp_all add: write_ok_def length_buffer_flush_part full_contents_def written_def)
  obtain cur_bi n_left_b s' where
    "write_loop (Some f) ?s (n_buffer_bytes ?s) 0 (length (overflow_buffer ?s)) = Some (Done (cur_bi, n_left_b, 0), s')"
    "flushed (?s\<lparr>current_buffer_index := n_buffer_bytes ?s\<rparr>) cur_bi n_left_b s'" "B \<le> n_left_b"
  proof (rule full_buffer_flushed [of ?s])
    show "shape (buffer_len ?s) (n_buffer_bytes ?s)" "\<not> end_of_stream ?s" "length (overflow_buffer ?s) \<le> B"
      "length (buffer ?s) = n_buffer_bytes ?s"
      using ok s(1) by (auto simp: write_ok_def)
  qed
  then show ?thesis
    using that write_loop_fills [OF r(1,2), of f s "current_buffer_index s"] r(3) s(2)
    by (simp add: flushed_def)
qed

lemma put_in_buffer:
  assumes "flushed s cur_bi n_left_b s'" "length p \<le> n_left_b"
  shows "\<exists>t. store (In_buffer cur_bi) p (s'\<lparr>current_buffer_index := cur_bi + length p\<rparr>) = Some (Done (), t)
    \<and> full_contents sent t = full_contents sent s @ p \<and> write_ok shape B t
    \<and> recursion_level t = recursion_level s"
  using assms
  by (auto simp: flushed_def full_contents_def written_def write_ok_def length_store_at take_store_at)

lemma put_in_overflow:
  assumes "write_ok shape B s" "overflow_buffer s = []" "n_buffer_bytes s - current_buffer_index s < length p"
    "length p \<le> B"
  shows "\<exists>t. store (In_overflow 0) p (s\<lparr>overflow_buffer := replicate (length p) 0\<rparr>) = Some (Done (), t)
    \<and> full_contents sent t = full_contents sent s @ p \<and> write_ok shape B t
    \<and> recursion_level t = recursion_level s"
  using assms store_at_end [of "[]" p 0]
  by (auto simp: full_contents_def written_def write_ok_def)

lemma flushed_start:
  "write_ok shape B s \<Longrightarrow> overflow_buffer s = [] \<Longrightarrow> current_buffer_index s < n_buffer_bytes s \<Longrightarrow>
   flushed s (current_buffer_index s) (n_buffer_bytes s - current_buffer_index s) s"
  by (simp add: write_ok_def flushed_def full_contents_def written_def)

lemma put_piece:
  assumes ok: "write_ok shape B s" and p: "length p \<le> B"
  shows "\<exists>t. serialize_get (Some f) p s = Some (Done (), t) \<and> full_contents sent t = full_contents sent s @ p
    \<and> write_ok shape B t \<and> recursion_level t = recursion_level s"
proof -
  let ?i = "current_buffer_index s" and ?n = "n_buffer_bytes s" and ?w = "serialize_write_not_inline (Some f) (length p) s"
  have s: "s\<lparr>end_of_stream := end_of_stream s\<rparr> = s" by simp
  consider (inline) "overflow_buffer s = []" "?i + length p \<le> ?n"
    | (flush) "overflow_buffer s \<noteq> []" | (full) "overflow_buffer s = []" "?i = ?n" "?n < ?i + length p"
    | (over) "overflow_buffer s = []" "?i < ?n" "?n < ?i + length p"
    using ok unfolding write_ok_def by linarith
  then show ?thesis
  proof cases
    case inline
    with ok show ?thesis
      by (auto simp: serialize_get_def after_def serialize_stream_read_write_def full_contents_def written_def write_ok_def
          Let_def length_store_at take_store_at)
  next
    case flush
    then obtain c n s' where "write_loop (Some f) s ?i (?n - ?i) (length (overflow_buffer s)) = Some (Done (c, n, 0), s')"
      and s': "flushed s c n s'" "B \<le> n" using not_inline_room [OF ok] by blast
    then have "?w = Some (Done (In_buffer c), s'\<lparr>current_buffer_index := c + length p\<rparr>)"
      using p by (simp add: serialize_write_not_inline_def)
    then have "serialize_get (Some f) p s = store (In_buffer c) p (s'\<lparr>current_buffer_index := c + length p\<rparr>)"
      using flush by (simp add: serialize_get_def after_def serialize_stream_read_write_def Let_def)
    then show ?thesis using put_in_buffer [OF s'(1), of p] s'(2) p by simp
  next
    case full
    then obtain c n s' where "write_loop (Some f) s ?n 0 0 = Some (Done (c, n, 0), s')"
      and s': "flushed s c n s'" "B \<le> n"
      by (auto elim: full_flushed [OF ok])
    then have "?w = Some (Done (In_buffer c), s'\<lparr>current_buffer_index := c + length p\<rparr>)"
      using p full by (simp add: serialize_write_not_inline_def)
    then have "serialize_get (Some f) p s = store (In_buffer c) p (s'\<lparr>current_buffer_index := c + length p\<rparr>)"
      using full by (simp add: serialize_get_def after_def serialize_stream_read_write_def Let_def)
    then show ?thesis using put_in_buffer [OF s'(1), of p] s'(2) p by simp
  next
    case over
    then have "write_loop (Some f) s ?i (?n - ?i) 0 = Some (Done (?i, ?n - ?i, 0), s)"
      by (simp add: write_loop_room)
    then have "?w = Some (Done (In_overflow 0), s\<lparr>overflow_buffer := replicate (length p) 0\<rparr>)"
      using over by (simp add: serialize_write_not_inline_def)
    then have "serialize_get (Some f) p s = store (In_overflow 0) p (s\<lparr>overflow_buffer := replicate (length p) 0\<rparr>)"
      using over by (simp add: serialize_get_def after_def serialize_stream_read_write_def Let_def)
    then show ?thesis using put_in_overflow [OF ok over(1)] over p by simp
  qed
qed

lemma close_flushes:
  assumes ok: "write_ok shape B s"
  shows "\<exists>q t. serialize_write_not_inline (Some f) 0 s = Some (Done q, t) \<and> \<not> end_of_stream t
    \<and> sent (io t) @ written t = full_contents sent s \<and> overflow_buffer t = [] \<and> length (buffer t) = n_buffer_bytes t
    \<and> current_buffer_index t \<le> n_buffer_bytes t"
proof -
  let ?i = "current_buffer_index s" and ?n = "n_buffer_bytes s" and ?o = "length (overflow_buffer s)"
  have "\<exists>c n s'. write_loop (Some f) s ?i (?n - ?i) ?o = Some (Done (c, n, 0), s') \<and> flushed s c n s'"
  proof (cases "overflow_buffer s = []")
    case True
    then consider (full) "?i = ?n" | (room) "?i < ?n" using ok by (auto simp: write_ok_def le_less)
    then show ?thesis
    proof cases
      case full
      with True show ?thesis by (auto elim: full_flushed [OF ok])
    next
      case room
      with True show ?thesis using flushed_start [OF ok] by (simp add: write_loop_room)
    qed
  next
    case False
    show ?thesis by (rule not_inline_room [OF ok False]) blast
  qed
  then obtain c n s' where "write_loop (Some f) s ?i (?n - ?i) ?o = Some (Done (c, n, 0), s')" "flushed s c n s'"
    by blast
  then show ?thesis
    by (auto simp: serialize_write_not_inline_def flushed_def written_def)
qed

end

sublocale data_writer \<subseteq> byte_sink "Some f" "full_contents sent"
  "\<lambda>ps s. write_ok shape B s \<and> (\<forall>p \<in> set ps. length p \<le> B)"
proof
  fix p :: "u8 list" and ps and s :: "'io serialize_main"
  assume "write_ok shape B s \<and> (\<forall>q \<in> set (p # ps). length q \<le> B)"
  then show "\<exists>s'. serialize_get (Some f) p s = Some (Done (), s') \<and> full_contents sent s' = full_contents sent s @ p
      \<and> (write_ok shape B s' \<and> (\<forall>p \<in> set ps. length p \<le> B)) \<and> recursion_level s' = recursion_level s"
    using put_piece [of s p] by auto
qed (simp_all add: write_ok_def full_contents_def written_def)

section \<open>A growing vector as sink\<close>

definition vector_shape :: "nat \<Rightarrow> nat \<Rightarrow> nat \<Rightarrow> bool" where
  "vector_shape B l n \<longleftrightarrow> l = n \<and> 2 * B \<le> (if l = 0 then 64 else l)"

interpretation vector_writer: data_writer serialize_vector_write "vector_shape B" "\<lambda>_. []" B for B
proof
  fix s :: "unit serialize_main"
  assume "vector_shape B (buffer_len s) (n_buffer_bytes s)" "length (buffer s) = n_buffer_bytes s"
    "current_buffer_index s = n_buffer_bytes s" "\<not> end_of_stream s"
  then show "\<exists>s'. serialize_vector_write s = (Done (), s') \<and> makes_room (vector_shape B) (\<lambda>_. []) B s s'"
    by (auto simp: serialize_vector_write_def makes_room_def vector_shape_def written_def Let_def)
qed

fun write_all :: "'io data_function option \<Rightarrow> u8 list list \<Rightarrow> ('io, unit) stm" where
  "write_all data_function [] = result ()"
| "write_all data_function (p # ps) = after (serialize_get data_function p) (\<lambda>_. write_all data_function ps)"

context byte_sink
begin

lemma writes_all: "writes contents may (write_all data_function ps) ps"
proof (induction ps)
  case (Cons p ps)
  then show ?case using writes_after [OF writes_get [of p]] by fastforce
qed (simp add: writes_result)

end

lemma close_vector:
  assumes "write_ok (vector_shape B) B s"
  shows "serialize_close_vector s = Some (Done (full_contents (\<lambda>_. []) s), serialize_open_data [])"
proof -
  obtain q t where t: "serialize_write_not_inline (Some serialize_vector_write) 0 s = Some (Done q, t)" "\<not> end_of_stream t"
    "written t = full_contents (\<lambda>_. []) s" "overflow_buffer t = []"
    using vector_writer.close_flushes [OF assms] by auto
  then show ?thesis using assms
    by (simp add: serialize_close_vector_def serialize_read_write_close_def after_def call_data_function_def result_def
        serialize_vector_write_def written_def write_ok_def)
qed

section \<open>A memory area as source\<close>

definition data_unread :: "'io serialize_main \<Rightarrow> u8 list" where
  "data_unread s = drop (current_buffer_index s) (buffer s)"

definition data_readable :: "'io serialize_main \<Rightarrow> bool" where
  "data_readable s \<longleftrightarrow> n_buffer_bytes s = length (buffer s) \<and> current_buffer_index s \<le> n_buffer_bytes s
     \<and> overflow_buffer s = [] \<and> current_overflow_index s = 0"

lemma unserialize_get_inline:
  assumes "overflow_buffer s = []" "current_buffer_index s + n \<le> n_buffer_bytes s" "n_buffer_bytes s \<le> length (buffer s)"
  shows "unserialize_get df n s =
    Some (Done (take n (drop (current_buffer_index s) (buffer s))),
          s\<lparr>current_buffer_index := current_buffer_index s + n,
            end_of_stream := end_of_stream s \<or> current_buffer_index s + n = n_buffer_bytes s \<and> df = None\<rparr>)"
  using assms by (simp add: unserialize_get_def after_def serialize_stream_read_write_def Let_def)

lemma unserialize_get_not_inline:
  assumes "overflow_buffer s \<noteq> [] \<or> n_buffer_bytes s < current_buffer_index s + n"
  shows "unserialize_get df n s =
    after (serialize_read_not_inline df n) (\<lambda>p. load p n)
      (s\<lparr>end_of_stream := end_of_stream s \<or> current_buffer_index s + n = n_buffer_bytes s \<and> df = None\<rparr>)"
  using assms by (auto simp: unserialize_get_def after_def serialize_stream_read_write_def Let_def)

lemma unserialize_get_function:
  assumes "overflow_buffer s \<noteq> [] \<or> n_buffer_bytes s < current_buffer_index s + n"
  shows "unserialize_get (Some f) n s = after (serialize_read_not_inline (Some f) n) (\<lambda>p. load p n) s"
proof -
  have "s\<lparr>end_of_stream := end_of_stream s\<rparr> = s" by simp
  with unserialize_get_not_inline [OF assms, of "Some f"] show ?thesis by simp
qed

interpretation data_source: byte_source None data_unread data_readable "\<lambda>_. True"
proof
  fix s :: "'io serialize_main" and bs rest
  assume s: "data_readable s" "data_unread s = bs @ rest"
  have "length (data_unread s) = length bs + length rest" using s(2) by simp
  then have n: "current_buffer_index s + length bs \<le> n_buffer_bytes s"
    using s(1) by (auto simp: data_readable_def data_unread_def)
  have "take (length bs) (data_unread s) = bs" "drop (length bs) (data_unread s) = rest" using s(2) by simp_all
  then show "\<exists>s'. unserialize_get None (length bs) s = Some (Done bs, s') \<and> data_unread s' = rest
      \<and> data_readable s' \<and> recursion_level s' = recursion_level s"
    using s(1) n by (simp add: unserialize_get_inline data_readable_def data_unread_def add.commute)
next
  fix s :: "'io serialize_main" and n
  assume s: "data_readable s" "length (data_unread s) < n" "0 < recursion_level s"
  then have n: "n_buffer_bytes s < current_buffer_index s + n" "0 < n"
    by (auto simp: data_readable_def data_unread_def)
  show "\<exists>s'. unserialize_get None n s = Some (Longjmp SERIALIZE_END_OF_STREAM_ERROR, s')"
    using s n
    by (subst unserialize_get_not_inline)
      (auto simp: after_def serialize_read_not_inline_def n_overflow_left_def data_readable_def read_loop.simps
         read_refill_def save_left_over_def Let_def)
qed (simp_all add: data_readable_def data_unread_def)

section \<open>A file as source\<close>

text \<open>
  What the code relies on when it reads a regular file: the system call returns as many bytes as
  there are, up to the size of the buffer.
\<close>

definition reads_fully :: "('io \<Rightarrow> nat \<Rightarrow> read_result \<times> 'io) \<Rightarrow> ('io \<Rightarrow> u8 list) \<Rightarrow> bool" where
  "reads_fully read remaining \<longleftrightarrow>
     (\<forall>f n. fst (read f n) = Bytes (take n (remaining f)) \<and> remaining (snd (read f n)) = drop n (remaining f))"

definition file_unread :: "('io \<Rightarrow> u8 list) \<Rightarrow> 'io serialize_main \<Rightarrow> u8 list" where
  "file_unread remaining s =
     drop (current_buffer_index s) (take (n_buffer_bytes s) (buffer s)) @ remaining (io s)"

text \<open>
  The code is right as long as no two reads in a row need the overflow vector: after one that did,
  half a buffer must be left unless the file has ended.
\<close>

definition file_readable :: "('io \<Rightarrow> u8 list) \<Rightarrow> 'io serialize_main \<Rightarrow> bool" where
  "file_readable remaining s \<longleftrightarrow>
     length (buffer s) = 4096 \<and> buffer_len s = 4096 \<and> n_buffer_bytes s \<le> 4096
     \<and> current_buffer_index s \<le> n_buffer_bytes s \<and> \<not> end_of_stream s
     \<and> current_overflow_index s = length (overflow_buffer s)
     \<and> (overflow_buffer s = [] \<or> 2048 \<le> n_buffer_bytes s - current_buffer_index s \<or> remaining (io s) = [])"

lemma unix_file_read_eq:
  assumes "reads_fully read remaining" "buffer_len s = 4096"
  shows "unix_file_read read s =
    (Done (), s\<lparr>io := snd (read (io s) 4096), buffer := store_at (buffer s) 0 (take 4096 (remaining (io s))),
                end_of_stream := end_of_stream s \<or> remaining (io s) = [],
                current_buffer_index := 0, n_buffer_bytes := length (take 4096 (remaining (io s)))\<rparr>)"
proof -
  obtain f where "read (io s) 4096 = (Bytes (take 4096 (remaining (io s))), f)"
    using assms(1) unfolding reads_fully_def by (metis prod.collapse)
  then show ?thesis using assms(2) by (simp add: unix_file_read_def)
qed

lemma remaining_read: "reads_fully read remaining \<Longrightarrow> remaining (snd (read f n)) = drop n (remaining f)"
  by (simp add: reads_fully_def)

lemma take_store_at_0: "length bs \<le> length mem \<Longrightarrow> take (length bs) (store_at mem 0 bs) = bs"
  using take_store_at [of 0 bs mem] by simp

text \<open>The turn of the loop that finds too little data: what is left goes to the overflow vector.\<close>

lemma read_refill_file:
  assumes "reads_fully read remaining" "buffer_len s = 4096" "n_left_o + n_left_b < n"
  shows "read_refill (Some (unix_file_read read)) n (i, n_left_b, n_left_o, n_left) s =
    (let c = take 4096 (remaining (io s))
     in (Done (0, length c, n_left_o + n_left_b, n_left - n_left_b),
         s\<lparr>overflow_buffer := overflow_buffer s @ take n_left_b (drop i (buffer s)),
           io := snd (read (io s) 4096), buffer := store_at (buffer s) 0 c,
           end_of_stream := end_of_stream s \<or> remaining (io s) = [],
           current_buffer_index := 0, n_buffer_bytes := length c\<rparr>))"
  using assms unix_file_read_eq [OF assms(1), of s]
    unix_file_read_eq [OF assms(1), of "save_left_over s i n_left_b"]
  by (simp add: read_refill_def save_left_over_def Let_def)

lemma read_refill_enough: "n \<le> n_left_o + n_left_b \<Longrightarrow> read_refill df n (i, n_left_b, n_left_o, m) s = (Done (i, n_left_b, n_left_o, m), s)"
  by (simp add: read_refill_def)

definition refilled :: "('io \<Rightarrow> nat \<Rightarrow> read_result \<times> 'io) \<Rightarrow> ('io \<Rightarrow> u8 list) \<Rightarrow> 'io serialize_main \<Rightarrow> 'io serialize_main" where
  "refilled read remaining s =
     (let c = take 4096 (remaining (io s))
      in s\<lparr>io := snd (read (io s) 4096), buffer := store_at (buffer s) 0 c, end_of_stream := False,
           current_buffer_index := 0, n_buffer_bytes := length c\<rparr>)"

lemma read_empty_buffer:
  assumes fully: "reads_fully read remaining" and "buffer_len s = 4096" "0 < m" "\<not> end_of_stream s"
    and m: "m \<le> length (remaining (io s))" "m \<le> 4096"
  shows "read_loop (Some (unix_file_read read)) m k (i, 0, 0, m) s =
    Some (Done (In_buffer 0), (refilled read remaining s)\<lparr>current_buffer_index := m\<rparr>)"
proof -
  have "remaining (io s) \<noteq> []" using assms by auto
  with assms show ?thesis
    by (subst read_loop.simps) (auto simp: read_refill_file [OF fully] refilled_def Let_def)
qed

lemma read_spill:
  assumes fully: "reads_fully read remaining" and "buffer_len s = 4096" "0 < r" "r < m" "\<not> end_of_stream s"
    "length (buffer s) = 4096"
    and m: "m - r \<le> length (remaining (io s))" "m - r \<le> 4096"
  shows "read_loop (Some (unix_file_read read)) m k (i, r, 0, m) s =
    Some (Done (In_overflow k),
      (refilled read remaining s)\<lparr>overflow_buffer := overflow_buffer s @ take r (drop i (buffer s)) @ take (m - r) (remaining (io s)),
         current_buffer_index := m - r, current_overflow_index := k + m\<rparr>)"
proof -
  have "remaining (io s) \<noteq> []" using assms by auto
  moreover have "take (m - r) (store_at (buffer s) 0 (take 4096 (remaining (io s)))) = take (m - r) (remaining (io s))"
    using assms by (simp add: store_at_def)
  moreover have "min (m - r) (min (length (remaining (io s))) 4096) = m - r" using m by simp
  ultimately show ?thesis
    using assms(2-6)
    by (subst read_loop.simps)
      (simp add: read_refill_file [OF fully] refilled_def save_left_over_def Let_def read_loop.simps [of _ _ _ "(_, _, _, 0)"])
qed

lemma read_no_more:
  assumes fully: "reads_fully read remaining" and "buffer_len s = 4096" "0 < n_left" "n_left_o < m" "0 < m"
    "0 < recursion_level s" "remaining (io s) = []"
  shows "\<exists>t. read_loop (Some (unix_file_read read)) m k (i, 0, n_left_o, n_left) s =
    Some (Longjmp SERIALIZE_END_OF_STREAM_ERROR, t)"
  using assms(2-)
  by (subst read_loop.simps) (simp add: read_refill_file [OF fully] Let_def)

lemma read_end:
  assumes fully: "reads_fully read remaining" and s: "buffer_len s = 4096" "0 < recursion_level s" "\<not> end_of_stream s"
    and m: "r + length (remaining (io s)) < m" "m \<le> 4096"
  shows "\<exists>t. read_loop (Some (unix_file_read read)) m k (i, r, 0, m) s =
    Some (Longjmp SERIALIZE_END_OF_STREAM_ERROR, t)"
proof (cases "remaining (io s) = []")
  case True
  with s m show ?thesis
    by (subst read_loop.simps) (simp add: read_refill_file [OF fully] Let_def)
next
  case False
  let ?c = "remaining (io s)"
  let ?t = "s\<lparr>overflow_buffer := overflow_buffer s @ take r (drop i (buffer s)),
     io := snd (read (io s) 4096), buffer := store_at (buffer s) 0 ?c, end_of_stream := False,
     current_buffer_index := 0, n_buffer_bytes := length ?c\<rparr>"
  have "read_loop (Some (unix_file_read read)) m k (i, r, 0, m) s
      = read_loop (Some (unix_file_read read)) m k (length ?c, 0, r + length ?c, m - r - length ?c)
          (save_left_over ?t 0 (length ?c))"
    using s m False
    by (subst read_loop.simps) (auto simp: read_refill_file [OF fully] Let_def)
  then show ?thesis
    using read_no_more [OF fully, of "save_left_over ?t 0 (length ?c)"] s m
    by (auto simp: save_left_over_def remaining_read [OF fully])
qed

lemma file_overflow_left: "file_readable remaining s \<Longrightarrow> n_overflow_left s = 0"
  by (simp add: file_readable_def n_overflow_left_def)

lemma file_get_empty:
  assumes "file_readable remaining s" "unread = file_unread remaining s"
  shows "\<exists>t. unserialize_get (Some (unix_file_read read)) 0 s = Some (Done [], t) \<and> file_unread remaining t = unread
    \<and> file_readable remaining t \<and> recursion_level t = recursion_level s"
proof (cases "overflow_buffer s = []")
  case True
  with assms show ?thesis by (simp add: unserialize_get_inline file_readable_def file_unread_def)
next
  case False
  have "s\<lparr>end_of_stream := end_of_stream s\<rparr> = s" by simp
  then have "unserialize_get (Some (unix_file_read read)) 0 s
      = Some (Done [], s\<lparr>current_overflow_index := current_overflow_index s\<rparr>)"
    using False assms file_overflow_left [OF assms(1)]
    by (simp add: unserialize_get_not_inline serialize_read_not_inline_def after_def Let_def file_readable_def)
  with assms show ?thesis by simp
qed

definition overflow_reset :: "'io serialize_main \<Rightarrow> 'io serialize_main" where
  "overflow_reset s = s\<lparr>current_overflow_index := 0, overflow_buffer := []\<rparr>"

lemma file_get_loop:
  assumes s: "file_readable remaining s" and m: "0 < m"
    and "overflow_buffer s \<noteq> [] \<or> n_buffer_bytes s < current_buffer_index s + m"
  shows "unserialize_get (Some f) m s =
    after (read_loop (Some f) m (length (overflow_buffer s))
             (current_buffer_index s, n_buffer_bytes s - current_buffer_index s, 0, m)) (\<lambda>p. load p m) (overflow_reset s)"
  using assms file_overflow_left [OF s]
  by (simp add: unserialize_get_function after_def serialize_read_not_inline_def Let_def file_readable_def overflow_reset_def)

lemma file_unread_lengths:
  assumes "file_readable remaining s" "file_unread remaining s = bs @ rest"
    "n_buffer_bytes s - current_buffer_index s < length bs"
  shows "bs = drop (current_buffer_index s) (take (n_buffer_bytes s) (buffer s))
               @ take (length bs - (n_buffer_bytes s - current_buffer_index s)) (remaining (io s))"
    "rest = drop (length bs - (n_buffer_bytes s - current_buffer_index s)) (remaining (io s))"
    "length bs - (n_buffer_bytes s - current_buffer_index s) \<le> length (remaining (io s))"
proof -
  let ?b = "drop (current_buffer_index s) (take (n_buffer_bytes s) (buffer s))"
  have len: "length ?b = n_buffer_bytes s - current_buffer_index s"
    using assms(1) by (simp add: file_readable_def)
  have eq: "?b @ remaining (io s) = bs @ rest" using assms(2) by (simp add: file_unread_def)
  have "bs = take (length bs) (?b @ remaining (io s))" "rest = drop (length bs) (?b @ remaining (io s))"
    by (simp_all add: eq)
  with len assms(3)
  show "bs = ?b @ take (length bs - (n_buffer_bytes s - current_buffer_index s)) (remaining (io s))"
    "rest = drop (length bs - (n_buffer_bytes s - current_buffer_index s)) (remaining (io s))"
    by (simp_all add: len del: length_drop)
  have "length (?b @ remaining (io s)) = length bs + length rest" unfolding eq by simp
  then show "length bs - (n_buffer_bytes s - current_buffer_index s) \<le> length (remaining (io s))"
    using len by simp
qed

lemma chunk_rest: "k \<le> c \<Longrightarrow> drop k (take (min (length xs) c) xs) @ drop c xs = drop k xs"
proof -
  assume "k \<le> c"
  then have "drop k xs = drop k (take c xs) @ drop (k - length (take c xs)) (drop c xs)"
    by (metis append_take_drop_id drop_append)
  also have "drop (k - length (take c xs)) (drop c xs) = drop c xs" using \<open>k \<le> c\<close> by (simp add: min_def)
  also have "take c xs = take (min (length xs) c) xs" by (simp add: min_def)
  finally show ?thesis ..
qed

lemma file_get_refill:
  assumes fully: "reads_fully read remaining" and s: "file_readable remaining s"
    and bs: "file_unread remaining s = bs @ rest" "length bs \<le> 2048" "n_buffer_bytes s - current_buffer_index s < length bs"
  shows "\<exists>t. unserialize_get (Some (unix_file_read read)) (length bs) s = Some (Done bs, t)
    \<and> file_unread remaining t = rest \<and> file_readable remaining t \<and> recursion_level t = recursion_level s"
proof -
  let ?i = "current_buffer_index s" and ?r = "n_buffer_bytes s - current_buffer_index s" and ?m = "length bs"
  note lens = file_unread_lengths [OF s bs(1,3)]
  have "remaining (io s) \<noteq> []" using lens(3) bs(3) by auto
  with s bs have over: "overflow_buffer s = []" by (auto simp: file_readable_def)
  let ?s = "overflow_reset s"
  have reset: "buffer_len ?s = 4096" "\<not> end_of_stream ?s" "length (buffer ?s) = 4096" "io ?s = io s" "buffer ?s = buffer s"
    "overflow_buffer ?s = []" "current_overflow_index ?s = 0" "recursion_level ?s = recursion_level s"
    using s by (simp_all add: overflow_reset_def file_readable_def)
  have get: "unserialize_get (Some (unix_file_read read)) ?m s =
    after (read_loop (Some (unix_file_read read)) ?m 0 (?i, ?r, 0, ?m)) (\<lambda>p. load p ?m) ?s"
    using file_get_loop [OF s, of ?m "unix_file_read read"] bs(3) over by fastforce
  have c: "length (store_at (buffer s) 0 (take 4096 (remaining (io s)))) = 4096"
    using reset by (simp add: length_store_at)
  show ?thesis
  proof (cases "?r = 0")
    case True
    then have "bs = take ?m (remaining (io s))" "rest = drop ?m (remaining (io s))" using lens by simp_all
    then show ?thesis
      using read_empty_buffer [OF fully, of ?s ?m 0 ?i] True reset get lens(3) bs(2,3) c
      by (simp add: after_def refilled_def Let_def file_unread_def file_readable_def remaining_read [OF fully]
          store_at_def chunk_rest)
  next
    case False
    define k where "k = ?m - ?r"
    have k: "0 < k" "k \<le> 2048" "k \<le> length (remaining (io s))" using lens(3) bs(2,3) by (simp_all add: k_def)
    have bs_eq: "take ?r (drop ?i (buffer s)) @ take k (remaining (io s)) = bs"
      using lens(1) by (simp add: k_def drop_take)
    let ?t = "(refilled read remaining ?s)\<lparr>overflow_buffer := bs, current_buffer_index := k, current_overflow_index := ?m\<rparr>"
    have "read_loop (Some (unix_file_read read)) ?m 0 (?i, ?r, 0, ?m) ?s = Some (Done (In_overflow 0), ?t)"
      using read_spill [OF fully reset(1), of ?r ?m 0 ?i] False k bs(3) bs_eq reset by (simp add: k_def [symmetric])
    then have "unserialize_get (Some (unix_file_read read)) ?m s = Some (Done bs, ?t)"
      using get by (simp add: after_def)
    moreover have "file_unread remaining ?t = rest" "file_readable remaining ?t"
      using lens(2) k reset c
      by (auto simp: refilled_def Let_def file_unread_def file_readable_def remaining_read [OF fully] store_at_def
          chunk_rest k_def [symmetric])
    ultimately show ?thesis using reset(8) by (simp add: refilled_def Let_def)
  qed
qed

lemma file_get_buffered:
  assumes s: "file_readable remaining s" and bs: "file_unread remaining s = bs @ rest"
    "bs \<noteq> []" "length bs \<le> n_buffer_bytes s - current_buffer_index s"
  shows "\<exists>t. unserialize_get (Some f) (length bs) s = Some (Done bs, t)
    \<and> file_unread remaining t = rest \<and> file_readable remaining t \<and> recursion_level t = recursion_level s"
proof -
  let ?i = "current_buffer_index s" and ?n = "n_buffer_bytes s"
  have i: "?i + length bs \<le> ?n" "?n \<le> length (buffer s)" using s bs(3) by (auto simp: file_readable_def)
  have b: "drop ?i (take ?n (buffer s)) @ remaining (io s) = bs @ rest" using bs(1) by (simp add: file_unread_def)
  have len: "length bs \<le> length (drop ?i (take ?n (buffer s)))" using i by simp
  have "take (length bs) (drop ?i (take ?n (buffer s)) @ remaining (io s)) = bs"
    "drop (length bs) (drop ?i (take ?n (buffer s)) @ remaining (io s)) = rest" unfolding b by simp_all
  then have "take (length bs) (drop ?i (take ?n (buffer s))) = bs"
    and rest: "drop (?i + length bs) (take ?n (buffer s)) @ remaining (io s) = rest"
    using len by (simp_all add: add.commute del: length_drop)
  then have bs_eq: "take (length bs) (drop ?i (buffer s)) = bs" using i by (simp add: drop_take)
  show ?thesis
  proof (cases "overflow_buffer s = []")
    case True
    with i s rest bs_eq show ?thesis
      by (simp add: unserialize_get_inline file_unread_def file_readable_def)
  next
    case False
    with i bs_eq file_get_loop [OF s, of "length bs" f] bs(2,3) s
    have "unserialize_get (Some f) (length bs) s =
        Some (Done bs, (overflow_reset s)\<lparr>current_buffer_index := ?i + length bs, end_of_stream := end_of_stream s\<rparr>)"
      by (simp add: after_def read_loop.simps read_refill_enough overflow_reset_def file_readable_def)
    with i s rest show ?thesis by (simp add: file_unread_def file_readable_def overflow_reset_def)
  qed
qed

lemma file_get_end:
  assumes fully: "reads_fully read remaining" and s: "file_readable remaining s"
    and n: "length (file_unread remaining s) < n" "n \<le> 2048" "0 < recursion_level s"
  shows "\<exists>t. unserialize_get (Some (unix_file_read read)) n s = Some (Longjmp SERIALIZE_END_OF_STREAM_ERROR, t)"
proof -
  have "n_buffer_bytes s - current_buffer_index s + length (remaining (io s)) < n"
    using s n(1) by (simp add: file_readable_def file_unread_def)
  then obtain t where "read_loop (Some (unix_file_read read)) n (length (overflow_buffer s))
      (current_buffer_index s, n_buffer_bytes s - current_buffer_index s, 0, n) (overflow_reset s)
      = Some (Longjmp SERIALIZE_END_OF_STREAM_ERROR, t)"
    using read_end [OF fully, of "overflow_reset s" "n_buffer_bytes s - current_buffer_index s" n] s n
    by (auto simp: overflow_reset_def file_readable_def)
  moreover have "n_buffer_bytes s < current_buffer_index s + n" "0 < n"
    using s n(1) by (auto simp: file_readable_def file_unread_def)
  ultimately show ?thesis
    using file_get_loop [OF s, of n "unix_file_read read"] by (simp add: after_Longjmp)
qed

lemma file_source:
  assumes fully: "reads_fully read remaining"
  shows "byte_source (Some (unix_file_read read)) (file_unread remaining) (file_readable remaining) (\<lambda>n. n \<le> 2048)"
proof
  fix s bs rest
  assume s: "file_readable remaining s" "length bs \<le> 2048" "file_unread remaining s = bs @ rest"
  then consider (empty) "bs = []" | (buffered) "bs \<noteq> []" "length bs \<le> n_buffer_bytes s - current_buffer_index s"
    | (refill) "n_buffer_bytes s - current_buffer_index s < length bs" by linarith
  then show "\<exists>s'. unserialize_get (Some (unix_file_read read)) (length bs) s = Some (Done bs, s')
      \<and> file_unread remaining s' = rest \<and> file_readable remaining s' \<and> recursion_level s' = recursion_level s"
  proof cases
    case empty
    with s show ?thesis using file_get_empty [OF s(1), of rest] by simp
  next
    case buffered
    with s show ?thesis using file_get_buffered [OF s(1,3)] by simp
  next
    case refill
    with s show ?thesis using file_get_refill [OF fully s(1,3)] by simp
  qed
next
  fix s n assume "file_readable remaining s" "n \<le> 2048" "length (file_unread remaining s) < n" "0 < recursion_level s"
  then show "\<exists>s'. unserialize_get (Some (unix_file_read read)) n s = Some (Longjmp SERIALIZE_END_OF_STREAM_ERROR, s')"
    using file_get_end [OF fully] by blast
qed (simp_all add: file_readable_def file_unread_def)

section \<open>Writing to a vector\<close>

lemma vector_open_ok:
  "2 * B \<le> (if vec = [] then 64 else length vec) \<Longrightarrow> write_ok (vector_shape B) B (serialize_open_vector vec)"
  by (simp add: write_ok_def vector_shape_def serialize_open_vector_def serialize_open_data_def)

lemma full_contents_open: "full_contents (\<lambda>_. []) (serialize_open_vector vec) = []"
  by (simp add: full_contents_def written_def serialize_open_vector_def serialize_open_data_def)

text \<open>
  C14: Data written in pieces into a growing vector comes out in order and complete, however
  the vector grows, when no piece is larger than half of the vector the stream starts with (of 64
  bytes for an empty one).
\<close>

theorem vector_stream_contents:
  assumes "\<forall>p \<in> set ps. 2 * length p \<le> (if vec = [] then 64 else length vec)"
  shows "after (write_all (Some serialize_vector_write) ps) (\<lambda>_. serialize_close_vector) (serialize_open_vector vec)
    = Some (Done (concat ps), serialize_open_data [])"
proof -
  define B where "B = (if vec = [] then 64 else length vec) div 2"
  have B: "2 * B \<le> (if vec = [] then 64 else length vec)" by (simp add: B_def)
  have pieces: "\<forall>p \<in> set ps. length p \<le> B" using assms by (auto simp: B_def less_eq_div_iff_mult_less_eq)
  have "\<exists>t. write_all (Some serialize_vector_write) ps (serialize_open_vector vec) = Some (Done (), t)
      \<and> full_contents (\<lambda>_. []) t = concat ps \<and> write_ok (vector_shape B) B t"
    using vector_writer.writes_all [of B ps] vector_open_ok [OF B] pieces
    unfolding writes_def by (force simp: full_contents_open)
  then show ?thesis by (auto simp: after_Done close_vector)
qed

theorem vector_stream_contents_witness:
  "after (write_all (Some serialize_vector_write) [[1, 2], [], [3]]) (\<lambda>_. serialize_close_vector) (serialize_open_vector [])
    = Some (Done [1, 2, 3], serialize_open_data [])"
  using vector_stream_contents [of "[[1, 2], [], [3]]" "[]"] by simp

text \<open>The state of a vector stream as the loop sees it: \<open>xs\<close> in the buffer, \<open>ys\<close> in the overflow vector.\<close>

definition vector_state :: "unit serialize_main \<Rightarrow> nat \<Rightarrow> nat \<Rightarrow> u8 list \<Rightarrow> u8 list \<Rightarrow> bool" where
  "vector_state s L i xs ys \<longleftrightarrow> buffer_len s = L \<and> n_buffer_bytes s = L \<and> length (buffer s) = L \<and> \<not> end_of_stream s
     \<and> current_buffer_index s = i \<and> i \<le> L \<and> length xs \<le> L \<and> take (length xs) (buffer s) = xs \<and> overflow_buffer s = ys"

text \<open>One buffer filled from the overflow vector and doubled.\<close>

lemma vector_loop_double:
  assumes s: "vector_state s L i xs ys" and less: "length xs < L" "L - length xs < length ys"
  obtains t where
    "write_loop (Some serialize_vector_write) s (length xs) (L - length xs) (length ys)
     = write_loop (Some serialize_vector_write) t L L (length ys - (L - length xs))"
    "vector_state t (2 * L) L (xs @ take (L - length xs) ys) (drop (L - length xs) ys)"
proof -
  let ?r = "L - length xs"
  let ?u = "flush_part s (length xs) ?r"
  let ?t = "snd (serialize_vector_write (?u\<lparr>current_buffer_index := L\<rparr>))"
  have u: "length xs + ?r = L" "length (buffer ?u) = L" "take L (buffer ?u) = xs @ take ?r ys"
    using s less written_flush_part [of s ?r "length xs"] length_buffer_flush_part [of s "length xs" ?r]
    by (auto simp: vector_state_def)
  have "write_loop (Some serialize_vector_write) s (length xs) ?r (length ys)
      = write_loop (Some serialize_vector_write) ?u L 0 (length ys - ?r)"
    using write_loop_fills [of ?r "length ys" serialize_vector_write s "length xs"] less u(1) by simp
  also have "\<dots> = write_loop (Some serialize_vector_write) ?t L L (length ys - ?r)"
  proof -
    have "L < length ys + length xs" using less by linarith
    then show ?thesis
      using s less by (subst write_loop.simps) (simp add: serialize_vector_write_def vector_state_def Let_def)
  qed
  finally show ?thesis
    using that s less u by (simp add: vector_state_def serialize_vector_write_def Let_def)
qed

lemma vector_loop_room:
  assumes s: "vector_state s L i xs ys" and less: "length xs + length ys < L" "ys \<noteq> []"
  obtains t where
    "write_loop (Some serialize_vector_write) s (length xs) (L - length xs) (length ys)
     = Some (Done (length xs + length ys, L - length xs - length ys, 0), t)"
    "vector_state t L i (xs @ ys) []"
proof
  let ?t = "flush_part s (length xs) (length ys)"
  show "write_loop (Some serialize_vector_write) s (length xs) (L - length xs) (length ys)
     = Some (Done (length xs + length ys, L - length xs - length ys, 0), ?t)"
    using less by (simp add: write_loop_room)
  show "vector_state ?t L i (xs @ ys) []"
    using s less written_flush_part [of s "length ys" "length xs"] length_buffer_flush_part [of s "length xs" "length ys"]
    by (auto simp: vector_state_def)
qed

lemma vector_put_overflow:
  assumes "vector_state s L i xs []" "length xs = i" "L < i + length p" "i < L"
  obtains t where "serialize_get (Some serialize_vector_write) p s = Some (Done (), t)" "vector_state t L i xs p"
proof -
  have "L - i < length p" using assms by simp
  then have "\<exists>t. serialize_get (Some serialize_vector_write) p s = Some (Done (), t) \<and> vector_state t L i xs p"
    using assms store_at_end [of "[]" p 0]
    by (simp add: serialize_get_def after_def serialize_stream_read_write_def serialize_write_not_inline_def
        write_loop_room vector_state_def Let_def)
  with that show ?thesis by blast
qed

lemma vector_put_first:
  assumes "p \<noteq> []" "length p \<le> 64"
  obtains t where "serialize_get (Some serialize_vector_write) p (serialize_open_vector []) = Some (Done (), t)"
    "vector_state t 64 (length p) p []"
proof -
  have "\<exists>t. serialize_get (Some serialize_vector_write) p (serialize_open_vector []) = Some (Done (), t)
      \<and> vector_state t 64 (length p) p []"
    using assms
    by (simp add: serialize_get_def after_def serialize_stream_read_write_def serialize_write_not_inline_def
        write_loop.simps serialize_vector_write_def serialize_open_vector_def serialize_open_data_def vector_state_def Let_def
        length_store_at store_at_def)
  with that show ?thesis by blast
qed

lemma vector_put_flushing:
  assumes "vector_state s L i xs ys" "length xs = i" "ys \<noteq> []" "p \<noteq> []"
    and loop: "write_loop (Some serialize_vector_write) s i (L - i) (length ys) = Some (Done (c, n, 0), t)"
    and t: "vector_state t M j zs []" "n < length p"
  obtains u where "serialize_get (Some serialize_vector_write) p s = Some (Done (), u)" "vector_state u M j zs p"
  using that assms store_at_end [of "[]" p 0]
  by (simp add: serialize_get_def after_def serialize_stream_read_write_def serialize_write_not_inline_def
      vector_state_def Let_def)

lemma vector_close_exact:
  assumes s: "vector_state s L i xs ys" "length xs = i" "i + length ys = L" "ys \<noteq> []" "i < L"
  shows "serialize_close_vector s = Some (Done (xs @ ys), serialize_open_data [])"
proof -
  let ?t = "flush_part s i (length ys)"
  have t: "take L (buffer ?t) = xs @ ys" "length (buffer ?t) = L"
    using s written_flush_part [of s "length ys" i] length_buffer_flush_part [of s i "length ys"]
    by (auto simp: vector_state_def)
  have "write_loop (Some serialize_vector_write) s i (length ys) (length ys)
    = Some (Done (L, L, 0), snd (serialize_vector_write (?t\<lparr>current_buffer_index := L\<rparr>)))"
    using s by (subst write_loop.simps) (auto simp: vector_state_def serialize_vector_write_def Let_def)
  moreover have "L - i = length ys" using s(3) by simp
  ultimately show ?thesis
    using s t by (simp add: serialize_close_vector_def serialize_read_write_close_def after_def serialize_write_not_inline_def
        call_data_function_def result_def serialize_vector_write_def vector_state_def Let_def)
qed

lemma vector_state_shorter: "vector_state s L i (xs @ ys) zs \<Longrightarrow> vector_state s L i xs zs"
  by (auto simp: vector_state_def) (metis append_eq_conv_conj append_take_drop_id le_add1 take_add take_take min.absorb1)

text \<open>The same with the data as a prefix of a message \<open>a @ b\<close> and the numbers as the loop has them.\<close>

lemma vector_loop_double_split:
  assumes "vector_state s L i (a @ take q b) (drop q b)" "q \<le> length b" "length a + q = k" "length b - q = n"
    "k + r = L" "0 < r" "r < n" "n - r = m" "2 * L = M" "q + r = p"
  shows "\<exists>t. write_loop (Some serialize_vector_write) s k r n = write_loop (Some serialize_vector_write) t L L m
    \<and> vector_state t M L (a @ take p b) (drop p b)"
proof -
  have "length (a @ take q b) = k" "length (drop q b) = n" "L - k = r" using assms by auto
  moreover have "take q b @ take r (drop q b) = take p b" "drop r (drop q b) = drop p b"
    using assms by (auto simp: add.commute simp flip: take_add)
  ultimately show ?thesis
    using vector_loop_double [OF assms(1)] assms(5-9) by (metis append.assoc less_add_same_cancel1)
qed

text \<open>
  C37: A large piece that has to wait in the overflow vector is not safe: when the next piece does not
  fit behind it either, what was copied to the buffer since the last call of the data function is
  overwritten. The three pieces are those of a vector of 128 numbers of 64 bits: the length and
  two chunks.
\<close>

theorem vector_stream_loses:
  assumes "length a = 4" "length b = 512" "length c = 512"
  shows "after (write_all (Some serialize_vector_write) [a, b, c]) (\<lambda>_. serialize_close_vector) (serialize_open_vector [])
    = Some (Done (a @ take 508 b @ c), serialize_open_data [])"
proof -
  let ?f = "Some serialize_vector_write"
  have ne: "a \<noteq> []" "b \<noteq> []" "c \<noteq> []" using assms by auto
  obtain s1 where 1: "serialize_get ?f a (serialize_open_vector []) = Some (Done (), s1)" "vector_state s1 64 4 a []"
    by (rule vector_put_first [OF ne(1)]) (simp_all add: assms(1))
  obtain s2 where 2: "serialize_get ?f b s1 = Some (Done (), s2)" "vector_state s2 64 4 a b"
    by (rule vector_put_overflow [OF 1(2), of b]) (simp_all add: assms(1,2))
  have 0: "vector_state s2 64 4 (a @ take 0 b) (drop 0 b)" using 2(2) by simp
  obtain t1 where t1: "write_loop ?f s2 4 60 512 = write_loop ?f t1 64 64 452" "vector_state t1 128 64 (a @ take 60 b) (drop 60 b)"
    using vector_loop_double_split [OF 0, of 4 512 60 452 128 60] assms(1,2) by auto
  obtain t2 where t2: "write_loop ?f t1 64 64 452 = write_loop ?f t2 128 128 388" "vector_state t2 256 128 (a @ take 124 b) (drop 124 b)"
    using vector_loop_double_split [OF t1(2), of 64 452 64 388 256 124] assms(1,2) by auto
  obtain t3 where t3: "write_loop ?f t2 128 128 388 = write_loop ?f t3 256 256 260" "vector_state t3 512 256 (a @ take 252 b) (drop 252 b)"
    using vector_loop_double_split [OF t2(2), of 128 388 128 260 512 252] assms(1,2) by auto
  obtain t4 where t4: "write_loop ?f t3 256 256 260 = write_loop ?f t4 512 512 4" "vector_state t4 1024 512 (a @ take 508 b) (drop 508 b)"
    using vector_loop_double_split [OF t3(2), of 256 260 256 4 1024 508] assms(1,2) by auto
  have ne': "drop 508 b \<noteq> []" and len: "length (a @ take 508 b) = 512" "length (drop 508 b) = 4"
    using assms(1,2) by simp_all
  obtain t5 where t5: "write_loop ?f t4 512 512 4 = Some (Done (516, 508, 0), t5)"
      "vector_state t5 1024 512 ((a @ take 508 b) @ drop 508 b) []"
    by (rule vector_loop_room [OF t4(2) _ ne']) (simp_all only: len, simp_all)
  have "write_loop ?f s2 4 (64 - 4) (length b) = Some (Done (516, 508, 0), t5)"
    using t1(1) t2(1) t3(1) t4(1) t5(1) assms(2) by simp
  from vector_put_flushing [OF 2(2) assms(1) ne(2,3) this vector_state_shorter [OF t5(2)]]
  obtain s3 where 3: "serialize_get ?f c s2 = Some (Done (), s3)" "vector_state s3 1024 512 (a @ take 508 b) c"
    using assms(3) by auto
  have "serialize_close_vector s3 = Some (Done ((a @ take 508 b) @ c), serialize_open_data [])"
    using vector_close_exact [OF 3(2) len(1)] ne(3) assms(3) by simp
  with 1(1) 2(1) 3(1) show ?thesis by (simp add: after_def result_def)
qed

theorem vector_stream_loses_witness:
  "after (write_all (Some serialize_vector_write) [replicate 4 1, replicate 512 2, replicate 512 3])
     (\<lambda>_. serialize_close_vector) (serialize_open_vector [])
    = Some (Done (replicate 4 1 @ replicate 508 2 @ replicate 512 3), serialize_open_data [])"
proof -
  have "min 508 512 = (508 :: nat)" by simp
  then show ?thesis
    using vector_stream_loses [of "replicate 4 1" "replicate 512 2" "replicate 512 3"]
    by (simp only: length_replicate take_replicate)
qed

section \<open>Reading a file\<close>

fun read_all :: "'io data_function option \<Rightarrow> nat list \<Rightarrow> ('io, u8 list list) stm" where
  "read_all data_function [] = result []"
| "read_all data_function (n # ns) =
     after (unserialize_get data_function n) (\<lambda>bs. after (read_all data_function ns) (\<lambda>rs. result (bs # rs)))"

context byte_source
begin

lemma reads_all: "\<forall>p \<in> set ps. fits (length p) \<Longrightarrow> reads unread ok (read_all data_function (map length ps)) (concat ps) ps"
proof (induction ps)
  case (Cons p ps)
  then have "reads unread ok (after (read_all data_function (map length ps)) (\<lambda>rs. result (p # rs))) (concat ps @ []) (p # ps)"
    by (intro reads_after [OF Cons.IH] reads_result) simp
  then show ?case using Cons.prems reads_after [OF reads_get [of p]] by simp
qed (simp add: reads_result)

end

lemma file_open_readable:
  "file_readable remaining (unserialize_open_unix_file_descriptor fd)"
  "file_unread remaining (unserialize_open_unix_file_descriptor fd) = remaining fd"
  by (simp_all add: file_readable_def file_unread_def unserialize_open_unix_file_descriptor_def)

text \<open>
  C15: A regular file read in pieces of at most 2048 bytes gives its bytes in order and complete,
  whatever the pieces and wherever the buffer of 4096 bytes has to be refilled.
\<close>

theorem file_stream_reads:
  assumes "reads_fully read remaining" "remaining fd = concat ps @ rest" "\<forall>p \<in> set ps. length p \<le> 2048"
  shows "\<exists>t. read_all (Some (unix_file_read read)) (map length ps) (unserialize_open_unix_file_descriptor fd) = Some (Done ps, t)
    \<and> file_unread remaining t = rest"
proof -
  have "reads (file_unread remaining) (file_readable remaining) (read_all (Some (unix_file_read read)) (map length ps)) (concat ps) ps"
    by (rule byte_source.reads_all [OF file_source [OF assms(1)] assms(3)])
  moreover have "file_unread remaining (unserialize_open_unix_file_descriptor fd) = concat ps @ rest"
    by (simp add: file_open_readable assms(2))
  ultimately show ?thesis
    using file_open_readable(1) [of remaining fd] by (blast elim: readsE)
qed

theorem file_stream_reads_witness:
  "\<exists>t. read_all (Some (unix_file_read (\<lambda>f n. (Bytes (take n f), drop n f)))) [2, 0, 1]
     (unserialize_open_unix_file_descriptor [7, 8, 9, 10]) = Some (Done [[7, 8], [], [9]], t) \<and> file_unread id t = [10]"
  using file_stream_reads [of "\<lambda>f n. (Bytes (take n f), drop n f)" id "[7, 8, 9, 10]" "[[7, 8], [], [9]]" "[10]"]
  by (simp add: reads_fully_def numeral_2_eq_2)

text \<open>A source that gives at most three bytes at a time, as a pipe may.\<close>

definition three_at_a_time :: "u8 list \<Rightarrow> nat \<Rightarrow> read_result \<times> u8 list" where
  "three_at_a_time f n = (Bytes (take (min 3 n) f), drop (min 3 n) f)"


section \<open>Nested calls\<close>

text \<open>
  An error inside nested calls of \<open>serialize\<close> is returned by the outermost one, which takes back
  one level of recursion only. From then on every call takes itself for a nested one and jumps to
  a frame that is gone.
\<close>

theorem nested_error_keeps_level:
  assumes "recursion_level s = 0"
  shows "\<exists>t. va_serialize (va_serialize (serialize_error e)) s = Some (Done (Inl e), t)
    \<and> recursion_level t = 1
    \<and> (\<exists>u. va_serialize (serialize_error e') t = Some (Longjmp e', u))"
  using assms by (simp add: va_serialize_def serialize_error_def)

theorem nested_error_keeps_level_witness:
  "\<exists>t. va_serialize (va_serialize (serialize_error SERIALIZE_END_OF_STREAM_ERROR)) (serialize_open_data [])
       = Some (Done (Inl SERIALIZE_END_OF_STREAM_ERROR :: serialize_error + serialize_error + unit), t)
    \<and> recursion_level t = 1
    \<and> (\<exists>u. va_serialize (serialize_error SERIALIZE_END_OF_STREAM_ERROR) t
           = Some (Longjmp SERIALIZE_END_OF_STREAM_ERROR :: (serialize_error + unit) outcome, u))"
  by (rule nested_error_keeps_level) (simp add: serialize_open_data_def)

end
