(* ===== verification/Clib_Byte_Order.thy ===== *)
theory Clib_Byte_Order
  imports Clib_Prelude
begin

text \<open>
  Byte order (\<open>src/clib/byte_order.h\<close>) on a little endian host: the byte swaps, the conversions
  to network order and the loads and stores of words in memory they are used with. Memory is a
  list of bytes; \<open>bytes_of\<close> of the prelude is what a store writes, \<open>word_of\<close> what a load reads.
\<close>

definition word_of :: "u8 list \<Rightarrow> 'a::len word" where
  "word_of bs = foldr (\<lambda>b w. ucast b OR push_bit 8 w) bs 0"

definition clib_byte_swap_u16 :: "u16 \<Rightarrow> u16" where
  "clib_byte_swap_u16 x = (drop_bit 8 x) OR (push_bit 8 x)"

definition clib_byte_swap_u32 :: "u32 \<Rightarrow> u32" where
  "clib_byte_swap_u32 x =
     push_bit 24 x OR push_bit 8 (x AND 0xff00) OR (drop_bit 8 x AND 0xff00) OR drop_bit 24 x"

definition swap_byte_u64 :: "u64 \<Rightarrow> nat \<Rightarrow> nat \<Rightarrow> u64" where
  "swap_byte_u64 x n i = push_bit (8 * (n - i - 1)) (drop_bit (8 * i) x AND 0xff)"

definition clib_byte_swap_u64 :: "u64 \<Rightarrow> u64" where
  "clib_byte_swap_u64 x =
     swap_byte_u64 x 8 0 OR swap_byte_u64 x 8 1 OR swap_byte_u64 x 8 2 OR swap_byte_u64 x 8 3
     OR swap_byte_u64 x 8 4 OR swap_byte_u64 x 8 5 OR swap_byte_u64 x 8 6 OR swap_byte_u64 x 8 7"

definition clib_host_to_net_u16 :: "u16 \<Rightarrow> u16" where
  "clib_host_to_net_u16 x = clib_byte_swap_u16 x"

definition clib_host_to_net_u32 :: "u32 \<Rightarrow> u32" where
  "clib_host_to_net_u32 x = clib_byte_swap_u32 x"

definition clib_host_to_net_u64 :: "u64 \<Rightarrow> u64" where
  "clib_host_to_net_u64 x = clib_byte_swap_u64 x"

definition clib_net_to_host_u16 :: "u16 \<Rightarrow> u16" where
  "clib_net_to_host_u16 x = clib_host_to_net_u16 x"

definition clib_net_to_host_u32 :: "u32 \<Rightarrow> u32" where
  "clib_net_to_host_u32 x = clib_host_to_net_u32 x"

definition clib_net_to_host_u64 :: "u64 \<Rightarrow> u64" where
  "clib_net_to_host_u64 x = clib_host_to_net_u64 x"

lemmas byte_order_defs = clib_host_to_net_u16_def clib_host_to_net_u32_def clib_host_to_net_u64_def
  clib_net_to_host_u16_def clib_net_to_host_u32_def clib_net_to_host_u64_def

section \<open>Loads and stores\<close>

lemma word_of_simps [simp]:
  "word_of [] = 0" "word_of (b # bs) = (ucast b OR push_bit 8 (word_of bs) :: 'a::len word)"
  by (simp_all add: word_of_def)

lemma bit_word_of: "bit (word_of bs :: 'a::len word) i \<longleftrightarrow> i < LENGTH('a) \<and> i div 8 < length bs \<and> bit (bs ! (i div 8)) (i mod 8)"
proof (induction bs arbitrary: i)
  case (Cons b bs)
  show ?case
  proof (cases "i < 8")
    case True
    then show ?thesis by (auto simp: bit_simps div_eq_0_iff)
  next
    case False
    then obtain k where "i = k + 8" by (metis add.commute le_Suc_ex not_less)
    then show ?thesis using Cons.IH [of k] by (auto simp: bit_simps div_add_self2 dest: bit_imp_le_length)
  qed
qed simp

lemma nth_bytes_of: "i < n \<Longrightarrow> bytes_of n w ! i = ucast (drop_bit (8 * i) w)"
  by (simp add: bytes_of_def)

lemma word_of_bytes_of: "LENGTH('a) \<le> 8 * n \<Longrightarrow> word_of (bytes_of n w) = (w :: 'a::len word)"
  by (rule bit_word_eqI) (auto simp: bit_word_of nth_bytes_of bit_simps div_less_iff_less_mult)

lemma bytes_of_word_of:
  assumes "8 * length bs \<le> LENGTH('a)"
  shows "bytes_of (length bs) (word_of bs :: 'a::len word) = bs"
proof (rule nth_equalityI, goal_cases)
  case (2 i)
  then have "8 * i + k < LENGTH('a)" if "k < 8" for k using assms that by simp
  with 2 show ?case
    by (intro bit_word_eqI) (auto simp: nth_bytes_of bit_simps bit_word_of)
qed simp

lemma bytes_of_Suc: "bytes_of (Suc n) w = ucast w # bytes_of n (drop_bit 8 w)"
  by (simp add: bytes_of_def upt_conv_Cons ac_simps del: upt_Suc map_append flip: map_Suc_upt)

section \<open>Byte swaps\<close>

lemma low_masks:
  "(0xff00 :: u32) = push_bit 8 (mask 8)" "(0xff :: u64) = mask 8"
  by (simp_all add: mask_eq_exp_minus_1)

lemma bytes_of_reversed:
  assumes "\<And>i k. i < n \<Longrightarrow> k < 8 \<Longrightarrow> bit y (8 * i + k) \<longleftrightarrow> bit x (8 * (n - 1 - i) + k)"
  shows "bytes_of n y = rev (bytes_of n x)"
proof (rule nth_equalityI, goal_cases)
  case (2 i)
  show ?case
  proof (rule bit_word_eqI)
    fix k assume "k < LENGTH(8)"
    with 2 assms [of i k] show "bit (bytes_of n y ! i) k = bit (rev (bytes_of n x) ! i) k"
      by (simp add: rev_nth nth_bytes_of bit_simps ac_simps)
  qed
qed simp

lemma bit_swap_byte:
  "bit (swap_byte_u64 x 8 j) (8 * i + k) \<longleftrightarrow> i + j = 7 \<and> bit x (8 * j + k)"
  if "i < 8" "k < 8" "j < 8"
proof (cases "i + j = 7")
  case True
  then have "i = 7 - j" by simp
  with that show ?thesis by (simp add: swap_byte_u64_def low_masks bit_simps)
next
  case False
  then have "8 * (7 - j) + 8 \<le> 8 * i + k \<or> 8 * i + k < 8 * (7 - j)" using that by linarith
  with False that show ?thesis by (auto simp: swap_byte_u64_def low_masks bit_simps)
qed

lemma bit_swap_u32:
  assumes "i < 4" "k < 8"
  shows "bit (clib_byte_swap_u32 x) (8 * i + k) \<longleftrightarrow> bit x (8 * (3 - i) + k)"
proof -
  consider "i = 0" | "i = 1" | "i = 2" | "i = 3" using assms(1) by linarith
  then show ?thesis
    using assms bit_imp_le_length [of x "32 + k"] bit_imp_le_length [of x "40 + k"] bit_imp_le_length [of x "48 + k"]
    by cases (auto simp: clib_byte_swap_u32_def low_masks bit_simps)
qed

lemma bit_swap_u64:
  assumes "i < 8" "k < 8"
  shows "bit (clib_byte_swap_u64 x) (8 * i + k) \<longleftrightarrow> bit x (8 * (7 - i) + k)"
proof -
  consider "i = 0" | "i = 1" | "i = 2" | "i = 3" | "i = 4" | "i = 5" | "i = 6" | "i = 7"
    using assms(1) by linarith
  moreover have "bit (clib_byte_swap_u64 x) (8 * i + k) \<longleftrightarrow>
      (\<exists>j \<in> {0, 1, 2, 3, 4, 5, 6, 7}. i + j = 7 \<and> bit x (8 * j + k))"
    by (simp add: clib_byte_swap_u64_def bit_or_iff bit_swap_byte [OF assms])
  ultimately show ?thesis by cases simp_all
qed

lemma bit_swap_u16:
  assumes "i < 2" "k < 8"
  shows "bit (clib_byte_swap_u16 x) (8 * i + k) \<longleftrightarrow> bit x (8 * (1 - i) + k)"
proof -
  consider "i = 0" | "i = 1" using assms(1) by linarith
  then show ?thesis
    using assms bit_imp_le_length [of x "16 + k"] by cases (auto simp: clib_byte_swap_u16_def bit_simps)
qed

lemma bytes_of_swap:
  "bytes_of 2 (clib_byte_swap_u16 h) = rev (bytes_of 2 h)"
  "bytes_of 4 (clib_byte_swap_u32 w) = rev (bytes_of 4 w)"
  "bytes_of 8 (clib_byte_swap_u64 x) = rev (bytes_of 8 x)"
  by (rule bytes_of_reversed, simp add: bit_swap_u16 bit_swap_u32 bit_swap_u64)+

lemma swap_eq_word_of:
  "clib_byte_swap_u16 h = word_of (rev (bytes_of 2 h))"
  "clib_byte_swap_u32 w = word_of (rev (bytes_of 4 w))"
  "clib_byte_swap_u64 x = word_of (rev (bytes_of 8 x))"
  by (simp_all flip: bytes_of_swap add: word_of_bytes_of)

lemma swap_word_of:
  "length bs = 2 \<Longrightarrow> clib_byte_swap_u16 (word_of bs) = word_of (rev bs)"
  "length bs = 4 \<Longrightarrow> clib_byte_swap_u32 (word_of bs) = word_of (rev bs)"
  "length bs = 8 \<Longrightarrow> clib_byte_swap_u64 (word_of bs) = word_of (rev bs)"
  using bytes_of_word_of [of bs, where 'a = 16] bytes_of_word_of [of bs, where 'a = 32]
    bytes_of_word_of [of bs, where 'a = 64]
  by (simp_all add: swap_eq_word_of)

text \<open>The round trip through memory in network order.\<close>

lemma net_round_trip:
  "clib_net_to_host_u16 (word_of (bytes_of 2 (clib_host_to_net_u16 h))) = h"
  "clib_net_to_host_u32 (word_of (bytes_of 4 (clib_host_to_net_u32 w))) = w"
  "clib_net_to_host_u64 (word_of (bytes_of 8 (clib_host_to_net_u64 x))) = x"
  by (simp_all add: byte_order_defs bytes_of_swap swap_word_of word_of_bytes_of)

end
