(* ===== verification/Clib_Serialize.thy ===== *)
theory Clib_Serialize
  imports Clib_Stream_Laws Clib_Byte_Order Clib_Pool
begin

text \<open>
  The data formats of \<open>src/clib/serialize.h\<close> and \<open>src/clib/serialize.c\<close> on the streams of
  \<open>Clib_Stream\<close>: numbers, strings, vectors, bitmaps, pools, magic numbers and strided arrays. Every
  function takes the data function of the stream. A function that a vector or a pool is given for its
  elements gets a list of them to write, or the number of elements to read.

  The lemmas come in pairs: the pieces a writer writes, for every sink, and what a reader returns
  from these bytes, for every source. The round trips put them together.
\<close>

section \<open>Numbers\<close>

definition crash :: "('io, 'a) stm" where
  "crash s = Some (Crash, s)"

text \<open>Other sizes than 1, 2, 4 and 8 fail an \<open>ASSERT\<close>.\<close>

definition integer_bytes :: "u64 \<Rightarrow> nat \<Rightarrow> u8 list" where
  "integer_bytes x n =
     (if n = 1 then [ucast x]
      else if n = 2 then bytes_of 2 (clib_host_to_net_u16 (ucast x))
      else if n = 4 then bytes_of 4 (clib_host_to_net_u32 (ucast x))
      else bytes_of 8 (clib_host_to_net_u64 x))"

definition serialize_integer :: "'io data_function option \<Rightarrow> u64 \<Rightarrow> nat \<Rightarrow> ('io, unit) stm" where
  "serialize_integer df x n =
     (if n \<in> {1, 2, 4, 8} then serialize_get df (integer_bytes x n) else crash)"

definition unserialize_integer :: "'io data_function option \<Rightarrow> nat \<Rightarrow> ('io, u64) stm" where
  "unserialize_integer df n =
     after (unserialize_get df n) (\<lambda>p.
       if n = 1 then result (ucast (p ! 0))
       else if n = 2 then result (ucast (clib_net_to_host_u16 (word_of p)))
       else if n = 4 then result (ucast (clib_net_to_host_u32 (word_of p)))
       else if n = 8 then result (clib_net_to_host_u64 (word_of p))
       else crash)"

text \<open>A more compact form for numbers that are likely small.\<close>

definition serialize_likely_small_unsigned_integer :: "'io data_function option \<Rightarrow> u64 \<Rightarrow> ('io, unit) stm" where
  "serialize_likely_small_unsigned_integer df x =
     (if x < 2 ^ 7 then serialize_get df [ucast (1 + 2 * x)]
      else let r = x - 2 ^ 7
           in if r < 2 ^ 14 then serialize_get df (bytes_of 2 (ucast (4 * r + 2) :: u16))
              else let r = r - 2 ^ 14
                   in if r < 2 ^ 29 then serialize_get df (bytes_of 4 (ucast (8 * r + 4) :: u32))
                      else serialize_get df (0 # bytes_of 8 x))"

definition unserialize_likely_small_unsigned_integer :: "'io data_function option \<Rightarrow> ('io, u64) stm" where
  "unserialize_likely_small_unsigned_integer df =
     after (unserialize_get df 1) (\<lambda>p.
       let y = ucast (p ! 0) :: u32
       in if y AND 1 \<noteq> 0 then result (ucast (y div 2))
          else if y AND 2 \<noteq> 0
          then after (unserialize_get df 1) (\<lambda>p.
                 result (2 ^ 7 + ucast (y div 4 + push_bit 6 (ucast (p ! 0)))))
          else if y AND 4 \<noteq> 0
          then after (unserialize_get df 3) (\<lambda>p.
                 result (2 ^ 7 + 2 ^ 14
                   + ucast (y div 8 + push_bit (5 + 8 * 0) (ucast (p ! 0)) + push_bit (5 + 8 * 1) (ucast (p ! 1))
                            + push_bit (5 + 8 * 2) (ucast (p ! 2)))))
          else after (unserialize_get df 8) (\<lambda>p. result (word_of p)))"

definition serialize_likely_small_signed_integer :: "'io data_function option \<Rightarrow> i64 \<Rightarrow> ('io, unit) stm" where
  "serialize_likely_small_signed_integer df s =
     serialize_likely_small_unsigned_integer df (if sint s < 0 then - (2 * s + 1) else 2 * s)"

definition unserialize_likely_small_signed_integer :: "'io data_function option \<Rightarrow> ('io, i64) stm" where
  "unserialize_likely_small_signed_integer df =
     after (unserialize_likely_small_unsigned_integer df) (\<lambda>u.
       let s = drop_bit 1 u in result (if u AND 1 \<noteq> 0 then - s else s))"

text \<open>The fixed sizes; \<open>serialize_64\<close> writes the low half first.\<close>

definition serialize_64 :: "'io data_function option \<Rightarrow> u64 \<Rightarrow> ('io, unit) stm" where
  "serialize_64 df x =
     (let lo = ucast x :: u32; hi = ucast (drop_bit 32 x) :: u32
      in after (serialize_integer df (ucast lo) 4) (\<lambda>_. serialize_integer df (ucast hi) 4))"

definition unserialize_64 :: "'io data_function option \<Rightarrow> ('io, u64) stm" where
  "unserialize_64 df =
     after (unserialize_integer df 4) (\<lambda>lo. after (unserialize_integer df 4) (\<lambda>hi.
       result (push_bit 32 hi OR lo)))"

definition serialize_32 :: "'io data_function option \<Rightarrow> u32 \<Rightarrow> ('io, unit) stm" where
  "serialize_32 df x = serialize_integer df (ucast x) 4"

definition serialize_16 :: "'io data_function option \<Rightarrow> u32 \<Rightarrow> ('io, unit) stm" where
  "serialize_16 df x = serialize_integer df (ucast x) 2"

definition serialize_8 :: "'io data_function option \<Rightarrow> u32 \<Rightarrow> ('io, unit) stm" where
  "serialize_8 df x = serialize_integer df (ucast x) 1"

definition unserialize_32 :: "'io data_function option \<Rightarrow> ('io, u32) stm" where
  "unserialize_32 df = after (unserialize_integer df 4) (\<lambda>x. result (ucast x))"

definition unserialize_16 :: "'io data_function option \<Rightarrow> ('io, u16) stm" where
  "unserialize_16 df = after (unserialize_integer df 2) (\<lambda>x. result (ucast x))"

definition unserialize_8 :: "'io data_function option \<Rightarrow> ('io, u8) stm" where
  "unserialize_8 df = after (unserialize_integer df 1) (\<lambda>x. result (ucast x))"

section \<open>Strings and vectors of numbers\<close>

definition serialize_cstring :: "'io data_function option \<Rightarrow> u8 list option \<Rightarrow> ('io, unit) stm" where
  "serialize_cstring df s =
     (let len = (case s of None \<Rightarrow> 0 | Some cs \<Rightarrow> of_nat (length cs)) :: u32
      in after (serialize_likely_small_unsigned_integer df (ucast len)) (\<lambda>_.
           if 0 < len then serialize_get df (take (unat len) (the s)) else result ()))"

definition unserialize_cstring :: "'io data_function option \<Rightarrow> ('io, u8 list option) stm" where
  "unserialize_cstring df =
     after (unserialize_likely_small_unsigned_integer df) (\<lambda>n.
       let len = ucast n :: u32
       in if 0 < len
          then after (unserialize_get df (unat len)) (\<lambda>p. result (Some (p @ [0])))
          else result None)"

text \<open>The copying loops of the vector functions do four elements per turn, then one.\<close>

fun by_four :: "('a \<Rightarrow> 'b) \<Rightarrow> 'a list \<Rightarrow> 'b list" where
  "by_four f (a # b # c # d # xs) = f a # f b # f c # f d # by_four f xs"
| "by_four f (x # xs) = f x # by_four f xs"
| "by_four f [] = []"

definition words_at :: "nat \<Rightarrow> nat \<Rightarrow> u8 list \<Rightarrow> 'a::len word list" where
  "words_at w n p = map (\<lambda>i. word_of (take w (drop (w * i) p))) [0..<n]"

definition serialize_vec_8 :: "'io data_function option \<Rightarrow> u8 list \<Rightarrow> ('io, unit) stm" where
  "serialize_vec_8 df xs = serialize_get df xs"

definition unserialize_vec_8 :: "'io data_function option \<Rightarrow> nat \<Rightarrow> ('io, u8 list) stm" where
  "unserialize_vec_8 df n = unserialize_get df n"

definition serialize_vec_16 :: "'io data_function option \<Rightarrow> u16 list \<Rightarrow> ('io, unit) stm" where
  "serialize_vec_16 df xs = serialize_get df (concat (map (bytes_of 2) (by_four clib_host_to_net_u16 xs)))"

definition unserialize_vec_16 :: "'io data_function option \<Rightarrow> nat \<Rightarrow> ('io, u16 list) stm" where
  "unserialize_vec_16 df n =
     after (unserialize_get df (n * 2)) (\<lambda>p. result (by_four clib_net_to_host_u16 (words_at 2 n p)))"

definition serialize_vec_32 :: "'io data_function option \<Rightarrow> u32 list \<Rightarrow> ('io, unit) stm" where
  "serialize_vec_32 df xs = serialize_get df (concat (map (bytes_of 4) (by_four clib_host_to_net_u32 xs)))"

definition unserialize_vec_32 :: "'io data_function option \<Rightarrow> nat \<Rightarrow> ('io, u32 list) stm" where
  "unserialize_vec_32 df n =
     after (unserialize_get df (n * 4)) (\<lambda>p. result (by_four clib_net_to_host_u32 (words_at 4 n p)))"

definition serialize_vec_64 :: "'io data_function option \<Rightarrow> u64 list \<Rightarrow> ('io, unit) stm" where
  "serialize_vec_64 df xs = serialize_get df (concat (map (bytes_of 8) (by_four clib_host_to_net_u64 xs)))"

definition unserialize_vec_64 :: "'io data_function option \<Rightarrow> nat \<Rightarrow> ('io, u64 list) stm" where
  "unserialize_vec_64 df n =
     after (unserialize_get df (n * 8)) (\<lambda>p. result (by_four clib_net_to_host_u64 (words_at 8 n p)))"

section \<open>Vectors of any elements\<close>

text \<open>
  Elements go through \<open>serialize\<close>. These calls are nested, and a nested call does not return an
  error: it jumps to the outermost one.
\<close>

definition nested :: "('io, 'a) stm \<Rightarrow> ('io, 'a) stm" where
  "nested p = after (va_serialize p) (\<lambda>r. case r of Inl e \<Rightarrow> crash | Inr x \<Rightarrow> result x)"

text \<open>Floating point numbers go as the bits of their representation, which stand for them here.\<close>

definition serialize_f64 :: "'io data_function option \<Rightarrow> u64 \<Rightarrow> ('io, unit) stm" where
  "serialize_f64 df x = nested (serialize_64 df x)"

definition serialize_f32 :: "'io data_function option \<Rightarrow> u32 \<Rightarrow> ('io, unit) stm" where
  "serialize_f32 df x = serialize_integer df (ucast x) 4"

definition unserialize_f64 :: "'io data_function option \<Rightarrow> ('io, u64) stm" where
  "unserialize_f64 df = nested (unserialize_64 df)"

definition unserialize_f32 :: "'io data_function option \<Rightarrow> ('io, u32) stm" where
  "unserialize_f32 df = after (unserialize_integer df 4) (\<lambda>x. result (ucast x))"

definition SERIALIZE_VECTOR_CHUNK_SIZE :: nat where
  "SERIALIZE_VECTOR_CHUNK_SIZE = 64"

function serialize_chunks :: "('a list \<Rightarrow> ('io, unit) stm) \<Rightarrow> 'a list \<Rightarrow> ('io, unit) stm" where
  "serialize_chunks f xs =
     (if xs = [] then result ()
      else let n = min SERIALIZE_VECTOR_CHUNK_SIZE (length xs)
           in after (nested (f (take n xs))) (\<lambda>_. serialize_chunks f (drop n xs)))"
  by pat_completeness auto
termination
  by (relation "measure (\<lambda>(f, xs). length xs)") (auto simp: SERIALIZE_VECTOR_CHUNK_SIZE_def)

declare serialize_chunks.simps [simp del]

definition serialize_vector :: "'io data_function option \<Rightarrow> ('a list \<Rightarrow> ('io, unit) stm) \<Rightarrow> 'a list \<Rightarrow> ('io, unit) stm" where
  "serialize_vector df f xs =
     after (serialize_integer df (of_nat (length xs)) 4) (\<lambda>_. serialize_chunks f xs)"

function unserialize_chunks :: "(nat \<Rightarrow> ('io, 'a list) stm) \<Rightarrow> nat \<Rightarrow> ('io, 'a list) stm" where
  "unserialize_chunks f l =
     (if l = 0 then result []
      else let n = min SERIALIZE_VECTOR_CHUNK_SIZE l
           in after (nested (f n)) (\<lambda>xs. after (unserialize_chunks f (l - n)) (\<lambda>ys. result (xs @ ys))))"
  by pat_completeness auto
termination
  by (relation "measure (\<lambda>(f, l). l)") (auto simp: SERIALIZE_VECTOR_CHUNK_SIZE_def)

declare unserialize_chunks.simps [simp del]

definition unserialize_vector_ha ::
  "'io data_function option \<Rightarrow> u64 \<Rightarrow> (nat \<Rightarrow> ('io, 'a list) stm) \<Rightarrow> ('io, 'a list) stm" where
  "unserialize_vector_ha df max_length f =
     after (unserialize_integer df 4) (\<lambda>l.
       if max_length < l then serialize_error (Clib_error ''bad vector length'')
       else unserialize_chunks f (unat l))"

definition unserialize_vector :: "'io data_function option \<Rightarrow> (nat \<Rightarrow> ('io, 'a list) stm) \<Rightarrow> ('io, 'a list) stm" where
  "unserialize_vector df f = unserialize_vector_ha df (2 ^ 32 - 1) f"

section \<open>The small numbers\<close>

lemma and_exp_u32:
  "(y :: u32) AND 1 \<noteq> 0 \<longleftrightarrow> odd (unat y)"
  "y AND 2 \<noteq> 0 \<longleftrightarrow> odd (unat y div 2)"
  "y AND 4 \<noteq> 0 \<longleftrightarrow> odd (unat y div 4)"
  using and_exp_eq_0_iff_not_bit [of y 0] and_exp_eq_0_iff_not_bit [of y 1] and_exp_eq_0_iff_not_bit [of y 2]
    bit_unsigned_iff [of y 0, where 'a = nat] bit_unsigned_iff [of y 1, where 'a = nat] bit_unsigned_iff [of y 2, where 'a = nat]
  by (simp_all add: bit_iff_odd)

lemma unat_byte: "i < n \<Longrightarrow> unat (bytes_of n w ! i) = unat w div 2 ^ (8 * i) mod 256"
  by (simp only: nth_bytes_of unsigned_ucast_eq unat_drop_bit_eq) (simp add: take_bit_eq_mod drop_bit_eq_div)

definition small_bytes :: "u64 \<Rightarrow> u8 list" where
  "small_bytes x =
     (if x < 2 ^ 7 then [ucast (1 + 2 * x)]
      else if x < 2 ^ 7 + 2 ^ 14 then bytes_of 2 (ucast (4 * (x - 2 ^ 7) + 2) :: u16)
      else if x < 2 ^ 7 + 2 ^ 14 + 2 ^ 29 then bytes_of 4 (ucast (8 * (x - 2 ^ 7 - 2 ^ 14) + 4) :: u32)
      else 0 # bytes_of 8 x)"

lemma small_bytes_size: "length (small_bytes x) \<le> 9"
  by (simp add: small_bytes_def)

lemma small_ranges:
  "\<not> x < 2 ^ 7 \<Longrightarrow> x - 2 ^ 7 < 2 ^ 14 \<longleftrightarrow> x < 2 ^ 7 + 2 ^ 14"
  "\<not> x < 2 ^ 7 \<Longrightarrow> \<not> x < 2 ^ 7 + 2 ^ 14 \<Longrightarrow> x - 2 ^ 7 - 2 ^ 14 < 2 ^ 29 \<longleftrightarrow> x < 2 ^ 7 + 2 ^ 14 + 2 ^ 29" for x :: u64
  by (simp_all add: word_less_nat_alt unat_sub word_le_nat_alt) linarith+

context byte_sink
begin

lemma writes_small: "writes contents may (serialize_likely_small_unsigned_integer data_function x) [small_bytes x]"
  unfolding serialize_likely_small_unsigned_integer_def small_bytes_def Let_def
  using small_ranges [of x] by (auto intro: writes_get)

end

text \<open>What the reader computes from the bytes.\<close>

lemma small_1:
  assumes "x < (2 ^ 7 :: u64)"
  shows "unat (ucast (ucast (1 + 2 * x) :: u8) :: u32) = 1 + 2 * unat x"
  using assms
  by (simp add: unsigned_ucast_eq take_bit_eq_mod unat_word_ariths word_less_nat_alt)

lemma small_2:
  assumes "\<not> x < (2 ^ 7 :: u64)" "x < 2 ^ 7 + 2 ^ 14"
  shows "unat (ucast (4 * (x - 2 ^ 7) + 2) :: u16) = 4 * (unat x - 2 ^ 7) + 2"
  using assms
  by (simp add: unsigned_ucast_eq take_bit_eq_mod unat_word_ariths word_less_nat_alt unat_sub word_le_nat_alt)

lemma small_4:
  assumes "\<not> x < (2 ^ 7 + 2 ^ 14 :: u64)" "x < 2 ^ 7 + 2 ^ 14 + 2 ^ 29"
  shows "unat (ucast (8 * (x - 2 ^ 7 - 2 ^ 14) + 4) :: u32) = 8 * (unat x - 2 ^ 7 - 2 ^ 14) + 4"
  using assms
  by (simp add: unsigned_ucast_eq take_bit_eq_mod unat_word_ariths word_less_nat_alt unat_sub word_le_nat_alt)

lemma unat_first_byte: "0 < n \<Longrightarrow> unat (ucast (bytes_of n w ! 0) :: u32) = unat w mod 256"
  by (simp add: unsigned_ucast_eq take_bit_eq_mod unat_byte del: mod_mod_trivial)

lemma bytes_of_2: "bytes_of 2 w = [bytes_of 2 w ! 0, bytes_of 2 w ! 1]"
  by (rule nth_equalityI) (auto simp: less_Suc_eq numeral_2_eq_2)

lemma bytes_of_4: "bytes_of 4 w = [bytes_of 4 w ! 0, bytes_of 4 w ! 1, bytes_of 4 w ! 2, bytes_of 4 w ! 3]"
  by (rule nth_equalityI) (auto simp: less_Suc_eq eval_nat_numeral)

lemma push_byte_u32:
  assumes "k \<le> 24"
  shows "unat (push_bit k (ucast (b :: u8) :: u32)) = 2 ^ k * unat b"
proof -
  have "(2 :: nat) ^ k \<le> 2 ^ 24" using assms by (rule power_increasing) simp
  moreover have "unat b < 256" using unsigned_less [of b] by simp
  ultimately have "2 ^ k * unat b < 2 ^ 24 * 256" by (rule mult_le_less_imp_less) simp_all
  then have less: "unat b * 2 ^ k < 2 ^ 32" by (simp only: mult.commute [of "unat b"]) simp
  have b: "unat (ucast b :: u32) = unat b"
    using unsigned_less [of b, where 'a = nat] by (simp add: unsigned_ucast_eq take_bit_eq_mod)
  show ?thesis
    using less by (simp only: unsigned_push_bit_eq b) (simp add: push_bit_eq_mult take_bit_eq_mod mult.commute)
qed

lemma split_mod: "c * (m * q + r) + d = (c * m) * q + (c * r + d)" for c :: nat
  by (simp add: algebra_simps)

lemma two_byte_value:
  assumes "unat (w :: u16) = 4 * r + 2"
  shows "unat (ucast (bytes_of 2 w ! 0) :: u32) = 4 * (r mod 64) + 2"
    "unat ((ucast (bytes_of 2 w ! 0) :: u32) div 4 + push_bit 6 (ucast (bytes_of 2 w ! 1))) = r"
proof -
  have w: "unat w < 2 ^ 16" using unsigned_less [of w] by simp
  then have r: "r div 64 < 256" using assms by simp
  have w_eq: "unat w = 256 * (r div 64) + (4 * (r mod 64) + 2)"
    using assms split_mod [of 4 64 "r div 64" "r mod 64" 2] by simp
  have low: "4 * (r mod 64) + 2 < 256" using mod_less_divisor [of 64 r] by linarith
  have b0: "unat w mod 256 = 4 * (r mod 64) + 2" and b1: "unat w div 256 = r div 64"
    unfolding w_eq using low by (simp_all only: mod_mult_self4 mod_less div_mult_self4 div_less)
  show 1: "unat (ucast (bytes_of 2 w ! 0) :: u32) = 4 * (r mod 64) + 2"
    using unat_first_byte [of 2 w] b0 by simp
  have "unat (bytes_of 2 w ! 1) = r div 64"
    using unat_byte [of 1 2 w] b1 r by simp
  then have 2: "unat (push_bit 6 (ucast (bytes_of 2 w ! 1) :: u32)) = 64 * (r div 64)"
    by (subst push_byte_u32) simp_all
  have 3: "(4 * (r mod 64) + 2) div 4 = r mod 64" by simp
  have "r mod 64 + 64 * (r div 64) < 2 ^ 32" using r mod_less_divisor [of 64 r] by simp
  then show "unat ((ucast (bytes_of 2 w ! 0) :: u32) div 4 + push_bit 6 (ucast (bytes_of 2 w ! 1))) = r"
    by (simp only: unat_word_ariths 2 unat_div 1 unat_numeral) (simp add: 3 del: add_2_eq_Suc')
qed

lemma three_digits: "(q :: nat) mod 256 + 256 * (q div 256 mod 256) + 65536 * (q div 65536) = q"
proof -
  have "q div 65536 = q div 256 div 256" by (simp add: div_mult2_eq)
  then have "q div 256 mod 256 + 256 * (q div 65536) = q div 256" using div_mult_mod_eq [of "q div 256" 256] by simp
  then show ?thesis using div_mult_mod_eq [of q 256] by linarith
qed

lemma four_byte_value:
  assumes "unat (w :: u32) = 8 * r + 4"
  shows "unat (ucast (bytes_of 4 w ! 0) :: u32) = 8 * (r mod 32) + 4"
    "unat ((ucast (bytes_of 4 w ! 0) :: u32) div 8 + push_bit (5 + 8 * 0) (ucast (bytes_of 4 w ! 1))
       + push_bit (5 + 8 * 1) (ucast (bytes_of 4 w ! 2)) + push_bit (5 + 8 * 2) (ucast (bytes_of 4 w ! 3))) = r"
proof -
  let ?q = "r div 32"
  have w: "unat w < 2 ^ 32" using unsigned_less [of w] by simp
  then have r: "r < 2 ^ 29" using assms by simp
  have w_eq: "unat w = 256 * ?q + (8 * (r mod 32) + 4)"
    using assms split_mod [of 8 32 ?q "r mod 32" 4] by simp
  have low: "8 * (r mod 32) + 4 < 256" using mod_less_divisor [of 32 r] by linarith
  have b0: "unat w mod 256 = 8 * (r mod 32) + 4" and d: "unat w div 256 = ?q"
    unfolding w_eq using low by (simp_all only: mod_mult_self4 mod_less div_mult_self4 div_less)
  have d2: "unat w div 65536 = ?q div 256" "unat w div 16777216 = ?q div 65536"
    using d div_mult2_eq [of "unat w" 256 256] div_mult2_eq [of "unat w" 256 65536] by simp_all
  have top: "?q div 65536 < 256" using r by simp
  show 1: "unat (ucast (bytes_of 4 w ! 0) :: u32) = 8 * (r mod 32) + 4"
    using unat_first_byte [of 4 w] b0 by simp
  have b: "unat (bytes_of 4 w ! 1) = ?q mod 256" "unat (bytes_of 4 w ! 2) = ?q div 256 mod 256"
    "unat (bytes_of 4 w ! 3) = ?q div 65536"
    using unat_byte [of 1 4 w] unat_byte [of 2 4 w] unat_byte [of 3 4 w] d d2 top by simp_all
  have p: "unat (push_bit (5 + 8 * 0) (ucast (bytes_of 4 w ! 1)) :: u32) = 32 * (?q mod 256)"
    "unat (push_bit (5 + 8 * 1) (ucast (bytes_of 4 w ! 2)) :: u32) = 8192 * (?q div 256 mod 256)"
    "unat (push_bit (5 + 8 * 2) (ucast (bytes_of 4 w ! 3)) :: u32) = 2097152 * (?q div 65536)"
    using push_byte_u32 [of 5 "bytes_of 4 w ! 1"] push_byte_u32 [of 13 "bytes_of 4 w ! 2"]
      push_byte_u32 [of 21 "bytes_of 4 w ! 3"] b by simp_all
  have 3: "(8 * (r mod 32) + 4) div 8 = r mod 32" by simp
  have q: "r mod 32 + 32 * (?q mod 256) + 8192 * (?q div 256 mod 256) + 2097152 * (?q div 65536) = r"
    using three_digits [of ?q] div_mult_mod_eq [of r 32] by linarith
  have low_sums: "r mod 32 + 32 * (?q mod 256) < 4294967296"
    "r mod 32 + 32 * (?q mod 256) + 8192 * (?q div 256 mod 256) < 4294967296"
    using q r by simp_all
  show "unat ((ucast (bytes_of 4 w ! 0) :: u32) div 8 + push_bit (5 + 8 * 0) (ucast (bytes_of 4 w ! 1))
       + push_bit (5 + 8 * 1) (ucast (bytes_of 4 w ! 2)) + push_bit (5 + 8 * 2) (ucast (bytes_of 4 w ! 3))) = r"
    using low_sums q r by (simp only: unat_word_ariths p unat_div 1 unat_numeral) (simp add: 3)
qed

lemma ucast_offset: "c \<le> x \<Longrightarrow> unat v = unat x - unat c \<Longrightarrow> c + ucast (v :: u32) = (x :: u64)"
proof -
  assume c: "c \<le> x" and v: "unat v = unat x - unat c"
  then have "of_nat (unat v) = x - c" by (metis unat_sub word_le_nat_alt of_nat_unat ucast_id)
  then show ?thesis by (simp add: of_nat_unat)
qed

context byte_source
begin

lemma reads_byte:
  "reads unread ok (f [b]) cs x \<Longrightarrow> reads unread ok (after (unserialize_get data_function 1) f) (b # cs) x"
  using reads_after [OF reads_get_n [of "[b]" 1]] fits_numbers by fastforce

lemma reads_rest:
  "length bs = n \<Longrightarrow> n \<le> 8 \<Longrightarrow> f bs = x \<Longrightarrow>
   reads unread ok (after (unserialize_get data_function n) (\<lambda>p. result (f p))) bs x"
  using reads_after [where p = "unserialize_get data_function n" and f = "\<lambda>p. result (f p)" and bs = bs and cs = "[]",
      OF reads_get_n reads_result] fits_numbers by simp

lemma reads_small: "reads unread ok (unserialize_likely_small_unsigned_integer data_function) (small_bytes x) x"
proof -
  consider (one) "x < 2 ^ 7" | (two) "\<not> x < 2 ^ 7" "x < 2 ^ 7 + 2 ^ 14"
    | (four) "\<not> x < 2 ^ 7 + 2 ^ 14" "x < 2 ^ 7 + 2 ^ 14 + 2 ^ 29" | (nine) "\<not> x < 2 ^ 7 + 2 ^ 14 + 2 ^ 29" by blast
  then show ?thesis
  proof cases
    case one
    let ?y = "ucast (ucast (1 + 2 * x) :: u8) :: u32"
    have "?y AND 1 \<noteq> 0" unfolding and_exp_u32 small_1 [OF one] by simp
    moreover have "ucast (?y div 2) = x"
      using ucast_offset [of 0 x "?y div 2"] small_1 [OF one] by (simp add: unat_div)
    ultimately show ?thesis using one
      unfolding unserialize_likely_small_unsigned_integer_def small_bytes_def
      by (simp only: if_True) (rule reads_byte, simp add: Let_def reads_result)
  next
    case two
    let ?w = "ucast (4 * (x - 2 ^ 7) + 2) :: u16"
    let ?y = "ucast (bytes_of 2 ?w ! 0) :: u32"
    note w = two_byte_value [OF small_2 [OF two]]
    have "\<not> ?y AND 1 \<noteq> 0" "?y AND 2 \<noteq> 0" unfolding and_exp_u32 w(1) by simp_all
    moreover have "2 ^ 7 + ucast (?y div 4 + push_bit 6 (ucast (bytes_of 2 ?w ! 1))) = x"
      using two(1) w(2) by (intro ucast_offset) (simp_all add: not_less)
    ultimately have "reads unread ok (unserialize_likely_small_unsigned_integer data_function) [bytes_of 2 ?w ! 0, bytes_of 2 ?w ! 1] x"
      unfolding unserialize_likely_small_unsigned_integer_def
      by (intro reads_byte) (simp only: nth_Cons_0 Let_def if_False if_True simp_thms, intro reads_byte, simp add: reads_result)
    moreover have "small_bytes x = bytes_of 2 ?w" using two by (simp only: small_bytes_def if_True if_False)
    ultimately show ?thesis by (simp only:) (subst bytes_of_2)
  next
    case four
    let ?w = "ucast (8 * (x - 2 ^ 7 - 2 ^ 14) + 4) :: u32"
    let ?y = "ucast (bytes_of 4 ?w ! 0) :: u32"
    note w = four_byte_value [OF small_4 [OF four]]
    have "\<not> ?y AND 1 \<noteq> 0" "\<not> ?y AND 2 \<noteq> 0" "?y AND 4 \<noteq> 0"
      unfolding and_exp_u32 w(1) by (simp_all add: div_add)
    moreover have "2 ^ 7 + 2 ^ 14 + ucast (?y div 8 + push_bit (5 + 8 * 0) (ucast (bytes_of 4 ?w ! 1))
       + push_bit (5 + 8 * 1) (ucast (bytes_of 4 ?w ! 2)) + push_bit (5 + 8 * 2) (ucast (bytes_of 4 ?w ! 3))) = x"
      using four(1) w(2) by (intro ucast_offset) (simp_all add: not_less)
    ultimately have "reads unread ok (unserialize_likely_small_unsigned_integer data_function)
        (bytes_of 4 ?w ! 0 # [bytes_of 4 ?w ! 1, bytes_of 4 ?w ! 2, bytes_of 4 ?w ! 3]) x"
      unfolding unserialize_likely_small_unsigned_integer_def
      by (intro reads_byte) (simp only: nth_Cons_0 Let_def if_False if_True simp_thms, rule reads_rest, simp_all)
    moreover have "\<not> x < 2 ^ 7" using four(1) by (simp add: word_less_nat_alt)
    moreover from this four have "small_bytes x = bytes_of 4 ?w"
      by (simp only: small_bytes_def if_True if_False)
    ultimately show ?thesis by (simp only:) (subst bytes_of_4)
  next
    case nine
    then have "\<not> x < 2 ^ 7" "\<not> x < 2 ^ 7 + 2 ^ 14" by (simp_all add: word_less_nat_alt)
    moreover have "reads unread ok (unserialize_likely_small_unsigned_integer data_function) (0 # bytes_of 8 x) x"
      unfolding unserialize_likely_small_unsigned_integer_def
      by (intro reads_byte) (simp, rule reads_rest, simp_all add: word_of_bytes_of)
    ultimately show ?thesis using nine by (simp add: small_bytes_def)
  qed
qed

end

section \<open>What the writers write\<close>

definition string_pieces :: "u8 list option \<Rightarrow> u8 list list" where
  "string_pieces s =
     (case s of None \<Rightarrow> [small_bytes 0]
      | Some cs \<Rightarrow> small_bytes (of_nat (length cs)) # (if cs = [] then [] else [cs]))"

function chunk_list :: "'a list \<Rightarrow> 'a list list" where
  "chunk_list xs = (if xs = [] then [] else take 64 xs # chunk_list (drop 64 xs))"
  by pat_completeness auto
termination by (relation "measure length") auto

declare chunk_list.simps [simp del]

lemma concat_chunk_list: "concat (chunk_list xs) = xs"
proof (induction xs rule: chunk_list.induct)
  case (1 xs)
  then show ?case by (subst chunk_list.simps) simp
qed

lemma chunk_list_sizes: "ys \<in> set (chunk_list xs) \<Longrightarrow> ys \<noteq> [] \<and> length ys \<le> 64"
proof (induction xs rule: chunk_list.induct)
  case (1 xs)
  then show ?case by (subst (asm) (2) chunk_list.simps) (auto split: if_splits)
qed

definition vector_pieces :: "('a list \<Rightarrow> u8 list list) \<Rightarrow> 'a list \<Rightarrow> u8 list list" where
  "vector_pieces f xs = integer_bytes (of_nat (length xs)) 4 # concat (map f (chunk_list xs))"

lemma by_four_map: "by_four f xs = map f xs"
  by (induction f xs rule: by_four.induct) simp_all

context byte_sink
begin

lemma writes_integer: "n \<in> {1, 2, 4, 8} \<Longrightarrow> writes contents may (serialize_integer data_function x n) [integer_bytes x n]"
  by (simp only: serialize_integer_def if_True writes_get)

lemma writes_64: "writes contents may (serialize_64 data_function x) [integer_bytes (ucast (ucast x :: u32)) 4, integer_bytes (ucast (ucast (drop_bit 32 x) :: u32)) 4]"
  unfolding serialize_64_def Let_def
  using writes_after [OF writes_integer [of 4] writes_integer [of 4]] by fastforce

lemma writes_cstring:
  assumes "case s of None \<Rightarrow> True | Some cs \<Rightarrow> length cs < 2 ^ 32"
  shows "writes contents may (serialize_cstring data_function s) (string_pieces s)"
proof (cases s)
  case None
  then show ?thesis
    using writes_after [OF writes_small [of 0] writes_result] by (simp add: serialize_cstring_def string_pieces_def)
next
  case (Some cs)
  then have len: "unat (of_nat (length cs) :: u32) = length cs" using assms by (simp add: unat_of_nat)
  then have "ucast (of_nat (length cs) :: u32) = (of_nat (length cs) :: u64)" by (metis of_nat_unat)
  moreover have "0 < (of_nat (length cs) :: u32) \<longleftrightarrow> cs \<noteq> []" using len by (simp add: word_less_nat_alt)
  ultimately have "serialize_cstring data_function s =
      after (serialize_likely_small_unsigned_integer data_function (of_nat (length cs))) (\<lambda>_. if cs \<noteq> [] then serialize_get data_function cs else result ())"
    using Some len by (simp add: serialize_cstring_def)
  moreover have "writes contents may (if cs \<noteq> [] then serialize_get data_function cs else result ()) (if cs = [] then [] else [cs])"
    by (simp add: writes_get writes_result)
  ultimately show ?thesis
    using writes_after [OF writes_small [of "of_nat (length cs)"]] Some by (fastforce simp: string_pieces_def)
qed

lemma writes_nested:
  assumes "writes contents may p ps"
  shows "writes contents may (nested p) ps"
  unfolding writes_def
proof (intro allI impI)
  fix s qs assume "may (ps @ qs) s"
  then have "may (ps @ qs) (s\<lparr>recursion_level := recursion_level s + 1\<rparr>)" by (simp only: level)
  then obtain s' where "p (s\<lparr>recursion_level := recursion_level s + 1\<rparr>) = Some (Done (), s')"
    "contents s' = contents s @ concat ps" "may qs s'" "recursion_level s' = recursion_level s + 1"
    by (rule writesE [OF assms]) (auto simp: level)
  then show "\<exists>s'. nested p s = Some (Done (), s') \<and> contents s' = contents s @ concat ps \<and> may qs s'
      \<and> recursion_level s' = recursion_level s"
    by (simp add: nested_def after_def va_serialize_def result_def level)
qed

lemma writes_chunks:
  assumes "\<And>ys. length ys \<le> 64 \<Longrightarrow> writes contents may (f ys) (pf ys)"
  shows "writes contents may (serialize_chunks f xs) (concat (map pf (chunk_list xs)))"
proof (induction xs rule: chunk_list.induct)
  case (1 xs)
  show ?case
  proof (cases "xs = []")
    case True
    then show ?thesis by (simp add: serialize_chunks.simps [of f "[]"] chunk_list.simps [of "[]"] writes_result)
  next
    case False
    have n: "take (min 64 (length xs)) xs = take 64 xs" "drop (min 64 (length xs)) xs = drop 64 xs"
      by (simp_all add: min_def)
    have "writes contents may (after (nested (f (take 64 xs))) (\<lambda>_. serialize_chunks f (drop 64 xs)))
        (pf (take 64 xs) @ concat (map pf (chunk_list (drop 64 xs))))"
      by (intro writes_after writes_nested assms 1 False) simp
    with False show ?thesis
      by (simp add: serialize_chunks.simps [of f xs] chunk_list.simps [of xs] SERIALIZE_VECTOR_CHUNK_SIZE_def n)
  qed
qed

lemma writes_vector:
  assumes "\<And>ys. length ys \<le> 64 \<Longrightarrow> writes contents may (f ys) (pf ys)"
  shows "writes contents may (serialize_vector data_function f xs) (vector_pieces pf xs)"
  unfolding serialize_vector_def vector_pieces_def
  using writes_after [OF writes_integer [of 4] writes_chunks [of f pf xs, OF assms]] by fastforce

end

section \<open>What the readers read\<close>

lemma length_integer_bytes: "n \<in> {1, 2, 4, 8} \<Longrightarrow> length (integer_bytes x n) = n"
  by (auto simp: integer_bytes_def)

lemma words_at_bytes:
  assumes "\<And>w. length (enc w) = k"
  shows "words_at k (length xs) (concat (map enc xs)) = map (\<lambda>w. word_of (enc w)) xs"
proof (rule nth_equalityI, goal_cases)
  case (2 i)
  then have "i < length xs" by (simp add: words_at_def)
  then have "take k (drop (k * i) (concat (map enc xs))) = enc (xs ! i)"
  proof (induction xs arbitrary: i)
    case (Cons x xs)
    then show ?case using assms by (cases i) (simp_all add: assms)
  qed simp
  then show ?case using \<open>i < length xs\<close> by (simp add: words_at_def)
qed (simp add: words_at_def)

lemma length_concat_same: "(\<And>w. length (enc w) = k) \<Longrightarrow> length (concat (map enc xs)) = length xs * k"
  by (induction xs) simp_all

definition string_result :: "u8 list option \<Rightarrow> u8 list option" where
  "string_result s = (case s of None \<Rightarrow> None | Some cs \<Rightarrow> if cs = [] then None else Some (cs @ [0]))"

context byte_source
begin

lemma reads_map:
  assumes "reads unread ok p bs x"
  shows "reads unread ok (after p (\<lambda>x. result (f x))) bs (f x)"
  using reads_after [where f = "\<lambda>x. result (f x)" and cs = "[]", OF assms reads_result] by simp

lemma reads_integer:
  assumes "n \<in> {1, 2, 4, 8}"
  shows "reads unread ok (unserialize_integer data_function n) (integer_bytes x n) (take_bit (8 * n) x)"
proof -
  have get: "reads unread ok (unserialize_get data_function n) (integer_bytes x n) (integer_bytes x n)"
    using assms by (intro reads_get_n length_integer_bytes fits_numbers) auto
  have "ucast (ucast x :: u8) = take_bit 8 x" "ucast (ucast x :: u16) = take_bit 16 x"
    "ucast (ucast x :: u32) = take_bit 32 x" "take_bit 64 x = x"
    by (auto intro!: bit_word_eqI simp: bit_simps dest: bit_imp_le_length)
  then have "reads unread ok (unserialize_integer data_function n) (integer_bytes x n @ []) (take_bit (8 * n) x)"
    unfolding unserialize_integer_def using assms
    by (intro reads_after [OF get]) (auto simp: integer_bytes_def net_round_trip reads_result)
  then show ?thesis by simp
qed

lemma reads_64:
  "reads unread ok (unserialize_64 data_function)
     (integer_bytes (ucast (ucast x :: u32)) 4 @ integer_bytes (ucast (ucast (drop_bit 32 x) :: u32)) 4) x"
proof -
  let ?lo = "take_bit 32 (ucast (ucast x :: u32) :: u64)" and ?hi = "take_bit 32 (ucast (ucast (drop_bit 32 x) :: u32) :: u64)"
  have "push_bit 32 ?hi OR ?lo = x"
    by (rule bit_word_eqI) (auto simp: bit_simps dest: bit_imp_le_length)
  moreover have "reads unread ok (unserialize_64 data_function)
     (integer_bytes (ucast (ucast x :: u32)) 4 @ integer_bytes (ucast (ucast (drop_bit 32 x) :: u32)) 4) (push_bit 32 ?hi OR ?lo)"
    unfolding unserialize_64_def
    using reads_integer [of 4 "ucast (ucast x :: u32)"] reads_integer [of 4 "ucast (ucast (drop_bit 32 x) :: u32)"]
    by (intro reads_after [where x = ?lo] reads_map) simp_all
  ultimately show ?thesis by simp
qed

lemma reads_cstring:
  assumes "case s of None \<Rightarrow> True | Some cs \<Rightarrow> length cs < 2 ^ 32 \<and> fits (length cs)"
  shows "reads unread ok (unserialize_cstring data_function) (concat (string_pieces s)) (string_result s)"
proof (cases s)
  case None
  have "reads unread ok (unserialize_cstring data_function) (small_bytes 0 @ []) None"
    unfolding unserialize_cstring_def by (rule reads_after [OF reads_small]) (simp add: reads_result)
  with None show ?thesis by (simp add: string_pieces_def string_result_def)
next
  case (Some cs)
  then have len: "unat (of_nat (length cs) :: u32) = length cs" using assms by (simp add: unat_of_nat)
  moreover have "ucast (of_nat (length cs) :: u64) = (of_nat (length cs) :: u32)"
    by (rule bit_word_eqI) (simp add: bit_simps)
  moreover have "0 < (of_nat (length cs) :: u32) \<longleftrightarrow> cs \<noteq> []" using len by (simp add: word_less_nat_alt)
  moreover have "reads unread ok (after (unserialize_get data_function (length cs)) (\<lambda>p. result (Some (p @ [0])))) cs (Some (cs @ [0]))"
    using assms Some by (intro reads_map reads_get) simp
  ultimately have "reads unread ok (unserialize_cstring data_function)
      (small_bytes (of_nat (length cs)) @ (if cs = [] then [] else cs)) (string_result s)"
    unfolding unserialize_cstring_def using Some
    by (intro reads_after [OF reads_small]) (simp add: string_result_def reads_result)
  with Some show ?thesis by (cases "cs = []") (simp_all add: string_pieces_def)
qed

lemma reads_vec:
  assumes "fits (8 * length xs)" "fits (4 * length ys)" "fits (2 * length zs)" "fits (length bs)"
  shows "reads unread ok (unserialize_vec_64 data_function (length xs)) (concat (map (bytes_of 8) (map clib_host_to_net_u64 xs))) xs"
    "reads unread ok (unserialize_vec_32 data_function (length ys)) (concat (map (bytes_of 4) (map clib_host_to_net_u32 ys))) ys"
    "reads unread ok (unserialize_vec_16 data_function (length zs)) (concat (map (bytes_of 2) (map clib_host_to_net_u16 zs))) zs"
    "reads unread ok (unserialize_vec_8 data_function (length bs)) bs bs"
proof -
  let ?e8 = "\<lambda>w. bytes_of 8 (clib_host_to_net_u64 w)" and ?e4 = "\<lambda>w. bytes_of 4 (clib_host_to_net_u32 w)"
    and ?e2 = "\<lambda>w. bytes_of 2 (clib_host_to_net_u16 w)"
  have "reads unread ok (unserialize_vec_64 data_function (length xs)) (concat (map ?e8 xs))
      (by_four clib_net_to_host_u64 (words_at 8 (length xs) (concat (map ?e8 xs))))"
    unfolding unserialize_vec_64_def using assms(1)
    by (intro reads_map reads_get_n length_concat_same) (simp_all add: ac_simps)
  then show "reads unread ok (unserialize_vec_64 data_function (length xs)) (concat (map (bytes_of 8) (map clib_host_to_net_u64 xs))) xs"
    by (simp add: by_four_map words_at_bytes net_round_trip comp_def)
  have "reads unread ok (unserialize_vec_32 data_function (length ys)) (concat (map ?e4 ys))
      (by_four clib_net_to_host_u32 (words_at 4 (length ys) (concat (map ?e4 ys))))"
    unfolding unserialize_vec_32_def using assms(2)
    by (intro reads_map reads_get_n length_concat_same) (simp_all add: ac_simps)
  then show "reads unread ok (unserialize_vec_32 data_function (length ys)) (concat (map (bytes_of 4) (map clib_host_to_net_u32 ys))) ys"
    by (simp add: by_four_map words_at_bytes net_round_trip comp_def)
  have "reads unread ok (unserialize_vec_16 data_function (length zs)) (concat (map ?e2 zs))
      (by_four clib_net_to_host_u16 (words_at 2 (length zs) (concat (map ?e2 zs))))"
    unfolding unserialize_vec_16_def using assms(3)
    by (intro reads_map reads_get_n length_concat_same) (simp_all add: ac_simps)
  then show "reads unread ok (unserialize_vec_16 data_function (length zs)) (concat (map (bytes_of 2) (map clib_host_to_net_u16 zs))) zs"
    by (simp add: by_four_map words_at_bytes net_round_trip comp_def)
  show "reads unread ok (unserialize_vec_8 data_function (length bs)) bs bs"
    unfolding unserialize_vec_8_def using assms(4) by (rule reads_get)
qed

lemma reads_nested:
  assumes "reads unread ok p bs x"
  shows "reads unread ok (nested p) bs x"
  unfolding reads_def
proof (intro allI impI)
  fix s rest assume "ok s \<and> unread s = bs @ rest"
  then have "ok (s\<lparr>recursion_level := recursion_level s + 1\<rparr>)" "unread (s\<lparr>recursion_level := recursion_level s + 1\<rparr>) = bs @ rest"
    by (simp_all only: source_level)
  then obtain s' where "p (s\<lparr>recursion_level := recursion_level s + 1\<rparr>) = Some (Done x, s')"
    "unread s' = rest" "ok s'" "recursion_level s' = recursion_level s + 1"
    by (rule readsE [OF assms]) auto
  then show "\<exists>s'. nested p s = Some (Done x, s') \<and> unread s' = rest \<and> ok s' \<and> recursion_level s' = recursion_level s"
    by (simp add: nested_def after_def va_serialize_def result_def source_level)
qed

lemma reads_chunks:
  assumes "\<And>ys. length ys \<le> 64 \<Longrightarrow> reads unread ok (f (length ys)) (concat (pf ys)) ys"
  shows "reads unread ok (unserialize_chunks f (length xs)) (concat (concat (map pf (chunk_list xs)))) xs"
proof (induction xs rule: chunk_list.induct)
  case (1 xs)
  show ?case
  proof (cases "xs = []")
    case True
    then show ?thesis by (simp add: unserialize_chunks.simps [of f 0] chunk_list.simps [of "[]"] reads_result)
  next
    case False
    let ?n = "min 64 (length xs)"
    have n: "take ?n xs = take 64 xs" "length (take 64 xs) = ?n" "length (drop 64 xs) = length xs - ?n"
      by (simp_all add: min_def)
    have "reads unread ok (after (nested (f ?n)) (\<lambda>ys. after (unserialize_chunks f (length xs - ?n)) (\<lambda>zs. result (ys @ zs))))
        (concat (pf (take 64 xs)) @ concat (concat (map pf (chunk_list (drop 64 xs))))) (take 64 xs @ drop 64 xs)"
      using 1 [OF False] assms [of "take 64 xs"] n
      by (intro reads_after [where x = "take 64 xs"] reads_nested reads_map) simp_all
    with False show ?thesis
      by (simp add: unserialize_chunks.simps [of f "length xs"] chunk_list.simps [of xs] SERIALIZE_VECTOR_CHUNK_SIZE_def Let_def)
  qed
qed

lemma reads_vector:
  assumes "\<And>ys. length ys \<le> 64 \<Longrightarrow> reads unread ok (f (length ys)) (concat (pf ys)) ys" "length xs < 2 ^ 32"
  shows "reads unread ok (unserialize_vector data_function f) (concat (vector_pieces pf xs)) xs"
proof -
  have l: "take_bit 32 (of_nat (length xs) :: u64) = of_nat (length xs)" "unat (of_nat (length xs) :: u64) = length xs"
    using assms(2) by (simp_all add: take_bit_of_nat take_bit_nat_eq_self unat_of_nat)
  then have "\<not> 2 ^ 32 - 1 < (of_nat (length xs) :: u64)" using assms(2) by (simp add: word_less_nat_alt)
  then have "reads unread ok (unserialize_vector_ha data_function (2 ^ 32 - 1) f)
      (integer_bytes (of_nat (length xs)) 4 @ concat (concat (map pf (chunk_list xs)))) xs"
    unfolding unserialize_vector_ha_def
    using reads_integer [of 4 "of_nat (length xs)"] reads_chunks [of f pf xs, OF assms(1)] l
    by (intro reads_after [where x = "of_nat (length xs)"]) simp_all
  then show ?thesis by (simp add: unserialize_vector_def vector_pieces_def)
qed

end

section \<open>Round trips\<close>

text \<open>
  Through a growing vector: pieces of at most 32 bytes are safe. What is read back is read from
  the vector as a memory area.
\<close>

lemma through_vector:
  assumes "writes (full_contents (\<lambda>_. [])) (\<lambda>ps s. write_ok (vector_shape 32) 32 s \<and> (\<forall>p \<in> set ps. length p \<le> 32)) p ps"
    and "\<forall>b \<in> set ps. length b \<le> 32"
    and "reads data_unread data_readable q (concat ps) x"
  shows "\<exists>bytes t. after p (\<lambda>_. serialize_close_vector) (serialize_open_vector []) = Some (Done bytes, serialize_open_data [])
    \<and> q (serialize_open_data bytes) = Some (Done x, t)"
proof -
  have "\<exists>t. p (serialize_open_vector []) = Some (Done (), t) \<and> full_contents (\<lambda>_. []) t = concat ps \<and> write_ok (vector_shape 32) 32 t"
    using assms(1,2) vector_open_ok [of 32 "[]"] unfolding writes_def by (force simp: full_contents_open)
  then have "after p (\<lambda>_. serialize_close_vector) (serialize_open_vector []) = Some (Done (concat ps), serialize_open_data [])"
    by (auto simp: after_Done close_vector)
  moreover have "data_readable (serialize_open_data (concat ps))" "data_unread (serialize_open_data (concat ps)) = concat ps @ []"
    by (simp_all add: data_readable_def data_unread_def serialize_open_data_def)
  with assms(3) obtain t where "q (serialize_open_data (concat ps)) = Some (Done x, t)" by (rule readsE)
  ultimately show ?thesis by blast
qed

text \<open>Through a memory area that is large enough.\<close>

lemma through_memory:
  assumes "writes written data_room p ps" "length (concat ps) \<le> length mem"
    and "reads data_unread data_readable q (concat ps) x"
  shows "\<exists>s t. p (serialize_open_data mem) = Some (Done (), s) \<and> q (serialize_open_data (written s)) = Some (Done x, t)"
proof -
  have "data_room (ps @ []) (serialize_open_data mem)"
    using assms(2) by (simp add: data_room_def serialize_open_data_def)
  with assms(1) obtain s where "p (serialize_open_data mem) = Some (Done (), s)"
    "written s = written (serialize_open_data mem) @ concat ps" by (rule writesE)
  moreover have "written (serialize_open_data mem) = []" by (simp add: written_def serialize_open_data_def)
  moreover have "data_readable (serialize_open_data (concat ps))" "data_unread (serialize_open_data (concat ps)) = concat ps @ []"
    by (simp_all add: data_readable_def data_unread_def serialize_open_data_def)
  with assms(3) obtain t where "q (serialize_open_data (concat ps)) = Some (Done x, t)" by (rule readsE)
  ultimately show ?thesis by simp
qed

fun each :: "('a \<Rightarrow> ('io, unit) stm) \<Rightarrow> 'a list \<Rightarrow> ('io, unit) stm" where
  "each f [] = result ()"
| "each f (x # xs) = after (f x) (\<lambda>_. each f xs)"

fun times :: "('io, 'a) stm \<Rightarrow> nat \<Rightarrow> ('io, 'a list) stm" where
  "times p 0 = result []"
| "times p (Suc n) = after p (\<lambda>x. after (times p n) (\<lambda>xs. result (x # xs)))"

lemma writes_each: "(\<And>x. writes contents may (f x) (g x)) \<Longrightarrow> writes contents may (each f xs) (concat (map g xs))"
  by (induction xs) (simp_all add: writes_result writes_after)

context byte_source
begin

lemma reads_times:
  "(\<And>x. reads unread ok p (g x) x) \<Longrightarrow> reads unread ok (times p (length xs)) (concat (map g xs)) xs"
proof (induction xs)
  case (Cons x xs)
  have "reads unread ok (after (times p (length xs)) (\<lambda>xs. result (x # xs))) (concat (map g xs)) (x # xs)"
    by (rule reads_map [OF Cons.IH [OF Cons.prems]])
  from reads_after [where f = "\<lambda>x. after (times p (length xs)) (\<lambda>xs. result (x # xs))", OF Cons.prems [of x] this]
  show ?case by simp
qed (simp add: reads_result)

end

text \<open>
  C16: Any list of numbers in the compact form, written to an empty growing vector and read back, one to
  nine bytes each.
\<close>

theorem small_integers_round_trip:
  "\<exists>bytes t. after (each (serialize_likely_small_unsigned_integer (Some serialize_vector_write)) xs)
       (\<lambda>_. serialize_close_vector) (serialize_open_vector []) = Some (Done bytes, serialize_open_data [])
     \<and> times (unserialize_likely_small_unsigned_integer None) (length xs) (serialize_open_data bytes) = Some (Done xs, t)"
proof (rule through_vector)
  show "writes (full_contents (\<lambda>_. [])) (\<lambda>ps s. write_ok (vector_shape 32) 32 s \<and> (\<forall>p \<in> set ps. length p \<le> 32))
      (each (serialize_likely_small_unsigned_integer (Some serialize_vector_write)) xs) (concat (map (\<lambda>x. [small_bytes x]) xs))"
    by (rule writes_each) (rule vector_writer.writes_small)
  show "\<forall>b \<in> set (concat (map (\<lambda>x. [small_bytes x]) xs)). length b \<le> 32"
    using small_bytes_size by (auto intro: order_trans [of _ 9])
  have "concat (concat (map (\<lambda>x. [small_bytes x]) xs)) = concat (map small_bytes xs)" by (induction xs) simp_all
  then show "reads data_unread data_readable (times (unserialize_likely_small_unsigned_integer None) (length xs))
      (concat (concat (map (\<lambda>x. [small_bytes x]) xs))) xs"
    using data_source.reads_times [OF data_source.reads_small] by simp
qed

text \<open>The signed form loses one on every negative number.\<close>

theorem small_signed_loses_one:
  "\<exists>bytes t. after (serialize_likely_small_signed_integer (Some serialize_vector_write) s)
       (\<lambda>_. serialize_close_vector) (serialize_open_vector []) = Some (Done bytes, serialize_open_data [])
     \<and> unserialize_likely_small_signed_integer None (serialize_open_data bytes)
         = Some (Done (if sint s < 0 then s + 1 else s), t)"
proof (rule through_vector)
  let ?u = "if sint s < 0 then - (2 * s + 1) else 2 * s"
  let ?f = "\<lambda>u :: u64. let t = drop_bit 1 u in if u AND 1 \<noteq> 0 then - t else t"
  show "writes (full_contents (\<lambda>_. [])) (\<lambda>ps s. write_ok (vector_shape 32) 32 s \<and> (\<forall>p \<in> set ps. length p \<le> 32))
      (serialize_likely_small_signed_integer (Some serialize_vector_write) s) [small_bytes ?u]"
    unfolding serialize_likely_small_signed_integer_def by (rule vector_writer.writes_small)
  show "\<forall>b \<in> set [small_bytes ?u]. length b \<le> 32" using small_bytes_size [of ?u] by simp
  have "reads data_unread data_readable
      (after (unserialize_likely_small_unsigned_integer None) (\<lambda>u. result (?f u))) (small_bytes ?u) (?f ?u)"
    by (rule data_source.reads_map [OF data_source.reads_small])
  then show "reads data_unread data_readable (unserialize_likely_small_signed_integer None) (concat [small_bytes ?u])
      (if sint s < 0 then s + 1 else s)"
    using signed_code_loses_one [of s] by (simp only: unserialize_likely_small_signed_integer_def Let_def) simp
qed

text \<open>A vector of numbers of 64 bits through a memory area that is large enough for it, in chunks of 64.\<close>

lemma length_vector_pieces:
  assumes "\<And>ys. length (concat (f ys)) = k * length ys"
  shows "length (concat (vector_pieces f xs)) = 4 + k * length xs"
proof -
  have "length (concat (concat (map f yss))) = k * length (concat yss)" for yss
    by (induction yss) (simp_all add: assms add_mult_distrib2)
  then show ?thesis by (simp add: vector_pieces_def length_integer_bytes concat_chunk_list)
qed

context byte_sink
begin

lemma writes_vec_64: "writes contents may (serialize_vec_64 data_function xs) [concat (map (bytes_of 8) (map clib_host_to_net_u64 xs))]"
  unfolding serialize_vec_64_def by_four_map by (rule writes_get)

lemma writes_vec_32: "writes contents may (serialize_vec_32 data_function ys) [concat (map (bytes_of 4) (map clib_host_to_net_u32 ys))]"
  unfolding serialize_vec_32_def by_four_map by (rule writes_get)

lemma writes_vec_16: "writes contents may (serialize_vec_16 data_function zs) [concat (map (bytes_of 2) (map clib_host_to_net_u16 zs))]"
  unfolding serialize_vec_16_def by_four_map by (rule writes_get)

end

text \<open>C34: A vector of words comes back, whatever number of chunks it takes.\<close>

theorem vector_round_trip:
  assumes "length xs < 2 ^ 32" "4 + 8 * length xs \<le> length mem"
  shows "\<exists>s t. serialize_vector None (serialize_vec_64 None) xs (serialize_open_data mem) = Some (Done (), s)
    \<and> unserialize_vector None (unserialize_vec_64 None) (serialize_open_data (written s)) = Some (Done xs, t)"
proof (rule through_memory)
  let ?p = "\<lambda>xs. [concat (map (bytes_of 8) (map clib_host_to_net_u64 xs))]"
  show "writes written data_room (serialize_vector None (serialize_vec_64 None) xs) (vector_pieces ?p xs)"
    by (rule data_sink.writes_vector) (rule data_sink.writes_vec_64)
  have "length (concat (vector_pieces ?p xs)) = 4 + 8 * length xs"
    by (rule length_vector_pieces) (simp add: length_concat_same comp_def)
  with assms(2) show "length (concat (vector_pieces ?p xs)) \<le> length mem" by simp
  show "reads data_unread data_readable (unserialize_vector None (unserialize_vec_64 None)) (concat (vector_pieces ?p xs)) xs"
    using assms(1) by (intro data_source.reads_vector) (simp_all only: concat.simps append_Nil2 data_source.reads_vec(1))
qed

theorem vector_round_trip_witness:
  "\<exists>s t. serialize_vector None (serialize_vec_64 None) [1, 2, 3] (serialize_open_data (replicate 28 0)) = Some (Done (), s)
    \<and> unserialize_vector None (unserialize_vec_64 None) (serialize_open_data (written s)) = Some (Done [1, 2, 3], t)"
  by (rule vector_round_trip) simp_all

text \<open>Strings come back with their terminating zero, but the empty string comes back as the null pointer.\<close>

theorem cstring_round_trip:
  assumes "length cs < 2 ^ 32" "9 + length cs \<le> length mem"
  shows "\<exists>s t. serialize_cstring None (Some cs) (serialize_open_data mem) = Some (Done (), s)
    \<and> unserialize_cstring None (serialize_open_data (written s)) = Some (Done (if cs = [] then None else Some (cs @ [0])), t)"
proof (rule through_memory)
  show "writes written data_room (serialize_cstring None (Some cs)) (string_pieces (Some cs))"
    using assms(1) by (intro data_sink.writes_cstring) simp
  show "length (concat (string_pieces (Some cs))) \<le> length mem"
    using assms(2) small_bytes_size [of "of_nat (length cs)"] small_bytes_size [of 0] by (simp add: string_pieces_def)
  have "reads data_unread data_readable (unserialize_cstring None) (concat (string_pieces (Some cs))) (string_result (Some cs))"
    using assms(1) by (intro data_source.reads_cstring) simp
  then show "reads data_unread data_readable (unserialize_cstring None) (concat (string_pieces (Some cs)))
      (if cs = [] then None else Some (cs @ [0]))"
    by (simp add: string_result_def)
qed

theorem cstring_round_trip_witness:
  "\<exists>s t. serialize_cstring None (Some [104, 105]) (serialize_open_data (replicate 11 0)) = Some (Done (), s)
    \<and> unserialize_cstring None (serialize_open_data (written s)) = Some (Done (Some [104, 105, 0]), t)"
  using cstring_round_trip [of "[104, 105]" "replicate 11 0"] by simp

end
