(* ===== verification/Clib_Serialize_Pool.thy ===== *)
theory Clib_Serialize_Pool
  imports Clib_Serialize
begin

text \<open>
  The structures \<open>src/clib/serialize.c\<close> writes and reads: bitmaps, pools, magic numbers and the
  elements of strided arrays.
\<close>

section \<open>Bitmaps\<close>

fun bitmap_words :: "'io data_function option \<Rightarrow> uword list \<Rightarrow> ('io, unit) stm" where
  "bitmap_words df [] = result ()"
| "bitmap_words df (w # ws) =
     after (serialize_integer df w 4) (\<lambda>_. after (serialize_integer df (drop_bit 32 w) 4) (\<lambda>_. bitmap_words df ws))"

definition serialize_bitmap :: "'io data_function option \<Rightarrow> bitmap \<Rightarrow> ('io, unit) stm" where
  "serialize_bitmap df b =
     (let l = length (words b); n_u32s = l * 8 div 4
      in after (serialize_integer df (of_nat n_u32s) 4) (\<lambda>_. bitmap_words df (words b)))"

text \<open>The loop that reads, with the number of turns left.\<close>

primrec bitmap_read :: "'io data_function option \<Rightarrow> nat \<Rightarrow> nat \<Rightarrow> uword list \<Rightarrow> ('io, bitmap) stm" where
  "bitmap_read df 0 i b = result (Some b)"
| "bitmap_read df (Suc n) i b =
     after (unserialize_integer df 4) (\<lambda>data.
       bitmap_read df n (i + 1) (b[i div 2 := b ! (i div 2) OR push_bit (if i mod 2 = 0 then 0 else 32) data]))"

definition unserialize_bitmap :: "'io data_function option \<Rightarrow> ('io, bitmap) stm" where
  "unserialize_bitmap df =
     after (unserialize_integer df 4) (\<lambda>n_u32s.
       if n_u32s = 0 then result None
       else bitmap_read df (unat n_u32s) 0 (replicate ((unat n_u32s * 4 + 8 - 1) div 8) 0))"

section \<open>Pools\<close>

fun write_regions :: "('a list \<Rightarrow> ('io, unit) stm) \<Rightarrow> 'a pool \<Rightarrow> (nat \<times> nat) list \<Rightarrow> ('io, unit) stm" where
  "write_regions f p [] = result ()"
| "write_regions f p ((lo, hi) # rs) =
     after (nested (f (vec_read (pool_vec p) lo (hi - lo)))) (\<lambda>_. write_regions f p rs)"

definition serialize_pool :: "'io data_function option \<Rightarrow> ('a list \<Rightarrow> ('io, unit) stm) \<Rightarrow> 'a pool \<Rightarrow> ('io, unit) stm" where
  "serialize_pool df f p =
     (let l = vec_len (pool_vec p)
      in after (serialize_integer df (of_nat l) 4) (\<lambda>_.
           if l = 0 then result ()
           else after (nested (serialize_vector df (serialize_vec_32 df) (map of_nat (free_indices p)))) (\<lambda>_.
                  write_regions f p (pool_foreach_region p))))"

fun read_regions :: "(nat \<Rightarrow> ('io, 'a list) stm) \<Rightarrow> 'a pool \<Rightarrow> (nat \<times> nat) list \<Rightarrow> ('io, 'a pool) stm" where
  "read_regions f p [] = result p"
| "read_regions f p ((lo, hi) # rs) =
     after (nested (f (hi - lo))) (\<lambda>xs. read_regions f (p\<lparr>pool_vec := vec_store (pool_vec p) lo xs\<rparr>) rs)"

definition unserialize_pool_helper ::
  "(nat \<Rightarrow> nat) \<Rightarrow> nat \<Rightarrow> 'io data_function option \<Rightarrow> (nat \<Rightarrow> ('io, 'a::zero list) stm) \<Rightarrow> ('io, 'a pool) stm" where
  "unserialize_pool_helper alloc es df f =
     after (unserialize_integer df 4) (\<lambda>n.
       let l = unat n
       in if l = 0 then result null_pool
          else let p = pool_resize alloc es null_pool l (l * es)
               in after (nested (unserialize_vector df (unserialize_vec_32 df))) (\<lambda>fi.
                    let p = p\<lparr>free_indices := map unat fi,
                              free_bitmap := foldl (\<lambda>b i. clib_bitmap_ori b (unat i)) (free_bitmap p) fi\<rparr>
                    in read_regions f p (pool_foreach_region p)))"

definition unserialize_pool ::
  "(nat \<Rightarrow> nat) \<Rightarrow> nat \<Rightarrow> 'io data_function option \<Rightarrow> (nat \<Rightarrow> ('io, 'a::zero list) stm) \<Rightarrow> ('io, 'a pool) stm" where
  "unserialize_pool alloc es df f = unserialize_pool_helper alloc es df f"

section \<open>Magic numbers\<close>

text \<open>\<open>unserialize_check_magic\<close> asks for the address of the bytes as a writer does.\<close>

definition serialize_magic :: "'io data_function option \<Rightarrow> u8 list \<Rightarrow> ('io, unit) stm" where
  "serialize_magic df magic =
     after (serialize_integer df (of_nat (length magic)) 4) (\<lambda>_. serialize_get df magic)"

definition unserialize_check_magic :: "'io data_function option \<Rightarrow> u8 list \<Rightarrow> ('io, unit) stm" where
  "unserialize_check_magic df magic =
     after (unserialize_integer df 4) (\<lambda>l.
       if l \<noteq> of_nat (length magic) then serialize_error (Clib_error ''bad magic number'')
       else after (serialize_stream_read_write df False (length magic)) (\<lambda>p. after (load p (length magic)) (\<lambda>d.
              if d \<noteq> magic then serialize_error (Clib_error ''bad magic number'') else result ())))"

section \<open>Strided arrays\<close>

text \<open>
  \<open>serialize_multiple_1\<close>, \<open>_2\<close> and \<open>_4\<close> take the elements at the addresses \<open>d\<close>, \<open>d + stride\<close> and so on of
  a memory, four at a time and then the rest in one piece. \<open>conv\<close> converts the bytes of an element
  between host and network order.
\<close>

definition strided :: "nat \<Rightarrow> (u8 list \<Rightarrow> u8 list) \<Rightarrow> u8 list \<Rightarrow> nat \<Rightarrow> nat \<Rightarrow> nat \<Rightarrow> u8 list" where
  "strided w conv mem d stride n = concat (map (\<lambda>k. conv (take w (drop (d + k * stride) mem))) [0..<n])"

function serialize_multiple ::
  "nat \<Rightarrow> (u8 list \<Rightarrow> u8 list) \<Rightarrow> 'io data_function option \<Rightarrow> u8 list \<Rightarrow> nat \<Rightarrow> nat \<Rightarrow> nat \<Rightarrow> ('io, unit) stm" where
  "serialize_multiple w conv df mem d stride n_left =
     (if 4 \<le> n_left
      then after (serialize_get df (strided w conv mem d stride 4)) (\<lambda>_.
             serialize_multiple w conv df mem (d + 4 * stride) stride (n_left - 4))
      else if 0 < n_left then serialize_get df (strided w conv mem d stride n_left)
      else result ())"
  by pat_completeness auto
termination by (relation "measure (\<lambda>(w, conv, df, mem, d, stride, n). n)") auto

declare serialize_multiple.simps [simp del]

definition net_2 :: "u8 list \<Rightarrow> u8 list" where
  "net_2 b = bytes_of 2 (clib_host_to_net_u16 (word_of b))"

definition net_4 :: "u8 list \<Rightarrow> u8 list" where
  "net_4 b = bytes_of 4 (clib_host_to_net_u32 (word_of b))"

definition serialize_multiple_1 :: "'io data_function option \<Rightarrow> u8 list \<Rightarrow> nat \<Rightarrow> nat \<Rightarrow> nat \<Rightarrow> ('io, unit) stm" where
  "serialize_multiple_1 = serialize_multiple 1 id"

definition serialize_multiple_2 :: "'io data_function option \<Rightarrow> u8 list \<Rightarrow> nat \<Rightarrow> nat \<Rightarrow> nat \<Rightarrow> ('io, unit) stm" where
  "serialize_multiple_2 = serialize_multiple 2 net_2"

definition serialize_multiple_4 :: "'io data_function option \<Rightarrow> u8 list \<Rightarrow> nat \<Rightarrow> nat \<Rightarrow> nat \<Rightarrow> ('io, unit) stm" where
  "serialize_multiple_4 = serialize_multiple 4 net_4"

primrec store_strided :: "nat \<Rightarrow> (u8 list \<Rightarrow> u8 list) \<Rightarrow> u8 list \<Rightarrow> nat \<Rightarrow> nat \<Rightarrow> nat \<Rightarrow> u8 list \<Rightarrow> u8 list" where
  "store_strided w conv mem d stride 0 p = mem"
| "store_strided w conv mem d stride (Suc n) p =
     store_strided w conv (store_at mem d (conv (take w p))) (d + stride) stride n (drop w p)"

function unserialize_multiple ::
  "nat \<Rightarrow> (u8 list \<Rightarrow> u8 list) \<Rightarrow> 'io data_function option \<Rightarrow> u8 list \<Rightarrow> nat \<Rightarrow> nat \<Rightarrow> nat \<Rightarrow> ('io, u8 list) stm" where
  "unserialize_multiple w conv df mem d stride n_left =
     (if 4 \<le> n_left
      then after (unserialize_get df (4 * w)) (\<lambda>p.
             unserialize_multiple w conv df (store_strided w conv mem d stride 4 p) (d + 4 * stride) stride (n_left - 4))
      else if 0 < n_left
      then after (unserialize_get df (n_left * w)) (\<lambda>p. result (store_strided w conv mem d stride n_left p))
      else result mem)"
  by pat_completeness auto
termination by (relation "measure (\<lambda>(w, conv, df, mem, d, stride, n). n)") auto

declare unserialize_multiple.simps [simp del]

definition unserialize_multiple_1 :: "'io data_function option \<Rightarrow> u8 list \<Rightarrow> nat \<Rightarrow> nat \<Rightarrow> nat \<Rightarrow> ('io, u8 list) stm" where
  "unserialize_multiple_1 = unserialize_multiple 1 id"

definition unserialize_multiple_2 :: "'io data_function option \<Rightarrow> u8 list \<Rightarrow> nat \<Rightarrow> nat \<Rightarrow> nat \<Rightarrow> ('io, u8 list) stm" where
  "unserialize_multiple_2 = unserialize_multiple 2 net_2"

definition unserialize_multiple_4 :: "'io data_function option \<Rightarrow> u8 list \<Rightarrow> nat \<Rightarrow> nat \<Rightarrow> nat \<Rightarrow> ('io, u8 list) stm" where
  "unserialize_multiple_4 = unserialize_multiple 4 net_4"

section \<open>Bitmaps come back\<close>

definition bitmap_pieces :: "uword list \<Rightarrow> u8 list list" where
  "bitmap_pieces ws = integer_bytes (of_nat (2 * length ws)) 4
     # concat (map (\<lambda>w. [integer_bytes w 4, integer_bytes (drop_bit 32 w) 4]) ws)"

context byte_sink
begin

lemma writes_bitmap_words:
  "writes contents may (bitmap_words data_function ws) (concat (map (\<lambda>w. [integer_bytes w 4, integer_bytes (drop_bit 32 w) 4]) ws))"
proof (induction ws)
  case (Cons w ws)
  have "writes contents may (bitmap_words data_function (w # ws))
      ([integer_bytes w 4] @ [integer_bytes (drop_bit 32 w) 4] @ concat (map (\<lambda>w. [integer_bytes w 4, integer_bytes (drop_bit 32 w) 4]) ws))"
    unfolding bitmap_words.simps by (intro writes_after writes_integer Cons.IH) simp_all
  then show ?case by simp
qed (simp add: writes_result)

lemma writes_bitmap: "writes contents may (serialize_bitmap data_function b) (bitmap_pieces (words b))"
proof -
  have n: "length (words b) * 8 div 4 = 2 * length (words b)" by simp
  have "writes contents may (serialize_bitmap data_function b) ([integer_bytes (of_nat (2 * length (words b))) 4]
      @ concat (map (\<lambda>w. [integer_bytes w 4, integer_bytes (drop_bit 32 w) 4]) (words b)))"
    unfolding serialize_bitmap_def Let_def n by (intro writes_after writes_integer writes_bitmap_words) simp_all
  then show ?thesis by (simp add: bitmap_pieces_def)
qed

end

lemma halves: "push_bit 32 (take_bit 32 (drop_bit 32 w)) OR take_bit 32 w = (w :: uword)"
  by (rule bit_word_eqI) (auto simp: bit_simps dest: bit_imp_le_length)

context byte_source
begin

text \<open>The loop, two turns per word: \<open>done\<close> holds the words read so far.\<close>

lemma reads_bitmap_words:
  "reads unread ok (bitmap_read data_function (2 * length ws) (2 * length us) (us @ replicate (length ws) 0))
     (concat (concat (map (\<lambda>w. [integer_bytes w 4, integer_bytes (drop_bit 32 w) 4]) ws))) (Some (us @ ws))"
proof (induction ws arbitrary: us)
  case Nil
  then show ?case by (simp add: reads_result)
next
  case (Cons w ws)
  let ?lo = "take_bit 32 w" and ?hi = "take_bit 32 (drop_bit 32 w)"
  let ?rest = "concat (concat (map (\<lambda>w. [integer_bytes w 4, integer_bytes (drop_bit 32 w) 4]) ws))"
  have lo: "(us @ replicate (length (w # ws)) 0)[2 * length us div 2 := (us @ replicate (length (w # ws)) 0) ! (2 * length us div 2) OR push_bit 0 ?lo]
      = us @ ?lo # replicate (length ws) 0"
    by (simp add: nth_append list_update_append)
  have hi: "(us @ ?lo # replicate (length ws) 0)[Suc (2 * length us) div 2 := (us @ ?lo # replicate (length ws) 0) ! (Suc (2 * length us) div 2) OR push_bit 32 ?hi]
      = (us @ [w]) @ replicate (length ws) 0"
    using halves [of w] by (simp add: nth_append list_update_append or.commute)
  have "reads unread ok (bitmap_read data_function (2 * length ws) (2 * length (us @ [w])) ((us @ [w]) @ replicate (length ws) 0)) ?rest (Some ((us @ [w]) @ ws))"
    by (rule Cons.IH)
  then have 2: "reads unread ok (bitmap_read data_function (Suc (2 * length ws)) (Suc (2 * length us)) (us @ ?lo # replicate (length ws) 0))
      (integer_bytes (drop_bit 32 w) 4 @ ?rest) (Some (us @ w # ws))"
    unfolding bitmap_read.simps using reads_integer [of 4 "drop_bit 32 w"] hi
    by (intro reads_after [where x = ?hi]) simp_all
  have "reads unread ok (bitmap_read data_function (Suc (Suc (2 * length ws))) (2 * length us) (us @ replicate (length (w # ws)) 0))
      (integer_bytes w 4 @ integer_bytes (drop_bit 32 w) 4 @ ?rest) (Some (us @ w # ws))"
    unfolding bitmap_read.simps(2) [of _ "Suc (2 * length ws)"] using reads_integer [of 4 w] lo 2
    by (intro reads_after [where x = ?lo]) simp_all
  then show ?case by simp
qed

lemma reads_bitmap:
  assumes "2 * length ws < 2 ^ 32"
  shows "reads unread ok (unserialize_bitmap data_function) (concat (bitmap_pieces ws)) (if ws = [] then None else Some ws)"
proof -
  let ?n = "of_nat (2 * length ws) :: u64"
  have n: "take_bit 32 ?n = ?n" "unat ?n = 2 * length ws"
    using assms unat_of_nat_u64 [of "2 * length ws"] by (simp_all only: take_bit_of_nat take_bit_nat_eq_self) simp_all
  moreover from this(2) have "?n = 0 \<longleftrightarrow> ws = []" by (metis length_0_conv mult_eq_0_iff unat_eq_0 zero_neq_numeral)
  moreover have "(unat ?n * 4 + 8 - 1) div 8 = length ws" unfolding n(2) by simp
  ultimately have "reads unread ok (unserialize_bitmap data_function) (integer_bytes ?n 4 @
      (concat (concat (map (\<lambda>w. [integer_bytes w 4, integer_bytes (drop_bit 32 w) 4]) ws)))) (if ws = [] then None else Some ws)"
    unfolding unserialize_bitmap_def using reads_integer [of 4 ?n] reads_bitmap_words [of ws "[]"]
    by (intro reads_after [where x = ?n]) (auto simp: reads_result simp del: of_nat_mult)
  then show ?thesis by (simp add: bitmap_pieces_def)
qed

end

text \<open>C35: A bitmap through a memory area; the vector of length zero comes back as the null pointer.\<close>

theorem bitmap_stream_round_trip:
  assumes "2 * length (words b) < 2 ^ 32" "4 + 8 * length (words b) \<le> length mem"
  shows "\<exists>s t. serialize_bitmap None b (serialize_open_data mem) = Some (Done (), s)
    \<and> unserialize_bitmap None (serialize_open_data (written s)) = Some (Done (if words b = [] then None else Some (words b)), t)"
proof (rule through_memory)
  show "writes written data_room (serialize_bitmap None b) (bitmap_pieces (words b))"
    by (rule data_sink.writes_bitmap)
  have "length (concat (concat (map (\<lambda>w. [integer_bytes w 4, integer_bytes (drop_bit 32 w) 4]) ws))) = 8 * length ws" for ws
    by (induction ws) (simp_all add: length_integer_bytes)
  then show "length (concat (bitmap_pieces (words b))) \<le> length mem"
    using assms(2) by (simp add: bitmap_pieces_def length_integer_bytes)
  show "reads data_unread data_readable (unserialize_bitmap None) (concat (bitmap_pieces (words b))) (if words b = [] then None else Some (words b))"
    by (rule data_source.reads_bitmap) (rule assms(1))
qed

theorem bitmap_stream_round_trip_witness:
  "\<exists>s t. serialize_bitmap None (Some [5, 2 ^ 40]) (serialize_open_data (replicate 20 0)) = Some (Done (), s)
    \<and> unserialize_bitmap None (serialize_open_data (written s)) = Some (Done (Some [5, 2 ^ 40]), t)"
  using bitmap_stream_round_trip [of "Some [5, 2 ^ 40]" "replicate 20 0"] by (simp add: words_def)

section \<open>Pools come back\<close>

definition index_piece :: "u32 list \<Rightarrow> u8 list list" where
  "index_piece ys = [concat (map (bytes_of 4) (map clib_host_to_net_u32 ys))]"

definition region_pieces :: "('a list \<Rightarrow> u8 list list) \<Rightarrow> 'a vec \<Rightarrow> (nat \<times> nat) list \<Rightarrow> u8 list list" where
  "region_pieces f v rs = concat (map (\<lambda>(lo, hi). f (vec_read v lo (hi - lo))) rs)"

definition pool_pieces :: "('a list \<Rightarrow> u8 list list) \<Rightarrow> 'a pool \<Rightarrow> u8 list list" where
  "pool_pieces f p = integer_bytes (of_nat (vec_len (pool_vec p))) 4
     # (if vec_len (pool_vec p) = 0 then []
        else vector_pieces index_piece (map of_nat (free_indices p)) @ region_pieces f (pool_vec p) (pool_foreach_region p))"

fun copy_regions :: "'a vec \<Rightarrow> 'a pool \<Rightarrow> (nat \<times> nat) list \<Rightarrow> 'a pool" where
  "copy_regions v q [] = q"
| "copy_regions v q ((lo, hi) # rs) =
     copy_regions v (q\<lparr>pool_vec := vec_store (pool_vec q) lo (vec_read v lo (hi - lo))\<rparr>) rs"

context byte_sink
begin

lemma writes_regions:
  assumes "\<And>xs. writes contents may (f xs) (pf xs)"
  shows "writes contents may (write_regions f p rs) (region_pieces pf (pool_vec p) rs)"
proof (induction rs)
  case (Cons r rs)
  then show ?case
    by (cases r) (auto simp: region_pieces_def intro!: writes_after writes_nested assms)
qed (simp add: region_pieces_def writes_result)

lemma writes_pool:
  assumes "\<And>xs. writes contents may (f xs) (pf xs)"
  shows "writes contents may (serialize_pool data_function f p) (pool_pieces pf p)"
proof -
  have index: "writes contents may (serialize_vec_32 data_function ys) (index_piece ys)" for ys
    unfolding index_piece_def by (rule writes_vec_32)
  have "writes contents may (serialize_pool data_function f p) ([integer_bytes (of_nat (vec_len (pool_vec p))) 4] @
     (if vec_len (pool_vec p) = 0 then []
      else vector_pieces index_piece (map of_nat (free_indices p)) @ region_pieces pf (pool_vec p) (pool_foreach_region p)))"
    unfolding serialize_pool_def Let_def
    by (intro writes_after writes_integer) (auto intro!: writes_after writes_nested writes_vector writes_regions index assms writes_result)
  then show ?thesis by (simp add: pool_pieces_def)
qed

end

context byte_source
begin

lemma reads_regions:
  assumes "\<And>xs. reads unread ok (g (length xs)) (concat (pf xs)) xs"
    and "\<forall>(lo, hi) \<in> set rs. length (vec_read v lo (hi - lo)) = hi - lo"
  shows "reads unread ok (read_regions g q rs) (concat (region_pieces pf v rs)) (copy_regions v q rs)"
  using assms(2)
proof (induction rs arbitrary: q)
  case (Cons r rs)
  obtain lo hi where r: "r = (lo, hi)" by (cases r)
  let ?xs = "vec_read v lo (hi - lo)"
  have "length ?xs = hi - lo" using Cons.prems r by simp
  then have "reads unread ok (nested (g (hi - lo))) (concat (pf ?xs)) ?xs"
    using reads_nested [OF assms(1) [of ?xs]] by simp
  moreover have "reads unread ok (read_regions g (q\<lparr>pool_vec := vec_store (pool_vec q) lo ?xs\<rparr>) rs) (concat (region_pieces pf v rs))
      (copy_regions v (q\<lparr>pool_vec := vec_store (pool_vec q) lo ?xs\<rparr>) rs)"
    using Cons.prems by (intro Cons.IH) simp
  ultimately have "reads unread ok (read_regions g q ((lo, hi) # rs)) (concat (pf ?xs) @ concat (region_pieces pf v rs))
      (copy_regions v q ((lo, hi) # rs))"
    unfolding read_regions.simps copy_regions.simps by (rule reads_after)
  with r show ?case by (simp add: region_pieces_def)
qed (simp add: region_pieces_def reads_result)

end

lemma region_loop_bounds: "(a, b) \<in> set (region_loop lo his) \<Longrightarrow> a < b \<and> b \<in> set his"
  by (induction lo his rule: region_loop.induct) (auto split: if_splits)

lemma regions_within:
  assumes "pool_ok es p" "(lo, hi) \<in> set (pool_foreach_region p)"
  shows "lo < hi" "hi \<le> vec_len (pool_vec p)"
proof -
  have "lo < hi \<and> hi \<in> set (clib_bitmap_foreach (if pool_vec p \<noteq> None then free_bitmap p else None) @ [vec_len (pool_vec p)])"
    using region_loop_bounds [of lo hi 0] assms(2) unfolding pool_foreach_region_def Let_def by blast
  moreover have "bits (free_bitmap p) \<subseteq> {..<vec_len (pool_vec p)}" "finite (bits (free_bitmap p))"
    using pool_ok_free [OF assms(1)] by (auto intro: finite_subset)
  ultimately show "lo < hi" "hi \<le> vec_len (pool_vec p)"
    by (auto simp: foreach_eq split: if_splits)
qed

lemma length_region:
  assumes "pool_ok es p" "hi \<le> vec_len (pool_vec p)"
  shows "length (vec_read (pool_vec p) lo (hi - lo)) = hi - lo"
proof (cases "lo \<le> hi")
  case True
  have "vec_ok es pool_aligned_header_bytes (pool_vec p)" using assms(1) by (simp add: pool_ok_def)
  from length_vec_elts [OF this] True assms(2) show ?thesis
    using vec_read_elts [of lo "hi - lo" "pool_vec p"] by simp
qed (simp add: vec_read_def split: option.split)

text \<open>What the copying of the regions does to the new vector, whose length is \<open>l\<close>.\<close>

lemma copy_regions_spec:
  assumes "vec_ok es H (pool_vec q)" "vec_len (pool_vec q) = l" "vec_len v = l" "vec_ok es H v"
    "\<forall>(lo, hi) \<in> set rs. lo < hi \<and> hi \<le> l"
  shows "vec_ok es H (pool_vec (copy_regions v q rs)) \<and> vec_len (pool_vec (copy_regions v q rs)) = l
    \<and> free_indices (copy_regions v q rs) = free_indices q \<and> free_bitmap (copy_regions v q rs) = free_bitmap q
    \<and> (\<forall>i < l. (\<exists>(lo, hi) \<in> set rs. lo \<le> i \<and> i < hi) \<or> vec_elts (pool_vec q) ! i = vec_elts v ! i
          \<longrightarrow> vec_elts (pool_vec (copy_regions v q rs)) ! i = vec_elts v ! i)"
  using assms(1,2,5)
proof (induction rs arbitrary: q)
  case (Cons r rs)
  obtain lo hi where r: "r = (lo, hi)" "lo < hi" "hi \<le> l" using Cons.prems(3) by (cases r) auto
  let ?xs = "vec_read v lo (hi - lo)"
  let ?q = "q\<lparr>pool_vec := vec_store (pool_vec q) lo ?xs\<rparr>"
  have xs: "?xs = take (hi - lo) (drop lo (vec_elts v))" "length ?xs = hi - lo"
    using r assms(3) length_vec_elts [OF assms(4)] vec_read_elts [of lo "hi - lo" v] by simp_all
  obtain y where y: "pool_vec q = Some y" using r Cons.prems(2) by (cases "pool_vec q") simp_all
  then have ok: "vec_ok es H (pool_vec ?q)" "vec_len (pool_vec ?q) = l" and ly: "vlen y = l" "l \<le> length (slots y)"
    using Cons.prems(1,2) xs(2) r by (auto simp: vec_store_def vec_ok_def vec_len_def)
  have elt: "vec_elts (pool_vec ?q) ! i = (if lo \<le> i \<and> i < hi then vec_elts v ! i else vec_elts (pool_vec q) ! i)" if "i < l" for i
    using y ly xs r that assms(3) length_vec_elts [OF assms(4)]
    by (auto simp: vec_elts_def vec_store_def vec_read_def [of "Some _"] vec_len_def nth_append)
  have rs: "\<forall>(lo, hi) \<in> set rs. lo < hi \<and> hi \<le> l" using Cons.prems(3) by simp
  show ?case
    using Cons.IH [OF ok rs] elt unfolding r copy_regions.simps by auto
qed simp

definition pool_image :: "(nat \<Rightarrow> nat) \<Rightarrow> nat \<Rightarrow> 'a::zero pool \<Rightarrow> 'a pool" where
  "pool_image alloc es p =
     (let l = vec_len (pool_vec p)
      in if l = 0 then null_pool
         else let q = pool_resize alloc es null_pool l (l * es);
                  q = q\<lparr>free_indices := free_indices p, free_bitmap := foldl clib_bitmap_ori (free_bitmap q) (free_indices p)\<rparr>
              in copy_regions (pool_vec p) q (pool_foreach_region q))"

lemma bits_foldl_ori: "bits (foldl clib_bitmap_ori b xs) = bits b \<union> set xs"
  by (induction xs arbitrary: b) auto

lemma pool_image_start:
  fixes p :: "'a::zero pool"
  assumes "allocator alloc" "pool_ok es p" "0 < es" "vec_len (pool_vec p) \<noteq> 0"
  defines "q \<equiv> pool_resize alloc es (null_pool :: 'a pool) (vec_len (pool_vec p)) (vec_len (pool_vec p) * es)"
  shows "vec_ok es pool_aligned_header_bytes (pool_vec q)" "vec_len (pool_vec q) = vec_len (pool_vec p)"
    "pool_vec q \<noteq> None" "bits (free_bitmap q) = {}"
proof -
  have small: "vec_len (None :: 'a vec) + vec_len (pool_vec p) < 2 ^ 32" using assms(2) by (simp add: pool_ok_def)
  have "pool_vec q = vec_resize_raw alloc es pool_aligned_header_bytes None (vec_len (pool_vec p)) (vec_len (pool_vec p) * es)"
    "free_bitmap q = None"
    by (simp_all add: q_def pool_resize_def null_pool_def Let_def)
  with allocator.resize_holds [OF assms(1) vec_ok_None assms(3) small, of "vec_len (pool_vec p) * es" pool_aligned_header_bytes]
  show "vec_ok es pool_aligned_header_bytes (pool_vec q)" "vec_len (pool_vec q) = vec_len (pool_vec p)"
    "pool_vec q \<noteq> None" "bits (free_bitmap q) = {}"
    by (simp_all add: holds_slots_def)
qed

lemma regions_cover:
  assumes "pool_ok es p" "i \<in> live p"
  shows "\<exists>(lo, hi) \<in> set (pool_foreach_region p). lo \<le> i \<and> i < hi"
proof -
  have "i \<in> set (pool_foreach p)" using assms by (simp add: pool_foreach_filter live_eq)
  then show ?thesis by (auto simp: pool_foreach_def)
qed

lemma pool_image_spec:
  fixes p :: "'a::zero pool"
  assumes al: "allocator alloc" and p: "pool_ok es p" and es: "0 < es"
  shows "pool_ok es (pool_image alloc es p)" "live (pool_image alloc es p) = live p"
    "free_indices (pool_image alloc es p) = free_indices p"
    "\<forall>i \<in> live p. pool_elt (pool_image alloc es p) i = pool_elt p i"
proof -
  let ?l = "vec_len (pool_vec p)" and ?h = pool_aligned_header_bytes
  have "pool_ok es (pool_image alloc es p) \<and> live (pool_image alloc es p) = live p
    \<and> free_indices (pool_image alloc es p) = free_indices p
    \<and> (\<forall>i \<in> live p. pool_elt (pool_image alloc es p) i = pool_elt p i)"
  proof (cases "?l = 0")
    case True
    then have "free_indices p = []" "live p = {}" using pool_ok_free(3) [OF p] by (auto simp: live_eq)
    moreover have "live (null_pool :: 'a pool) = {}" by (simp add: live_eq null_pool_def)
    ultimately show ?thesis
      using True null_pool_ok [of es] by (simp add: pool_image_def) (simp add: null_pool_def)
  next
    case False
    define r where "r = pool_resize alloc es (null_pool :: 'a pool) ?l (?l * es)"
    define q where "q = r\<lparr>free_indices := free_indices p, free_bitmap := foldl clib_bitmap_ori (free_bitmap r) (free_indices p)\<rparr>"
    define c where "c = copy_regions (pool_vec p) q (pool_foreach_region q)"
    have c: "pool_image alloc es p = c" using False by (simp add: pool_image_def Let_def c_def q_def r_def)
    have start: "vec_ok es ?h (pool_vec q)" "vec_len (pool_vec q) = ?l" "pool_vec q \<noteq> None"
      "free_indices q = free_indices p" "bits (free_bitmap q) = bits (free_bitmap p)"
      using pool_image_start [OF al p es False, folded r_def] pool_ok_free(1) [OF p]
      by (simp_all add: q_def bits_foldl_ori)
    have "bm.agrees (free_bitmap q) (free_indices q)"
      by (rule bm.agrees_cong [of "free_bitmap p"]) (use p start in \<open>simp_all add: pool_ok_def\<close>)
    then have q: "pool_ok es q" using start p by (simp add: pool_ok_def)
    have live: "live q = live p" using start by (simp add: live_eq)
    have bounds: "\<forall>(lo, hi) \<in> set (pool_foreach_region q). lo < hi \<and> hi \<le> ?l"
      using regions_within [OF q] start(2) by auto
    have spec: "vec_ok es ?h (pool_vec c)" "vec_len (pool_vec c) = ?l"
        "free_indices c = free_indices q" "free_bitmap c = free_bitmap q"
        "\<forall>i < ?l. (\<exists>(lo, hi) \<in> set (pool_foreach_region q). lo \<le> i \<and> i < hi)
               \<or> vec_elts (pool_vec q) ! i = vec_elts (pool_vec p) ! i
             \<longrightarrow> vec_elts (pool_vec c) ! i = vec_elts (pool_vec p) ! i"
      using copy_regions_spec [where v = "pool_vec p", OF start(1,2) refl _ bounds] p unfolding c_def by (simp_all add: pool_ok_def)
    have "pool_elt c i = pool_elt p i" if i: "i \<in> live p" for i
    proof -
      have "\<exists>(lo, hi) \<in> set (pool_foreach_region q). lo \<le> i \<and> i < hi"
        by (rule regions_cover [OF q]) (simp only: live i)
      moreover have "i < ?l" using i by (simp add: live_eq)
      ultimately show ?thesis using spec(5) by (simp add: pool_elt_def)
    qed
    moreover have "live c = live p" using spec start by (simp add: live_eq)
    moreover have "pool_ok es c" using spec q start(2) by (simp add: pool_ok_def)
    ultimately show ?thesis using spec start c by simp
  qed
  then show "pool_ok es (pool_image alloc es p)" "live (pool_image alloc es p) = live p"
    "free_indices (pool_image alloc es p) = free_indices p"
    "\<forall>i \<in> live p. pool_elt (pool_image alloc es p) i = pool_elt p i" by blast+
qed

lemma pool_regions_cong:
  assumes "bits (free_bitmap q) = bits (free_bitmap p)" "vec_len (pool_vec q) = vec_len (pool_vec p)"
    "pool_vec p \<noteq> None" "pool_vec q \<noteq> None"
  shows "pool_foreach_region q = pool_foreach_region p"
  using assms by (simp add: pool_foreach_region_def foreach_eq)

lemma length_region_pieces:
  assumes "pool_ok es p" "\<And>ys. length (concat (pf ys)) = k * length ys"
  shows "length (concat (region_pieces pf (pool_vec p) (pool_foreach_region p))) = k * pool_elts p"
proof -
  have "length (concat (region_pieces pf (pool_vec p) rs)) = k * length (concat (map (\<lambda>(lo, hi). [lo..<hi]) rs))"
    if "\<forall>(lo, hi) \<in> set rs. hi \<le> vec_len (pool_vec p)" for rs
    using that
  proof (induction rs)
    case (Cons r rs)
    obtain lo hi where r: "r = (lo, hi)" "hi \<le> vec_len (pool_vec p)" using Cons.prems by (cases r) auto
    have "length (vec_read (pool_vec p) lo (hi - lo)) = hi - lo"
      using length_region [OF assms(1) r(2)] .
    with Cons r show ?case by (simp add: region_pieces_def assms(2) add_mult_distrib2)
  qed (simp add: region_pieces_def)
  moreover have "\<forall>(lo, hi) \<in> set (pool_foreach_region p). hi \<le> vec_len (pool_vec p)"
    using regions_within [OF assms(1)] by auto
  ultimately have "length (concat (region_pieces pf (pool_vec p) (pool_foreach_region p))) = k * length (pool_foreach p)"
    by (simp add: pool_foreach_def)
  moreover have "length (pool_foreach p) = card (live p)"
    unfolding pool_foreach_filter [OF assms(1)] filter_upt_eq_sorted_list
    by (simp only: length_sorted_list_of_set) (auto simp: live_eq intro: arg_cong [where f = card])
  ultimately show ?thesis using card_live [OF assms(1)] by simp
qed

context byte_source
begin

lemma reads_pool:
  fixes p :: "'a::zero pool"
  assumes al: "allocator alloc" and p: "pool_ok es p" and es: "0 < es"
    and g: "\<And>xs. reads unread ok (g (length xs)) (concat (pf xs)) xs"
    and small_fits: "\<And>n. n \<le> 256 \<Longrightarrow> fits n"
  shows "reads unread ok (unserialize_pool_helper alloc es data_function g) (concat (pool_pieces pf p)) (pool_image alloc es p)"
proof -
  let ?l = "vec_len (pool_vec p)" and ?n = "of_nat (vec_len (pool_vec p)) :: u64"
  let ?fi = "map of_nat (free_indices p) :: u32 list"
  have l: "?l < 2 ^ 32" using p by (simp add: pool_ok_def)
  then have n: "take_bit 32 ?n = ?n" "unat ?n = ?l" by (simp_all add: take_bit_of_nat take_bit_nat_eq_self unat_of_nat)
  have head: "reads unread ok (unserialize_integer data_function 4) (integer_bytes ?n 4) ?n"
    using reads_integer [of 4 ?n] n by simp
  have "reads unread ok (unserialize_pool_helper alloc es data_function g) (integer_bytes ?n 4 @
      (if ?l = 0 then [] else concat (vector_pieces index_piece ?fi) @ concat (region_pieces pf (pool_vec p) (pool_foreach_region p))))
      (pool_image alloc es p)"
  proof (cases "?l = 0")
    case True
    then show ?thesis unfolding unserialize_pool_helper_def using head n
      by (intro reads_after [where x = ?n]) (simp_all add: reads_result pool_image_def)
  next
    case False
    define r where "r = pool_resize alloc es (null_pool :: 'a pool) ?l (?l * es)"
    define q where "q = r\<lparr>free_indices := free_indices p, free_bitmap := foldl clib_bitmap_ori (free_bitmap r) (free_indices p)\<rparr>"
    have image: "pool_image alloc es p = copy_regions (pool_vec p) q (pool_foreach_region q)"
      using False by (simp add: pool_image_def Let_def q_def r_def)
    note start = pool_image_start [OF al p es False, folded r_def]
    have regions: "pool_foreach_region q = pool_foreach_region p"
      by (rule pool_regions_cong)
        (use start False pool_ok_free(1) [OF p] in \<open>auto simp: q_def bits_foldl_ori vec_len_def split: option.splits\<close>)
    have small: "\<forall>i \<in> set (free_indices p). i < 2 ^ 32" using p l unfolding pool_ok_def by auto
    then have fi: "map unat ?fi = free_indices p"
      by (simp add: map_idI unat_of_nat take_bit_nat_eq_self)
    have "length (free_indices p) \<le> card {..<?l}"
      using pool_ok_free [OF p] distinct_card [of "free_indices p"] card_mono [of "{..<?l}" "set (free_indices p)"] by simp
    then have "length ?fi < 2 ^ 32" using l by simp
    moreover have "reads unread ok (unserialize_vec_32 data_function (length ys)) (concat (index_piece ys)) ys"
      if "length ys \<le> 64" for ys
      unfolding index_piece_def concat.simps append_Nil2
      by (rule reads_vec(2) [of "[]" _ "[]" "[]"]) (use that small_fits in simp_all)
    ultimately have index: "reads unread ok (nested (unserialize_vector data_function (unserialize_vec_32 data_function)))
        (concat (vector_pieces index_piece ?fi)) ?fi"
      by (intro reads_nested reads_vector)
    have set: "r\<lparr>free_indices := map unat ?fi, free_bitmap := foldl (\<lambda>b i. clib_bitmap_ori b (unat i)) (free_bitmap r) ?fi\<rparr> = q"
      using fi foldl_map [of clib_bitmap_ori "free_bitmap r" unat ?fi] by (simp add: q_def)
    have "\<forall>(lo, hi) \<in> set (pool_foreach_region p). length (vec_read (pool_vec p) lo (hi - lo)) = hi - lo"
      using regions_within [OF p] length_region [OF p] by blast
    then have "reads unread ok (read_regions g q (pool_foreach_region q)) (concat (region_pieces pf (pool_vec p) (pool_foreach_region p)))
        (pool_image alloc es p)"
      unfolding image regions by (rule reads_regions [OF g])
    with index have "reads unread ok (after (nested (unserialize_vector data_function (unserialize_vec_32 data_function))) (\<lambda>fi.
           let p = r\<lparr>free_indices := map unat fi, free_bitmap := foldl (\<lambda>b i. clib_bitmap_ori b (unat i)) (free_bitmap r) fi\<rparr>
           in read_regions g p (pool_foreach_region p)))
        (concat (vector_pieces index_piece ?fi) @ concat (region_pieces pf (pool_vec p) (pool_foreach_region p))) (pool_image alloc es p)"
      by (intro reads_after [where x = ?fi]) (simp_all only: Let_def set)
    with head False show ?thesis
      unfolding unserialize_pool_helper_def by (intro reads_after [where x = ?n]) (simp_all add: n r_def Let_def)
  qed
  moreover have "concat (pool_pieces pf p) = integer_bytes ?n 4 @
      (if ?l = 0 then [] else concat (vector_pieces index_piece ?fi) @ concat (region_pieces pf (pool_vec p) (pool_foreach_region p)))"
    by (simp add: pool_pieces_def)
  ultimately show ?thesis by simp
qed

end


definition two_places :: "u64 pool" where
  "two_places = \<lparr>pool_vec = Some \<lparr>vlen = 2, alloc_bytes = 48, slots = [7, 9]\<rparr>, free_bitmap = Some [1], free_indices = [0]\<rparr>"

lemma header_of_two: "(48 - vec_header_bytes pool_aligned_header_bytes) div 8 = 2"
  by (simp add: vec_header_bytes_def pool_aligned_header_bytes_def round_pow2_def)

lemma bits_one: "bits (Some [1]) = {0}"
  by (auto simp: bits_def bit_at_def bit_1_iff less_Suc_eq)

lemma two_places_ok: "pool_ok 8 two_places" "live two_places = {1}"
  by (auto simp: pool_ok_def two_places_def vec_ok_def n_slots_def header_of_two bm.agrees_def bits_one
      vec_len_def live_eq)


end
