(* ===== verification/Clib_Hash_Sum.thy ===== *)
theory Clib_Hash_Sum
  imports Clib_Prelude
begin

text \<open>
  The hash functions: the mixing macros of \<open>src/clib/hash.h\<close>, \<open>hash_memory64\<close>, \<open>hash_memory32\<close> and
  \<open>hash_uword\<close> of \<open>src/clib/hash.c\<close>, and the functions on keys, with the special key functions the
  table header can hold. Memory is a function from addresses to bytes; the bytes behind a pointer
  are a function from offsets. Words are read little endian, as on x86-64.
\<close>

type_synonym memory = "uword \<Rightarrow> u8"

section \<open>Mixing\<close>

definition hash_mix_step ::
    "nat \<Rightarrow> nat \<Rightarrow> nat \<Rightarrow> 'a::len word \<times> 'a word \<times> 'a word \<Rightarrow> 'a word \<times> 'a word \<times> 'a word" where
  "hash_mix_step s0 s1 s2 = (\<lambda>(a, b, c).
     let a = (a - (b + c)) XOR drop_bit s0 c;
         b = (b - (c + a)) XOR push_bit s1 a;
         c = (c - (a + b)) XOR drop_bit s2 b
     in (a, b, c))"

definition hash_mix64 :: "u64 \<times> u64 \<times> u64 \<Rightarrow> u64 \<times> u64 \<times> u64" where
  "hash_mix64 s = hash_mix_step 12 18 22 (hash_mix_step 35 49 11 (hash_mix_step 38 23 5 (hash_mix_step 43 9 8 s)))"

definition hash_mix32 :: "u32 \<times> u32 \<times> u32 \<Rightarrow> u32 \<times> u32 \<times> u32" where
  "hash_mix32 s = hash_mix_step 3 10 15 (hash_mix_step 12 16 5 (hash_mix_step 13 8 13 s))"

definition hash32_rotate_left :: "u32 \<Rightarrow> nat \<Rightarrow> u32" where
  "hash32_rotate_left x i = push_bit i x OR drop_bit (32 - i) x"

definition hash_v3_mix32 :: "u32 \<times> u32 \<times> u32 \<Rightarrow> u32 \<times> u32 \<times> u32" where
  "hash_v3_mix32 = (\<lambda>(a, b, c).
     let a = (a - c) XOR hash32_rotate_left c 4; c = c + b;
         b = (b - a) XOR hash32_rotate_left a 6; a = a + c;
         c = (c - b) XOR hash32_rotate_left b 8; b = b + a;
         a = (a - c) XOR hash32_rotate_left c 16; c = c + b;
         b = (b - a) XOR hash32_rotate_left a 19; a = a + c;
         c = (c - b) XOR hash32_rotate_left b 4; b = b + a
     in (a, b, c))"

definition hash_v3_finalize32 :: "u32 \<times> u32 \<times> u32 \<Rightarrow> u32 \<times> u32 \<times> u32" where
  "hash_v3_finalize32 = (\<lambda>(a, b, c).
     let c = (c XOR b) - hash32_rotate_left b 14;
         a = (a XOR c) - hash32_rotate_left c 11;
         b = (b XOR a) - hash32_rotate_left a 25;
         c = (c XOR b) - hash32_rotate_left b 16;
         a = (a XOR c) - hash32_rotate_left c 4;
         b = (b XOR a) - hash32_rotate_left a 14;
         c = (c XOR b) - hash32_rotate_left b 24
     in (a, b, c))"

text \<open>The same in steps, for callers that interleave several computations.\<close>

definition hash_v3_mix32_step1 :: "u32 \<times> u32 \<times> u32 \<Rightarrow> u32 \<times> u32 \<times> u32" where
  "hash_v3_mix32_step1 = (\<lambda>(a, b, c).
     let a = (a - c) XOR hash32_rotate_left c 4; c = c + b;
         b = (b - a) XOR hash32_rotate_left a 6; a = a + c
     in (a, b, c))"

definition hash_v3_mix32_step2 :: "u32 \<times> u32 \<times> u32 \<Rightarrow> u32 \<times> u32 \<times> u32" where
  "hash_v3_mix32_step2 = (\<lambda>(a, b, c).
     let c = (c - b) XOR hash32_rotate_left b 8; b = b + a;
         a = (a - c) XOR hash32_rotate_left c 16; c = c + b
     in (a, b, c))"

definition hash_v3_mix32_step3 :: "u32 \<times> u32 \<times> u32 \<Rightarrow> u32 \<times> u32 \<times> u32" where
  "hash_v3_mix32_step3 = (\<lambda>(a, b, c).
     let b = (b - a) XOR hash32_rotate_left a 19; a = a + c;
         c = (c - b) XOR hash32_rotate_left b 4; b = b + a
     in (a, b, c))"

definition hash_v3_finalize32_step1 :: "u32 \<times> u32 \<times> u32 \<Rightarrow> u32 \<times> u32 \<times> u32" where
  "hash_v3_finalize32_step1 = (\<lambda>(a, b, c).
     let c = (c XOR b) - hash32_rotate_left b 14;
         a = (a XOR c) - hash32_rotate_left c 11
     in (a, b, c))"

definition hash_v3_finalize32_step2 :: "u32 \<times> u32 \<times> u32 \<Rightarrow> u32 \<times> u32 \<times> u32" where
  "hash_v3_finalize32_step2 = (\<lambda>(a, b, c).
     let b = (b XOR a) - hash32_rotate_left a 25;
         c = (c XOR b) - hash32_rotate_left b 16
     in (a, b, c))"

definition hash_v3_finalize32_step3 :: "u32 \<times> u32 \<times> u32 \<Rightarrow> u32 \<times> u32 \<times> u32" where
  "hash_v3_finalize32_step3 = (\<lambda>(a, b, c).
     let a = (a XOR c) - hash32_rotate_left c 4;
         b = (b XOR a) - hash32_rotate_left a 14;
         c = (c XOR b) - hash32_rotate_left b 24
     in (a, b, c))"

section \<open>Hashing memory\<close>

text \<open>\<open>clib_mem_unaligned\<close>: a word of n bytes at an offset.\<close>

fun load_bytes :: "(nat \<Rightarrow> u8) \<Rightarrow> nat \<Rightarrow> nat \<Rightarrow> 'a::len word" where
  "load_bytes p q 0 = 0"
| "load_bytes p q (Suc n) = push_bit 8 (load_bytes p (Suc q) n) OR ucast (p q)"

definition zap :: "nat \<Rightarrow> 'a::len word \<Rightarrow> 'a word" where
  "zap n x = x AND (2 ^ (8 * n) - 1)"

text \<open>
  The loop and the switch of \<open>hash_memory64\<close> and \<open>hash_memory32\<close>, which differ in the number of bytes
  of a word only: w is \<open>sizeof (u64)\<close> or \<open>sizeof (u32)\<close>.
\<close>

function hash_memory_loop ::
    "('a::len word \<times> 'a word \<times> 'a word \<Rightarrow> 'a word \<times> 'a word \<times> 'a word) \<Rightarrow> nat \<Rightarrow> (nat \<Rightarrow> u8) \<Rightarrow> nat \<Rightarrow> nat
      \<Rightarrow> 'a word \<times> 'a word \<times> 'a word \<Rightarrow> ('a word \<times> 'a word \<times> 'a word) \<times> nat \<times> nat" where
  "hash_memory_loop mix w p q n s =
     (if 0 < w \<and> 3 * w \<le> n
      then let (a, b, c) = s
           in hash_memory_loop mix w p (q + 3 * w) (n - 3 * w)
                (mix (a + load_bytes p q w, b + load_bytes p (q + w) w, c + load_bytes p (q + 2 * w) w))
      else (s, q, n))"
  by pat_completeness auto
termination by (relation "measure (\<lambda>(mix, w, p, q, n, s). n)") auto

declare hash_memory_loop.simps [simp del]

definition hash_memory_tail ::
    "nat \<Rightarrow> (nat \<Rightarrow> u8) \<Rightarrow> nat \<Rightarrow> nat \<Rightarrow> 'a::len word \<times> 'a word \<times> 'a word \<Rightarrow> 'a word \<times> 'a word \<times> 'a word" where
  "hash_memory_tail w p q n = (\<lambda>(a, b, c).
     case n div w of
       Suc (Suc 0) \<Rightarrow>
         (a + load_bytes p q w, b + load_bytes p (q + w) w,
          if n mod w \<noteq> 0 then c + push_bit 8 (zap (n mod w) (load_bytes p (q + 2 * w) w)) else c)
     | Suc 0 \<Rightarrow>
         (a + load_bytes p q w, if n mod w \<noteq> 0 then b + zap (n mod w) (load_bytes p (q + w) w) else b, c)
     | 0 \<Rightarrow> (if n mod w \<noteq> 0 then a + zap (n mod w) (load_bytes p q w) else a, b, c)
     | _ \<Rightarrow> (a, b, c))"

definition hash_memory64 :: "(nat \<Rightarrow> u8) \<Rightarrow> nat \<Rightarrow> u64 \<Rightarrow> u64" where
  "hash_memory64 p n_bytes state =
     (let g = 0x9e3779b97f4a7c13;
          ((a, b, c), q, n) = hash_memory_loop hash_mix64 8 p 0 n_bytes (g, g, state);
          (a, b, c) = hash_mix64 (hash_memory_tail 8 p q n (a, b, c + of_nat n_bytes))
      in c)"

definition hash_memory32 :: "(nat \<Rightarrow> u8) \<Rightarrow> nat \<Rightarrow> u32 \<Rightarrow> u32" where
  "hash_memory32 p n_bytes state =
     (let g = 0x9e3779b9;
          ((a, b, c), q, n) = hash_memory_loop hash_mix32 4 p 0 n_bytes (g, g, state);
          (a, b, c) = hash_mix32 (hash_memory_tail 4 p q n (a, b, c + of_nat n_bytes))
      in c)"

definition hash_memory :: "(nat \<Rightarrow> u8) \<Rightarrow> nat \<Rightarrow> uword \<Rightarrow> uword" where
  "hash_memory p n_bytes state = hash_memory64 p n_bytes state"

definition hash_uword :: "uword \<Rightarrow> uword" where
  "hash_uword x =
     (let g = 0x9e3779b97f4a7c13; (a, b, c) = hash_mix64 (g + x, g, 0) in c)"

section \<open>Keys\<close>

definition at :: "memory \<Rightarrow> uword \<Rightarrow> nat \<Rightarrow> u8" where
  "at mem p i = mem (p + of_nat i)"

text \<open>
  \<open>strlen\<close> stops at the latest when it has seen every address. (No C program gets there: it would have
  left the object the string is in.)
\<close>

function strlen_from :: "memory \<Rightarrow> uword \<Rightarrow> nat \<Rightarrow> nat" where
  "strlen_from mem p n = (if at mem p n = 0 \<or> 2 ^ 64 \<le> n then n else strlen_from mem p (n + 1))"
  by pat_completeness auto
termination by (relation "measure (\<lambda>(mem, p, n). 2 ^ 64 - n)") auto

declare strlen_from.simps [simp del]

definition strlen :: "memory \<Rightarrow> uword \<Rightarrow> nat" where
  "strlen mem p = strlen_from mem p 0"

definition bytes_at :: "memory \<Rightarrow> uword \<Rightarrow> nat \<Rightarrow> u8 list" where
  "bytes_at mem p n = map (at mem p) [0..<n]"

text \<open>The user's word of the table header is the first argument of the functions that use it.\<close>

definition mem_key_sum :: "memory \<Rightarrow> uword \<Rightarrow> uword \<Rightarrow> uword" where
  "mem_key_sum mem user key = hash_memory (at mem key) (unat user) 0"

definition mem_key_equal :: "memory \<Rightarrow> uword \<Rightarrow> uword \<Rightarrow> uword \<Rightarrow> bool" where
  "mem_key_equal mem user key1 key2 \<longleftrightarrow>
     key1 \<noteq> 0 \<and> key2 \<noteq> 0 \<and> bytes_at mem key1 (unat user) = bytes_at mem key2 (unat user)"

definition string_key_sum :: "memory \<Rightarrow> uword \<Rightarrow> uword" where
  "string_key_sum mem key = hash_memory (at mem key) (strlen mem key) 0"

definition string_key_equal :: "memory \<Rightarrow> uword \<Rightarrow> uword \<Rightarrow> bool" where
  "string_key_equal mem key1 key2 \<longleftrightarrow>
     key1 \<noteq> 0 \<and> key2 \<noteq> 0 \<and> bytes_at mem key1 (strlen mem key1) = bytes_at mem key2 (strlen mem key2)"

definition vec_key_sum :: "memory \<Rightarrow> (uword \<Rightarrow> nat) \<Rightarrow> uword \<Rightarrow> uword \<Rightarrow> uword" where
  "vec_key_sum mem vec_length user key = hash_memory (at mem key) (vec_length key * unat user) 0"

definition vec_key_equal :: "memory \<Rightarrow> (uword \<Rightarrow> nat) \<Rightarrow> uword \<Rightarrow> uword \<Rightarrow> uword \<Rightarrow> bool" where
  "vec_key_equal mem vec_length user key1 key2 \<longleftrightarrow>
     vec_length key1 = vec_length key2
     \<and> bytes_at mem key1 (vec_length key1 * unat user) = bytes_at mem key2 (vec_length key1 * unat user)"

section \<open>What the hash functions depend on\<close>

text \<open>The way back of a mixing step.\<close>

definition hash_unmix_step ::
    "nat \<Rightarrow> nat \<Rightarrow> nat \<Rightarrow> 'a::len word \<times> 'a word \<times> 'a word \<Rightarrow> 'a word \<times> 'a word \<times> 'a word" where
  "hash_unmix_step s0 s1 s2 = (\<lambda>(a, b, c).
     let c = (c XOR drop_bit s2 b) + (a + b);
         b = (b XOR push_bit s1 a) + (c + a);
         a = (a XOR drop_bit s0 c) + (b + c)
     in (a, b, c))"

lemma hash_unmix_mix: "hash_unmix_step s0 s1 s2 (hash_mix_step s0 s1 s2 x) = x"
proof -
  obtain a b c where x: "x = (a, b, c)" by (cases x)
  define A where "A = (a - (b + c)) XOR drop_bit s0 c"
  define B where "B = (b - (c + A)) XOR push_bit s1 A"
  define C where "C = (c - (A + B)) XOR drop_bit s2 B"
  have "hash_mix_step s0 s1 s2 x = (A, B, C)"
    unfolding x hash_mix_step_def Let_def prod.case A_def [symmetric] B_def [symmetric] C_def [symmetric] ..
  moreover have "A XOR drop_bit s0 c = a - (b + c)" "B XOR push_bit s1 A = b - (c + A)" "C XOR drop_bit s2 B = c - (A + B)"
    by (simp_all only: A_def B_def C_def xor_twice)
  ultimately show ?thesis unfolding x hash_unmix_step_def Let_def by simp
qed

lemma hash_mix_step_inj: "hash_mix_step s0 s1 s2 x = hash_mix_step s0 s1 s2 y \<Longrightarrow> x = y"
  by (metis hash_unmix_mix)

text \<open>The bytes of a word.\<close>

lemma bit_load_bytes:
  "bit (load_bytes p q n :: 'a::len word) j \<longleftrightarrow> j < LENGTH('a) \<and> j < 8 * n \<and> bit (p (q + j div 8)) (j mod 8)"
proof (induction p q n arbitrary: j rule: load_bytes.induct)
  case (2 p q n)
  show ?case
  proof (cases "j < 8")
    case True
    then show ?thesis unfolding load_bytes.simps bit_or_iff bit_push_bit_iff by (auto simp: bit_ucast_iff)
  next
    case False
    then obtain k where j: "j = k + 8" by (metis add.commute le_Suc_ex not_less)
    have "\<not> bit (p q) j" using False bit_imp_le_length [of "p q" j] by auto
    moreover have "(k + 8) div 8 = Suc (k div 8)" by simp
    ultimately show ?thesis unfolding load_bytes.simps bit_or_iff bit_push_bit_iff 2 j by (auto simp: bit_ucast_iff)
  qed
qed simp

lemma load_bytes_cong:
  "(\<And>i. q \<le> i \<Longrightarrow> i < q + n \<Longrightarrow> p i = p' i) \<Longrightarrow> load_bytes p q n = load_bytes p' q n"
  by (induction p q n rule: load_bytes.induct) auto

lemma zap_load_cong:
  assumes "\<And>i. q \<le> i \<Longrightarrow> i < q + k \<Longrightarrow> p i = p' i" and "8 * k < LENGTH('a)"
  shows "zap k (load_bytes p q n) = (zap k (load_bytes p' q n) :: 'a::len word)"
proof (rule bit_word_eqI)
  fix j :: nat
  have "p (q + j div 8) = p' (q + j div 8)" if "j < 8 * k"
    using that assms(1) [of "q + j div 8"] by (simp add: div_less_iff_less_mult mult.commute)
  then show "bit (zap k (load_bytes p q n) :: 'a word) j \<longleftrightarrow> bit (zap k (load_bytes p' q n) :: 'a word) j"
    using assms(2) by (auto simp: zap_def bit_and_iff bit_load_bytes mask_eq_exp_minus_1 [symmetric] bit_mask_iff)
qed

lemma hash_memory_loop_cong:
  "(\<And>i. q \<le> i \<Longrightarrow> i < q + n \<Longrightarrow> p i = p' i) \<Longrightarrow>
    hash_memory_loop mix w p q n s = hash_memory_loop mix w p' q n s"
proof (induction mix w p q n s rule: hash_memory_loop.induct)
  case (1 mix w p q n s)
  obtain a b c where s: "s = (a, b, c)" by (cases s)
  show ?case
  proof (cases "0 < w \<and> 3 * w \<le> n")
    case True
    then have "load_bytes p q w = (load_bytes p' q w :: 'a word)" "load_bytes p (q + w) w = (load_bytes p' (q + w) w :: 'a word)"
      "load_bytes p (q + 2 * w) w = (load_bytes p' (q + 2 * w) w :: 'a word)"
      by (auto intro!: load_bytes_cong 1(2))
    then show ?thesis
      using 1(1) [OF True s [symmetric] refl] 1(2) True s
      by (simp add: hash_memory_loop.simps [of mix w _ q n])
  next
    case False
    then show ?thesis by (simp only: hash_memory_loop.simps [of mix w _ q n] if_False)
  qed
qed

lemma hash_memory_loop_end:
  "hash_memory_loop mix w p q n s = (s', q', n') \<Longrightarrow> 0 < w \<Longrightarrow> q' + n' = q + n \<and> n' < 3 * w \<and> q \<le> q'"
proof (induction mix w p q n s rule: hash_memory_loop.induct)
  case (1 mix w p q n s)
  obtain a b c where s: "s = (a, b, c)" by (cases s)
  show ?case
  proof (cases "0 < w \<and> 3 * w \<le> n")
    case True
    then show ?thesis using 1(1) [OF True s [symmetric] refl] 1(2,3) s
      by (simp add: hash_memory_loop.simps [of mix w p q n])
  qed (use 1(2,3) in \<open>auto simp: hash_memory_loop.simps [of mix w p q n]\<close>)
qed

lemma hash_memory_tail_cong:
  assumes "\<And>i. q \<le> i \<Longrightarrow> i < q + n \<Longrightarrow> p i = p' i" and "0 < w" and "8 * w = LENGTH('a)" and "n < 3 * w"
  shows "hash_memory_tail w p q n s = (hash_memory_tail w p' q n s :: 'a::len word \<times> 'a word \<times> 'a word)"
proof -
  have m: "n mod w < w" using assms(2) by simp
  then have k: "8 * (n mod w) < LENGTH('a)" using assms(3) by linarith
  have n: "n = n div w * w + n mod w" by simp
  have z: "zap (n mod w) (load_bytes p (q + n div w * w) w) = (zap (n mod w) (load_bytes p' (q + n div w * w) w) :: 'a word)"
    by (rule zap_load_cong [OF _ k]) (use n in \<open>auto intro!: assms(1)\<close>)
  have l: "load_bytes p (q + i * w) w = (load_bytes p' (q + i * w) w :: 'a word)" if "i < n div w" for i
  proof (rule load_bytes_cong, rule assms(1))
    fix j assume j: "q + i * w \<le> j" "j < q + i * w + w"
    show "q \<le> j" using j by simp
    have "Suc i * w \<le> n div w * w" using that by (intro mult_le_mono1) simp
    then show "j < q + n" using j n by (metis add.assoc add_le_mono1 le_add1 mult_Suc add.commute order_less_le_trans le_trans add_left_mono)
  qed
  have "n div w < 3" using assms(2,4) by (simp add: div_less_iff_less_mult)
  then consider "n div w = 0" | "n div w = 1" | "n div w = 2" by linarith
  then show ?thesis
  proof cases
    case 1 then show ?thesis using z by (cases s) (simp add: hash_memory_tail_def)
  next
    case 2 then show ?thesis using z l [of 0] by (cases s) (simp add: hash_memory_tail_def)
  next
    case 3 then show ?thesis using z l [of 0] l [of 1] by (cases s) (simp add: hash_memory_tail_def numeral_2_eq_2)
  qed
qed

lemma hash_memory64_cong:
  assumes "\<And>i. i < n \<Longrightarrow> p i = p' i"
  shows "hash_memory64 p n state = hash_memory64 p' n state"
proof -
  let ?g = "0x9e3779b97f4a7c13 :: u64"
  obtain a b c q m where l: "hash_memory_loop hash_mix64 8 p 0 n (?g, ?g, state) = ((a, b, c), q, m)"
    by (metis prod_cases3 surj_pair)
  then have e: "q + m = n" "m < 24" using hash_memory_loop_end [OF l] by simp_all
  have l': "hash_memory_loop hash_mix64 8 p' 0 n (?g, ?g, state) = ((a, b, c), q, m)"
    using l hash_memory_loop_cong [of 0 n p' p hash_mix64 8 "(?g, ?g, state)"] assms by simp
  have "hash_memory_tail 8 p q m s = hash_memory_tail 8 p' q m (s :: u64 \<times> u64 \<times> u64)" for s
    using e assms by (intro hash_memory_tail_cong) auto
  then show ?thesis unfolding hash_memory64_def l l' Let_def prod.case by simp
qed

lemma hash_memory32_cong:
  assumes "\<And>i. i < n \<Longrightarrow> p i = p' i"
  shows "hash_memory32 p n state = hash_memory32 p' n state"
proof -
  let ?g = "0x9e3779b9 :: u32"
  obtain a b c q m where l: "hash_memory_loop hash_mix32 4 p 0 n (?g, ?g, state) = ((a, b, c), q, m)"
    by (metis prod_cases3 surj_pair)
  then have e: "q + m = n" "m < 12" using hash_memory_loop_end [OF l] by simp_all
  have l': "hash_memory_loop hash_mix32 4 p' 0 n (?g, ?g, state) = ((a, b, c), q, m)"
    using l hash_memory_loop_cong [of 0 n p' p hash_mix32 4 "(?g, ?g, state)"] assms by simp
  have "hash_memory_tail 4 p q m s = hash_memory_tail 4 p' q m (s :: u32 \<times> u32 \<times> u32)" for s
    using e assms by (intro hash_memory_tail_cong) auto
  then show ?thesis unfolding hash_memory32_def l l' Let_def prod.case by simp
qed

lemma bytes_at_eq_iff: "bytes_at mem p n = bytes_at mem q n \<longleftrightarrow> (\<forall>i<n. at mem p i = at mem q i)"
  by (auto simp: bytes_at_def)

lemma length_bytes_at [simp]: "length (bytes_at mem p n) = n"
  by (simp add: bytes_at_def)

lemma hash_memory_bytes:
  "bytes_at mem p n = bytes_at mem q n \<Longrightarrow> hash_memory (at mem p) n state = hash_memory (at mem q) n state"
  unfolding hash_memory_def bytes_at_eq_iff by (rule hash_memory64_cong) simp

text \<open>mixing loses nothing: the three words can be recovered from the mixed ones, in the 64 and the
  32 bit version.\<close>

theorem hash_mix_injective: "inj hash_mix64 \<and> inj hash_mix32"
  unfolding inj_def hash_mix64_def hash_mix32_def by (blast dest!: hash_mix_step_inj)

text \<open>\<open>hash_memory64\<close> and \<open>hash_memory32\<close> read whole words, past the end of the memory they are given,
  but their value depends on the given bytes only.\<close>

theorem hash_memory_only_given_bytes:
  assumes "\<forall>i < n. p i = p' i"
  shows "hash_memory64 p n state = hash_memory64 p' n state \<and> hash_memory32 p n state' = hash_memory32 p' n state'"
  using assms hash_memory64_cong hash_memory32_cong by blast

theorem hash_memory_only_given_bytes_witness:
  "hash_memory64 (\<lambda>i. if i < 11 then 7 else 0) 11 0 = hash_memory64 (\<lambda>i. 7) 11 0
    \<and> hash_memory32 (\<lambda>i. if i < 11 then 7 else 0) 11 0 = hash_memory32 (\<lambda>i. 7) 11 0"
  by (rule hash_memory_only_given_bytes) simp

text \<open>The stepwise versions of the mixing and finalizing macros compose to the macros.\<close>

lemma hash_v3_steps:
  "hash_v3_mix32_step3 (hash_v3_mix32_step2 (hash_v3_mix32_step1 s)) = hash_v3_mix32 s"
  "hash_v3_finalize32_step3 (hash_v3_finalize32_step2 (hash_v3_finalize32_step1 s)) = hash_v3_finalize32 s"
  by (cases s; simp add: hash_v3_mix32_def hash_v3_mix32_step1_def hash_v3_mix32_step2_def hash_v3_mix32_step3_def
      hash_v3_finalize32_def hash_v3_finalize32_step1_def hash_v3_finalize32_step2_def hash_v3_finalize32_step3_def Let_def)+

end
