(* ===== verification/Clib_Hash.thy ===== *)
theory Clib_Hash
  imports Clib_Hash_Sum Clib_Arith "HOL-Library.Multiset"
begin

text \<open>
  The hash table: \<open>src/clib/hash.c\<close> and \<open>src/clib/hash.h\<close>. A table is a vector of slots behind a header. The bit
  of a slot in the \<open>is_user\<close> bitmap says which member of the union \<open>hash_pair_union_t\<close> is live; in the
  model it is the constructor of the slot. An indirect slot has its pairs and the logarithm of the
  bytes allocated for them; no pairs stand for the null pointer, as in the zeroed slots of a new table.
  A pair is a key and the words of its value. The header's fields for formatting are left out.

  Key functions other than the special ones are called through the header: they are a parameter of
  the model (\<open>call_sum\<close>, \<open>call_equal\<close>), as is the memory keys point to. \<open>None\<close> as the result of an operation
  that creates a table stands for the shift \<open>1 << max_log2 (elts)\<close> out of the range of an \<open>int\<close>.
\<close>

section \<open>The header and its key functions\<close>

datatype key_func =
    KEY_FUNC_NONE
  | KEY_FUNC_POINTER_UWORD
  | KEY_FUNC_POINTER_U32
  | KEY_FUNC_STRING
  | KEY_FUNC_CALL

record key_env =
  mem :: memory
  call_sum :: "uword \<Rightarrow> uword \<Rightarrow> uword"
  call_equal :: "uword \<Rightarrow> uword \<Rightarrow> uword \<Rightarrow> bool"

type_synonym hash_value = "uword list"
type_synonym hash_pair = "uword \<times> hash_value"

datatype hash_pair_union =
    Direct hash_pair
  | Indirect "hash_pair list" nat

record hash =
  h_elts :: nat
  h_flags :: u32
  h_log2_pair_size :: nat
  h_key_sum :: key_func
  h_key_equal :: key_func
  h_user :: uword
  h_slots :: "hash_pair_union list"

definition HASH_FLAG_NO_AUTO_GROW :: u32 where
  "HASH_FLAG_NO_AUTO_GROW = 1"

definition HASH_FLAG_NO_AUTO_SHRINK :: u32 where
  "HASH_FLAG_NO_AUTO_SHRINK = 2"

definition HASH_FLAG_HASH_NEXT_IN_PROGRESS :: u32 where
  "HASH_FLAG_HASH_NEXT_IN_PROGRESS = 4"

definition hash_set_flags :: "hash \<Rightarrow> u32 \<Rightarrow> hash" where
  "hash_set_flags h flags = h\<lparr>h_flags := h_flags h OR flags\<rparr>"

definition hash_elts :: "hash option \<Rightarrow> nat" where
  "hash_elts v = (case v of None \<Rightarrow> 0 | Some h \<Rightarrow> h_elts h)"

definition hash_capacity :: "hash option \<Rightarrow> nat" where
  "hash_capacity v = (case v of None \<Rightarrow> 0 | Some h \<Rightarrow> length (h_slots h))"

definition hash_is_user :: "hash \<Rightarrow> nat \<Rightarrow> bool" where
  "hash_is_user h i = (case h_slots h ! i of Direct _ \<Rightarrow> True | Indirect _ _ \<Rightarrow> False)"

definition hash_pair_log2_bytes :: "hash \<Rightarrow> nat" where
  "hash_pair_log2_bytes h = h_log2_pair_size h + 3"

definition hash_pair_bytes :: "hash \<Rightarrow> nat" where
  "hash_pair_bytes h = 2 ^ hash_pair_log2_bytes h"

definition hash_value_bytes :: "hash \<Rightarrow> nat" where
  "hash_value_bytes h = 8 * 2 ^ h_log2_pair_size h - 8"

abbreviation value_words :: "hash \<Rightarrow> nat" where
  "value_words h \<equiv> hash_value_bytes h div 8"

definition key_sum :: "key_env \<Rightarrow> hash \<Rightarrow> uword \<Rightarrow> uword" where
  "key_sum K h key =
     (case h_key_sum h of
        KEY_FUNC_NONE \<Rightarrow> hash_uword key
      | KEY_FUNC_POINTER_UWORD \<Rightarrow> hash_uword (load_bytes (at (mem K) key) 0 8)
      | KEY_FUNC_POINTER_U32 \<Rightarrow> hash_uword (load_bytes (at (mem K) key) 0 4)
      | KEY_FUNC_STRING \<Rightarrow> string_key_sum (mem K) key
      | KEY_FUNC_CALL \<Rightarrow> call_sum K (h_user h) key)"

definition key_equal1 :: "key_env \<Rightarrow> hash \<Rightarrow> uword \<Rightarrow> uword \<Rightarrow> bool \<Rightarrow> bool" where
  "key_equal1 K h key1 key2 e =
     (case h_key_equal h of
        KEY_FUNC_NONE \<Rightarrow> e
      | KEY_FUNC_POINTER_UWORD \<Rightarrow> (load_bytes (at (mem K) key1) 0 8 :: uword) = load_bytes (at (mem K) key2) 0 8
      | KEY_FUNC_POINTER_U32 \<Rightarrow> (load_bytes (at (mem K) key1) 0 4 :: uword) = load_bytes (at (mem K) key2) 0 4
      | KEY_FUNC_STRING \<Rightarrow> string_key_equal (mem K) key1 key2
      | KEY_FUNC_CALL \<Rightarrow> call_equal K (h_user h) key1 key2)"

definition key_equal :: "key_env \<Rightarrow> hash \<Rightarrow> uword \<Rightarrow> uword \<Rightarrow> bool" where
  "key_equal K h key1 key2 =
     (let e = (key1 = key2) in if \<not> e then key_equal1 K h key1 key2 e else e)"

section \<open>Slots\<close>

text \<open>The two numbers of an indirect slot are packed into the word \<open>alloc_len\<close>; the model keeps them apart.\<close>

definition indirect_pair_set :: "nat \<Rightarrow> nat \<Rightarrow> uword" where
  "indirect_pair_set log2_alloc len = push_bit 59 (of_nat log2_alloc) OR of_nat len"

definition indirect_pair_get_log2_bytes :: "uword \<Rightarrow> nat" where
  "indirect_pair_get_log2_bytes alloc_len = unat (drop_bit 59 alloc_len)"

definition indirect_pair_get_len :: "uword \<Rightarrow> nat" where
  "indirect_pair_get_len alloc_len = unat (alloc_len AND (push_bit 59 1 - 1))"

lemma indirect_pair_round_trip:
  assumes "log2_alloc < 32" and "len < 2 ^ 59"
  shows "indirect_pair_get_log2_bytes (indirect_pair_set log2_alloc len) = log2_alloc"
    and "indirect_pair_get_len (indirect_pair_set log2_alloc len) = len"
proof -
  let ?l = "of_nat log2_alloc :: uword" and ?n = "of_nat len :: uword"
  have l: "unat ?l = log2_alloc" and n: "unat ?n = len" using assms by (simp_all add: unat_of_nat_u64)
  have lb: "\<not> bit ?l i" if "5 \<le> i" for i using unat_less_exp_iff [of ?l 5] assms(1) l that by simp
  have nb: "\<not> bit ?n i" if "59 \<le> i" for i using unat_less_exp_iff [of ?n 59] assms(2) n that by simp
  have "drop_bit 59 (push_bit 59 ?l OR ?n) = ?l"
  proof (rule uword_eqI)
    fix i :: nat
    show "bit (drop_bit 59 (push_bit 59 ?l OR ?n)) i \<longleftrightarrow> bit ?l i"
      using lb [of i] nb [of "59 + i"] unfolding bit_drop_bit_eq bit_or_iff bit_push_bit_iff
      by (cases "5 \<le> i") (auto simp: not_le)
  qed
  then show "indirect_pair_get_log2_bytes (indirect_pair_set log2_alloc len) = log2_alloc"
    using l by (simp add: indirect_pair_get_log2_bytes_def indirect_pair_set_def)
  have "(push_bit 59 ?l OR ?n) AND (2 ^ 59 - 1) = ?n"
  proof (rule uword_eqI)
    fix i :: nat
    show "bit ((push_bit 59 ?l OR ?n) AND (2 ^ 59 - 1)) i \<longleftrightarrow> bit ?n i"
      using nb [of i] unfolding bit_and_iff bit_or_iff bit_push_bit_iff mask_eq_exp_minus_1 [symmetric] bit_mask_iff
      by (cases "59 \<le> i") (auto simp: not_le)
  qed
  then show "indirect_pair_get_len (indirect_pair_set log2_alloc len) = len"
    using n by (simp add: indirect_pair_get_len_def indirect_pair_set_def)
qed

definition zero_slot :: hash_pair_union where
  "zero_slot = Indirect [] 0"

definition init_pair :: "hash \<Rightarrow> hash_value" where
  "init_pair h = replicate (value_words h) (NOT 0)"

text \<open>The position of the key among the pairs of an indirect slot.\<close>

fun get_indirect :: "key_env \<Rightarrow> hash \<Rightarrow> hash_pair list \<Rightarrow> uword \<Rightarrow> nat option" where
  "get_indirect K h [] key = None"
| "get_indirect K h (p # ps) key =
     (if key_equal K h (fst p) key then Some 0 else map_option Suc (get_indirect K h ps key))"

definition set_indirect_is_user :: "hash \<Rightarrow> hash_pair \<Rightarrow> uword \<Rightarrow> hash_pair list \<times> nat" where
  "set_indirect_is_user h p key =
     ([p, (key, init_pair h)], if h_log2_pair_size h = 0 then 0 else 1 + hash_pair_log2_bytes h)"

text \<open>The pairs and their allocation, the position of the key's pair, and whether it was found.\<close>

definition set_indirect ::
    "key_env \<Rightarrow> hash \<Rightarrow> hash_pair list \<Rightarrow> nat \<Rightarrow> uword \<Rightarrow> hash_pair list \<times> nat \<times> nat \<times> bool" where
  "set_indirect K h ps log2_bytes key =
     (case get_indirect K h ps key of
        Some q \<Rightarrow> (ps, log2_bytes, q, True)
      | None \<Rightarrow>
          let new_len = length ps + 1;
              log2_bytes = (if h_log2_pair_size h \<noteq> 0 \<and> 2 ^ log2_bytes < new_len * hash_pair_bytes h
                            then log2_bytes + 1 else log2_bytes)
          in (ps @ [(key, init_pair h)], log2_bytes, length ps, False))"

definition unset_indirect :: "hash_pair list \<Rightarrow> nat \<Rightarrow> nat \<Rightarrow> hash_pair_union" where
  "unset_indirect ps log2_bytes q =
     (let len = length ps
      in if len \<le> 2
         then if len = 2 then Direct (if q = 0 then ps ! 1 else ps ! 0) else zero_slot
         else Indirect (butlast (if q < len - 1 then ps[q := ps ! (len - 1)] else ps)) log2_bytes)"

section \<open>Lookup\<close>

datatype lookup_opcode = GET | SET | UNSET

definition bucket :: "key_env \<Rightarrow> hash \<Rightarrow> uword \<Rightarrow> nat" where
  "bucket K h key = unat (key_sum K h key AND (of_nat (length (h_slots h)) - 1))"

definition put_value :: "hash_pair list \<Rightarrow> nat \<Rightarrow> hash_value \<Rightarrow> hash_pair list" where
  "put_value ps q v = ps[q := (fst (ps ! q), v)]"

text \<open>
  The table after the operation, the pair that is returned (\<open>None\<close> is the null pointer) and the old
  value that is saved for the caller when the key was found. The new value is used by \<open>SET\<close> only.
\<close>

definition lookup ::
    "key_env \<Rightarrow> hash \<Rightarrow> uword \<Rightarrow> lookup_opcode \<Rightarrow> hash_value \<Rightarrow> hash \<times> hash_pair option \<times> hash_value option" where
  "lookup K h key op new_value =
     (let i = bucket K h key;
          set_slot = (\<lambda>s. h\<lparr>h_slots := (h_slots h)[i := s]\<rparr>);
          add1 = (\<lambda>h. h\<lparr>h_elts := h_elts h + 1\<rparr>);
          sub1 = (\<lambda>h. h\<lparr>h_elts := h_elts h - 1\<rparr>)
      in case h_slots h ! i of
           Direct p \<Rightarrow>
             if key_equal K h (fst p) key
             then (case op of
                     GET \<Rightarrow> (h, Some p, None)
                   | SET \<Rightarrow> (set_slot (Direct (fst p, new_value)), Some (fst p, new_value), Some (snd p))
                   | UNSET \<Rightarrow> (sub1 (set_slot zero_slot), Some (0, replicate (value_words h) 0), Some (snd p)))
             else if op = SET
             then let (ps, log2_bytes) = set_indirect_is_user h p key
                  in (add1 (set_slot (Indirect (put_value ps 1 new_value) log2_bytes)), Some (key, new_value), None)
             else (h, None, None)
         | Indirect ps log2_bytes \<Rightarrow>
             if op = SET
             then if ps = []
                  then (add1 (set_slot (Direct (key, new_value))), Some (key, new_value), None)
                  else let (ps', log2_bytes, q, found_key) = set_indirect K h ps log2_bytes key;
                           h' = set_slot (Indirect (put_value ps' q new_value) log2_bytes)
                       in (if found_key then h' else add1 h', Some (fst (ps' ! q), new_value),
                           if found_key then Some (snd (ps' ! q)) else None)
             else case get_indirect K h ps key of
                    None \<Rightarrow> (h, None, None)
                  | Some q \<Rightarrow>
                      if op = UNSET then (sub1 (set_slot (unset_indirect ps log2_bytes q)), None, Some (snd (ps ! q)))
                      else (h, Some (ps ! q), None))"

text \<open>\<open>_hash_get\<close> returns a pointer to the value, or to the key in a table without values.\<close>

definition hash_get_pair :: "key_env \<Rightarrow> hash option \<Rightarrow> uword \<Rightarrow> hash_pair option" where
  "hash_get_pair K v key = (case v of None \<Rightarrow> None | Some h \<Rightarrow> fst (snd (lookup K h key GET [])))"

definition hash_get :: "key_env \<Rightarrow> hash option \<Rightarrow> uword \<Rightarrow> uword list option" where
  "hash_get K v key =
     (case v of
        None \<Rightarrow> None
      | Some h \<Rightarrow>
          if h_elts h = 0 then None
          else case fst (snd (lookup K h key GET [])) of
                 None \<Rightarrow> None
               | Some p \<Rightarrow> Some (if h_log2_pair_size h = 0 then [fst p] else snd p))"

section \<open>Creation, resizing, setting and unsetting\<close>

definition hash_set_value_bytes :: "nat \<Rightarrow> nat" where
  "hash_set_value_bytes value_bytes = max_log2 (of_nat ((8 + value_bytes + 8 - 1) div 8))"

definition hash_create_like :: "nat \<Rightarrow> hash \<Rightarrow> hash option" where
  "hash_create_like elts h_usr =
     (let elts = max elts 64; l = max_log2 (of_nat elts)
      in if l < 31 then Some (h_usr\<lparr>h_elts := 0, h_slots := replicate (2 ^ l) zero_slot\<rparr>) else None)"

definition hash_create_default :: "nat \<Rightarrow> hash option" where
  "hash_create_default elts =
     hash_create_like elts \<lparr>h_elts = 0, h_flags = HASH_FLAG_NO_AUTO_SHRINK, h_log2_pair_size = 1,
       h_key_sum = KEY_FUNC_NONE, h_key_equal = KEY_FUNC_NONE, h_user = 0, h_slots = []\<rparr>"

definition hash_create2 :: "nat \<Rightarrow> uword \<Rightarrow> nat \<Rightarrow> key_func \<Rightarrow> key_func \<Rightarrow> hash option" where
  "hash_create2 elts user value_bytes ks ke =
     hash_create_like elts \<lparr>h_elts = 0, h_flags = 0, h_log2_pair_size = hash_set_value_bytes value_bytes,
       h_key_sum = ks, h_key_equal = ke, h_user = user, h_slots = []\<rparr>"

definition hash_create :: "nat \<Rightarrow> nat \<Rightarrow> hash option" where
  "hash_create elts value_bytes = hash_create2 elts 0 value_bytes KEY_FUNC_NONE KEY_FUNC_NONE"

definition slot_pairs :: "hash_pair_union \<Rightarrow> hash_pair list" where
  "slot_pairs s = (case s of Direct p \<Rightarrow> [p] | Indirect ps _ \<Rightarrow> ps)"

text \<open>The pairs in the order in which \<open>hash_foreach_pair\<close> runs its body on them.\<close>

definition hash_foreach_pair :: "hash option \<Rightarrow> hash_pair list" where
  "hash_foreach_pair v = (case v of None \<Rightarrow> [] | Some h \<Rightarrow> concat (map slot_pairs (h_slots h)))"

fun set_all :: "(hash \<Rightarrow> uword \<Rightarrow> hash_value \<Rightarrow> hash option) \<Rightarrow> hash \<Rightarrow> hash_pair list \<Rightarrow> hash option" where
  "set_all set3 new [] = Some new"
| "set_all set3 new (p # ps) =
     (case set3 new (fst p) (snd p) of None \<Rightarrow> None | Some new \<Rightarrow> set_all set3 new ps)"

text \<open>
  Setting a key may resize the table, which sets every key in a new one, which may have to be resized
  again (when growing was switched off for some time). The fuel bounds the depth of this recursion.
\<close>

primrec hash_set_fuel :: "nat \<Rightarrow> key_env \<Rightarrow> hash \<Rightarrow> uword \<Rightarrow> hash_value \<Rightarrow> hash option" where
  "hash_set_fuel 0 K h key value = None"
| "hash_set_fuel (Suc fuel) K h key value =
     (let h = fst (lookup K h key SET value)
      in if h_flags h AND HASH_FLAG_NO_AUTO_GROW = 0 \<and> 3 * length (h_slots h) < 4 * (h_elts h + 1)
         then case hash_create_like (2 * length (h_slots h)) h of
                None \<Rightarrow> None
              | Some new \<Rightarrow> set_all (hash_set_fuel fuel K) new (hash_foreach_pair (Some h))
         else Some h)"

definition hash_set3 ::
    "key_env \<Rightarrow> hash option \<Rightarrow> uword \<Rightarrow> hash_value \<Rightarrow> (hash \<times> hash_value option) option" where
  "hash_set3 K v key value =
     (case (case v of None \<Rightarrow> hash_create 0 8 | Some h \<Rightarrow> Some h) of
        None \<Rightarrow> None
      | Some h \<Rightarrow>
          case hash_set_fuel (h_elts h + 2) K h key value of
            None \<Rightarrow> None
          | Some h' \<Rightarrow> Some (h', snd (snd (lookup K h key SET value))))"

definition hash_resize_internal :: "key_env \<Rightarrow> hash option \<Rightarrow> nat \<Rightarrow> hash option option" where
  "hash_resize_internal K old new_size =
     (if 0 < new_size
      then case (case old of None \<Rightarrow> hash_create_default new_size | Some h \<Rightarrow> hash_create_like new_size h) of
             None \<Rightarrow> None
           | Some new \<Rightarrow>
               (case set_all (\<lambda>h k x. map_option fst (hash_set3 K (Some h) k x)) new (hash_foreach_pair old) of
                  None \<Rightarrow> None
                | Some new \<Rightarrow> Some (Some new))
      else Some None)"

definition hash_resize :: "key_env \<Rightarrow> hash option \<Rightarrow> nat \<Rightarrow> hash option option" where
  "hash_resize K old new_size = hash_resize_internal K old new_size"

definition hash_dup :: "key_env \<Rightarrow> hash option \<Rightarrow> hash option option" where
  "hash_dup K old = hash_resize_internal K old (hash_capacity old)"

definition hash_unset3 ::
    "key_env \<Rightarrow> hash option \<Rightarrow> uword \<Rightarrow> (hash option \<times> hash_value option) option" where
  "hash_unset3 K v key =
     (case v of
        None \<Rightarrow> Some (None, None)
      | Some h \<Rightarrow>
          let (h, p, old_value) = lookup K h key UNSET []
          in if h_flags h AND HASH_FLAG_NO_AUTO_SHRINK = 0
                \<and> 32 < h_elts h \<and> 4 * (h_elts h + 1) < length (h_slots h)
             then (case hash_resize K (Some h) (length (h_slots h) div 2) of
                     None \<Rightarrow> None
                   | Some v \<Rightarrow> Some (v, old_value))
             else Some (Some h, old_value))"

text \<open>
  Iteration with a saved state: the slot, the position in it and the saved flags. The loop ends after
  one round per slot left.
\<close>

record hash_next_state =
  hn_i :: nat
  hn_j :: nat
  hn_f :: u32

function hash_next_loop :: "hash \<Rightarrow> hash_next_state \<Rightarrow> hash \<times> hash_next_state \<times> hash_pair option" where
  "hash_next_loop h hn =
     (if length (h_slots h) \<le> hn_i hn
      then (h\<lparr>h_flags := hn_f hn\<rparr>, \<lparr>hn_i = 0, hn_j = 0, hn_f = 0\<rparr>, None)
      else case h_slots h ! hn_i hn of
             Direct p \<Rightarrow> (h, hn\<lparr>hn_i := hn_i hn + 1\<rparr>, Some p)
           | Indirect ps _ \<Rightarrow>
               if length ps \<le> hn_j hn
               then hash_next_loop h (hn\<lparr>hn_i := hn_i hn + 1, hn_j := 0\<rparr>)
               else (h, hn\<lparr>hn_j := hn_j hn + 1\<rparr>, Some (ps ! hn_j hn)))"
  by pat_completeness auto
termination by (relation "measure (\<lambda>(h, hn). length (h_slots h) - hn_i hn)") auto

declare hash_next_loop.simps [simp del]

definition hash_next :: "hash \<Rightarrow> hash_next_state \<Rightarrow> hash \<times> hash_next_state \<times> hash_pair option" where
  "hash_next h hn =
     (if hn_i hn = 0 \<and> hn_j hn = 0
      then hash_next_loop
             (h\<lparr>h_flags := h_flags h OR (HASH_FLAG_NO_AUTO_GROW OR HASH_FLAG_NO_AUTO_SHRINK OR HASH_FLAG_HASH_NEXT_IN_PROGRESS)\<rparr>)
             (hn\<lparr>hn_f := h_flags h\<rparr>)
      else hash_next_loop h hn)"

text \<open>The check of a table. Its result is \<open>True\<close> when it finds no error.\<close>

fun validate_pairs :: "hash_pair list \<Rightarrow> uword list \<Rightarrow> uword list option" where
  "validate_pairs [] keys = Some keys"
| "validate_pairs (p # ps) keys = (if fst p \<in> set keys then None else validate_pairs ps (keys @ [fst p]))"

fun validate_slots :: "hash_pair_union list \<Rightarrow> uword list \<Rightarrow> uword list option" where
  "validate_slots [] keys = Some keys"
| "validate_slots (Direct p # ss) keys = (if fst p = 0 then None else validate_slots ss (keys @ [fst p]))"
| "validate_slots (Indirect ps _ # ss) keys =
     (case validate_pairs ps keys of None \<Rightarrow> None | Some keys \<Rightarrow> validate_slots ss keys)"

definition hash_validate :: "hash \<Rightarrow> bool" where
  "hash_validate h =
     (case validate_slots (h_slots h) [] of None \<Rightarrow> False | Some keys \<Rightarrow> length keys = h_elts h)"

section \<open>Tables and what they contain\<close>

definition slot_shape :: "hash \<Rightarrow> hash_pair_union \<Rightarrow> bool" where
  "slot_shape h s \<longleftrightarrow>
     (case s of
        Direct _ \<Rightarrow> True
      | Indirect ps log2_bytes \<Rightarrow>
          ps = [] \<or> 2 \<le> length ps \<and> (h_log2_pair_size h \<noteq> 0 \<longrightarrow> length ps * hash_pair_bytes h \<le> 2 ^ log2_bytes))"

abbreviation pairs_of :: "hash \<Rightarrow> hash_pair list" where
  "pairs_of h \<equiv> hash_foreach_pair (Some h)"

definition key_class :: "(uword \<Rightarrow> uword \<Rightarrow> bool) \<Rightarrow> hash_pair \<Rightarrow> uword set" where
  "key_class ke p = Collect (ke (fst p))"

definition hash_inv :: "key_env \<Rightarrow> (uword \<Rightarrow> uword) \<Rightarrow> (uword \<Rightarrow> uword \<Rightarrow> bool) \<Rightarrow> hash \<Rightarrow> bool" where
  "hash_inv K ks ke h \<longleftrightarrow>
     key_sum K h = ks \<and> key_equal K h = ke
     \<and> (\<exists>k. 6 \<le> k \<and> k < 31 \<and> length (h_slots h) = 2 ^ k)
     \<and> (\<forall>s \<in> set (h_slots h). slot_shape h s)
     \<and> (\<forall>i < length (h_slots h). \<forall>p \<in> set (slot_pairs (h_slots h ! i)). bucket K h (fst p) = i \<and> length (snd p) = value_words h)
     \<and> distinct (map (key_class ke) (pairs_of h))
     \<and> h_elts h = length (pairs_of h)"

text \<open>The value of a key in a list of pairs.\<close>

definition value_in :: "(uword \<Rightarrow> uword \<Rightarrow> bool) \<Rightarrow> hash_pair list \<Rightarrow> uword \<Rightarrow> hash_value option" where
  "value_in ke ps k = map_option snd (find (\<lambda>p. ke (fst p) k) ps)"

text \<open>What sum and comparison of keys owe to the table.\<close>

locale hash_keys =
  fixes K :: key_env
    and ks :: "uword \<Rightarrow> uword"
    and ke :: "uword \<Rightarrow> uword \<Rightarrow> bool"
  assumes ke_refl: "ke a a"
    and ke_sym: "ke a b \<Longrightarrow> ke b a"
    and ke_trans: "ke a b \<Longrightarrow> ke b c \<Longrightarrow> ke a c"
    and ke_sum: "ke a b \<Longrightarrow> ks a = ks b"
begin

lemma class_eq_iff: "key_class ke p = key_class ke q \<longleftrightarrow> ke (fst p) (fst q)"
proof
  assume "key_class ke p = key_class ke q"
  then have "fst q \<in> key_class ke p" by (simp add: key_class_def ke_refl)
  then show "ke (fst p) (fst q)" by (simp add: key_class_def)
next
  assume e: "ke (fst p) (fst q)"
  have "ke (fst p) k \<longleftrightarrow> ke (fst q) k" for k
  proof
    assume "ke (fst p) k" then show "ke (fst q) k" by (rule ke_trans [OF ke_sym [OF e]])
  next
    assume "ke (fst q) k" then show "ke (fst p) k" by (rule ke_trans [OF e])
  qed
  then show "key_class ke p = key_class ke q" unfolding key_class_def by blast
qed

lemma distinct_unique:
  "distinct (map (key_class ke) ps) \<Longrightarrow> p \<in> set ps \<Longrightarrow> q \<in> set ps \<Longrightarrow> ke (fst p) (fst q) \<Longrightarrow> p = q"
  using class_eq_iff [of p q] by (auto simp: distinct_map dest: inj_onD)

lemma find_unique:
  assumes "distinct (map (key_class ke) ps)"
  shows "find (\<lambda>p. ke (fst p) k) ps = Some p \<longleftrightarrow> p \<in> set ps \<and> ke (fst p) k"
proof
  assume "find (\<lambda>p. ke (fst p) k) ps = Some p"
  then show "p \<in> set ps \<and> ke (fst p) k" by (auto simp: find_Some_iff)
next
  assume p: "p \<in> set ps \<and> ke (fst p) k"
  then have "find (\<lambda>p. ke (fst p) k) ps \<noteq> None" unfolding find_None_iff by blast
  then obtain q where q: "find (\<lambda>p. ke (fst p) k) ps = Some q" by blast
  then have q': "q \<in> set ps" "ke (fst q) k" by (auto simp: find_Some_iff)
  have "ke (fst p) (fst q)" using p by (intro ke_trans [OF _ ke_sym [OF q'(2)]]) simp
  then have "p = q" using distinct_unique [OF assms] p q'(1) by simp
  with q show "find (\<lambda>p. ke (fst p) k) ps = Some p" by simp
qed

lemma value_in_iff:
  assumes "distinct (map (key_class ke) ps)"
  shows "value_in ke ps k = Some v \<longleftrightarrow> (\<exists>p \<in> set ps. ke (fst p) k \<and> snd p = v)"
  unfolding value_in_def map_option_eq_Some find_unique [OF assms] by blast

lemma value_in_None_iff: "value_in ke ps k = None \<longleftrightarrow> (\<forall>p \<in> set ps. \<not> ke (fst p) k)"
  by (auto simp: value_in_def find_None_iff)

lemma mset_eq_distinct: "mset ps = mset qs \<Longrightarrow> distinct (map (key_class ke) ps) \<longleftrightarrow> distinct (map (key_class ke) qs)"
  by (rule mset_eq_imp_distinct_iff) simp

lemma value_in_mset:
  assumes "mset ps = mset qs" and "distinct (map (key_class ke) qs)"
  shows "value_in ke ps k = value_in ke qs k"
proof -
  have d: "distinct (map (key_class ke) ps)" using mset_eq_distinct assms by blast
  have "value_in ke ps k = Some v \<longleftrightarrow> value_in ke qs k = Some v" for v
    unfolding value_in_iff [OF d] value_in_iff [OF assms(2)] using mset_eq_setD [OF assms(1)] by simp
  then show ?thesis by (metis option.exhaust)
qed

lemma value_in_Cons: "value_in ke (p # ps) k = (if ke (fst p) k then Some (snd p) else value_in ke ps k)"
  by (simp add: value_in_def)

lemma contents_insert:
  assumes "distinct (map (key_class ke) ps)" and "\<forall>p \<in> set ps. \<not> ke (fst p) key" and "mset qs = mset ((key, v) # ps)"
  shows "distinct (map (key_class ke) qs)" "value_in ke qs k = (if ke key k then Some v else value_in ke ps k)"
proof -
  have "\<not> ke key (fst p)" if "p \<in> set ps" for p using assms(2) that ke_sym by blast
  then have d: "distinct (map (key_class ke) ((key, v) # ps))"
    using assms(1) class_eq_iff [of "(key, v)"] by auto
  then show "distinct (map (key_class ke) qs)" using mset_eq_distinct [OF assms(3)] by simp
  show "value_in ke qs k = (if ke key k then Some v else value_in ke ps k)"
    using value_in_mset [OF assms(3) d] by (simp add: value_in_Cons)
qed

lemma contents_remove:
  assumes "distinct (map (key_class ke) ps)" and "p \<in> set ps" and "ke (fst p) key" and "mset ps = mset (p # qs)"
  shows "distinct (map (key_class ke) qs)" "value_in ke qs k = (if ke key k then None else value_in ke ps k)"
    "\<forall>q \<in> set qs. \<not> ke (fst q) key"
proof -
  have d: "distinct (map (key_class ke) (p # qs))" using assms(1) mset_eq_distinct [OF assms(4)] by simp
  then show "distinct (map (key_class ke) qs)" by simp
  show n: "\<forall>q \<in> set qs. \<not> ke (fst q) key"
  proof (intro ballI notI)
    fix q assume q: "q \<in> set qs" "ke (fst q) key"
    have "ke (fst p) (fst q)" by (rule ke_trans [OF assms(3) ke_sym [OF q(2)]])
    then have "key_class ke p = key_class ke q" by (simp only: class_eq_iff)
    with d q(1) show False by auto
  qed
  show "value_in ke qs k = (if ke key k then None else value_in ke ps k)"
  proof (cases "ke key k")
    case True
    then have "\<forall>q \<in> set qs. \<not> ke (fst q) k" using n ke_trans [OF _ ke_sym [OF True]] by blast
    then show ?thesis using True by (simp add: value_in_None_iff)
  next
    case False
    then have "\<not> ke (fst p) k" using ke_trans [OF ke_sym [OF assms(3)]] by blast
    then show ?thesis using False value_in_mset [OF assms(4) d] by (simp add: value_in_Cons)
  qed
qed

lemma contents_replace:
  assumes "distinct (map (key_class ke) ps)" and "p \<in> set ps" and "ke (fst p) key"
    and "mset ps = mset (p # rs)" and "mset qs = mset ((fst p, v) # rs)"
  shows "distinct (map (key_class ke) qs)" "value_in ke qs k = (if ke key k then Some v else value_in ke ps k)"
proof -
  note r = contents_remove [OF assms(1-4)]
  have n: "\<forall>q \<in> set rs. \<not> ke (fst q) (fst p)" using r(3) ke_trans [OF _ assms(3)] by blast
  have "ke (fst p) k \<longleftrightarrow> ke key k" using ke_trans [OF assms(3)] ke_trans [OF ke_sym [OF assms(3)]] by blast
  then show "distinct (map (key_class ke) qs)" "value_in ke qs k = (if ke key k then Some v else value_in ke ps k)"
    using contents_insert [OF r(1) n assms(5)] r(2) by simp_all
qed

end

section \<open>One lookup\<close>

lemma get_indirect_Some:
  "get_indirect K h ps key = Some q \<Longrightarrow> q < length ps \<and> key_equal K h (fst (ps ! q)) key"
  by (induction K h ps key arbitrary: q rule: get_indirect.induct) (auto split: if_splits)

lemma get_indirect_None: "get_indirect K h ps key = None \<longleftrightarrow> (\<forall>p \<in> set ps. \<not> key_equal K h (fst p) key)"
  by (induction K h ps key rule: get_indirect.induct) auto

lemma get_indirect_find:
  "map_option (\<lambda>q. ps ! q) (get_indirect K h ps key) = find (\<lambda>p. key_equal K h (fst p) key) ps"
  by (induction K h ps key rule: get_indirect.induct) (auto simp: option.map_comp comp_def)

lemma lookup_get: "lookup K h key GET v = (h, find (\<lambda>p. key_equal K h (fst p) key) (slot_pairs (h_slots h ! bucket K h key)), None)"
  by (auto simp: lookup_def Let_def slot_pairs_def get_indirect_find [symmetric] split: hash_pair_union.splits option.splits)

lemma mset_update_nth: "q < length ps \<Longrightarrow> mset ps = mset (ps ! q # (take q ps @ drop (Suc q) ps))"
  by (subst id_take_nth_drop [of q ps]) simp_all

lemma mset_put_value: "q < length ps \<Longrightarrow> mset (put_value ps q v) = mset ((fst (ps ! q), v) # (take q ps @ drop (Suc q) ps))"
  by (simp add: put_value_def upd_conv_take_nth_drop)

lemma mset_move_last:
  assumes "q < length ps"
  shows "mset ps = mset (ps ! q # butlast (if q < length ps - 1 then ps[q := ps ! (length ps - 1)] else ps))"
proof -
  obtain xs l where ps: "ps = xs @ [l]" using assms by (metis append_butlast_last_id length_greater_0_conv not_less_zero neq0_conv)
  show ?thesis
  proof (cases "q < length xs")
    case True
    have "mset xs = mset (xs ! q # (take q xs @ drop (Suc q) xs))" by (rule mset_update_nth [OF True])
    moreover have "butlast (ps[q := l]) = xs[q := l]" using True ps by (simp add: list_update_append1)
    ultimately show ?thesis using True ps by (simp add: nth_append upd_conv_take_nth_drop)
  next
    case False
    then have "q = length xs" using assms ps by simp
    then show ?thesis using ps by (simp add: nth_append)
  qed
qed

text \<open>The slot that \<open>SET\<close> leaves: the new pair is added, or replaces the one it finds.\<close>

definition slot_set :: "key_env \<Rightarrow> hash \<Rightarrow> hash_pair_union \<Rightarrow> uword \<Rightarrow> hash_value \<Rightarrow> hash_pair_union" where
  "slot_set K h s key v =
     (case s of
        Direct p \<Rightarrow>
          if key_equal K h (fst p) key then Direct (fst p, v)
          else let (ps, l) = set_indirect_is_user h p key in Indirect (put_value ps 1 v) l
      | Indirect ps l \<Rightarrow>
          if ps = [] then Direct (key, v)
          else let (ps', l', q, found) = set_indirect K h ps l key in Indirect (put_value ps' q v) l')"

definition slot_found :: "key_env \<Rightarrow> hash \<Rightarrow> hash_pair_union \<Rightarrow> uword \<Rightarrow> hash_pair option" where
  "slot_found K h s key = find (\<lambda>p. key_equal K h (fst p) key) (slot_pairs s)"

lemma lookup_set:
  fixes K h key
  defines "i \<equiv> bucket K h key"
  shows "fst (lookup K h key SET v) =
      h\<lparr>h_slots := (h_slots h)[i := slot_set K h (h_slots h ! i) key v],
        h_elts := h_elts h + of_bool (slot_found K h (h_slots h ! i) key = None)\<rparr>"
    and "snd (snd (lookup K h key SET v)) = map_option snd (slot_found K h (h_slots h ! i) key)"
proof -
  have f: "slot_found K h (Indirect ps l) key = map_option (\<lambda>q. ps ! q) (get_indirect K h ps key)" for ps l
    by (simp add: slot_found_def slot_pairs_def get_indirect_find)
  show "fst (lookup K h key SET v) =
      h\<lparr>h_slots := (h_slots h)[i := slot_set K h (h_slots h ! i) key v],
        h_elts := h_elts h + of_bool (slot_found K h (h_slots h ! i) key = None)\<rparr>"
    unfolding lookup_def Let_def i_def [symmetric]
    by (cases "h_slots h ! i") (auto simp: slot_set_def set_indirect_def f slot_found_def slot_pairs_def
        set_indirect_is_user_def Let_def get_indirect_find [symmetric] split: option.splits)
  show "snd (snd (lookup K h key SET v)) = map_option snd (slot_found K h (h_slots h ! i) key)"
    unfolding lookup_def Let_def i_def [symmetric]
    by (cases "h_slots h ! i") (auto simp: slot_set_def set_indirect_def f slot_found_def slot_pairs_def
        set_indirect_is_user_def Let_def get_indirect_find [symmetric] split: option.splits)
qed

lemma slot_set_found:
  assumes "slot_found K h s key = Some p"
  shows "\<exists>rs. mset (slot_pairs s) = mset (p # rs) \<and> mset (slot_pairs (slot_set K h s key v)) = mset ((fst p, v) # rs)"
proof (cases s)
  case (Direct p')
  then have "p' = p" "key_equal K h (fst p) key" using assms by (auto simp: slot_found_def slot_pairs_def split: if_splits)
  then show ?thesis using Direct by (intro exI [of _ "[]"]) (simp add: slot_set_def slot_pairs_def)
next
  case (Indirect ps l)
  then obtain q where q: "get_indirect K h ps key = Some q" "p = ps ! q"
    using assms by (auto simp: slot_found_def slot_pairs_def get_indirect_find [symmetric])
  then have l: "q < length ps" using get_indirect_Some by blast
  then have "slot_pairs (slot_set K h s key v) = put_value ps q v"
    using Indirect q by (auto simp: slot_set_def set_indirect_def slot_pairs_def)
  then show ?thesis using Indirect q l mset_update_nth [OF l] mset_put_value [OF l]
    by (intro exI [of _ "take q ps @ drop (Suc q) ps"]) (simp add: slot_pairs_def)
qed

lemma slot_set_new:
  assumes "slot_found K h s key = None"
  shows "mset (slot_pairs (slot_set K h s key v)) = mset ((key, v) # slot_pairs s)"
proof (cases s)
  case (Direct p)
  then show ?thesis using assms
    by (simp add: slot_found_def slot_set_def slot_pairs_def set_indirect_is_user_def put_value_def split: if_splits)
next
  case (Indirect ps l)
  then have "get_indirect K h ps key = None" using assms by (simp add: slot_found_def slot_pairs_def get_indirect_find [symmetric])
  then show ?thesis using Indirect by (simp add: slot_set_def slot_pairs_def set_indirect_def put_value_def Let_def)
qed

lemma slot_set_shape:
  assumes "slot_shape h s"
  shows "slot_shape h (slot_set K h s key v)"
proof (cases s)
  case (Direct p)
  then show ?thesis
    by (simp add: slot_set_def slot_shape_def set_indirect_is_user_def put_value_def hash_pair_bytes_def)
next
  case (Indirect ps l)
  show ?thesis
  proof (cases "ps = []")
    case False
    then have a: "2 \<le> length ps" "h_log2_pair_size h \<noteq> 0 \<Longrightarrow> length ps * hash_pair_bytes h \<le> 2 ^ l"
      using assms Indirect by (auto simp: slot_shape_def)
    have "hash_pair_bytes h \<le> 2 ^ l" if "h_log2_pair_size h \<noteq> 0"
      using a(2) [OF that] a(1) by (cases "length ps") auto
    then show ?thesis using Indirect False a
      by (auto simp: slot_set_def slot_shape_def set_indirect_def put_value_def Let_def split: option.splits)
  qed (simp add: Indirect slot_set_def slot_shape_def)
qed

text \<open>The slot that \<open>UNSET\<close> leaves when it finds the key.\<close>

definition slot_unset :: "key_env \<Rightarrow> hash \<Rightarrow> hash_pair_union \<Rightarrow> uword \<Rightarrow> hash_pair_union" where
  "slot_unset K h s key =
     (case s of
        Direct p \<Rightarrow> if key_equal K h (fst p) key then zero_slot else s
      | Indirect ps l \<Rightarrow> (case get_indirect K h ps key of None \<Rightarrow> s | Some q \<Rightarrow> unset_indirect ps l q))"

lemma lookup_unset:
  fixes K h key
  defines "i \<equiv> bucket K h key"
  shows "fst (lookup K h key UNSET v) =
      h\<lparr>h_slots := (h_slots h)[i := slot_unset K h (h_slots h ! i) key],
        h_elts := h_elts h - of_bool (slot_found K h (h_slots h ! i) key \<noteq> None)\<rparr>"
    and "snd (snd (lookup K h key UNSET v)) = map_option snd (slot_found K h (h_slots h ! i) key)"
proof -
  have f: "slot_found K h (Indirect ps l) key = map_option (\<lambda>q. ps ! q) (get_indirect K h ps key)" for ps l
    by (simp add: slot_found_def slot_pairs_def get_indirect_find)
  have u: "(h_slots h)[i := h_slots h ! i] = h_slots h" by simp
  show "fst (lookup K h key UNSET v) =
      h\<lparr>h_slots := (h_slots h)[i := slot_unset K h (h_slots h ! i) key],
        h_elts := h_elts h - of_bool (slot_found K h (h_slots h ! i) key \<noteq> None)\<rparr>"
    using u unfolding lookup_def Let_def i_def [symmetric]
    by (cases "h_slots h ! i") (auto simp: slot_unset_def f slot_found_def slot_pairs_def
        Let_def get_indirect_find [symmetric] split: option.splits)
  show "snd (snd (lookup K h key UNSET v)) = map_option snd (slot_found K h (h_slots h ! i) key)"
    unfolding lookup_def Let_def i_def [symmetric]
    by (cases "h_slots h ! i") (auto simp: f slot_found_def slot_pairs_def
        Let_def get_indirect_find [symmetric] split: option.splits)
qed

lemma mset_unset_indirect:
  assumes "q < length ps" and "2 \<le> length ps"
  shows "mset ps = mset (ps ! q # slot_pairs (unset_indirect ps l q))"
proof (cases "length ps = 2")
  case True
  then obtain a b where "ps = [a, b]" by (auto simp: numeral_2_eq_2 length_Suc_conv)
  moreover have "q = 0 \<or> q = 1" using assms(1) True by auto
  ultimately show ?thesis by (auto simp: unset_indirect_def slot_pairs_def)
next
  case False
  then show ?thesis using mset_move_last [OF assms(1)] assms(2) by (simp add: unset_indirect_def slot_pairs_def Let_def)
qed

lemma slot_unset_found:
  assumes "slot_found K h s key = Some p" and "slot_shape h s"
  shows "mset (slot_pairs s) = mset (p # slot_pairs (slot_unset K h s key))"
proof (cases s)
  case (Direct p')
  then show ?thesis using assms(1)
    by (auto simp: slot_found_def slot_pairs_def slot_unset_def zero_slot_def split: if_splits)
next
  case (Indirect ps l)
  then obtain q where q: "get_indirect K h ps key = Some q" "p = ps ! q"
    using assms(1) by (auto simp: slot_found_def slot_pairs_def get_indirect_find [symmetric])
  then have len: "q < length ps" using get_indirect_Some by blast
  then have "2 \<le> length ps" using assms(2) Indirect by (auto simp: slot_shape_def)
  from mset_unset_indirect [OF len this, of l] show ?thesis using Indirect q by (simp add: slot_unset_def slot_pairs_def)
qed

lemma slot_unset_missing: "slot_found K h s key = None \<Longrightarrow> slot_unset K h s key = s"
  by (cases s) (auto simp: slot_found_def slot_pairs_def slot_unset_def get_indirect_find [symmetric] split: if_splits)

lemma slot_unset_shape:
  assumes "slot_shape h s"
  shows "slot_shape h (slot_unset K h s key)"
proof (cases s)
  case (Indirect ps l)
  show ?thesis
  proof (cases "get_indirect K h ps key")
    case (Some q)
    have a: "2 < length ps \<Longrightarrow> h_log2_pair_size h \<noteq> 0 \<Longrightarrow> (length ps - 1) * hash_pair_bytes h \<le> 2 ^ l"
      using assms Indirect by (auto simp: slot_shape_def diff_mult_distrib)
    show ?thesis using Some Indirect a
      by (auto simp: slot_unset_def slot_shape_def unset_indirect_def zero_slot_def Let_def)
  qed (use Indirect assms in \<open>simp add: slot_unset_def\<close>)
qed (use assms in \<open>auto simp: slot_unset_def slot_shape_def zero_slot_def\<close>)

section \<open>The whole table\<close>

lemma pairs_of_eq: "pairs_of h = concat (map slot_pairs (h_slots h))"
  by (simp add: hash_foreach_pair_def)

lemma in_pairs_of: "p \<in> set (pairs_of h) \<longleftrightarrow> (\<exists>i < length (h_slots h). p \<in> set (slot_pairs (h_slots h ! i)))"
proof -
  have "p \<in> set (pairs_of h) \<longleftrightarrow> (\<exists>s \<in> set (h_slots h). p \<in> set (slot_pairs s))" by (simp add: pairs_of_eq)
  then show ?thesis by (metis in_set_conv_nth)
qed

lemma pairs_update:
  assumes "i < length (h_slots h)"
  shows "mset (concat (map slot_pairs ((h_slots h)[i := s]))) + mset (slot_pairs (h_slots h ! i))
    = mset (pairs_of h) + mset (slot_pairs s)"
proof -
  let ?f = "\<lambda>ss. concat (map slot_pairs ss)"
  have "pairs_of h = ?f (take i (h_slots h) @ h_slots h ! i # drop (Suc i) (h_slots h))"
    unfolding pairs_of_eq by (rule arg_cong [where f = ?f, OF id_take_nth_drop [OF assms]])
  then show ?thesis unfolding upd_conv_take_nth_drop [OF assms] by simp
qed

text \<open>The key functions and the layout depend on the header only.\<close>

definition same_header :: "hash \<Rightarrow> hash \<Rightarrow> bool" where
  "same_header h h' \<longleftrightarrow> h_flags h' = h_flags h \<and> h_log2_pair_size h' = h_log2_pair_size h \<and> h_key_sum h' = h_key_sum h
     \<and> h_key_equal h' = h_key_equal h \<and> h_user h' = h_user h"

lemma same_headerD:
  assumes "same_header h h'"
  shows "key_sum K h' = key_sum K h" "key_equal K h' = key_equal K h" "value_words h' = value_words h"
    "slot_shape h' = slot_shape h"
  using assms by (simp_all add: fun_eq_iff same_header_def key_sum_def key_equal_def key_equal1_def
      hash_value_bytes_def slot_shape_def hash_pair_bytes_def hash_pair_log2_bytes_def
      split: key_func.split hash_pair_union.split)

text \<open>Looking at one slot is enough.\<close>

lemma hash_invD:
  assumes "hash_inv K ks ke h"
  shows "key_sum K h = ks" "key_equal K h = ke"
    and "\<exists>k. 6 \<le> k \<and> k < 31 \<and> length (h_slots h) = 2 ^ k"
    and "s \<in> set (h_slots h) \<Longrightarrow> slot_shape h s"
    and "i < length (h_slots h) \<Longrightarrow> p \<in> set (slot_pairs (h_slots h ! i)) \<Longrightarrow> bucket K h (fst p) = i \<and> length (snd p) = value_words h"
    and "distinct (map (key_class ke) (pairs_of h))" and "h_elts h = length (pairs_of h)"
  using assms unfolding hash_inv_def by blast+

lemma bucket_less:
  assumes "hash_inv K ks ke h"
  shows "bucket K h key < length (h_slots h)"
proof -
  obtain k where k: "k < 31" "length (h_slots h) = 2 ^ k" using hash_invD(3) [OF assms] by blast
  have "unat (x AND (2 ^ k - 1) :: uword) < 2 ^ k" for x
    using k(1) unfolding unat_less_exp_iff by (simp add: bit_and_iff mask_eq_exp_minus_1 [symmetric] bit_mask_iff)
  then show ?thesis unfolding bucket_def k(2) by simp
qed

context hash_keys
begin

lemma bucket_equal:
  assumes "hash_inv K ks ke h" and "ke a b"
  shows "bucket K h a = bucket K h b"
  using ke_sum [OF assms(2)] hash_invD(1) [OF assms(1)] by (simp add: bucket_def)

lemma found_in_slot:
  assumes "hash_inv K ks ke h"
  shows "slot_found K h (h_slots h ! bucket K h key) key = find (\<lambda>p. ke (fst p) key) (pairs_of h)"
    (is "?l = ?r")
proof -
  note d = hash_invD(6) [OF assms]
  have k: "key_equal K h = ke" by (rule hash_invD(2) [OF assms])
  let ?i = "bucket K h key"
  have in_slot: "p \<in> set (slot_pairs (h_slots h ! ?i))" if "p \<in> set (pairs_of h)" "ke (fst p) key" for p
    using that bucket_equal [OF assms that(2)] hash_invD(5) [OF assms] unfolding in_pairs_of by metis
  show ?thesis
  proof (cases ?l)
    case None
    then have "\<forall>p \<in> set (slot_pairs (h_slots h ! ?i)). \<not> ke (fst p) key"
      unfolding slot_found_def find_None_iff k by blast
    then have "\<not> (\<exists>p. p \<in> set (pairs_of h) \<and> ke (fst p) key)" using in_slot by blast
    then show ?thesis using None by (simp only: find_None_iff [symmetric])
  next
    case (Some p)
    then have p: "p \<in> set (slot_pairs (h_slots h ! ?i))" "ke (fst p) key"
      by (auto simp: slot_found_def find_Some_iff k)
    then have "p \<in> set (pairs_of h)" using bucket_less [OF assms] in_pairs_of by blast
    then show ?thesis using Some p(2) find_unique [OF d] by metis
  qed
qed

lemma hash_get_pair_spec:
  assumes "hash_inv K ks ke h"
  shows "hash_get_pair K (Some h) key = find (\<lambda>p. ke (fst p) key) (pairs_of h)"
  using found_in_slot [OF assms, of key] by (simp add: hash_get_pair_def lookup_get slot_found_def)

text \<open>Replacing one slot by one with other contents keeps a table a table.\<close>

lemma inv_update_slot:
  assumes inv: "hash_inv K ks ke h" and i: "i < length (h_slots h)"
    and h': "h' = h\<lparr>h_slots := (h_slots h)[i := s], h_elts := n\<rparr>"
    and shape: "slot_shape h s" and b: "\<forall>p \<in> set (slot_pairs s). bucket K h (fst p) = i \<and> length (snd p) = value_words h"
    and d: "distinct (map (key_class ke) (pairs_of h'))" and n: "n = length (pairs_of h')"
  shows "hash_inv K ks ke h'"
proof -
  have same: "same_header h h'" by (simp add: same_header_def h')
  note sum = same_headerD(1) [OF same] and eq = same_headerD(2) [OF same] and w = same_headerD(3,4) [OF same]
  have bk: "bucket K h' = bucket K h" by (simp add: fun_eq_iff bucket_def sum) (simp add: h')
  have "slot_shape h' t" if "t \<in> set (h_slots h')" for t
    using that shape hash_invD(4) [OF inv] set_update_subset_insert [of "h_slots h" i s] w(2) unfolding h' by auto
  moreover have "bucket K h' (fst p) = j \<and> length (snd p) = value_words h'"
    if "j < length (h_slots h')" "p \<in> set (slot_pairs (h_slots h' ! j))" for j p
  proof (cases "j = i")
    case True
    then show ?thesis using that b i unfolding bk w(1) by (simp add: h')
  next
    case False
    then have "j < length (h_slots h)" "p \<in> set (slot_pairs (h_slots h ! j))" using that by (simp_all add: h')
    from hash_invD(5) [OF inv this] show ?thesis by (simp only: bk w(1))
  qed
  moreover have "h_elts h' = n" "length (h_slots h') = length (h_slots h)" by (simp_all add: h')
  ultimately show ?thesis unfolding hash_inv_def sum eq n
    using hash_invD(1,2,3) [OF inv] d by auto
qed

text \<open>The effect of setting a key in a table that is not resized.\<close>

lemma lookup_set_spec:
  assumes inv: "hash_inv K ks ke h" and v: "length v = value_words h"
  shows "hash_inv K ks ke (fst (lookup K h key SET v))"
    and "value_in ke (pairs_of (fst (lookup K h key SET v))) k = (if ke key k then Some v else value_in ke (pairs_of h) k)"
    and "snd (snd (lookup K h key SET v)) = value_in ke (pairs_of h) key"
    and "h_elts (fst (lookup K h key SET v)) = h_elts h + of_bool (value_in ke (pairs_of h) key = None)"
proof -
  let ?i = "bucket K h key"
  let ?s = "h_slots h ! ?i"
  let ?s' = "slot_set K h ?s key v"
  let ?n = "h_elts h + of_bool (slot_found K h ?s key = None)"
  define h' where "h' = fst (lookup K h key SET v)"
  have h': "h' = h\<lparr>h_slots := (h_slots h)[?i := ?s'], h_elts := ?n\<rparr>" unfolding h'_def by (rule lookup_set(1))
  have i: "?i < length (h_slots h)" by (rule bucket_less [OF inv])
  have eq: "key_equal K h = ke" and d: "distinct (map (key_class ke) (pairs_of h))" and n: "h_elts h = length (pairs_of h)"
    using hash_invD(2,6,7) [OF inv] by simp_all
  have f: "slot_found K h ?s key = find (\<lambda>p. ke (fst p) key) (pairs_of h)" by (rule found_in_slot [OF inv])
  have up: "mset (pairs_of h') + mset (slot_pairs ?s) = mset (pairs_of h) + mset (slot_pairs ?s')"
    using pairs_update [OF i, of ?s'] by (simp add: h' pairs_of_eq)
  have shape: "slot_shape h ?s'" using hash_invD(4) [OF inv] i by (intro slot_set_shape) simp
  have old: "bucket K h (fst p) = ?i \<and> length (snd p) = value_words h" if "p \<in> set (slot_pairs ?s)" for p
    using hash_invD(5) [OF inv i that] .
  have result: "distinct (map (key_class ke) (pairs_of h')) \<and> ?n = length (pairs_of h')
    \<and> (\<forall>p \<in> set (slot_pairs ?s'). bucket K h (fst p) = ?i \<and> length (snd p) = value_words h)
    \<and> (\<forall>k. value_in ke (pairs_of h') k = (if ke key k then Some v else value_in ke (pairs_of h) k))"
  proof (cases "slot_found K h ?s key")
    case None
    then have no: "\<forall>p \<in> set (pairs_of h). \<not> ke (fst p) key" unfolding f find_None_iff by blast
    have s': "mset (slot_pairs ?s') = mset ((key, v) # slot_pairs ?s)" by (rule slot_set_new [OF None])
    then have m: "mset (pairs_of h') = mset ((key, v) # pairs_of h)" using up by simp
    have "\<forall>p \<in> set (slot_pairs ?s'). bucket K h (fst p) = ?i \<and> length (snd p) = value_words h"
      using old v unfolding mset_eq_setD [OF s'] by auto
    then show ?thesis using None contents_insert [OF d no m] n arg_cong [OF m, of size] by simp
  next
    case (Some p)
    then have p: "p \<in> set (pairs_of h)" "ke (fst p) key" unfolding f find_unique [OF d] by simp_all
    obtain rs where rs: "mset (slot_pairs ?s) = mset (p # rs)" "mset (slot_pairs ?s') = mset ((fst p, v) # rs)"
      using slot_set_found [OF Some] by blast
    have "p \<in># mset (pairs_of h)" using p(1) by simp
    then obtain M where M: "mset (pairs_of h) = add_mset p M" by (metis insert_DiffM)
    obtain ts where ts: "mset ts = M" using ex_mset by blast
    have m: "mset (pairs_of h) = mset (p # ts)" "mset (pairs_of h') = mset ((fst p, v) # ts)"
      using up rs M ts by simp_all
    have "\<forall>p \<in> set (slot_pairs ?s'). bucket K h (fst p) = ?i \<and> length (snd p) = value_words h"
      using old v unfolding mset_eq_setD [OF rs(2)] mset_eq_setD [OF rs(1)] by auto
    then show ?thesis using Some contents_replace [OF d p m] n arg_cong [OF m(1), of size] arg_cong [OF m(2), of size] by simp
  qed
  show "hash_inv K ks ke (fst (lookup K h key SET v))" unfolding h'_def [symmetric]
    by (rule inv_update_slot [OF inv i h' shape]) (use result in blast)+
  show "value_in ke (pairs_of (fst (lookup K h key SET v))) k = (if ke key k then Some v else value_in ke (pairs_of h) k)"
    unfolding h'_def [symmetric] using result by blast
  show "snd (snd (lookup K h key SET v)) = value_in ke (pairs_of h) key"
    unfolding lookup_set(2) f value_in_def ..
  show "h_elts (fst (lookup K h key SET v)) = h_elts h + of_bool (value_in ke (pairs_of h) key = None)"
    unfolding h'_def [symmetric] by (simp add: h' f value_in_def)
qed

text \<open>The effect of unsetting a key.\<close>

lemma lookup_unset_spec:
  assumes inv: "hash_inv K ks ke h"
  shows "hash_inv K ks ke (fst (lookup K h key UNSET v))"
    and "value_in ke (pairs_of (fst (lookup K h key UNSET v))) k = (if ke key k then None else value_in ke (pairs_of h) k)"
    and "snd (snd (lookup K h key UNSET v)) = value_in ke (pairs_of h) key"
    and "h_elts (fst (lookup K h key UNSET v)) = h_elts h - of_bool (value_in ke (pairs_of h) key \<noteq> None)"
proof -
  let ?i = "bucket K h key"
  let ?s = "h_slots h ! ?i"
  let ?s' = "slot_unset K h ?s key"
  let ?n = "h_elts h - of_bool (slot_found K h ?s key \<noteq> None)"
  define h' where "h' = fst (lookup K h key UNSET v)"
  have h': "h' = h\<lparr>h_slots := (h_slots h)[?i := ?s'], h_elts := ?n\<rparr>" unfolding h'_def by (rule lookup_unset(1))
  have i: "?i < length (h_slots h)" by (rule bucket_less [OF inv])
  have d: "distinct (map (key_class ke) (pairs_of h))" and n: "h_elts h = length (pairs_of h)"
    using hash_invD(6,7) [OF inv] by simp_all
  have f: "slot_found K h ?s key = find (\<lambda>p. ke (fst p) key) (pairs_of h)" by (rule found_in_slot [OF inv])
  have up: "mset (pairs_of h') + mset (slot_pairs ?s) = mset (pairs_of h) + mset (slot_pairs ?s')"
    using pairs_update [OF i, of ?s'] by (simp add: h' pairs_of_eq)
  have sh: "slot_shape h ?s" using hash_invD(4) [OF inv] i by simp
  have shape: "slot_shape h ?s'" by (rule slot_unset_shape [OF sh])
  have old: "bucket K h (fst p) = ?i \<and> length (snd p) = value_words h" if "p \<in> set (slot_pairs ?s)" for p
    using hash_invD(5) [OF inv i that] .
  have result: "distinct (map (key_class ke) (pairs_of h')) \<and> ?n = length (pairs_of h')
    \<and> (\<forall>p \<in> set (slot_pairs ?s'). bucket K h (fst p) = ?i \<and> length (snd p) = value_words h)
    \<and> (\<forall>k. value_in ke (pairs_of h') k = (if ke key k then None else value_in ke (pairs_of h) k))"
  proof (cases "slot_found K h ?s key")
    case None
    then have no: "\<forall>p \<in> set (pairs_of h). \<not> ke (fst p) key" unfolding f find_None_iff by blast
    have "value_in ke (pairs_of h) k = None" if "ke key k" for k
      using no ke_trans [OF _ ke_sym [OF that]] by (metis value_in_None_iff)
    moreover have "pairs_of h' = pairs_of h" using slot_unset_missing [OF None] by (simp add: h' pairs_of_eq)
    ultimately show ?thesis using None d n old slot_unset_missing [OF None] by simp
  next
    case (Some p)
    then have p: "p \<in> set (pairs_of h)" "ke (fst p) key" unfolding f find_unique [OF d] by simp_all
    have s': "mset (slot_pairs ?s) = mset (p # slot_pairs ?s')" by (rule slot_unset_found [OF Some sh])
    then have m: "mset (pairs_of h) = mset (p # pairs_of h')" using up by simp
    have "\<forall>p \<in> set (slot_pairs ?s'). bucket K h (fst p) = ?i \<and> length (snd p) = value_words h"
      using old unfolding mset_eq_setD [OF s'] by auto
    then show ?thesis using Some contents_remove [OF d p m] n arg_cong [OF m, of size] by simp
  qed
  show "hash_inv K ks ke (fst (lookup K h key UNSET v))" unfolding h'_def [symmetric]
    by (rule inv_update_slot [OF inv i h' shape]) (use result in blast)+
  show "value_in ke (pairs_of (fst (lookup K h key UNSET v))) k = (if ke key k then None else value_in ke (pairs_of h) k)"
    unfolding h'_def [symmetric] using result by blast
  show "snd (snd (lookup K h key UNSET v)) = value_in ke (pairs_of h) key"
    unfolding lookup_unset(2) f value_in_def ..
  show "h_elts (fst (lookup K h key UNSET v)) = h_elts h - of_bool (value_in ke (pairs_of h) key \<noteq> None)"
    unfolding h'_def [symmetric] by (simp add: h' f value_in_def)
qed

end

section \<open>Growing, shrinking, copying\<close>

lemma max_log2_exp: "k < 64 \<Longrightarrow> max_log2 (2 ^ k) = k"
  by (simp add: max_log2_def)

lemma max_log2_ge_6: "64 \<le> unat x \<Longrightarrow> 6 \<le> max_log2 x"
proof -
  assume x: "64 \<le> unat x"
  have "(2 :: nat) ^ 6 < 2 ^ Suc (min_log2 x)" using x min_log2_bounds(2) [of x] by simp
  then have "6 < Suc (min_log2 x)" by (rule power_less_imp_less_exp [rotated]) simp
  then show ?thesis by (simp add: max_log2_def Let_def)
qed

lemma create_like:
  assumes "hash_create_like n h = Some h'" and "n < 2 ^ 64"
  shows "same_header h h'" "h_elts h' = 0" "pairs_of h' = []" "hash_inv K (key_sum K h) (key_equal K h) h'"
proof -
  let ?l = "max_log2 (of_nat (max n 64))"
  have h': "h' = h\<lparr>h_elts := 0, h_slots := replicate (2 ^ ?l) zero_slot\<rparr>" and l: "?l < 31"
    using assms(1) by (auto simp: hash_create_like_def Let_def split: if_splits)
  show same: "same_header h h'" by (simp add: same_header_def h')
  show el: "h_elts h' = 0" by (simp add: h')
  show p: "pairs_of h' = []" unfolding pairs_of_eq by (simp add: h' zero_slot_def slot_pairs_def)
  have "unat (of_nat (max n 64) :: uword) = max n 64" using assms(2) by (intro unat_of_nat_u64) simp
  then have "6 \<le> ?l" by (intro max_log2_ge_6) simp
  with l have "\<exists>k. 6 \<le> k \<and> k < 31 \<and> length (h_slots h') = 2 ^ k" by (intro exI [of _ ?l]) (simp add: h')
  moreover have "\<forall>s \<in> set (h_slots h'). slot_shape h' s" by (auto simp: h' zero_slot_def slot_shape_def)
  moreover have "\<forall>i < length (h_slots h'). slot_pairs (h_slots h' ! i) = []" by (simp add: h' zero_slot_def slot_pairs_def)
  ultimately show "hash_inv K (key_sum K h) (key_equal K h) h'"
    unfolding hash_inv_def p using same_headerD(1,2) [OF same] el by auto
qed

lemma create_like_exp:
  "6 \<le> k \<Longrightarrow> k < 31 \<Longrightarrow> hash_create_like (2 ^ k) h = Some (h\<lparr>h_elts := 0, h_slots := replicate (2 ^ k) zero_slot\<rparr>)"
proof -
  assume k: "6 \<le> k" "k < 31"
  have "(2 :: nat) ^ 6 \<le> 2 ^ k" using k(1) by (rule power_increasing) simp
  then have "max (2 ^ k) 64 = (2 :: nat) ^ k" by simp
  moreover have "of_nat (2 ^ k) = (2 ^ k :: uword)" by simp
  ultimately show ?thesis using k max_log2_exp [of k] by (simp add: hash_create_like_def Let_def)
qed

lemma same_header_trans: "same_header a b \<Longrightarrow> same_header b c \<Longrightarrow> same_header a c"
  by (simp add: same_header_def)

lemma same_header_refl: "same_header a a"
  by (simp add: same_header_def)

definition set_to :: "(uword \<Rightarrow> uword \<Rightarrow> bool) \<Rightarrow> hash \<Rightarrow> uword \<Rightarrow> hash_value \<Rightarrow> hash \<Rightarrow> bool" where
  "set_to ke h key v h' \<longleftrightarrow>
     same_header h h'
     \<and> (\<forall>k. value_in ke (pairs_of h') k = (if ke key k then Some v else value_in ke (pairs_of h) k))
     \<and> h_elts h' = h_elts h + of_bool (value_in ke (pairs_of h) key = None)"

context hash_keys
begin

lemma lookup_set_to:
  assumes "hash_inv K ks ke h" and "length v = value_words h"
  shows "set_to ke h key v (fst (lookup K h key SET v))" "length (h_slots (fst (lookup K h key SET v))) = length (h_slots h)"
  using lookup_set_spec [OF assms, of key] lookup_set(1) [of K h key v] by (simp_all add: set_to_def same_header_def)

lemma set_all_spec:
  assumes step: "\<And>h key v. hash_inv K ks ke h \<Longrightarrow> same_header hh h \<Longrightarrow> h_elts h < n \<Longrightarrow> S \<le> length (h_slots h) \<Longrightarrow>
      length v = value_words hh \<Longrightarrow>
      \<exists>h'. f h key v = Some h' \<and> hash_inv K ks ke h' \<and> set_to ke h key v h' \<and> length (h_slots h) \<le> length (h_slots h')"
  shows "hash_inv K ks ke new \<Longrightarrow> same_header hh new \<Longrightarrow> h_elts new + length ps \<le> n \<Longrightarrow> S \<le> length (h_slots new) \<Longrightarrow>
    \<forall>p \<in> set ps. length (snd p) = value_words hh \<Longrightarrow> distinct (map (key_class ke) ps) \<Longrightarrow>
    \<forall>p \<in> set ps. value_in ke (pairs_of new) (fst p) = None \<Longrightarrow>
    \<exists>h'. set_all f new ps = Some h' \<and> hash_inv K ks ke h' \<and> same_header hh h' \<and> h_elts h' = h_elts new + length ps
      \<and> length (h_slots new) \<le> length (h_slots h')
      \<and> (\<forall>k. value_in ke (pairs_of h') k = (case value_in ke ps k of Some v \<Rightarrow> Some v | None \<Rightarrow> value_in ke (pairs_of new) k))"
proof (induction ps arbitrary: new)
  case Nil
  then show ?case by (simp add: value_in_def)
next
  case (Cons p ps)
  obtain h' where h': "f new (fst p) (snd p) = Some h'" "hash_inv K ks ke h'" "set_to ke new (fst p) (snd p) h'"
    "length (h_slots new) \<le> length (h_slots h')"
    using step [OF Cons.prems(1,2), of "snd p" "fst p"] Cons.prems(3-5) by auto
  have same: "same_header hh h'" using h'(3) Cons.prems(2) same_header_trans unfolding set_to_def by blast
  have e: "h_elts h' = h_elts new + 1" using h'(3) Cons.prems(7) by (simp add: set_to_def)
  have v: "value_in ke (pairs_of h') k = (if ke (fst p) k then Some (snd p) else value_in ke (pairs_of new) k)" for k
    using h'(3) unfolding set_to_def by blast
  have d: "\<not> ke (fst p) (fst q)" if "q \<in> set ps" for q
    using Cons.prems(6) that class_eq_iff [of p q] by auto
  then have "\<forall>q \<in> set ps. value_in ke (pairs_of h') (fst q) = None" using Cons.prems(7) v by simp
  then obtain h2 where h2: "set_all f h' ps = Some h2" "hash_inv K ks ke h2" "same_header hh h2" "h_elts h2 = h_elts h' + length ps"
      "length (h_slots h') \<le> length (h_slots h2)"
      "\<forall>k. value_in ke (pairs_of h2) k = (case value_in ke ps k of Some v \<Rightarrow> Some v | None \<Rightarrow> value_in ke (pairs_of h') k)"
    using Cons.IH [OF h'(2) same] Cons.prems(3-6) e h'(4) by auto
  have "value_in ke (pairs_of h2) k = (case value_in ke (p # ps) k of Some v \<Rightarrow> Some v | None \<Rightarrow> value_in ke (pairs_of new) k)" for k
  proof (cases "ke (fst p) k")
    case True
    then have "\<forall>q \<in> set ps. \<not> ke (fst q) k" using d ke_trans [OF True ke_sym] by blast
    then have "value_in ke ps k = None" by (simp only: value_in_None_iff)
    then show ?thesis using h2(6) v True by (simp add: value_in_Cons)
  next
    case False
    then show ?thesis using h2(6) v [of k] by (simp add: value_in_Cons split: option.split)
  qed
  then show ?case using h' h2 e by auto
qed

text \<open>Copying all pairs of a table into a new one with the same header.\<close>

lemma set_all_copy:
  assumes step: "\<And>g key v. hash_inv K ks ke g \<Longrightarrow> same_header h g \<Longrightarrow> h_elts g < h_elts h \<Longrightarrow> 2 ^ k \<le> length (h_slots g) \<Longrightarrow>
      length v = value_words h \<Longrightarrow>
      \<exists>g'. f g key v = Some g' \<and> hash_inv K ks ke g' \<and> set_to ke g key v g' \<and> length (h_slots g) \<le> length (h_slots g')"
    and inv: "hash_inv K ks ke h" and k: "6 \<le> k" "k < 31"
  shows "\<exists>new h'. hash_create_like (2 ^ k) h = Some new \<and> set_all f new (pairs_of h) = Some h' \<and> hash_inv K ks ke h'
    \<and> same_header h h' \<and> h_elts h' = h_elts h \<and> 2 ^ k \<le> length (h_slots h') \<and> value_in ke (pairs_of h') = value_in ke (pairs_of h)"
proof -
  let ?new = "h\<lparr>h_elts := 0, h_slots := replicate (2 ^ k) zero_slot\<rparr>"
  have c: "hash_create_like (2 ^ k) h = Some ?new" by (rule create_like_exp [OF k])
  have "(2 :: nat) ^ k < 2 ^ 64" using k(2) by (intro power_strict_increasing) simp_all
  note n = create_like [OF c this]
  have i: "hash_inv K ks ke ?new" using n(4) [of K] hash_invD(1,2) [OF inv] by simp
  have w: "\<forall>p \<in> set (pairs_of h). length (snd p) = value_words h"
    using hash_invD(5) [OF inv] in_pairs_of [of _ h] by (intro ballI) blast
  have e: "value_in ke (pairs_of ?new) x = None" for x by (simp only: n(3) value_in_None_iff) simp
  have "\<exists>h'. set_all f ?new (pairs_of h) = Some h' \<and> hash_inv K ks ke h' \<and> same_header h h'
    \<and> h_elts h' = h_elts ?new + length (pairs_of h) \<and> length (h_slots ?new) \<le> length (h_slots h')
    \<and> (\<forall>k. value_in ke (pairs_of h') k = (case value_in ke (pairs_of h) k of Some v \<Rightarrow> Some v | None \<Rightarrow> value_in ke (pairs_of ?new) k))"
    by (rule set_all_spec [where n = "h_elts h" and S = "2 ^ k" and hh = h and f = f, OF step i n(1) _ _ w hash_invD(6) [OF inv]])
      (simp_all add: hash_invD(7) [OF inv] e)
  then obtain h' where h': "set_all f ?new (pairs_of h) = Some h'" "hash_inv K ks ke h'" "same_header h h'"
    "h_elts h' = h_elts ?new + length (pairs_of h)" "length (h_slots ?new) \<le> length (h_slots h')"
    "\<forall>k. value_in ke (pairs_of h') k = (case value_in ke (pairs_of h) k of Some v \<Rightarrow> Some v | None \<Rightarrow> value_in ke (pairs_of ?new) k)"
    by blast
  have "value_in ke (pairs_of h') = value_in ke (pairs_of h)"
    unfolding fun_eq_iff using h'(6) e by (simp split: option.split)
  then show ?thesis using c h' hash_invD(7) [OF inv] by (intro exI [of _ ?new] exI [of _ h'] conjI) simp_all
qed

lemma hash_set_fuel_spec:
  "hash_inv K ks ke h \<Longrightarrow> length v = value_words h \<Longrightarrow> h_elts h < 2 ^ 28 \<Longrightarrow>
    4 * (h_elts h + 2) \<le> 3 * length (h_slots h) * 2 ^ fuel \<Longrightarrow>
    \<exists>h'. hash_set_fuel (Suc fuel) K h key v = Some h' \<and> hash_inv K ks ke h' \<and> set_to ke h key v h'
      \<and> length (h_slots h) \<le> length (h_slots h')"
proof (induction fuel arbitrary: h key v)
  case 0
  note s = lookup_set_spec(1) [OF 0(1,2)] and t = lookup_set_to [OF 0(1,2)]
  have "h_elts (fst (lookup K h key SET v)) \<le> h_elts h + 1" using t(1) [of key] by (simp add: set_to_def)
  then show ?case using 0(4) s t by (auto simp: Let_def)
next
  case (Suc fuel)
  let ?h = "fst (lookup K h key SET v)"
  note s = lookup_set_spec(1) [OF Suc.prems(1,2), of key] and t = lookup_set_to [OF Suc.prems(1,2), of key]
  have e: "h_elts ?h \<le> h_elts h + 1" using t(1) by (simp add: set_to_def)
  have same: "same_header h ?h" using t(1) by (simp add: set_to_def)
  show ?case
  proof (cases "h_flags ?h AND HASH_FLAG_NO_AUTO_GROW = 0 \<and> 3 * length (h_slots ?h) < 4 * (h_elts ?h + 1)")
    case True
    obtain k where k: "6 \<le> k" "k < 31" "length (h_slots ?h) = 2 ^ k" using hash_invD(3) [OF s] by blast
    have "(2 :: nat) ^ k < 2 ^ 29" using True k(3) e Suc.prems(3) by simp
    then have "k < 29" by (rule power_less_imp_less_exp [rotated]) simp
    with k(1) have k': "6 \<le> Suc k" "Suc k < 31" by simp_all
    have step: "\<exists>g'. hash_set_fuel (Suc fuel) K g key v = Some g' \<and> hash_inv K ks ke g' \<and> set_to ke g key v g'
        \<and> length (h_slots g) \<le> length (h_slots g')"
      if "hash_inv K ks ke g" "same_header ?h g" "h_elts g < h_elts ?h" "2 ^ Suc k \<le> length (h_slots g)" "length v = value_words ?h"
      for g key v
    proof (rule Suc.IH [OF that(1)])
      show "length v = value_words g" using that(5) same_headerD(3) [OF that(2)] by simp
      show "h_elts g < 2 ^ 28" using that(3) e Suc.prems(3) by simp
      have "4 * (h_elts g + 2) \<le> 4 * (h_elts h + 2)" using that(3) e by simp
      also have "\<dots> \<le> 3 * 2 ^ Suc k * 2 ^ fuel" using Suc.prems(4) k(3) t(2) by (simp add: ac_simps)
      also have "\<dots> \<le> 3 * length (h_slots g) * 2 ^ fuel" using that(4) by simp
      finally show "4 * (h_elts g + 2) \<le> 3 * length (h_slots g) * 2 ^ fuel" .
    qed
    obtain new h' where h': "hash_create_like (2 ^ Suc k) ?h = Some new" "set_all (hash_set_fuel (Suc fuel) K) new (pairs_of ?h) = Some h'"
      "hash_inv K ks ke h'" "same_header ?h h'" "h_elts h' = h_elts ?h" "2 ^ Suc k \<le> length (h_slots h')"
      "value_in ke (pairs_of h') = value_in ke (pairs_of ?h)"
      using set_all_copy [OF step s k'] by blast
    have "hash_set_fuel (Suc (Suc fuel)) K h key v = Some h'"
      using True h'(1,2) k(3) by (simp add: hash_set_fuel.simps(2) [of "Suc fuel"] Let_def del: hash_set_fuel.simps)
    moreover have "set_to ke h key v h'"
      using t(1) h'(5,7) same_header_trans [OF same h'(4)] by (simp add: set_to_def)
    ultimately show ?thesis using h'(3,6) t(2) k(3) by auto
  next
    case False
    then have "hash_set_fuel (Suc (Suc fuel)) K h key v = Some ?h"
      by (simp only: hash_set_fuel.simps(2) [of "Suc fuel"] Let_def if_False)
    then show ?thesis using s t by simp
  qed
qed

lemma enough_fuel: "hash_inv K ks ke h \<Longrightarrow> 4 * (h_elts h + 2) \<le> 3 * length (h_slots h) * 2 ^ (h_elts h + 1)"
proof -
  assume "hash_inv K ks ke h"
  then obtain k where k: "6 \<le> k" "length (h_slots h) = 2 ^ k" using hash_invD(3) by blast
  have "(2 :: nat) ^ 6 \<le> 2 ^ k" using k(1) by (rule power_increasing) simp
  then have len: "3 * 64 * 2 ^ (h_elts h + 1) \<le> 3 * length (h_slots h) * 2 ^ (h_elts h + 1)" using k(2) by simp
  have "n + 2 \<le> 2 ^ (n + 1)" for n :: nat by (induction n) auto
  then have "h_elts h + 2 \<le> 2 ^ (h_elts h + 1)" by blast
  moreover have "4 * a \<le> 3 * 64 * b" if "a \<le> b" for a b :: nat using that by linarith
  ultimately have "4 * (h_elts h + 2) \<le> 3 * 64 * 2 ^ (h_elts h + 1)" by blast
  then show ?thesis using len by (rule order_trans)
qed

lemma hash_set3_spec:
  assumes "hash_inv K ks ke h" and "length v = value_words h" and "h_elts h < 2 ^ 28"
  shows "\<exists>h'. hash_set3 K (Some h) key v = Some (h', value_in ke (pairs_of h) key) \<and> hash_inv K ks ke h' \<and> set_to ke h key v h'
    \<and> length (h_slots h) \<le> length (h_slots h')"
  using hash_set_fuel_spec [OF assms enough_fuel [OF assms(1)], of key] lookup_set_spec(3) [OF assms(1,2)]
  by (auto simp: hash_set3_def del: hash_set_fuel.simps)

lemma hash_resize_spec:
  assumes inv: "hash_inv K ks ke h" and "h_elts h < 2 ^ 28" and k: "6 \<le> k" "k < 31"
  shows "\<exists>h'. hash_resize_internal K (Some h) (2 ^ k) = Some (Some h') \<and> hash_inv K ks ke h' \<and> same_header h h'
    \<and> h_elts h' = h_elts h \<and> value_in ke (pairs_of h') = value_in ke (pairs_of h)"
proof -
  let ?f = "\<lambda>h k x. map_option fst (hash_set3 K (Some h) k x)"
  have step: "\<exists>g'. ?f g key v = Some g' \<and> hash_inv K ks ke g' \<and> set_to ke g key v g' \<and> length (h_slots g) \<le> length (h_slots g')"
    if "hash_inv K ks ke g" "same_header h g" "h_elts g < h_elts h" "2 ^ k \<le> length (h_slots g)" "length v = value_words h" for g key v
  proof -
    have "length v = value_words g" "h_elts g < 2 ^ 28" using that(3,5) assms(2) same_headerD(3) [OF that(2)] by simp_all
    from hash_set3_spec [OF that(1) this, of key] show ?thesis by auto
  qed
  obtain new h' where "hash_create_like (2 ^ k) h = Some new" "set_all ?f new (pairs_of h) = Some h'"
    "hash_inv K ks ke h' \<and> same_header h h' \<and> h_elts h' = h_elts h \<and> value_in ke (pairs_of h') = value_in ke (pairs_of h)"
    using set_all_copy [OF step inv k] by blast
  then show ?thesis by (intro exI [of _ h']) (simp add: hash_resize_internal_def)
qed

lemma hash_unset3_spec:
  assumes inv: "hash_inv K ks ke h" and e: "h_elts h < 2 ^ 28"
  shows "\<exists>h'. hash_unset3 K (Some h) key = Some (Some h', value_in ke (pairs_of h) key) \<and> hash_inv K ks ke h' \<and> same_header h h'
    \<and> h_elts h' = h_elts h - of_bool (value_in ke (pairs_of h) key \<noteq> None)
    \<and> (\<forall>k. value_in ke (pairs_of h') k = (if ke key k then None else value_in ke (pairs_of h) k))"
proof -
  obtain h1 p old where l: "lookup K h key UNSET [] = (h1, p, old)" by (metis prod_cases3)
  note u = lookup_unset_spec [OF inv, of key "[]", unfolded l fst_conv snd_conv]
  have same: "same_header h h1" and len: "length (h_slots h1) = length (h_slots h)"
    using lookup_unset(1) [of K h key "[]"] l by (simp_all add: same_header_def)
  show ?thesis
  proof (cases "h_flags h1 AND HASH_FLAG_NO_AUTO_SHRINK = 0 \<and> 32 < h_elts h1 \<and> 4 * (h_elts h1 + 1) < length (h_slots h1)")
    case True
    obtain k where k: "k < 31" "length (h_slots h1) = 2 ^ k" using hash_invD(3) [OF u(1)] by blast
    have "(2 :: nat) ^ 7 < 2 ^ k" using True k(2) by simp
    then have "7 < k" by (rule power_less_imp_less_exp [rotated]) simp
    then have k': "6 \<le> k - 1" "k - 1 < 31" "length (h_slots h1) div 2 = 2 ^ (k - 1)" using k by (simp_all add: power_diff)
    have e1: "h_elts h1 < 2 ^ 28" using u(4) e by simp
    obtain h' where h': "hash_resize_internal K (Some h1) (2 ^ (k - 1)) = Some (Some h')" "hash_inv K ks ke h'" "same_header h1 h'"
      "h_elts h' = h_elts h1" "value_in ke (pairs_of h') = value_in ke (pairs_of h1)"
      using hash_resize_spec [OF u(1) e1 k'(1,2)] by blast
    have "hash_unset3 K (Some h) key = Some (Some h', old)"
      using l True h'(1) k'(3) by (simp add: hash_unset3_def hash_resize_def)
    then show ?thesis using h' u same_header_trans [OF same h'(3)] by simp
  next
    case False
    then have "hash_unset3 K (Some h) key = Some (Some h1, old)" using l by (auto simp: hash_unset3_def)
    then show ?thesis using u same by simp
  qed
qed

lemma hash_dup_spec:
  assumes "hash_inv K ks ke h" and "h_elts h < 2 ^ 28"
  shows "\<exists>h'. hash_dup K (Some h) = Some (Some h') \<and> hash_inv K ks ke h' \<and> same_header h h'
    \<and> h_elts h' = h_elts h \<and> value_in ke (pairs_of h') = value_in ke (pairs_of h)"
proof -
  obtain k where k: "6 \<le> k" "k < 31" "length (h_slots h) = 2 ^ k" using hash_invD(3) [OF assms(1)] by blast
  from hash_resize_spec [OF assms k(1,2)] show ?thesis by (simp add: hash_dup_def hash_capacity_def k(3))
qed

lemma hash_get_spec:
  assumes "hash_inv K ks ke h" and "h_log2_pair_size h \<noteq> 0"
  shows "hash_get K (Some h) key = value_in ke (pairs_of h) key"
proof (cases "h_elts h = 0")
  case True
  then have "pairs_of h = []" using hash_invD(7) [OF assms(1)] by simp
  then show ?thesis using True by (simp only: hash_get_def option.case) (simp add: value_in_def)
next
  case False
  then show ?thesis using hash_get_pair_spec [OF assms(1), of key] assms(2)
    by (auto simp: hash_get_def hash_get_pair_def value_in_def split: option.splits)
qed

end

end
