(* ===== verification/Clib_Hash_Map.thy ===== *)
theory Clib_Hash_Map
  imports Clib_Hash
begin

text \<open>
  What the hash table of \<open>Clib_Hash\<close> promises: for key functions that agree with each other, as the special
  ones and those of \<open>src/clib/hash.c\<close> do, a table is a finite map under every sequence of operations,
  whatever resizing they cause; iteration visits every pair once; and what \<open>hash_validate\<close> accepts.
\<close>

section \<open>Key functions\<close>

definition keys_agree :: "key_env \<Rightarrow> hash \<Rightarrow> bool" where
  "keys_agree K h \<longleftrightarrow>
     (\<forall>a. key_equal K h a a) \<and> (\<forall>a b. key_equal K h a b \<longrightarrow> key_equal K h b a)
     \<and> (\<forall>a b c. key_equal K h a b \<longrightarrow> key_equal K h b c \<longrightarrow> key_equal K h a c)
     \<and> (\<forall>a b. key_equal K h a b \<longrightarrow> key_sum K h a = key_sum K h b)"

lemma keys_agree_iff: "keys_agree K h \<longleftrightarrow> hash_keys (key_sum K h) (key_equal K h)"
  unfolding keys_agree_def hash_keys_def by blast

lemma string_key_agree: "string_key_equal m a b \<Longrightarrow> string_key_sum m a = string_key_sum m b"
proof -
  assume "string_key_equal m a b"
  then have e: "bytes_at m a (strlen m a) = bytes_at m b (strlen m b)" by (simp add: string_key_equal_def)
  have n: "strlen m a = strlen m b" using arg_cong [OF e, of length] by simp
  show ?thesis unfolding string_key_sum_def n by (rule hash_memory_bytes) (use e in \<open>simp only: n\<close>)
qed

lemma mem_key_agree: "mem_key_equal m user a b \<Longrightarrow> mem_key_sum m user a = mem_key_sum m user b"
  unfolding mem_key_equal_def mem_key_sum_def by (rule hash_memory_bytes) blast

lemma vec_key_agree: "vec_key_equal m len user a b \<Longrightarrow> vec_key_sum m len user a = vec_key_sum m len user b"
proof -
  assume e: "vec_key_equal m len user a b"
  then have n: "len a = len b" by (simp add: vec_key_equal_def)
  show ?thesis unfolding vec_key_sum_def n by (rule hash_memory_bytes) (use e in \<open>simp add: vec_key_equal_def n\<close>)
qed

lemma special_keys_agree:
  assumes "h_key_sum h = h_key_equal h" and "h_key_sum h \<noteq> KEY_FUNC_CALL"
  shows "keys_agree K h"
proof (cases "h_key_sum h")
  case KEY_FUNC_STRING
  have eq: "key_equal K h a b \<longleftrightarrow> a = b \<or> string_key_equal (mem K) a b" for a b
    using KEY_FUNC_STRING assms(1) by (auto simp: key_equal_def key_equal1_def)
  have sum: "key_sum K h a = string_key_sum (mem K) a" for a using KEY_FUNC_STRING by (simp add: key_sum_def)
  show ?thesis unfolding keys_agree_def eq sum using string_key_agree by (auto simp: string_key_equal_def)
qed (use assms in \<open>auto simp: keys_agree_def key_equal_def key_equal1_def key_sum_def Let_def split: if_splits\<close>)

text \<open>Keys that point to objects of a fixed size, and keys that are vectors.\<close>

lemma mem_keys_agree:
  assumes "h_key_sum h = KEY_FUNC_CALL" and "h_key_equal h = KEY_FUNC_CALL"
    and "call_sum K = mem_key_sum (mem K)" and "call_equal K = mem_key_equal (mem K)"
  shows "keys_agree K h"
proof -
  have eq: "key_equal K h a b \<longleftrightarrow> a = b \<or> mem_key_equal (mem K) (h_user h) a b" for a b
    using assms by (auto simp: key_equal_def key_equal1_def)
  have sum: "key_sum K h a = mem_key_sum (mem K) (h_user h) a" for a using assms by (simp add: key_sum_def)
  show ?thesis unfolding keys_agree_def eq sum using mem_key_agree by (auto simp: mem_key_equal_def)
qed

lemma vec_keys_agree:
  assumes "h_key_sum h = KEY_FUNC_CALL" and "h_key_equal h = KEY_FUNC_CALL"
    and "call_sum K = vec_key_sum (mem K) len" and "call_equal K = vec_key_equal (mem K) len"
  shows "keys_agree K h"
proof -
  have eq: "key_equal K h a b \<longleftrightarrow> a = b \<or> vec_key_equal (mem K) len (h_user h) a b" for a b
    using assms by (auto simp: key_equal_def key_equal1_def)
  have sum: "key_sum K h a = vec_key_sum (mem K) len (h_user h) a" for a using assms by (simp add: key_sum_def)
  have sym: "vec_key_equal (mem K) len u b a" if "vec_key_equal (mem K) len u a b" for a b u
    using that unfolding vec_key_equal_def by metis
  have trans: "vec_key_equal (mem K) len u a c" if "vec_key_equal (mem K) len u a b" "vec_key_equal (mem K) len u b c" for a b c u
    using that unfolding vec_key_equal_def by metis
  show ?thesis unfolding keys_agree_def eq sum using vec_key_agree sym trans by blast
qed

text \<open>The tables of \<open>hash_create\<close>, \<open>hash_create_string\<close> and \<open>hash_create_uword\<close>, for any memory.\<close>

definition header_for :: "key_func \<Rightarrow> hash" where
  "header_for f = \<lparr>h_elts = 0, h_flags = 0, h_log2_pair_size = 1, h_key_sum = f, h_key_equal = f, h_user = 0, h_slots = []\<rparr>"

interpretation word_keys: hash_keys K "key_sum K (header_for KEY_FUNC_NONE)" "key_equal K (header_for KEY_FUNC_NONE)" for K
  unfolding keys_agree_iff [symmetric] by (rule special_keys_agree) (simp_all add: header_for_def)

interpretation string_keys: hash_keys K "key_sum K (header_for KEY_FUNC_STRING)" "key_equal K (header_for KEY_FUNC_STRING)" for K
  unfolding keys_agree_iff [symmetric] by (rule special_keys_agree) (simp_all add: header_for_def)

interpretation pointer_keys: hash_keys K "key_sum K (header_for KEY_FUNC_POINTER_UWORD)" "key_equal K (header_for KEY_FUNC_POINTER_UWORD)" for K
  unfolding keys_agree_iff [symmetric] by (rule special_keys_agree) (simp_all add: header_for_def)

section \<open>Sequences of operations\<close>

datatype hash_op = Op_set uword hash_value | Op_unset uword

definition hash_step :: "key_env \<Rightarrow> hash_op \<Rightarrow> hash option \<Rightarrow> (hash option \<times> hash_value option) option" where
  "hash_step K op v =
     (case op of
        Op_set key x \<Rightarrow> (case hash_set3 K v key x of None \<Rightarrow> None | Some (h, old) \<Rightarrow> Some (Some h, old))
      | Op_unset key \<Rightarrow> hash_unset3 K v key)"

fun hash_run :: "key_env \<Rightarrow> hash_op list \<Rightarrow> hash option \<Rightarrow> (hash option \<times> hash_value option list) option" where
  "hash_run K [] v = Some (v, [])"
| "hash_run K (op # ops) v =
     (case hash_step K op v of
        None \<Rightarrow> None
      | Some (v, old) \<Rightarrow> (case hash_run K ops v of None \<Rightarrow> None | Some (v, olds) \<Rightarrow> Some (v, old # olds)))"

text \<open>The same on maps from keys to values, keys being taken up to their comparison.\<close>

fun map_step :: "(uword \<Rightarrow> uword \<Rightarrow> bool) \<Rightarrow> hash_op \<Rightarrow> (uword \<Rightarrow> hash_value option) \<Rightarrow> (uword \<Rightarrow> hash_value option)" where
  "map_step ke (Op_set key x) m = (\<lambda>k. if ke key k then Some x else m k)"
| "map_step ke (Op_unset key) m = (\<lambda>k. if ke key k then None else m k)"

fun op_key :: "hash_op \<Rightarrow> uword" where
  "op_key (Op_set key x) = key"
| "op_key (Op_unset key) = key"

fun map_run :: "(uword \<Rightarrow> uword \<Rightarrow> bool) \<Rightarrow> hash_op list \<Rightarrow> (uword \<Rightarrow> hash_value option) \<Rightarrow> (uword \<Rightarrow> hash_value option) \<times> hash_value option list" where
  "map_run ke [] m = (m, [])"
| "map_run ke (op # ops) m = (let (m', olds) = map_run ke ops (map_step ke op m) in (m', m (op_key op) # olds))"

fun op_fits :: "nat \<Rightarrow> hash_op \<Rightarrow> bool" where
  "op_fits n (Op_set key x) \<longleftrightarrow> length x = n"
| "op_fits n (Op_unset key) \<longleftrightarrow> True"

context hash_keys
begin

lemma hash_step_refines:
  assumes "hash_inv K ks ke h" and "op_fits (value_words h) op" and "h_elts h < 2 ^ 28"
  shows "\<exists>h'. hash_step K op (Some h) = Some (Some h', value_in ke (pairs_of h) (op_key op)) \<and> hash_inv K ks ke h' \<and> same_header h h'
    \<and> h_elts h' \<le> h_elts h + 1 \<and> value_in ke (pairs_of h') = map_step ke op (value_in ke (pairs_of h))"
proof (cases op)
  case (Op_set key x)
  then have "length x = value_words h" using assms(2) by simp
  from hash_set3_spec [OF assms(1) this assms(3), of key] show ?thesis
    using Op_set by (auto simp: hash_step_def set_to_def fun_eq_iff)
next
  case (Op_unset key)
  from hash_unset3_spec [OF assms(1,3), of key] show ?thesis
    using Op_unset by (auto simp: hash_step_def fun_eq_iff)
qed

lemma hash_run_refines:
  "hash_inv K ks ke h \<Longrightarrow> \<forall>op \<in> set ops. op_fits (value_words h) op \<Longrightarrow> h_elts h + length ops \<le> 2 ^ 28 \<Longrightarrow>
    \<exists>h'. hash_run K ops (Some h) = Some (Some h', snd (map_run ke ops (value_in ke (pairs_of h)))) \<and> hash_inv K ks ke h'
      \<and> same_header h h' \<and> value_in ke (pairs_of h') = fst (map_run ke ops (value_in ke (pairs_of h)))"
proof (induction ops arbitrary: h)
  case Nil
  then show ?case by (simp add: same_header_refl)
next
  case (Cons op ops)
  have "op_fits (value_words h) op" "h_elts h < 2 ^ 28" using Cons.prems by simp_all
  then obtain h1 where h1: "hash_step K op (Some h) = Some (Some h1, value_in ke (pairs_of h) (op_key op))" "hash_inv K ks ke h1"
    "same_header h h1" "h_elts h1 \<le> h_elts h + 1" "value_in ke (pairs_of h1) = map_step ke op (value_in ke (pairs_of h))"
    using hash_step_refines [OF Cons.prems(1)] by blast
  have "\<forall>op \<in> set ops. op_fits (value_words h1) op" "h_elts h1 + length ops \<le> 2 ^ 28"
    using Cons.prems(2,3) h1(4) same_headerD(3) [OF h1(3)] by simp_all
  from Cons.IH [OF h1(2) this] obtain h' where
    h': "hash_run K ops (Some h1) = Some (Some h', snd (map_run ke ops (value_in ke (pairs_of h1))))" "hash_inv K ks ke h'"
      "same_header h1 h'" "value_in ke (pairs_of h') = fst (map_run ke ops (value_in ke (pairs_of h1)))" by blast
  show ?case
    using h1 h' same_header_trans [OF h1(3) h'(3)] by (intro exI [of _ h']) (simp add: case_prod_beta Let_def)
qed

end

lemma create2_inv:
  assumes "hash_create2 n user value_bytes fs fe = Some h" and "n < 2 ^ 64"
  shows "hash_inv K (key_sum K h) (key_equal K h) h" "h_elts h = 0" "pairs_of h = []"
    "h_key_sum h = fs" "h_key_equal h = fe" "h_log2_pair_size h = hash_set_value_bytes value_bytes"
proof -
  note c = create_like [OF assms(1) [unfolded hash_create2_def] assms(2)]
  show "hash_inv K (key_sum K h) (key_equal K h) h" using c(4) [of K] same_headerD(1,2) [OF c(1)] by simp
  show "h_elts h = 0" "pairs_of h = []" by (fact c(2) c(3))+
  show "h_key_sum h = fs" "h_key_equal h = fe" "h_log2_pair_size h = hash_set_value_bytes value_bytes"
    using c(1) by (simp_all add: same_header_def)
qed

section \<open>Iteration\<close>

text \<open>The pairs \<open>hash_next\<close> has not returned yet, and the states it goes through.\<close>

definition rest_pairs :: "hash \<Rightarrow> hash_next_state \<Rightarrow> hash_pair list" where
  "rest_pairs h hn = drop (hn_j hn) (concat (map slot_pairs (drop (hn_i hn) (h_slots h))))"

definition next_state :: "hash \<Rightarrow> hash_next_state \<Rightarrow> bool" where
  "next_state h hn \<longleftrightarrow>
     (if hn_i hn < length (h_slots h)
      then (case h_slots h ! hn_i hn of Direct _ \<Rightarrow> hn_j hn = 0 | Indirect ps _ \<Rightarrow> hn_j hn \<le> length ps)
      else hn_j hn = 0)"

abbreviation no_state :: hash_next_state where
  "no_state \<equiv> \<lparr>hn_i = 0, hn_j = 0, hn_f = 0\<rparr>"

lemma next_state_0: "hn_j hn = 0 \<Longrightarrow> next_state h hn"
  by (simp add: next_state_def split: hash_pair_union.split)

lemma rest_pairs_unfold:
  "hn_i hn < length (h_slots h) \<Longrightarrow>
    rest_pairs h hn = drop (hn_j hn) (slot_pairs (h_slots h ! hn_i hn) @ concat (map slot_pairs (drop (Suc (hn_i hn)) (h_slots h))))"
  by (simp add: rest_pairs_def Cons_nth_drop_Suc [symmetric])

lemma hash_next_loop_spec:
  "next_state h hn \<Longrightarrow>
    (case rest_pairs h hn of
       [] \<Rightarrow> hash_next_loop h hn = (h\<lparr>h_flags := hn_f hn\<rparr>, no_state, None)
     | p # ps \<Rightarrow> \<exists>hn'. hash_next_loop h hn = (h, hn', Some p) \<and> next_state h hn' \<and> rest_pairs h hn' = ps
         \<and> hn_f hn' = hn_f hn \<and> (0 < hn_i hn' \<or> 0 < hn_j hn'))"
proof (induction h hn rule: hash_next_loop.induct)
  case (1 h hn)
  show ?case
  proof (cases "hn_i hn < length (h_slots h)")
    case False
    then show ?thesis by (simp add: rest_pairs_def hash_next_loop.simps [of h hn])
  next
    case True
    show ?thesis
    proof (cases "h_slots h ! hn_i hn")
      case (Direct p)
      then have j: "hn_j hn = 0" using 1(2) True by (simp add: next_state_def)
      have r: "rest_pairs h hn = p # rest_pairs h (hn\<lparr>hn_i := hn_i hn + 1\<rparr>)"
        using j True Direct by (simp add: rest_pairs_unfold slot_pairs_def) (simp add: rest_pairs_def)
      have "hash_next_loop h hn = (h, hn\<lparr>hn_i := hn_i hn + 1\<rparr>, Some p)"
        using True Direct by (simp add: hash_next_loop.simps [of h hn])
      then show ?thesis unfolding r using j by (auto intro: next_state_0)
    next
      case (Indirect ps l)
      then have j: "hn_j hn \<le> length ps" using 1(2) True by (simp add: next_state_def)
      show ?thesis
      proof (cases "length ps \<le> hn_j hn")
        case fin: True
        let ?hn = "hn\<lparr>hn_i := hn_i hn + 1, hn_j := 0\<rparr>"
        have r: "rest_pairs h hn = rest_pairs h ?hn"
          using j fin True Indirect by (simp add: rest_pairs_unfold slot_pairs_def) (simp add: rest_pairs_def)
        have s: "hash_next_loop h hn = hash_next_loop h ?hn"
          using True Indirect fin by (simp add: hash_next_loop.simps [of h hn])
        have "\<not> length (h_slots h) \<le> hn_i hn" using True by simp
        from 1(1) [OF this Indirect fin next_state_0] show ?thesis unfolding r s
          by (auto split: list.split_asm list.split)
      next
        case more: False
        let ?hn = "hn\<lparr>hn_j := hn_j hn + 1\<rparr>"
        have "drop (hn_j hn) ps = ps ! hn_j hn # drop (Suc (hn_j hn)) ps" using more by (simp add: Cons_nth_drop_Suc)
        then have r: "rest_pairs h hn = ps ! hn_j hn # rest_pairs h ?hn"
          using True Indirect more by (simp add: rest_pairs_unfold slot_pairs_def)
        have "hash_next_loop h hn = (h, ?hn, Some (ps ! hn_j hn))"
          using True Indirect more by (simp add: hash_next_loop.simps [of h hn])
        moreover have "next_state h ?hn" using True Indirect more by (simp add: next_state_def)
        ultimately show ?thesis unfolding r by auto
      qed
    qed
  qed
qed

text \<open>Calling \<open>hash_next\<close> until it returns null.\<close>

fun hash_next_all :: "nat \<Rightarrow> hash \<Rightarrow> hash_next_state \<Rightarrow> (hash_pair list \<times> hash \<times> hash_next_state) option" where
  "hash_next_all 0 h hn = None"
| "hash_next_all (Suc n) h hn =
     (case hash_next h hn of
        (h, hn, None) \<Rightarrow> Some ([], h, hn)
      | (h, hn, Some p) \<Rightarrow>
          (case hash_next_all n h hn of None \<Rightarrow> None | Some (ps, h, hn) \<Rightarrow> Some (p # ps, h, hn)))"

lemma hash_next_all_rest:
  "next_state h hn \<Longrightarrow> 0 < hn_i hn \<or> 0 < hn_j hn \<Longrightarrow>
    hash_next_all (Suc (length (rest_pairs h hn))) h hn = Some (rest_pairs h hn, h\<lparr>h_flags := hn_f hn\<rparr>, no_state)"
proof (induction "rest_pairs h hn" arbitrary: hn)
  case Nil
  then show ?case using hash_next_loop_spec [OF Nil(2)] by (auto simp: hash_next_def)
next
  case (Cons p ps)
  from hash_next_loop_spec [OF Cons(3)] Cons(2) obtain hn' where
    hn': "hash_next_loop h hn = (h, hn', Some p)" "next_state h hn'" "rest_pairs h hn' = ps" "hn_f hn' = hn_f hn" "0 < hn_i hn' \<or> 0 < hn_j hn'"
    by (simp split: list.splits) metis
  have "hash_next h hn = (h, hn', Some p)" using hn'(1) Cons(4) by (auto simp: hash_next_def)
  then show ?case using Cons(1) [OF hn'(3) [symmetric] hn'(2,5)] hn'(3,4) Cons(2) [symmetric] by simp
qed

section \<open>Validation\<close>

lemma validate_pairs_spec:
  "validate_pairs ps keys = (if distinct (map fst ps) \<and> set (map fst ps) \<inter> set keys = {} then Some (keys @ map fst ps) else None)"
  by (induction ps keys rule: validate_pairs.induct) auto

lemma slot_pairs_simps: "slot_pairs (Direct p) = [p]" "slot_pairs (Indirect ps l) = ps"
  by (simp_all add: slot_pairs_def)

lemma validate_slots_spec:
  assumes "distinct (map fst (concat (map slot_pairs ss)))" and "set (map fst (concat (map slot_pairs ss))) \<inter> set keys = {}"
  shows "validate_slots ss keys = (if \<exists>p. Direct p \<in> set ss \<and> fst p = 0 then None else Some (keys @ map fst (concat (map slot_pairs ss))))"
  using assms
proof (induction ss keys rule: validate_slots.induct)
  case (2 p ss keys)
  let ?k = "set (map fst (concat (map slot_pairs ss)))"
  have d: "?k \<inter> set (keys @ [fst p]) = {}" "distinct (map fst (concat (map slot_pairs ss)))"
    using 2(2,3) by (auto simp: slot_pairs_simps)
  show ?case
  proof (cases "fst p = 0")
    case False
    then show ?thesis using 2(1) [OF False d(2,1)] by (auto simp: slot_pairs_simps)
  qed (cases p, auto)
next
  case (3 ps l ss keys)
  let ?k = "set (map fst (concat (map slot_pairs ss)))"
  have v: "validate_pairs ps keys = Some (keys @ map fst ps)"
    unfolding validate_pairs_spec using 3(2,3) by (auto simp: slot_pairs_simps)
  have d: "?k \<inter> set (keys @ map fst ps) = {}" "distinct (map fst (concat (map slot_pairs ss)))"
    using 3(2,3) by (auto simp: slot_pairs_simps)
  show ?case using 3(1) [OF v d(2,1)] v by (simp add: slot_pairs_simps)
qed simp

section \<open>Properties\<close>

text \<open>A concrete table: the one \<open>hash_create (0, sizeof (uword))\<close> makes.\<close>

definition no_env :: key_env where
  "no_env = \<lparr>mem = \<lambda>_. 0, call_sum = \<lambda>_ _. 0, call_equal = \<lambda>_ a b. a = b\<rparr>"

definition empty_table :: hash where
  "empty_table = (header_for KEY_FUNC_NONE)\<lparr>h_slots := replicate 64 zero_slot\<rparr>"

lemma create_empty_table: "hash_create2 0 0 8 KEY_FUNC_NONE KEY_FUNC_NONE = Some empty_table"
proof -
  have "max_log2 2 = 1" using max_log2_exp [of 1] by simp
  then have "hash_set_value_bytes 8 = 1" by (simp add: hash_set_value_bytes_def)
  then show ?thesis using create_like_exp [of 6 "header_for KEY_FUNC_NONE"]
    by (simp add: hash_create2_def hash_create_like_def empty_table_def header_for_def max_def)
qed

lemma empty_table_words: "value_words empty_table = 1"
  by (simp add: empty_table_def header_for_def hash_value_bytes_def)

lemma empty_table_keys: "keys_agree no_env empty_table" "key_equal no_env empty_table = (=)"
proof -
  show "keys_agree no_env empty_table" by (rule special_keys_agree) (simp_all add: empty_table_def header_for_def)
  show "key_equal no_env empty_table = (=)"
    by (simp add: fun_eq_iff key_equal_def key_equal1_def empty_table_def header_for_def)
qed

text \<open>C12: the special key functions, paired with themselves, agree with each other: keys that compare equal
  have the same sum, and comparison is an equivalence, for whatever memory the keys point to. So do
  the functions for keys that point to objects of a fixed size and for keys that are vectors.\<close>

theorem hash_key_functions_agree:
  assumes "h_key_sum h = h_key_equal h"
    and "h_key_sum h = KEY_FUNC_CALL \<longrightarrow>
      (call_sum K = mem_key_sum (mem K) \<and> call_equal K = mem_key_equal (mem K))
      \<or> (call_sum K = vec_key_sum (mem K) vec_length \<and> call_equal K = vec_key_equal (mem K) vec_length)"
  shows "keys_agree K h"
  using assms special_keys_agree [OF assms(1)] mem_keys_agree [of h K] vec_keys_agree [of h K vec_length] by metis

theorem hash_key_functions_agree_witness: "keys_agree no_env (header_for KEY_FUNC_STRING)"
  by (rule hash_key_functions_agree) (simp_all add: header_for_def)

text \<open>C1: under any sequence of \<open>hash_set3\<close> and \<open>hash_unset3\<close>, with all the growing and shrinking they cause, a
  table is a finite map: every operation returns the old value of its key, no operation fails, and in the
  end every key has the value that was set last. The table stays well formed: every pair is in the slot
  its key is looked up in, the pairs of a slot fit into the memory allocated for them, no key is there
  twice and the number of elements is right.\<close>

theorem hash_refines_map:
  assumes "hash_create2 n user value_bytes fs fe = Some h" and "n < 2 ^ 64" and "keys_agree K h"
    and "\<forall>op \<in> set ops. op_fits (value_words h) op" and "length ops \<le> 2 ^ 28"
  shows "\<exists>h'. hash_run K ops (Some h) = Some (Some h', snd (map_run (key_equal K h) ops Map.empty))
    \<and> (\<forall>k. map_option snd (hash_get_pair K (Some h') k) = fst (map_run (key_equal K h) ops Map.empty) k)
    \<and> hash_inv K (key_sum K h) (key_equal K h) h'"
proof -
  note c = create2_inv [OF assms(1,2)]
  have k: "hash_keys (key_sum K h) (key_equal K h)" using assms(3) by (simp only: keys_agree_iff)
  have e: "value_in (key_equal K h) (pairs_of h) = Map.empty" unfolding c(3) value_in_def by (simp add: fun_eq_iff)
  have "h_elts h + length ops \<le> 2 ^ 28" using c(2) assms(5) by simp
  from hash_keys.hash_run_refines [OF k c(1) assms(4) this] obtain h' where
    h': "hash_run K ops (Some h) = Some (Some h', snd (map_run (key_equal K h) ops Map.empty))"
      "hash_inv K (key_sum K h) (key_equal K h) h'" "value_in (key_equal K h) (pairs_of h') = fst (map_run (key_equal K h) ops Map.empty)"
    unfolding e by blast
  have "map_option snd (hash_get_pair K (Some h') k) = value_in (key_equal K h) (pairs_of h') k" for k
    using hash_keys.hash_get_pair_spec [OF k h'(2)] by (simp add: value_in_def)
  then show ?thesis using h' by auto
qed

theorem hash_refines_map_witness:
  "\<exists>h'. hash_run no_env [Op_set 5 [7], Op_set 5 [8], Op_set 6 [1], Op_unset 5] (Some empty_table)
      = Some (Some h', [None, Some [7], None, Some [8]])
    \<and> map_option snd (hash_get_pair no_env (Some h') 6) = Some [1]
    \<and> map_option snd (hash_get_pair no_env (Some h') 5) = None"
proof -
  let ?ops = "[Op_set 5 [7], Op_set 5 [8], Op_set 6 [1], Op_unset 5]"
  have "\<forall>op \<in> set ?ops. op_fits (value_words empty_table) op" by (simp add: empty_table_words)
  from hash_refines_map [OF create_empty_table _ empty_table_keys(1) this] obtain h' where
    r: "hash_run no_env ?ops (Some empty_table) = Some (Some h', snd (map_run (=) ?ops Map.empty))"
    and g: "\<forall>k. map_option snd (hash_get_pair no_env (Some h') k) = fst (map_run (=) ?ops Map.empty) k"
    unfolding empty_table_keys(2) by auto
  have "snd (map_run (=) ?ops Map.empty) = [None, Some [7], None, Some [8]]"
    "fst (map_run (=) ?ops Map.empty) 6 = Some [1]" "fst (map_run (=) ?ops Map.empty) 5 = None" by simp_all
  with r g show ?thesis by (intro exI [of _ h']) (simp only: simp_thms)
qed

text \<open>C10: resizing to any power of two from 64 up, and duplicating, give a table with the same header and
  the same value for every key.\<close>

theorem hash_resize_keeps_contents:
  assumes "hash_inv K (key_sum K h) (key_equal K h) h" and "keys_agree K h" and "h_elts h < 2 ^ 28" and "6 \<le> k" and "k < 31"
  shows "\<exists>h1 h2. hash_resize K (Some h) (2 ^ k) = Some (Some h1) \<and> hash_dup K (Some h) = Some (Some h2)
    \<and> (\<forall>key. map_option snd (hash_get_pair K (Some h1) key) = map_option snd (hash_get_pair K (Some h) key)
          \<and> map_option snd (hash_get_pair K (Some h2) key) = map_option snd (hash_get_pair K (Some h) key))
    \<and> same_header h h1 \<and> same_header h h2 \<and> h_elts h1 = h_elts h \<and> h_elts h2 = h_elts h"
proof -
  have ks: "hash_keys (key_sum K h) (key_equal K h)" using assms(2) by (simp only: keys_agree_iff)
  have g: "map_option snd (hash_get_pair K (Some g) key) = value_in (key_equal K h) (pairs_of g) key"
    if "hash_inv K (key_sum K h) (key_equal K h) g" for g key
    using hash_keys.hash_get_pair_spec [OF ks that] by (simp add: value_in_def)
  obtain h1 where h1: "hash_resize_internal K (Some h) (2 ^ k) = Some (Some h1)" "hash_inv K (key_sum K h) (key_equal K h) h1"
      "same_header h h1" "h_elts h1 = h_elts h" "value_in (key_equal K h) (pairs_of h1) = value_in (key_equal K h) (pairs_of h)"
    using hash_keys.hash_resize_spec [OF ks assms(1,3-5)] by blast
  obtain h2 where h2: "hash_dup K (Some h) = Some (Some h2)" "hash_inv K (key_sum K h) (key_equal K h) h2"
      "same_header h h2" "h_elts h2 = h_elts h" "value_in (key_equal K h) (pairs_of h2) = value_in (key_equal K h) (pairs_of h)"
    using hash_keys.hash_dup_spec [OF ks assms(1,3)] by blast
  show ?thesis unfolding hash_resize_def using h1 h2 g [OF h1(2)] g [OF h2(2)] g [OF assms(1)] by auto
qed

theorem hash_resize_keeps_contents_witness:
  "\<exists>h1. hash_resize no_env (Some empty_table) (2 ^ 7) = Some (Some h1) \<and> h_elts h1 = 0"
  using hash_resize_keeps_contents [OF create2_inv(1) [OF create_empty_table] empty_table_keys(1), of 7]
  by (auto simp: empty_table_def header_for_def)

text \<open>C11: calling \<open>hash_next\<close> until it returns null visits the pairs in the order of \<open>hash_foreach_pair\<close>, each
  once, and leaves the table, its flags included, and the iteration state as they were.\<close>

theorem hash_next_visits_all:
  "hash_next_all (Suc (length (hash_foreach_pair (Some h)))) h no_state = Some (hash_foreach_pair (Some h), h, no_state)"
proof -
  let ?h = "h\<lparr>h_flags := h_flags h OR (HASH_FLAG_NO_AUTO_GROW OR HASH_FLAG_NO_AUTO_SHRINK OR HASH_FLAG_HASH_NEXT_IN_PROGRESS)\<rparr>"
  let ?hn = "no_state\<lparr>hn_f := h_flags h\<rparr>"
  have n: "hash_next h no_state = hash_next_loop ?h ?hn" by (simp add: hash_next_def)
  have r: "rest_pairs ?h ?hn = pairs_of h" by (simp add: rest_pairs_def pairs_of_eq)
  have s: "next_state ?h ?hn" by (rule next_state_0) simp
  show ?thesis
  proof (cases "pairs_of h")
    case Nil
    then show ?thesis using hash_next_loop_spec [OF s] unfolding r by (simp add: n)
  next
    case (Cons p ps)
    then obtain hn' where hn': "hash_next_loop ?h ?hn = (?h, hn', Some p)" "next_state ?h hn'" "rest_pairs ?h hn' = ps"
        "hn_f hn' = hn_f ?hn" "0 < hn_i hn' \<or> 0 < hn_j hn'"
      using hash_next_loop_spec [OF s] unfolding r by auto
    have "hash_next_all (Suc (length ps)) ?h hn' = Some (ps, h, no_state)"
      using hash_next_all_rest [OF hn'(2,5)] hn'(3,4) by simp
    then show ?thesis using hn'(1) n Cons by simp
  qed
qed

text \<open>\<open>hash_validate\<close> accepts a well formed table exactly when no slot holds a pair with key 0 alone: a
  table with such a pair, which every other operation handles, is reported as broken.\<close>

theorem hash_validate_rejects_key_zero:
  assumes "hash_inv K (key_sum K h) (key_equal K h) h" and "keys_agree K h"
  shows "hash_validate h \<longleftrightarrow> \<not> (\<exists>v. Direct (0, v) \<in> set (h_slots h))"
proof -
  have "distinct (map fst (pairs_of h))"
  proof -
    have "map (key_class (key_equal K h)) (pairs_of h) = map (\<lambda>k. Collect (key_equal K h k)) (map fst (pairs_of h))"
      by (simp add: key_class_def)
    then show ?thesis using hash_invD(6) [OF assms(1)] by (simp only: distinct_map [of _ "map fst (pairs_of h)"])
  qed
  then have "validate_slots (h_slots h) [] =
      (if \<exists>p. Direct p \<in> set (h_slots h) \<and> fst p = 0 then None else Some ([] @ map fst (pairs_of h)))"
    unfolding pairs_of_eq by (rule validate_slots_spec) simp
  then show ?thesis using hash_invD(7) [OF assms(1)] unfolding hash_validate_def by auto
qed

theorem hash_validate_rejects_key_zero_witness:
  "\<not> hash_validate (fst (lookup no_env empty_table 0 SET [7]))"
proof -
  let ?h = "fst (lookup no_env empty_table 0 SET [7])"
  have ks: "hash_keys (key_sum no_env empty_table) (key_equal no_env empty_table)"
    using empty_table_keys(1) by (simp only: keys_agree_iff)
  note i = create2_inv(1) [OF create_empty_table, of no_env, simplified]
  have inv: "hash_inv no_env (key_sum no_env empty_table) (key_equal no_env empty_table) ?h"
    by (rule hash_keys.lookup_set_spec(1) [OF ks i]) (simp add: empty_table_words)
  have b: "bucket no_env empty_table 0 < 64" using bucket_less [OF i, of 0] by (simp add: empty_table_def)
  have h: "h_slots ?h = (replicate 64 zero_slot)[bucket no_env empty_table 0 := Direct (0, [7])]"
  proof -
    have g: "h_slots (h\<lparr>h_slots := X, h_elts := n\<rparr>) = X" for h :: hash and X n by simp
    have e: "h_slots empty_table = replicate 64 zero_slot" by (simp add: empty_table_def)
    have "slot_set no_env empty_table zero_slot 0 [7] = Direct (0, [7])" by (simp add: slot_set_def zero_slot_def)
    then show ?thesis unfolding lookup_set(1) e nth_replicate [OF b] by (simp only: g)
  qed
  have "Direct (0, [7]) \<in> set (h_slots ?h)" unfolding h by (rule set_update_memI) (use b in \<open>simp only: length_replicate\<close>)
  moreover have "hash_inv no_env (key_sum no_env ?h) (key_equal no_env ?h) ?h" unfolding hash_invD(1,2) [OF inv] by (rule inv)
  moreover have "keys_agree no_env ?h" unfolding keys_agree_iff hash_invD(1,2) [OF inv] by (rule ks)
  ultimately show ?thesis using hash_validate_rejects_key_zero [of no_env ?h] by blast
qed

end
