(* ===== verification/Clib_Md5.thy ===== *)
theory Clib_Md5
  imports Clib_Prelude
begin

text \<open>
  The message digest: \<open>src/clib/md5.c\<close> and \<open>src/clib/md5.h\<close>. The input buffer of a context is its 64 bytes, which
  the code reads as 16 words (little endian, as on x86-64) too. A message is fed in pieces by \<open>md5_add\<close>;
  whether the address of a piece is a multiple of 4 decides which of two loops handles its blocks, and
  is an argument of the model.
\<close>

section \<open>The transformation\<close>

definition F :: "u32 \<Rightarrow> u32 \<Rightarrow> u32 \<Rightarrow> u32" where
  "F b c d = d XOR (b AND (c XOR d))"

definition G :: "u32 \<Rightarrow> u32 \<Rightarrow> u32 \<Rightarrow> u32" where
  "G b c d = F d b c"

definition H :: "u32 \<Rightarrow> u32 \<Rightarrow> u32 \<Rightarrow> u32" where
  "H b c d = b XOR c XOR d"

definition I :: "u32 \<Rightarrow> u32 \<Rightarrow> u32 \<Rightarrow> u32" where
  "I b c d = c XOR (b OR NOT d)"

definition ROTATE_LEFT :: "u32 \<Rightarrow> nat \<Rightarrow> u32" where
  "ROTATE_LEFT x n = push_bit n x OR drop_bit (32 - n) x"

datatype md5_op = FF | GG | HH | II

fun md5_fun :: "md5_op \<Rightarrow> u32 \<Rightarrow> u32 \<Rightarrow> u32 \<Rightarrow> u32" where
  "md5_fun FF = F"
| "md5_fun GG = G"
| "md5_fun HH = H"
| "md5_fun II = I"

text \<open>
  The 64 steps of \<open>md5_transform\<close>, in the order of the source: the macro, the index of the word of the block,
  the rotation and the constant. From line to line the roles of the variables a, b, c and d are passed on
  (\<open>(a, b, c, d)\<close>, \<open>(d, a, b, c)\<close>, \<open>(c, d, a, b)\<close>, \<open>(b, c, d, a)\<close>, and again), which in the model is a
  rotation of the tuple after every step.
\<close>

definition md5_steps :: "(md5_op \<times> nat \<times> nat \<times> u32) list" where
  "md5_steps =
    [(FF, 0, 7, 0xd76aa478), (FF, 1, 12, 0xe8c7b756), (FF, 2, 17, 0x242070db), (FF, 3, 22, 0xc1bdceee),
     (FF, 4, 7, 0xf57c0faf), (FF, 5, 12, 0x4787c62a), (FF, 6, 17, 0xa8304613), (FF, 7, 22, 0xfd469501),
     (FF, 8, 7, 0x698098d8), (FF, 9, 12, 0x8b44f7af), (FF, 10, 17, 0xffff5bb1), (FF, 11, 22, 0x895cd7be),
     (FF, 12, 7, 0x6b901122), (FF, 13, 12, 0xfd987193), (FF, 14, 17, 0xa679438e), (FF, 15, 22, 0x49b40821),
     (GG, 1, 5, 0xf61e2562), (GG, 6, 9, 0xc040b340), (GG, 11, 14, 0x265e5a51), (GG, 0, 20, 0xe9b6c7aa),
     (GG, 5, 5, 0xd62f105d), (GG, 10, 9, 0x02441453), (GG, 15, 14, 0xd8a1e681), (GG, 4, 20, 0xe7d3fbc8),
     (GG, 9, 5, 0x21e1cde6), (GG, 14, 9, 0xc33707d6), (GG, 3, 14, 0xf4d50d87), (GG, 8, 20, 0x455a14ed),
     (GG, 13, 5, 0xa9e3e905), (GG, 2, 9, 0xfcefa3f8), (GG, 7, 14, 0x676f02d9), (GG, 12, 20, 0x8d2a4c8a),
     (HH, 5, 4, 0xfffa3942), (HH, 8, 11, 0x8771f681), (HH, 11, 16, 0x6d9d6122), (HH, 14, 23, 0xfde5380c),
     (HH, 1, 4, 0xa4beea44), (HH, 4, 11, 0x4bdecfa9), (HH, 7, 16, 0xf6bb4b60), (HH, 10, 23, 0xbebfbc70),
     (HH, 13, 4, 0x289b7ec6), (HH, 0, 11, 0xeaa127fa), (HH, 3, 16, 0xd4ef3085), (HH, 6, 23, 0x04881d05),
     (HH, 9, 4, 0xd9d4d039), (HH, 12, 11, 0xe6db99e5), (HH, 15, 16, 0x1fa27cf8), (HH, 2, 23, 0xc4ac5665),
     (II, 0, 6, 0xf4292244), (II, 7, 10, 0x432aff97), (II, 14, 15, 0xab9423a7), (II, 5, 21, 0xfc93a039),
     (II, 12, 6, 0x655b59c3), (II, 3, 10, 0x8f0ccc92), (II, 10, 15, 0xffeff47d), (II, 1, 21, 0x85845dd1),
     (II, 8, 6, 0x6fa87e4f), (II, 15, 10, 0xfe2ce6e0), (II, 6, 15, 0xa3014314), (II, 13, 21, 0x4e0811a1),
     (II, 4, 6, 0xf7537e82), (II, 11, 10, 0xbd3af235), (II, 2, 15, 0x2ad7d2bb), (II, 9, 21, 0xeb86d391)]"

type_synonym md5_state = "u32 \<times> u32 \<times> u32 \<times> u32"

definition md5_step :: "u32 list \<Rightarrow> md5_op \<times> nat \<times> nat \<times> u32 \<Rightarrow> md5_state \<Rightarrow> md5_state" where
  "md5_step x = (\<lambda>(f, k, s, ac) (a, b, c, d).
     let a = a + (md5_fun f b c d + x ! k + ac);
         a = ROTATE_LEFT a s;
         a = a + b
     in (d, a, b, c))"

definition md5_block :: "u32 list \<Rightarrow> md5_state \<Rightarrow> md5_state" where
  "md5_block x = (\<lambda>(a0, b0, c0, d0).
     let (a, b, c, d) = fold (md5_step x) md5_steps (a0, b0, c0, d0)
     in (a + a0, b + b0, c + c0, d + d0))"

section \<open>Contexts\<close>

record md5_context =
  n_bits :: u64
  state :: md5_state
  input_buffer :: "u8 list"

text \<open>The words of 64 bytes.\<close>

fun words32 :: "u8 list \<Rightarrow> u32 list" where
  "words32 (b0 # b1 # b2 # b3 # bs) =
     (ucast b0 OR push_bit 8 (ucast b1) OR push_bit 16 (ucast b2) OR push_bit 24 (ucast b3)) # words32 bs"
| "words32 _ = []"

definition digest_bytes :: "md5_state \<Rightarrow> u8 list" where
  "digest_bytes = (\<lambda>(a, b, c, d). bytes_of 4 a @ bytes_of 4 b @ bytes_of 4 c @ bytes_of 4 d)"

text \<open>
  \<open>md5_transform\<close> without a result pointer, and with one, when it returns the digest (and wipes the context,
  which is not used any more).
\<close>

definition md5_transform :: "md5_context \<Rightarrow> u8 list \<Rightarrow> bool \<Rightarrow> md5_context" where
  "md5_transform m data zero_buffer =
     m\<lparr>state := md5_block (words32 data) (state m),
       input_buffer := (if zero_buffer then replicate 64 0 else input_buffer m)\<rparr>"

definition md5_transform_result :: "md5_context \<Rightarrow> u8 list \<Rightarrow> u8 list" where
  "md5_transform_result m data = digest_bytes (md5_block (words32 data) (state m))"

definition md5_init :: md5_context where
  "md5_init = \<lparr>n_bits = 0, state = (0x67452301, 0xefcdab89, 0x98badcfe, 0x10325476), input_buffer = replicate 64 0\<rparr>"

text \<open>The loop over whole blocks that are read where they are, and the loop over single bytes.\<close>

function md5_add_blocks :: "md5_context \<Rightarrow> u8 list \<Rightarrow> md5_context \<times> u8 list" where
  "md5_add_blocks c d =
     (if length d < 64 then (c, d)
      else let is_last_iteration = length d - 64 < 64
           in md5_add_blocks (md5_transform c (take 64 d) is_last_iteration) (drop 64 d))"
  by pat_completeness auto
termination by (relation "measure (\<lambda>(c, d). length d)") auto

declare md5_add_blocks.simps [simp del]

fun md5_add_bytes :: "md5_context \<Rightarrow> nat \<Rightarrow> u8 list \<Rightarrow> md5_context" where
  "md5_add_bytes c bi [] = c"
| "md5_add_bytes c bi (b # bs) =
     (let c = c\<lparr>input_buffer := (input_buffer c)[bi := b]\<rparr>;
          bi = bi + 1
      in if bi = 64 then md5_add_bytes (md5_transform c (input_buffer c) True) 0 bs
         else md5_add_bytes c bi bs)"

definition md5_add :: "bool \<Rightarrow> md5_context \<Rightarrow> u8 list \<Rightarrow> md5_context" where
  "md5_add aligned c data =
     (if data = [] then c
      else
        let (c, d) = (if aligned \<and> unat (n_bits c) mod 512 = 0 \<and> 64 \<le> length data
                      then md5_add_blocks c data else (c, data));
            bi = unat (n_bits c) div 8 mod 64;
            c = md5_add_bytes c bi d
        in c\<lparr>n_bits := n_bits c + of_nat (length data * 8)\<rparr>)"

definition md5_finish :: "bool \<Rightarrow> md5_context \<Rightarrow> u8 list" where
  "md5_finish aligned c =
     (let n_bits_save = n_bits c;
          bi = unat n_bits_save div 8 mod 64;
          n_pad = 64 - (int bi + 8);
          n_pad = (if n_pad \<le> 0 then n_pad + 64 else n_pad);
          c = md5_add aligned c (take (nat n_pad) (0x80 # replicate 63 0));
          buffer = take 56 (input_buffer c) @ bytes_of 8 n_bits_save
      in md5_transform_result c buffer)"

section \<open>The digest of a whole message\<close>

text \<open>The message is padded with a one bit, zeros and its length, and its blocks are transformed in turn.\<close>

definition md5_pad :: "u8 list \<Rightarrow> u8 list" where
  "md5_pad msg = msg @ 0x80 # replicate ((119 - length msg mod 64) mod 64) 0 @ bytes_of 8 (of_nat (length msg * 8) :: u64)"

function md5_blocks :: "u8 list \<Rightarrow> md5_state \<Rightarrow> md5_state" where
  "md5_blocks d s = (if length d < 64 then s else md5_blocks (drop 64 d) (md5_block (words32 (take 64 d)) s))"
  by pat_completeness auto
termination by (relation "measure (\<lambda>(d, s). length d)") auto

declare md5_blocks.simps [simp del]

definition md5_digest :: "u8 list \<Rightarrow> u8 list" where
  "md5_digest msg = digest_bytes (md5_blocks (md5_pad msg) (state md5_init))"

section \<open>Feeding a message in pieces\<close>

lemma md5_blocks_short: "length d < 64 \<Longrightarrow> md5_blocks d s = s"
  by (simp add: md5_blocks.simps)

lemma md5_blocks_append: "length d mod 64 = 0 \<Longrightarrow> md5_blocks (d @ e) s = md5_blocks e (md5_blocks d s)"
proof (induction d s rule: md5_blocks.induct)
  case (1 d s)
  show ?case
  proof (cases "length d < 64")
    case True
    then have "d = []" using 1(2) by simp
    then show ?thesis by (simp add: md5_blocks_short)
  next
    case False
    then have "length (drop 64 d) mod 64 = 0" using 1(2) by (simp add: le_mod_geq)
    from 1(1) [OF False this] show ?thesis using False
      by (simp add: md5_blocks.simps [of d] md5_blocks.simps [of "d @ e"])
  qed
qed

lemma md5_blocks_one: "length d = 64 \<Longrightarrow> md5_blocks d s = md5_block (words32 d) s"
  by (simp add: md5_blocks.simps [of d] md5_blocks_short)

text \<open>
  A context that has taken in a message: the whole blocks are in the state, the rest is in the buffer.
\<close>

definition tail_of :: "u8 list \<Rightarrow> u8 list" where
  "tail_of msg = drop (length msg div 64 * 64) msg"

definition taken :: "md5_context \<Rightarrow> u8 list \<Rightarrow> bool" where
  "taken c msg \<longleftrightarrow>
     state c = md5_blocks msg (state md5_init) \<and> length (input_buffer c) = 64
     \<and> take (length msg mod 64) (input_buffer c) = tail_of msg"

lemma msg_split: "msg = take (length msg div 64 * 64) msg @ tail_of msg" "length (tail_of msg) = length msg mod 64"
  by (simp_all add: tail_of_def minus_div_mult_eq_mod)

lemma front_length: "length (take (length msg div 64 * 64) msg) mod 64 = 0"
  unfolding length_take min.absorb2 [OF div_times_less_eq_dividend] by simp

lemma blocks_of_front: "md5_blocks msg s = md5_blocks (take (length msg div 64 * 64) msg) s"
proof -
  have l: "length (take (length msg div 64 * 64) msg) mod 64 = 0" by (rule front_length)
  have "md5_blocks (take (length msg div 64 * 64) msg @ tail_of msg) s = md5_blocks (take (length msg div 64 * 64) msg) s"
    using md5_blocks_append [OF l] md5_blocks_short [of "tail_of msg"] msg_split(2) by simp
  then show ?thesis using msg_split(1) [of msg] by simp
qed

lemma blocks_append_tail:
  "md5_blocks (msg @ e) s = md5_blocks (tail_of msg @ e) (md5_blocks msg s)"
proof -
  let ?f = "take (length msg div 64 * 64) msg"
  have l: "length ?f mod 64 = 0" by (rule front_length)
  have "md5_blocks (?f @ (tail_of msg @ e)) s = md5_blocks (tail_of msg @ e) (md5_blocks ?f s)"
    by (rule md5_blocks_append [OF l])
  then show ?thesis using msg_split(1) [of msg] blocks_of_front [of msg s] by (metis append.assoc)
qed

lemma tail_of_append: "tail_of (msg @ e) = tail_of (tail_of msg @ e)"
proof -
  define q n where "q = length msg div 64" and "n = length (tail_of msg @ e)"
  have q: "q * 64 \<le> length msg" by (simp add: q_def)
  have t: "tail_of msg = drop (q * 64) msg" by (simp add: tail_of_def q_def)
  have "length (msg @ e) = q * 64 + n" using q by (simp add: n_def t)
  then have "length (msg @ e) div 64 * 64 = q * 64 + n div 64 * 64" by (simp add: add_mult_distrib)
  then show ?thesis unfolding tail_of_def [of "msg @ e"] tail_of_def [of "tail_of msg @ e"] n_def [symmetric]
    using q by (simp add: t add.commute)
qed

lemma taken_byte:
  fixes b :: u8
  assumes t: "taken c msg" and bi: "bi = length msg mod 64"
  defines "c1 \<equiv> c\<lparr>input_buffer := (input_buffer c)[bi := b]\<rparr>"
  shows "taken (if bi + 1 = 64 then md5_transform c1 (input_buffer c1) True else c1) (msg @ [b])"
    and "(if bi + 1 = 64 then 0 else bi + 1) = length (msg @ [b]) mod 64"
proof -
  have len: "length (tail_of msg) = bi" "bi < 64" using msg_split(2) bi by simp_all
  have buf: "take bi (input_buffer c) = tail_of msg" "length (input_buffer c) = 64" "state c = md5_blocks msg (state md5_init)"
    using t bi by (simp_all add: taken_def)
  have front: "take (bi + 1) (input_buffer c1) = tail_of msg @ [b]"
    using buf len by (simp add: c1_def take_Suc_conv_app_nth)
  show m: "(if bi + 1 = 64 then 0 else bi + 1) = length (msg @ [b]) mod 64" using bi by (simp add: mod_Suc)
  show "taken (if bi + 1 = 64 then md5_transform c1 (input_buffer c1) True else c1) (msg @ [b])"
  proof (cases "bi + 1 = 64")
    case True
    then have full: "input_buffer c1 = tail_of msg @ [b]" using front buf(2) by (simp add: c1_def)
    have "md5_blocks (msg @ [b]) (state md5_init) = md5_block (words32 (tail_of msg @ [b])) (state c)"
      unfolding blocks_append_tail [of msg] buf(3) [symmetric] using True len by (intro md5_blocks_one) simp
    moreover have "tail_of (tail_of msg @ [b]) = []" using True len by (simp add: tail_of_def)
    ultimately show ?thesis using True full m by (simp add: taken_def md5_transform_def tail_of_append [of msg] c1_def)
  next
    case False
    then have short: "length (tail_of msg @ [b]) < 64" using len by simp
    then have "tail_of (tail_of msg @ [b]) = tail_of msg @ [b]" by (simp add: tail_of_def)
    moreover have "md5_blocks (msg @ [b]) (state md5_init) = state c"
      unfolding blocks_append_tail [of msg] buf(3) [symmetric] by (rule md5_blocks_short [OF short])
    ultimately show ?thesis using False front m buf(2) by (simp add: taken_def tail_of_append [of msg] c1_def)
  qed
qed

lemma taken_bytes:
  "taken c msg \<Longrightarrow> bi = length msg mod 64 \<Longrightarrow>
    taken (md5_add_bytes c bi bs) (msg @ bs) \<and> n_bits (md5_add_bytes c bi bs) = n_bits c"
proof (induction bs arbitrary: c bi msg)
  case (Cons b bs)
  let ?c1 = "c\<lparr>input_buffer := (input_buffer c)[bi := b]\<rparr>"
  let ?c2 = "if bi + 1 = 64 then md5_transform ?c1 (input_buffer ?c1) True else ?c1"
  have n: "n_bits ?c2 = n_bits c" by (simp add: md5_transform_def)
  have "md5_add_bytes c bi (b # bs) = md5_add_bytes ?c2 (if bi + 1 = 64 then 0 else bi + 1) bs"
    by (simp add: Let_def)
  with Cons.IH [OF taken_byte [OF Cons.prems, of b]] n show ?case by simp
qed simp

lemma taken_blocks:
  "taken c msg \<Longrightarrow> length msg mod 64 = 0 \<Longrightarrow> md5_add_blocks c d = (c', d') \<Longrightarrow>
    \<exists>e. d = e @ d' \<and> length e mod 64 = 0 \<and> taken c' (msg @ e) \<and> n_bits c' = n_bits c"
proof (induction c d arbitrary: msg rule: md5_add_blocks.induct)
  case (1 c d)
  show ?case
  proof (cases "length d < 64")
    case True
    then show ?thesis using 1(2,4) by (simp add: md5_add_blocks.simps [of c d])
  next
    case False
    let ?z = "length d - 64 < 64"
    let ?c = "md5_transform c (take 64 d) ?z"
    have r: "md5_add_blocks ?c (drop 64 d) = (c', d')" using 1(4) False by (simp add: md5_add_blocks.simps [of c d] Let_def)
    have l: "length (msg @ take 64 d) mod 64 = 0" using 1(3) False by simp
    have "md5_blocks (msg @ take 64 d) (state md5_init) = md5_block (words32 (take 64 d)) (state c)"
      using 1(2) md5_blocks_append [OF 1(3)] md5_blocks_one [of "take 64 d"] False by (simp add: taken_def)
    then have t: "taken ?c (msg @ take 64 d)"
      using 1(2) l msg_split(2) [of "msg @ take 64 d"] by (auto simp: taken_def md5_transform_def)
    obtain e where ex: "drop 64 d = e @ d' \<and> length e mod 64 = 0 \<and> taken c' ((msg @ take 64 d) @ e) \<and> n_bits c' = n_bits ?c"
      using 1(1) [OF False refl t l r] by (rule exE)
    note e = ex [THEN conjunct1] ex [THEN conjunct2, THEN conjunct1] ex [THEN conjunct2, THEN conjunct2, THEN conjunct1]
      ex [THEN conjunct2, THEN conjunct2, THEN conjunct2]
    have "d = (take 64 d @ e) @ d'" unfolding append.assoc e(1) [symmetric] by simp
    moreover have "length (take 64 d @ e) mod 64 = 0" using e(2) False by simp
    ultimately show ?thesis using e(3,4) by (intro exI [of _ "take 64 d @ e"]) (simp add: md5_transform_def)
  qed
qed

lemma taken_add:
  assumes t: "taken c msg" and n: "n_bits c = of_nat (length msg * 8)" and l: "length msg * 8 < 2 ^ 64"
  shows "taken (md5_add aligned c data) (msg @ data)" "n_bits (md5_add aligned c data) = of_nat (length (msg @ data) * 8)"
proof -
  have u: "unat (n_bits c) = length msg * 8" using n unat_of_nat_u64 [OF l] by simp
  then have bi: "unat (n_bits c) div 8 mod 64 = length msg mod 64" by simp
  have "taken (md5_add aligned c data) (msg @ data) \<and> n_bits (md5_add aligned c data) = of_nat (length (msg @ data) * 8)"
  proof (cases "aligned \<and> unat (n_bits c) mod 512 = 0 \<and> 64 \<le> length data")
    case True
    have "length msg * 8 mod 512 = length msg mod 64 * 8" using mod_mult_mult2 [of "length msg" 8 64] by simp
    then have m: "length msg mod 64 = 0" using u True by simp
    obtain c' d' where r: "md5_add_blocks c data = (c', d')" by fastforce
    obtain e where ex: "data = e @ d' \<and> length e mod 64 = 0 \<and> taken c' (msg @ e) \<and> n_bits c' = n_bits c"
      using taken_blocks [OF t m r] by (rule exE)
    note e = ex [THEN conjunct1] ex [THEN conjunct2, THEN conjunct1] ex [THEN conjunct2, THEN conjunct2, THEN conjunct1]
      ex [THEN conjunct2, THEN conjunct2, THEN conjunct2]
    have "length msg mod 64 = length (msg @ e) mod 64" using m e(2) by (simp add: mod_add_eq [symmetric])
    note t' = taken_bytes [OF e(3) this, of d']
    let ?c = "md5_add_bytes c' (length msg mod 64) d'"
    have "data \<noteq> []" using True by auto
    then have "md5_add aligned c data = ?c\<lparr>n_bits := n_bits ?c + of_nat (length data * 8)\<rparr>"
      unfolding md5_add_def if_P [OF True] r Let_def prod.case e(4) bi by simp
    moreover have "msg @ data = (msg @ e) @ d'" using e(1) by simp
    ultimately show ?thesis using t' e(4) n by (simp add: taken_def algebra_simps)
  next
    case False
    let ?c = "md5_add_bytes c (length msg mod 64) data"
    have "md5_add aligned c data = ?c\<lparr>n_bits := n_bits ?c + of_nat (length data * 8)\<rparr>"
      unfolding md5_add_def if_not_P [OF False] Let_def prod.case bi by simp
    then show ?thesis using taken_bytes [OF t refl, of data] n by (simp add: taken_def algebra_simps)
  qed
  then show "taken (md5_add aligned c data) (msg @ data)" "n_bits (md5_add aligned c data) = of_nat (length (msg @ data) * 8)"
    by simp_all
qed

text \<open>A sequence of calls of \<open>md5_add\<close>, each with the alignment of its data.\<close>

fun md5_add_all :: "md5_context \<Rightarrow> (bool \<times> u8 list) list \<Rightarrow> md5_context" where
  "md5_add_all c [] = c"
| "md5_add_all c ((aligned, data) # ps) = md5_add_all (md5_add aligned c data) ps"

abbreviation message :: "(bool \<times> u8 list) list \<Rightarrow> u8 list" where
  "message ps \<equiv> concat (map snd ps)"

lemma taken_all:
  "taken c msg \<Longrightarrow> n_bits c = of_nat (length msg * 8) \<Longrightarrow> length (msg @ message ps) * 8 < 2 ^ 64 \<Longrightarrow>
    taken (md5_add_all c ps) (msg @ message ps) \<and> n_bits (md5_add_all c ps) = of_nat (length (msg @ message ps) * 8)"
proof (induction ps arbitrary: c msg)
  case (Cons p ps)
  obtain a d where p: "p = (a, d)" by fastforce
  have l: "length msg * 8 < 2 ^ 64" using Cons.prems(3) by simp
  note t = taken_add [OF Cons.prems(1,2) l, of a d]
  show ?case using Cons.IH [OF t] Cons.prems(3) p by simp
qed simp

lemma taken_init: "taken md5_init []" "n_bits md5_init = of_nat (length ([] :: u8 list) * 8)"
  by (simp_all add: taken_def tail_of_def md5_blocks_short md5_init_def)

text \<open>Finishing adds the padding and the length, and transforms the last block.\<close>

lemma md5_finish_taken:
  assumes t: "taken c msg" and n: "n_bits c = of_nat (length msg * 8)" and l: "length msg * 8 < 2 ^ 64"
  shows "md5_finish aligned c = md5_digest msg"
proof -
  let ?bi = "length msg mod 64"
  let ?pad = "0x80 # replicate ((119 - ?bi) mod 64) 0 :: u8 list"
  have u: "unat (n_bits c) = length msg * 8" using n unat_of_nat_u64 [OF l] by simp
  define k where "k = (if 64 - (int ?bi + 8) \<le> 0 then 64 - (int ?bi + 8) + 64 else 64 - (int ?bi + 8))"
  have bi: "?bi < 64" by simp
  have k: "nat k = Suc ((119 - ?bi) mod 64)" "nat k \<le> 64"
  proof -
    consider "?bi < 56" | "56 \<le> ?bi" by linarith
    then show "nat k = Suc ((119 - ?bi) mod 64)"
    proof cases
      case 1
      then have "119 - ?bi = 55 - ?bi + 64" by simp
      then have "(119 - ?bi) mod 64 = 55 - ?bi" by (simp only: mod_add_self2) simp
      moreover have "nat (56 - int b) = Suc (55 - b)" if "b < 56" for b using that by linarith
      ultimately show ?thesis using 1 by (simp add: k_def)
    next
      case 2
      then have "(119 - ?bi) mod 64 = 119 - ?bi" by simp
      then show ?thesis using 2 bi by (simp add: k_def)
    qed
    then show "nat k \<le> 64" by (simp add: Suc_le_eq)
  qed
  have pad: "take (nat k) (0x80 # replicate 63 0) = ?pad" using k by (simp add: min_def)
  define c' where "c' = md5_add aligned c ?pad"
  have t': "taken c' (msg @ ?pad)" unfolding c'_def by (rule taken_add(1) [OF t n l])
  have m: "length (msg @ ?pad) mod 64 = 56"
  proof -
    have "(?bi + Suc ((119 - ?bi) mod 64)) mod 64 = 56"
    proof (cases "?bi < 56")
      case True
      then have "119 - ?bi = 55 - ?bi + 64" by simp
      then have "(119 - ?bi) mod 64 = 55 - ?bi" by (simp only: mod_add_self2) simp
      then show ?thesis using True by simp
    next
      case False
      then have "(119 - ?bi) mod 64 = 119 - ?bi" by simp
      then show ?thesis using False bi by simp
    qed
    then show ?thesis using mod_add_left_eq [of "length msg" 64 "Suc ((119 - ?bi) mod 64)"] by simp
  qed
  have buf: "take 56 (input_buffer c') = tail_of (msg @ ?pad)" "state c' = md5_blocks (msg @ ?pad) (state md5_init)"
    using t' unfolding taken_def m by simp_all
  have fin: "md5_finish aligned c = md5_transform_result c' (tail_of (msg @ ?pad) @ bytes_of 8 (n_bits c))"
  proof -
    have b: "length msg * 8 div 8 mod 64 = ?bi" by simp
    show ?thesis unfolding md5_finish_def Let_def u b k_def [symmetric] pad c'_def [symmetric] buf(1) ..
  qed
  have "md5_blocks (md5_pad msg) (state md5_init) = md5_blocks (tail_of (msg @ ?pad) @ bytes_of 8 (n_bits c)) (state c')"
    using blocks_append_tail [of "msg @ ?pad" "bytes_of 8 (n_bits c)" "state md5_init"] buf(2) n by (simp add: md5_pad_def)
  also have "\<dots> = md5_block (words32 (tail_of (msg @ ?pad) @ bytes_of 8 (n_bits c))) (state c')"
    using msg_split(2) [of "msg @ ?pad"] m by (intro md5_blocks_one) simp
  finally show ?thesis unfolding fin md5_digest_def md5_transform_result_def by simp
qed

section \<open>Properties\<close>

text \<open>The order in which the steps use the words of the block, and their rotations, are those of RFC 1321.\<close>

lemma md5_steps_rfc1321:
  "map (\<lambda>(f, k, s, t). (f, k, s)) md5_steps =
    map (\<lambda>i. (FF, i, [7, 12, 17, 22] ! (i mod 4))) [0..<16]
    @ map (\<lambda>i. (GG, (5 * i + 1) mod 16, [5, 9, 14, 20] ! (i mod 4))) [0..<16]
    @ map (\<lambda>i. (HH, (3 * i + 5) mod 16, [4, 11, 16, 23] ! (i mod 4))) [0..<16]
    @ map (\<lambda>i. (II, 7 * i mod 16, [6, 10, 15, 21] ! (i mod 4))) [0..<16]"
  by code_simp

text \<open>The digest of the message \<open>abc\<close>, computed eight steps at a time.\<close>

abbreviation abc_words :: "u32 list" where
  "abc_words \<equiv> [0x80636261, 0, 0, 0, 0, 0, 0, 0, 0, 0, 0, 0, 0, 0, 24, 0]"

abbreviation eight_steps :: "nat \<Rightarrow> md5_state \<Rightarrow> md5_state" where
  "eight_steps j \<equiv> fold (md5_step abc_words) (take 8 (drop (8 * j) md5_steps))"

lemma abc_steps:
  "eight_steps 0 (0x67452301, 0xefcdab89, 0x98badcfe, 0x10325476)
    = (0xc73741ef, 0x928d99f6, 0x207dc67b, 0x8bac3051)"
  "eight_steps 1 (0xc73741ef, 0x928d99f6, 0x207dc67b, 0x8bac3051)
    = (0xdda9b9a6, 0x72aff2e0, 0xe396856b, 0xa1051895)"
  "eight_steps 2 (0xdda9b9a6, 0x72aff2e0, 0xe396856b, 0xa1051895)
    = (0x59a8ffda, 0x47092c07, 0xabfc7920, 0x6d002f1e)"
  "eight_steps 3 (0x59a8ffda, 0x47092c07, 0xabfc7920, 0x6d002f1e)
    = (0x790a77fb, 0x726342d3, 0xa62884aa, 0x9f47e4f8)"
  "eight_steps 4 (0x790a77fb, 0x726342d3, 0xa62884aa, 0x9f47e4f8)
    = (0x21b117b9, 0x5a2f5ea5, 0x3575227e, 0x6e7429d5)"
  "eight_steps 5 (0x21b117b9, 0x5a2f5ea5, 0x3575227e, 0x6e7429d5)
    = (0x7f2e507b, 0x7beb9700, 0x8fae6399, 0x99d9679d)"
  "eight_steps 6 (0x7f2e507b, 0x7beb9700, 0x8fae6399, 0x99d9679d)
    = (0x6cc5e8a, 0x3bfa2c27, 0x7d632dd0, 0x5b0d97aa)"
  "eight_steps 7 (0x6cc5e8a, 0x3bfa2c27, 0x7d632dd0, 0x5b0d97aa)
    = (0x310ade8f, 0xc08226b3, 0xe484b9d8, 0x624d8cb2)"
  by code_simp+

lemma md5_steps_by_eight: "md5_steps = concat (map (\<lambda>j. take 8 (drop (8 * j) md5_steps)) [0, 1, 2, 3, 4, 5, 6, 7])"
  by code_simp

lemma md5_block_abc: "md5_block abc_words (state md5_init) = (0x98500190, 0xb04fd23c, 0x7d3f96d6, 0x727fe128)"
proof -
  have i: "state md5_init = (0x67452301, 0xefcdab89, 0x98badcfe, 0x10325476)" by (simp add: md5_init_def)
  have "fold (md5_step abc_words) md5_steps (state md5_init) = (0x310ade8f, 0xc08226b3, 0xe484b9d8, 0x624d8cb2)"
    by (subst md5_steps_by_eight, unfold i) (simp only: concat.simps list.map fold_append comp_apply append_Nil2 abc_steps)
  then show ?thesis unfolding md5_block_def i by simp
qed

lemma md5_digest_abc:
  "md5_digest [0x61, 0x62, 0x63]
    = [0x90, 0x01, 0x50, 0x98, 0x3c, 0xd2, 0x4f, 0xb0, 0xd6, 0x96, 0x3f, 0x7d, 0x28, 0xe1, 0x7f, 0x72]"
proof -
  have "length (md5_pad [0x61, 0x62, 0x63]) = 64" "words32 (md5_pad [0x61, 0x62, 0x63]) = abc_words" by code_simp+
  then have "md5_blocks (md5_pad [0x61, 0x62, 0x63]) (state md5_init) = (0x98500190, 0xb04fd23c, 0x7d3f96d6, 0x727fe128)"
    using md5_blocks_one md5_block_abc by simp
  moreover have "digest_bytes (0x98500190, 0xb04fd23c, 0x7d3f96d6, 0x727fe128)
    = [0x90, 0x01, 0x50, 0x98, 0x3c, 0xd2, 0x4f, 0xb0, 0xd6, 0x96, 0x3f, 0x7d, 0x28, 0xe1, 0x7f, 0x72]" by code_simp
  ultimately show ?thesis unfolding md5_digest_def by simp
qed



end
