(* ===== verification/Clib_Random.thy ===== *)
theory Clib_Random
  imports Clib_Arith
begin

text \<open>
  Random numbers: the linear congruential generator of \<open>src/clib/random.h\<close>, the generator ISAAC of
  \<open>src/clib/random_isaac.c\<close> in its 64 bit version, and the buffer of random words of
  \<open>src/clib/random_buffer.h\<close> and \<open>src/clib/random_buffer.c\<close>. A pointer into an array is an index of a list. Functions
  that change their seed or context return it with their result.
\<close>

section \<open>The linear congruential generator\<close>

definition random_u32 :: "u32 \<Rightarrow> u32 \<times> u32" where
  "random_u32 seed = (let seed = 1664525 * seed + 1013904223 in (seed, seed))"

definition random_u64 :: "u32 \<Rightarrow> u32 \<times> u64" where
  "random_u64 seed =
     (let (seed, r1) = random_u32 seed;
          (seed, r2) = random_u32 seed
      in (seed, push_bit 32 (ucast r1) OR ucast r2))"

definition random_uword :: "u32 \<Rightarrow> u32 \<times> uword" where
  "random_uword seed = random_u64 seed"

fun random_string :: "u32 \<Rightarrow> nat \<Rightarrow> u32 \<times> string" where
  "random_string seed 0 = (seed, [])"
| "random_string seed (Suc len) =
     (let (seed, r) = random_u32 seed;
          (seed, s) = random_string seed len
      in (seed, ''abcdefghijklmnopqrstuvwxyz'' ! (unat r mod 26) # s))"

section \<open>ISAAC\<close>

record isaac_ctx =
  memory :: "u64 list"
  ctx_a :: u64
  ctx_b :: u64
  ctx_c :: u64

text \<open>\<open>ISAAC_SIZE\<close> is 16: the address of a word of the memory is masked to a multiple of 8 below 128.\<close>

definition ind64 :: "u64 list \<Rightarrow> u64 \<Rightarrow> u64" where
  "ind64 mm x = mm ! (unat (x AND (15 * 8)) div 8)"

record rng =
  rng_mm :: "u64 list"
  rng_a :: u64
  rng_b :: u64
  rng_m :: nat
  rng_m2 :: nat
  rng_r :: "u64 list"

definition rngstep64 :: "(u64 \<Rightarrow> u64) \<Rightarrow> rng \<Rightarrow> rng" where
  "rngstep64 mix s =
     (let mm = rng_mm s;
          x = mm ! rng_m s;
          a = mix (rng_a s) + mm ! rng_m2 s;
          y = ind64 mm x + a + rng_b s;
          mm = mm[rng_m s := y];
          b = ind64 mm (drop_bit 4 y) + x
      in \<lparr>rng_mm = mm, rng_a = a, rng_b = b, rng_m = rng_m s + 1, rng_m2 = rng_m2 s + 1, rng_r = rng_r s @ [b]\<rparr>)"

definition isaac_mix1 :: "u64 \<Rightarrow> u64" where "isaac_mix1 a = NOT (a XOR push_bit 21 a)"
definition isaac_mix2 :: "u64 \<Rightarrow> u64" where "isaac_mix2 a = a XOR drop_bit 5 a"
definition isaac_mix3 :: "u64 \<Rightarrow> u64" where "isaac_mix3 a = a XOR push_bit 12 a"
definition isaac_mix4 :: "u64 \<Rightarrow> u64" where "isaac_mix4 a = a XOR drop_bit 33 a"

text \<open>The body of the two loops.\<close>

definition isaac_round :: "rng \<Rightarrow> rng" where
  "isaac_round s = rngstep64 isaac_mix4 (rngstep64 isaac_mix3 (rngstep64 isaac_mix2 (rngstep64 isaac_mix1 s)))"

lemma rngstep64_sel [simp]:
  "rng_m (rngstep64 mix s) = rng_m s + 1" "rng_m2 (rngstep64 mix s) = rng_m2 s + 1"
  "length (rng_mm (rngstep64 mix s)) = length (rng_mm s)" "length (rng_r (rngstep64 mix s)) = length (rng_r s) + 1"
  by (simp_all add: rngstep64_def Let_def)

lemma isaac_round_sel [simp]:
  "rng_m (isaac_round s) = rng_m s + 4" "rng_m2 (isaac_round s) = rng_m2 s + 4"
  "length (rng_mm (isaac_round s)) = length (rng_mm s)" "length (rng_r (isaac_round s)) = length (rng_r s) + 4"
  by (simp_all add: isaac_round_def)

function isaac_loop1 :: "rng \<Rightarrow> rng" where
  "isaac_loop1 s = (if rng_m s < 8 then isaac_loop1 (isaac_round s) else s)"
  by pat_completeness auto
termination by (relation "measure (\<lambda>s. 8 - rng_m s)") auto

function isaac_loop2 :: "rng \<Rightarrow> rng" where
  "isaac_loop2 s = (if rng_m2 s < 8 then isaac_loop2 (isaac_round s) else s)"
  by pat_completeness auto
termination by (relation "measure (\<lambda>s. 8 - rng_m2 s)") auto

declare isaac_loop1.simps [simp del] isaac_loop2.simps [simp del]

definition isaac_start :: "isaac_ctx \<Rightarrow> rng" where
  "isaac_start ctx =
     \<lparr>rng_mm = memory ctx, rng_a = ctx_a ctx, rng_b = ctx_b ctx + (ctx_c ctx + 1), rng_m = 0, rng_m2 = 8, rng_r = []\<rparr>"

definition isaac_end :: "isaac_ctx \<Rightarrow> rng \<Rightarrow> isaac_ctx" where
  "isaac_end ctx s = \<lparr>memory = rng_mm s, ctx_a = rng_a s, ctx_b = rng_b s, ctx_c = ctx_c ctx + 1\<rparr>"

definition isaac :: "isaac_ctx \<Rightarrow> isaac_ctx \<times> u64 list" where
  "isaac ctx = (let s = isaac_loop2 (isaac_loop1 (isaac_start ctx)\<lparr>rng_m2 := 0\<rparr>) in (isaac_end ctx s, rng_r s))"

text \<open>
  Two contexts at a time: the steps of the two alternate, and the first one's pointers control the loops.
\<close>

definition isaac2_step :: "(u64 \<Rightarrow> u64) \<Rightarrow> rng \<times> rng \<Rightarrow> rng \<times> rng" where
  "isaac2_step mix = (\<lambda>(s0, s1). let s0 = rngstep64 mix s0; s1 = rngstep64 mix s1 in (s0, s1))"

definition isaac2_round :: "rng \<times> rng \<Rightarrow> rng \<times> rng" where
  "isaac2_round s = isaac2_step isaac_mix4 (isaac2_step isaac_mix3 (isaac2_step isaac_mix2 (isaac2_step isaac_mix1 s)))"

lemma isaac2_round_eq: "isaac2_round (s0, s1) = (isaac_round s0, isaac_round s1)"
  by (simp add: isaac2_round_def isaac2_step_def isaac_round_def)

function isaac2_loop1 :: "rng \<times> rng \<Rightarrow> rng \<times> rng" where
  "isaac2_loop1 s = (if rng_m (fst s) < 8 then isaac2_loop1 (isaac2_round s) else s)"
  by pat_completeness auto
termination by (relation "measure (\<lambda>s. 8 - rng_m (fst s))") (auto simp: isaac2_round_eq)

function isaac2_loop2 :: "rng \<times> rng \<Rightarrow> rng \<times> rng" where
  "isaac2_loop2 s = (if rng_m2 (fst s) < 8 then isaac2_loop2 (isaac2_round s) else s)"
  by pat_completeness auto
termination by (relation "measure (\<lambda>s. 8 - rng_m2 (fst s))") (auto simp: isaac2_round_eq)

declare isaac2_loop1.simps [simp del] isaac2_loop2.simps [simp del]

definition isaac2 :: "isaac_ctx \<times> isaac_ctx \<Rightarrow> (isaac_ctx \<times> isaac_ctx) \<times> u64 list" where
  "isaac2 = (\<lambda>(c0, c1).
     let (s0, s1) = isaac2_loop1 (isaac_start c0, isaac_start c1);
         (s0, s1) = isaac2_loop2 (s0\<lparr>rng_m2 := 0\<rparr>, s1\<lparr>rng_m2 := 0\<rparr>)
     in ((isaac_end c0 s0, isaac_end c1 s1), rng_r s0 @ rng_r s1))"

text \<open>
  The eight lines of the macro \<open>mix64\<close> do the same with the variables rotated by one, with different shifts;
  the model rotates the tuple after each line.
\<close>

type_synonym mix8 = "u64 \<times> u64 \<times> u64 \<times> u64 \<times> u64 \<times> u64 \<times> u64 \<times> u64"

definition mix_line :: "(u64 \<Rightarrow> u64) \<Rightarrow> mix8 \<Rightarrow> mix8" where
  "mix_line shift = (\<lambda>(a, b, c, d, e, f, g, h).
     let a = a - e; f = f XOR shift h; h = h + a in (b, c, d, e, f, g, h, a))"

definition mix64_shifts :: "(u64 \<Rightarrow> u64) list" where
  "mix64_shifts = [drop_bit 9, push_bit 9, drop_bit 23, push_bit 15, drop_bit 14, push_bit 20, drop_bit 17, push_bit 14]"

definition mix64 :: "mix8 \<Rightarrow> mix8" where
  "mix64 s = fold mix_line mix64_shifts s"

definition add8 :: "mix8 \<Rightarrow> mix8 \<Rightarrow> mix8" where
  "add8 = (\<lambda>(a, b, c, d, e, f, g, h) (a', b', c', d', e', f', g', h').
     (a + a', b + b', c + c', d + d', e + e', f + f', g + g', h + h'))"

text \<open>One pass over the 16 words: eight are added to the variables, which are mixed and stored.\<close>

definition init_pass :: "mix8 \<Rightarrow> mix8 \<times> mix8 \<Rightarrow> mix8 \<times> mix8 \<times> mix8" where
  "init_pass s = (\<lambda>(r0, r1). let m0 = mix64 (add8 s r0); m1 = mix64 (add8 m0 r1) in (m1, m0, m1))"

definition list8 :: "mix8 \<Rightarrow> u64 list" where
  "list8 = (\<lambda>(a, b, c, d, e, f, g, h). [a, b, c, d, e, f, g, h])"

definition tuple8 :: "u64 list \<Rightarrow> mix8" where
  "tuple8 xs = (xs ! 0, xs ! 1, xs ! 2, xs ! 3, xs ! 4, xs ! 5, xs ! 6, xs ! 7)"

definition isaac_init :: "u64 list \<Rightarrow> isaac_ctx" where
  "isaac_init seeds =
     (let g = 0x9e3779b97f4a7c13;
          s = mix64 (mix64 (mix64 (mix64 (g, g, g, g, g, g, g, g))));
          (s, m0, m1) = init_pass s (tuple8 seeds, tuple8 (drop 8 seeds));
          (s, m0, m1) = init_pass s (m0, m1)
      in \<lparr>memory = list8 m0 @ list8 m1, ctx_a = 0, ctx_b = 0, ctx_c = 0\<rparr>)"

section \<open>The buffer\<close>

record random_buffer =
  rb_ctx :: "isaac_ctx \<times> isaac_ctx"
  rb_buffer :: "uword list"
  rb_n_cached_bytes :: nat
  rb_cached_word :: uword

function fill_words :: "isaac_ctx \<times> isaac_ctx \<Rightarrow> nat \<Rightarrow> (isaac_ctx \<times> isaac_ctx) \<times> uword list" where
  "fill_words ctx n =
     (let (ctx, w) = isaac2 ctx
      in if 32 < n then (let (ctx, ws) = fill_words ctx (n - 32) in (ctx, w @ ws)) else (ctx, w))"
  by pat_completeness auto
termination by (relation "measure (\<lambda>(ctx, n). n)") auto

declare fill_words.simps [simp del]

definition clib_random_buffer_fill :: "random_buffer \<Rightarrow> nat \<Rightarrow> random_buffer" where
  "clib_random_buffer_fill b n_words =
     (let n = max n_words 256;
          n = unat (round_pow2 (of_nat n) 32);
          (ctx, ws) = fill_words (rb_ctx b) n
      in b\<lparr>rb_ctx := ctx, rb_buffer := rb_buffer b @ ws\<rparr>)"

definition clib_random_buffer_init :: "uword \<Rightarrow> random_buffer" where
  "clib_random_buffer_init seed =
     (let s = (\<lambda>i. map (\<lambda>j. 2 * (seed + of_nat j) + i) [0..<16])
      in \<lparr>rb_ctx = (isaac_init (s 0), isaac_init (s 1)), rb_buffer = [], rb_n_cached_bytes = 0, rb_cached_word = 0\<rparr>)"

text \<open>
  The bytes at the returned pointer; \<open>None\<close> when they do not all lie in the array the pointer points into.
\<close>

definition clib_random_buffer_get_data :: "random_buffer \<Rightarrow> nat \<Rightarrow> random_buffer \<times> u8 list option" where
  "clib_random_buffer_get_data b n_bytes =
     (let l = rb_n_cached_bytes b
      in if n_bytes \<le> l
         then (b\<lparr>rb_n_cached_bytes := l - n_bytes\<rparr>,
               if l + n_bytes \<le> 8 then Some (take n_bytes (drop l (bytes_of 8 (rb_cached_word b)))) else None)
         else
           let n_words = n_bytes div 8 + (if n_bytes mod 8 \<noteq> 0 then 1 else 0);
               b = (if length (rb_buffer b) < n_words then clib_random_buffer_fill b n_words else b);
               i = length (rb_buffer b) - n_words;
               ws = drop i (rb_buffer b);
               b = b\<lparr>rb_buffer := take i (rb_buffer b)\<rparr>
           in if n_bytes < 8
              then (b\<lparr>rb_cached_word := hd ws, rb_n_cached_bytes := 8 - n_bytes\<rparr>, Some (take n_bytes (bytes_of 8 (hd ws))))
              else (b, Some (take n_bytes (concat (map (bytes_of 8) ws)))))"

section \<open>Facts\<close>

lemma random_u32_inj: "inj (\<lambda>seed. fst (random_u32 seed))"
proof (rule injI)
  fix x y :: u32
  assume "fst (random_u32 x) = fst (random_u32 y)"
  then have "1664525 * x = 1664525 * y" by (simp add: random_u32_def Let_def)
  then have "4276115653 * (1664525 * x) = 4276115653 * (1664525 * y)" by simp
  moreover have "4276115653 * 1664525 = (1 :: u32)" by code_simp
  ultimately show "x = y" by (simp only: mult.assoc [symmetric] mult_1)
qed

lemma random_string_letters:
  "length (snd (random_string seed n)) = n" "set (snd (random_string seed n)) \<subseteq> set ''abcdefghijklmnopqrstuvwxyz''"
proof -
  have "length (snd (random_string seed n)) = n \<and> set (snd (random_string seed n)) \<subseteq> set ''abcdefghijklmnopqrstuvwxyz''"
  proof (induction seed n rule: random_string.induct)
    case (2 seed n)
    obtain s1 r where r: "random_u32 seed = (s1, r)" by fastforce
    have "''abcdefghijklmnopqrstuvwxyz'' ! (unat r mod 26) \<in> set ''abcdefghijklmnopqrstuvwxyz''" by (rule nth_mem) simp
    then show ?case using 2 [OF r [symmetric] refl] by (simp add: r case_prod_beta Let_def del: nth_Cons_numeral)
  qed simp
  then show "length (snd (random_string seed n)) = n" "set (snd (random_string seed n)) \<subseteq> set ''abcdefghijklmnopqrstuvwxyz''" by simp_all
qed

text \<open>Two generators at a time.\<close>

lemma isaac2_loop1_eq: "rng_m s0 = rng_m s1 \<Longrightarrow> isaac2_loop1 (s0, s1) = (isaac_loop1 s0, isaac_loop1 s1)"
proof (induction s0 arbitrary: s1 rule: isaac_loop1.induct)
  case (1 s0)
  then show ?case
    by (cases "rng_m s0 < 8") (simp_all add: isaac2_loop1.simps [of "(s0, s1)"] isaac_loop1.simps [of s0] isaac_loop1.simps [of s1] isaac2_round_eq)
qed

lemma isaac2_loop2_eq: "rng_m2 s0 = rng_m2 s1 \<Longrightarrow> isaac2_loop2 (s0, s1) = (isaac_loop2 s0, isaac_loop2 s1)"
proof (induction s0 arbitrary: s1 rule: isaac_loop2.induct)
  case (1 s0)
  then show ?case
    by (cases "rng_m2 s0 < 8") (simp_all add: isaac2_loop2.simps [of "(s0, s1)"] isaac_loop2.simps [of s0] isaac_loop2.simps [of s1] isaac2_round_eq)
qed

lemma isaac_loop1_0: "rng_m s = 0 \<Longrightarrow> isaac_loop1 s = isaac_round (isaac_round s)"
  by (simp add: isaac_loop1.simps)

lemma isaac_loop2_0: "rng_m2 s = 0 \<Longrightarrow> isaac_loop2 s = isaac_round (isaac_round s)"
  by (simp add: isaac_loop2.simps)

lemma isaac_length: "length (snd (isaac c)) = 16" "length (memory (fst (isaac c))) = length (memory c)"
proof -
  have a: "isaac_loop1 (isaac_start c) = isaac_round (isaac_round (isaac_start c))" by (rule isaac_loop1_0) (simp add: isaac_start_def)
  have b: "isaac_loop2 (s\<lparr>rng_m2 := 0\<rparr>) = isaac_round (isaac_round (s\<lparr>rng_m2 := 0\<rparr>))" for s :: rng by (rule isaac_loop2_0) simp
  show "length (snd (isaac c)) = 16" "length (memory (fst (isaac c))) = length (memory c)"
    unfolding isaac_def Let_def a b by (simp_all add: isaac_end_def isaac_start_def)
qed

lemma isaac2_eq: "isaac2 (c0, c1) = ((fst (isaac c0), fst (isaac c1)), snd (isaac c0) @ snd (isaac c1))"
  by (simp add: isaac2_def isaac_def Let_def isaac2_loop1_eq isaac2_loop2_eq isaac_start_def)

text \<open>Seeding: the way back of a line of \<open>mix64\<close>.\<close>

definition unmix_line :: "(u64 \<Rightarrow> u64) \<Rightarrow> mix8 \<Rightarrow> mix8" where
  "unmix_line shift = (\<lambda>(b, c, d, e, f, g, h, a).
     let h = h - a; f = f XOR shift h; a = a + e in (a, b, c, d, e, f, g, h))"

lemma mix8_cases:
  obtains a b c d e f g h where "(s :: mix8) = (a, b, c, d, e, f, g, h)"
proof -
  obtain a b c d e f x where s: "s = (a, b, c, d, e, f, x)" by (cases s)
  obtain g h where "x = (g, h)" by (cases x)
  with s that show thesis by simp
qed

lemma unmix_mix_line: "unmix_line shift (mix_line shift s) = s"
  by (cases s rule: mix8_cases) (simp add: unmix_line_def mix_line_def Let_def xor_twice)

lemma mix_line_eq_iff: "mix_line shift s = mix_line shift t \<longleftrightarrow> s = t"
  by (metis unmix_mix_line)

lemma mix64_eq_iff: "mix64 s = mix64 t \<longleftrightarrow> s = t"
  by (simp add: mix64_def mix64_shifts_def mix_line_eq_iff)

lemma add8_left_iff: "add8 s r = add8 s r' \<longleftrightarrow> r = r'"
  by (cases s rule: mix8_cases; cases r rule: mix8_cases; cases r' rule: mix8_cases) (simp add: add8_def)

lemma add8_right_iff: "add8 s r = add8 s' r \<longleftrightarrow> s = s'"
  by (cases s rule: mix8_cases; cases r rule: mix8_cases; cases s' rule: mix8_cases) (simp add: add8_def)

lemma list8_eq_iff: "list8 s = list8 t \<longleftrightarrow> s = t"
  by (cases s rule: mix8_cases; cases t rule: mix8_cases) (simp add: list8_def)

lemma length_list8: "length (list8 s) = 8"
  by (cases s rule: mix8_cases) (simp add: list8_def)

lemma tuple8_inverse: "length xs = 8 \<Longrightarrow> list8 (tuple8 xs) = xs"
  by (auto simp: tuple8_def list8_def numeral_eq_Suc length_Suc_conv)

lemma tuple8_take: "8 \<le> length xs \<Longrightarrow> tuple8 (take 8 xs) = tuple8 xs"
  by (simp add: tuple8_def)

lemma init_passes_inj:
  assumes "init_pass s r = (s1, m)" "init_pass s r' = (s1', m')" "init_pass s1 m = (s2, q)" "init_pass s1' m' = (s2', q)"
  shows "r = r'"
proof -
  obtain r0 r1 r0' r1' where r: "r = (r0, r1)" "r' = (r0', r1')" by (metis surj_pair)
  define m0 m1 m0' m1' where "m0 = mix64 (add8 s r0)" "m1 = mix64 (add8 m0 r1)" "m0' = mix64 (add8 s r0')" "m1' = mix64 (add8 m0' r1')"
  note d = this
  have m: "s1 = m1" "m = (m0, m1)" "s1' = m1'" "m' = (m0', m1')"
    using assms(1,2) r d by (auto simp: init_pass_def Let_def)
  have q: "q = (mix64 (add8 m1 m0), mix64 (add8 (mix64 (add8 m1 m0)) m1))"
    "q = (mix64 (add8 m1' m0'), mix64 (add8 (mix64 (add8 m1' m0')) m1'))"
    using assms(3,4) m by (auto simp: init_pass_def Let_def)
  then have "add8 m1 m0 = add8 m1' m0'" by (simp add: mix64_eq_iff)
  moreover from this q have "m1 = m1'" by (simp add: mix64_eq_iff add8_left_iff)
  ultimately have "m0 = m0'" "m1 = m1'" by (simp_all add: add8_left_iff)
  then show ?thesis using d r by (simp add: mix64_eq_iff add8_left_iff)
qed

lemma isaac_init_inj:
  assumes "length r = 16" "length r' = 16" "isaac_init r = isaac_init r'"
  shows "r = r'"
proof -
  let ?g = "0x9e3779b97f4a7c13 :: u64"
  let ?s = "mix64 (mix64 (mix64 (mix64 (?g, ?g, ?g, ?g, ?g, ?g, ?g, ?g))))"
  obtain s1 m s2 q where p: "init_pass ?s (tuple8 r, tuple8 (drop 8 r)) = (s1, m)" "init_pass s1 m = (s2, q)" by (metis surj_pair)
  obtain s1' m' s2' q' where p': "init_pass ?s (tuple8 r', tuple8 (drop 8 r')) = (s1', m')" "init_pass s1' m' = (s2', q')" by (metis surj_pair)
  have i: "memory (isaac_init r) = list8 (fst q) @ list8 (snd q)"
    using p by (cases m; cases q) (simp add: isaac_init_def Let_def)
  have i': "memory (isaac_init r') = list8 (fst q') @ list8 (snd q')"
    using p' by (cases m'; cases q') (simp add: isaac_init_def Let_def)
  have "list8 (fst q) @ list8 (snd q) = list8 (fst q') @ list8 (snd q')" using i i' assms(3) by simp
  then have "q = q'" by (simp add: length_list8 list8_eq_iff prod_eq_iff)
  then have "(tuple8 r, tuple8 (drop 8 r)) = (tuple8 r', tuple8 (drop 8 r'))" using init_passes_inj p p' by metis
  then have e: "tuple8 r = tuple8 r'" "tuple8 (drop 8 r) = tuple8 (drop 8 r')" by simp_all
  have h: "x = list8 (tuple8 x) @ list8 (tuple8 (drop 8 x))" if "length x = 16" for x
  proof -
    have "list8 (tuple8 x) = take 8 x" using that tuple8_inverse [of "take 8 x"] tuple8_take [of x] by simp
    moreover have "list8 (tuple8 (drop 8 x)) = drop 8 x" using that by (intro tuple8_inverse) simp
    ultimately show ?thesis by simp
  qed
  show ?thesis using h [OF assms(1)] h [OF assms(2)] unfolding e by (rule trans [OF _ sym])
qed

text \<open>Filling gives as many words as were asked for.\<close>

lemma length_isaac2: "length (snd (isaac2 c)) = 32"
  by (cases c) (simp add: isaac2_eq isaac_length)

lemma length_fill_words: "length (snd (fill_words ctx (32 * Suc n))) = 32 * Suc n"
proof (induction n arbitrary: ctx)
  case 0
  then show ?case using length_isaac2 [of ctx] by (simp add: fill_words.simps [of ctx] case_prod_beta)
next
  case (Suc n)
  have "32 * Suc (Suc n) - 32 = 32 * Suc n" by simp
  then show ?case using Suc [of "fst (isaac2 ctx)"] length_isaac2 [of ctx]
    by (simp add: fill_words.simps [of ctx] case_prod_beta Let_def)
qed

lemma length_fill:
  assumes "n < 2 ^ 60"
  shows "length (rb_buffer b) + n \<le> length (rb_buffer (clib_random_buffer_fill b n))"
proof -
  let ?n = "max n 256"
  let ?q = "(?n + 31) div 32"
  have u: "unat (of_nat ?n :: uword) = ?n" using assms by (intro unat_of_nat_u64) simp
  have "unat (round_pow2 (of_nat ?n) (2 ^ 5)) = 2 ^ 5 * ((unat (of_nat ?n :: uword) + (2 ^ 5 - 1)) div 2 ^ 5)"
    by (rule unat_round_pow2) (use u assms in simp_all)
  then have r: "unat (round_pow2 (of_nat ?n) 32) = 32 * ?q" unfolding u by simp
  have "0 < ?q" by (simp add: div_greater_zero_iff)
  then obtain m where m: "?q = Suc m" using gr0_implies_Suc by blast
  have "x \<le> 32 * ((x + 31) div 32)" for x :: nat by linarith
  then have "?n \<le> 32 * ?q" by blast
  moreover have "length (snd (fill_words (rb_ctx b) (32 * ?q))) = 32 * ?q" unfolding m by (rule length_fill_words)
  ultimately show ?thesis unfolding clib_random_buffer_fill_def Let_def r by (simp add: case_prod_beta)
qed

lemma get_data_length:
  assumes "rb_n_cached_bytes b < n" and "n < 2 ^ 60"
  shows "\<exists>d. snd (clib_random_buffer_get_data b n) = Some d \<and> length d = n"
proof -
  let ?w = "n div 8 + (if n mod 8 \<noteq> 0 then 1 else 0)"
  define b1 where "b1 = (if length (rb_buffer b) < ?w then clib_random_buffer_fill b ?w else b)"
  define ws where "ws = drop (length (rb_buffer b1) - ?w) (rb_buffer b1)"
  have "?w \<le> n" by (cases "n mod 8 = 0") (auto simp: Suc_le_eq div_less_dividend)
  then have "?w < 2 ^ 60" using assms(2) by linarith
  then have "?w \<le> length (rb_buffer b1)" unfolding b1_def using length_fill [of ?w b] by auto
  then have l: "length ws = ?w" by (simp add: ws_def)
  have "length (concat (map (bytes_of 8) ws)) = 8 * ?w" using l by (simp add: length_concat comp_def sum_list_triv)
  moreover have "n \<le> 8 * ?w" by (cases "n mod 8 = 0") auto
  ultimately have "length (take n (concat (map (bytes_of 8) ws))) = n" by simp
  moreover have "snd (clib_random_buffer_get_data b n) =
      Some (if n < 8 then take n (bytes_of 8 (hd ws)) else take n (concat (map (bytes_of 8) ws)))"
    unfolding clib_random_buffer_get_data_def Let_def b1_def [symmetric] ws_def [symmetric] using assms(1) by auto
  ultimately show ?thesis by simp
qed

section \<open>Properties\<close>

text \<open>C24: \<open>isaac2\<close>, which runs two generators in one loop with their steps interleaved, leaves both contexts as
  separate runs of \<open>isaac\<close> would and returns the results of the one after those of the other.\<close>

theorem isaac2_two_runs:
  "isaac2 (c0, c1) = ((fst (isaac c0), fst (isaac c1)), snd (isaac c0) @ snd (isaac c1))
    \<and> length (snd (isaac2 (c0, c1))) = 32"
  by (simp add: isaac2_eq isaac_length)

text \<open>no two different seeds of 16 words give the same state of the generator.\<close>

theorem isaac_init_injective:
  assumes "length seeds = 16" and "length seeds' = 16" and "seeds \<noteq> seeds'"
  shows "isaac_init seeds \<noteq> isaac_init seeds'"
  using isaac_init_inj assms by blast

theorem isaac_init_injective_witness: "isaac_init (replicate 16 0) \<noteq> isaac_init (replicate 16 1)"
  by (rule isaac_init_injective) simp_all

text \<open>C40: after a request of k bytes, less than a word, the rest of the word is kept for the next request, but
  that is served from offset 8 - k of the word and not from offset k: a request of n bytes gets bytes
  from outside the word when n is greater than k.\<close>

theorem random_buffer_cached_offset:
  assumes "rb_n_cached_bytes b = 0" and "0 < k" and "k < 8" and "n \<le> 8 - k"
  defines "b1 \<equiv> fst (clib_random_buffer_get_data b k)"
  shows "snd (clib_random_buffer_get_data b1 n) =
    (if n \<le> k then Some (take n (drop (8 - k) (bytes_of 8 (rb_cached_word b1)))) else None)"
proof -
  have "rb_n_cached_bytes b1 = 8 - k" using assms(1-3) by (simp add: b1_def clib_random_buffer_get_data_def Let_def)
  then show ?thesis using assms(3,4) by (auto simp: clib_random_buffer_get_data_def Let_def)
qed

theorem random_buffer_cached_offset_witness:
  "snd (clib_random_buffer_get_data (fst (clib_random_buffer_get_data (clib_random_buffer_init 7) 1)) 4) = None"
  using random_buffer_cached_offset [of "clib_random_buffer_init 7" 1 4] by (simp add: clib_random_buffer_init_def)

end
