(* ===== verification/Clib_Sparse_Vec.thy ===== *)
theory Clib_Sparse_Vec
  imports Clib_Bitmap
begin

text \<open>
  Sparse vectors, \<open>src/clib/sparse_vec.h\<close>: a vector whose elements are found through a bitmap of the
  indices in use and the number of those in front of each word of the bitmap. Element 0 stands
  for the indices that are not in use. The vectors are lists here; a read or write beyond the end
  of one is \<open>None\<close>.
\<close>

record 'a sparse_vec =
  is_member_bitmap :: "uword list"
  member_counts :: "u16 list"
  range_flags :: "u8 list"
  sparse_elts :: "'a list"

definition sparse_vec_new :: "nat \<Rightarrow> 'a::zero sparse_vec" where
  "sparse_vec_new sparse_index_bits =
     (let n = int sparse_index_bits - int (min_log2 64);
          n = (if n < 0 then 0 else n);
          n = 2 ^ nat n
      in \<lparr>is_member_bitmap = replicate n 0, member_counts = replicate n 0, range_flags = [], sparse_elts = [0]\<rparr>)"

definition count_one_more :: "nat \<Rightarrow> u16 list \<Rightarrow> u16 list" where
  "count_one_more i cs = map (\<lambda>j. if i < j then cs ! j + 1 else cs ! j) [0..<length cs]"

text \<open>
  The result is the index, the value stored through the pointer \<open>insert\<close> when that is not null (\<open>ins\<close> is true)
  and the vector. \<open>maybe_range\<close> asks for the range flags, which no caller does.
\<close>

definition sparse_vec_index_internal ::
  "'a sparse_vec \<Rightarrow> nat \<Rightarrow> uword \<Rightarrow> bool \<Rightarrow> (uword \<times> bool \<times> 'a sparse_vec) option" where
  "sparse_vec_index_internal v sparse_index maybe_range ins =
     (let i = sparse_index div 64; b = push_bit (sparse_index mod 64) 1 :: uword
      in if length (is_member_bitmap v) \<le> i \<or> length (member_counts v) \<le> i then None
         else let w = is_member_bitmap v ! i;
                  d = ucast (member_counts v ! i) + count_set_bits (w AND (b - 1));
                  is_member = (w AND b \<noteq> 0)
              in if maybe_range \<noteq> 0 \<and> length (range_flags v) \<le> unat d then None
                 else let is_member = (if maybe_range \<noteq> 0
                        then let r = range_flags v ! unat d;
                                 is_range = ucast maybe_range AND (r AND 1) \<noteq> (0 :: u8);
                                 is_valid_range = (r AND 2 \<noteq> 0)
                             in (if is_range then is_valid_range else is_member)
                        else is_member)
                      in if ins
                         then Some (1 + d, \<not> is_member,
                                if is_member then v
                                else v\<lparr>is_member_bitmap := (is_member_bitmap v)[i := w OR b],
                                       member_counts := count_one_more i (member_counts v)\<rparr>)
                         else let d = (if is_member then d else 0)
                              in Some (of_bool is_member + d, False, v))"

definition sparse_vec_index :: "'a sparse_vec \<Rightarrow> nat \<Rightarrow> uword option" where
  "sparse_vec_index v sparse_index = map_option fst (sparse_vec_index_internal v sparse_index 0 False)"

text \<open>Two lookups at once. The counts are 32 bit numbers here.\<close>

definition sparse_vec_index2 :: "'a sparse_vec \<Rightarrow> u32 \<Rightarrow> u32 \<Rightarrow> (u32 \<times> u32) option" where
  "sparse_vec_index2 v si0 si1 =
     (let i0 = unat (si0 div 64); i1 = unat (si1 div 64);
          b0 = push_bit (unat (si0 mod 64)) 1 :: uword; b1 = push_bit (unat (si1 mod 64)) 1 :: uword;
          n = length (is_member_bitmap v); m = length (member_counts v)
      in if n \<le> i0 \<or> n \<le> i1 \<or> m \<le> i0 \<or> m \<le> i1 then None
         else let w0 = is_member_bitmap v ! i0; w1 = is_member_bitmap v ! i1;
                  v0 = w0 AND (b0 - 1); v1 = w1 AND (b1 - 1);
                  d0 = ucast (member_counts v ! i0) + of_bool (v0 \<noteq> 0) :: u32;
                  d1 = ucast (member_counts v ! i1) + of_bool (v1 \<noteq> 0) :: u32;
                  (d0, d1) = (if \<not> is_pow2 v0 \<or> \<not> is_pow2 v1
                    then (d0 + ucast (count_set_bits v0 - of_bool (v0 \<noteq> 0)),
                          d1 + ucast (count_set_bits v1 - of_bool (v1 \<noteq> 0)))
                    else (d0, d1));
                  is_member0 = (w0 AND b0 \<noteq> 0); is_member1 = (w1 AND b1 \<noteq> 0);
                  d0 = (if is_member0 then d0 else 0); d1 = (if is_member1 then d1 else 0)
              in Some (of_bool is_member0 + d0, of_bool is_member1 + d1))"

definition sparse_vec_elt_at_index :: "'a sparse_vec \<Rightarrow> nat \<Rightarrow> 'a option" where
  "sparse_vec_elt_at_index v si =
     (case sparse_vec_index v si of None \<Rightarrow> None
      | Some i \<Rightarrow> if unat i < length (sparse_elts v) then Some (sparse_elts v ! unat i) else None)"

text \<open>The result of \<open>sparse_vec_validate\<close> is the place of the element and the vector; \<open>None\<close> is the null vector.\<close>

definition sparse_vec_validate :: "'a::zero sparse_vec option \<Rightarrow> nat \<Rightarrow> (nat \<times> 'a sparse_vec) option" where
  "sparse_vec_validate v i =
     (let v = (case v of None \<Rightarrow> sparse_vec_new 16 | Some v \<Rightarrow> v)
      in case sparse_vec_index_internal v i 0 True of None \<Rightarrow> None
         | Some (j, ins, v) \<Rightarrow>
             if ins then if unat j \<le> length (sparse_elts v)
                         then Some (unat j, v\<lparr>sparse_elts := take (unat j) (sparse_elts v) @ 0 # drop (unat j) (sparse_elts v)\<rparr>)
                         else None
             else Some (unat j, v))"

section \<open>The map a sparse vector stands for\<close>

definition members :: "'a sparse_vec \<Rightarrow> nat set" where
  "members v = bits (Some (is_member_bitmap v))"

definition below :: "nat set \<Rightarrow> nat \<Rightarrow> nat" where
  "below S j = card {k \<in> S. k < j}"

definition sparse_ok :: "'a sparse_vec \<Rightarrow> bool" where
  "sparse_ok v \<longleftrightarrow> length (member_counts v) = length (is_member_bitmap v)
     \<and> length (is_member_bitmap v) \<le> 1024
     \<and> (\<forall>i < length (member_counts v). unat (member_counts v ! i) = below (members v) (64 * i))
     \<and> length (sparse_elts v) = 1 + card (members v)"

definition sparse_map :: "'a sparse_vec \<Rightarrow> nat \<Rightarrow> 'a option" where
  "sparse_map v si = (if si \<in> members v then Some (sparse_elts v ! (1 + below (members v) si)) else None)"

definition sparse_size :: "'a sparse_vec \<Rightarrow> nat" where
  "sparse_size v = 64 * length (is_member_bitmap v)"

lemma finite_members [simp]: "finite (members v)"
  by (simp add: members_def)

lemma members_size: "si \<in> members v \<Longrightarrow> si < sparse_size v"
  using bits_in_range [of si "Some (is_member_bitmap v)"] by (simp add: members_def sparse_size_def words_def)

lemma member_iff: "si \<in> members v \<longleftrightarrow> si div 64 < length (is_member_bitmap v) \<and> bit (is_member_bitmap v ! (si div 64)) (si mod 64)"
  by (simp add: members_def bits_def bit_at_def words_def)

lemma below_Un: "finite S \<Longrightarrow> i \<le> j \<Longrightarrow> below S j = below S i + card {k \<in> S. i \<le> k \<and> k < j}"
  unfolding below_def by (subst card_Un_disjoint [symmetric]) (auto intro: arg_cong [where f = card])

lemma below_mono: "finite S \<Longrightarrow> i \<le> j \<Longrightarrow> below S i \<le> below S j"
  by (simp add: below_Un)

lemma below_less: "finite S \<Longrightarrow> i \<in> S \<Longrightarrow> i < j \<Longrightarrow> below S i < below S j"
  unfolding below_def by (intro psubset_card_mono) auto

lemma below_card: "finite S \<Longrightarrow> i \<in> S \<Longrightarrow> below S i < card S"
  unfolding below_def by (intro psubset_card_mono) auto

lemma below_le_card: "finite S \<Longrightarrow> below S i \<le> card S"
  unfolding below_def by (intro card_mono) auto

lemma below_insert: "finite S \<Longrightarrow> i \<notin> S \<Longrightarrow> below (insert i S) j = below S j + of_bool (i < j)"
proof -
  assume S: "finite S" "i \<notin> S"
  have "{k \<in> insert i S. k < j} = (if i < j then insert i {k \<in> S. k < j} else {k \<in> S. k < j})" by auto
  then show ?thesis using S by (simp add: below_def)
qed

text \<open>The bits of a word below a position are the members between the start of the word and it.\<close>

lemma word_low_bits:
  assumes "si div 64 < length (is_member_bitmap v)"
  shows "count_set_bits (is_member_bitmap v ! (si div 64) AND (push_bit (si mod 64) 1 - 1))
    = of_nat (card {k \<in> members v. 64 * (si div 64) \<le> k \<and> k < si})"
proof -
  let ?w = "is_member_bitmap v ! (si div 64)" and ?q = "si div 64" and ?r = "si mod 64"
  have m: "push_bit ?r 1 - 1 = (mask ?r :: uword)" by (simp add: mask_eq_exp_minus_1 push_bit_eq_mult)
  have "{i. bit (?w AND mask ?r) i} = {i. i < ?r \<and> bit ?w i}"
    by (auto simp: bit_and_iff bit_mask_iff)
  moreover have "{k \<in> members v. 64 * ?q \<le> k \<and> k < si} = (\<lambda>i. 64 * ?q + i) ` {i. i < ?r \<and> bit ?w i}"
  proof (intro set_eqI iffI)
    fix k assume k: "k \<in> {k \<in> members v. 64 * ?q \<le> k \<and> k < si}"
    then have "k div 64 = ?q" using div_le_mono [of k si 64] div_le_mono [of "64 * ?q" k 64] by simp
    then have "k = 64 * ?q + k mod 64" "k mod 64 < ?r" using k mult_div_mod_eq [of 64 k] mult_div_mod_eq [of 64 si] by (simp_all, linarith)
    moreover have "bit ?w (k mod 64)" using k \<open>k div 64 = ?q\<close> by (simp add: member_iff)
    ultimately show "k \<in> (\<lambda>i. 64 * ?q + i) ` {i. i < ?r \<and> bit ?w i}" by blast
  next
    fix k assume "k \<in> (\<lambda>i. 64 * ?q + i) ` {i. i < ?r \<and> bit ?w i}"
    then obtain i where i: "k = 64 * ?q + i" "i < ?r" "bit ?w i" by auto
    then have "i < 64" by (meson mod_less_divisor order.strict_trans zero_less_numeral)
    then have "k div 64 = ?q" "k mod 64 = i" using i by simp_all
    moreover have "k < si" using i mult_div_mod_eq [of 64 si] by linarith
    ultimately show "k \<in> {k \<in> members v. 64 * ?q \<le> k \<and> k < si}" using i assms by (simp add: member_iff)
  qed
  ultimately show ?thesis unfolding m by (simp add: count_set_bits_card card_image)
qed

lemma ucast_u16_nat: "(ucast (x :: u16) :: 'a::len word) = of_nat (unat x)"
  by simp

lemma sparse_okD:
  assumes "sparse_ok v" "si < sparse_size v"
  shows "si div 64 < length (is_member_bitmap v)" "si div 64 < length (member_counts v)"
    "unat (member_counts v ! (si div 64)) = below (members v) (64 * (si div 64))"
    "below (members v) si = below (members v) (64 * (si div 64)) + card {k \<in> members v. 64 * (si div 64) \<le> k \<and> k < si}"
    "below (members v) si \<le> 65536" "length (sparse_elts v) = 1 + card (members v)" "card (members v) \<le> 65536"
proof -
  show i: "si div 64 < length (is_member_bitmap v)" using assms(2) by (simp add: sparse_size_def less_mult_imp_div_less ac_simps)
  then show j: "si div 64 < length (member_counts v)" using assms(1) by (simp add: sparse_ok_def)
  then show "unat (member_counts v ! (si div 64)) = below (members v) (64 * (si div 64))"
    "length (sparse_elts v) = 1 + card (members v)"
    using assms(1) by (simp_all add: sparse_ok_def)
  show "below (members v) si = below (members v) (64 * (si div 64)) + card {k \<in> members v. 64 * (si div 64) \<le> k \<and> k < si}"
    by (rule below_Un) simp_all
  have "members v \<subseteq> {..<sparse_size v}" using members_size by auto
  then have "card (members v) \<le> sparse_size v" using card_mono [of "{..<sparse_size v}"] by simp
  also have "\<dots> \<le> 65536" using assms(1) by (simp add: sparse_ok_def sparse_size_def)
  finally show "card (members v) \<le> 65536" .
  with below_le_card [of "members v" si] show "below (members v) si \<le> 65536" by simp
qed

text \<open>The value of \<open>d\<close> and of \<open>is_member\<close> in the lookups.\<close>

lemma lookup_rank:
  assumes "sparse_ok v" "si < sparse_size v"
  shows "ucast (member_counts v ! (si div 64)) + count_set_bits (is_member_bitmap v ! (si div 64) AND (push_bit (si mod 64) 1 - 1))
      = of_nat (below (members v) si)"
    "is_member_bitmap v ! (si div 64) AND push_bit (si mod 64) 1 = 0 \<longleftrightarrow> si \<notin> members v"
proof -
  note ok = sparse_okD [OF assms]
  show "ucast (member_counts v ! (si div 64)) + count_set_bits (is_member_bitmap v ! (si div 64) AND (push_bit (si mod 64) 1 - 1))
      = of_nat (below (members v) si)"
    unfolding word_low_bits [OF ok(1)] ucast_u16_nat ok(3) ok(4) by simp
  have "is_member_bitmap v ! (si div 64) AND push_bit (si mod 64) 1 \<noteq> 0 \<longleftrightarrow> si \<in> members v"
    using ok(1) by (auto simp: member_iff uword_nonzero_bit bit_and_iff bit_push_bit_iff bitwise)
  then show "is_member_bitmap v ! (si div 64) AND push_bit (si mod 64) 1 = 0 \<longleftrightarrow> si \<notin> members v" by blast
qed

lemma index_internal_found:
  assumes "sparse_ok v" "si < sparse_size v"
  shows "sparse_vec_index_internal v si 0 False
    = Some (if si \<in> members v then of_nat (1 + below (members v) si) else 0, False, v)"
  using sparse_okD(1,2) [OF assms] lookup_rank [OF assms]
  by (simp add: sparse_vec_index_internal_def Let_def)

lemma sparse_index:
  assumes "sparse_ok v" "si < sparse_size v"
  shows "sparse_vec_index v si = Some (if si \<in> members v then of_nat (1 + below (members v) si) else 0)"
  by (simp add: sparse_vec_index_def index_internal_found [OF assms])

section \<open>Properties\<close>

text \<open>A lookup finds the element of an index in use and gives element 0 for every other index.\<close>

theorem sparse_vec_lookup:
  assumes "sparse_ok v" "si < sparse_size v"
  shows "\<exists>i. sparse_vec_index v si = Some i \<and> (i = 0 \<longleftrightarrow> sparse_map v si = None)
    \<and> sparse_vec_elt_at_index v si = Some (case sparse_map v si of None \<Rightarrow> sparse_elts v ! 0 | Some x \<Rightarrow> x)"
proof (cases "si \<in> members v")
  case True
  note ok = sparse_okD [OF assms]
  have "1 + below (members v) si < 2 ^ 64" using ok(5) by simp
  then have i: "unat (of_nat (1 + below (members v) si) :: uword) = 1 + below (members v) si"
    by (rule unat_of_nat_u64)
  then have "(of_nat (1 + below (members v) si) :: uword) \<noteq> 0" by (metis add_is_0 one_neq_zero unat_0)
  moreover have "1 + below (members v) si < length (sparse_elts v)" using True ok(6) by (simp add: below_card)
  ultimately show ?thesis
    using True i by (simp add: sparse_index [OF assms] sparse_map_def sparse_vec_elt_at_index_def del: of_nat_Suc of_nat_add)
next
  case False
  then show ?thesis
    using sparse_okD(6) [OF assms] by (simp add: sparse_index [OF assms] sparse_map_def sparse_vec_elt_at_index_def)
qed

theorem sparse_vec_lookup_witness:
  "\<exists>i. sparse_vec_index \<lparr>is_member_bitmap = [2], member_counts = [0], range_flags = [], sparse_elts = [0, 7 :: nat]\<rparr> 1 = Some i
    \<and> i \<noteq> 0"
proof -
  let ?v = "\<lparr>is_member_bitmap = [2], member_counts = [0], range_flags = [], sparse_elts = [0, 7 :: nat]\<rparr>"
  have "si \<in> members ?v \<longleftrightarrow> si = 1" for si
  proof (cases "si < 64")
    case True
    then show ?thesis using bit_exp_u64 [of 1 si] by (simp add: member_iff)
  next
    case False
    then have "0 < si div 64" "si \<noteq> 1" by (simp_all add: div_greater_zero_iff)
    then show ?thesis by (simp add: member_iff)
  qed
  then have m: "members ?v = {1}" by blast
  then have "sparse_ok ?v" by (simp add: sparse_ok_def below_def)
  moreover have "1 < sparse_size ?v" by (simp add: sparse_size_def)
  ultimately show ?thesis using sparse_vec_lookup [of ?v 1] m by (auto simp: sparse_map_def)
qed

lemma low_bits_count:
  assumes "is_pow2 x"
  shows "count_set_bits x = of_bool (x \<noteq> 0)"
proof -
  consider "x = 0" | k where "k < 64" "x = 2 ^ k" using assms by (auto simp: is_pow2_iff)
  then show ?thesis
  proof cases
    case (2 k)
    then have "{i. bit x i} = {k}" by (auto simp: bitwise)
    moreover have "x \<noteq> 0" using 2 uword_nonzero_bit [of x] by (auto simp: bitwise)
    ultimately show ?thesis by (simp add: count_set_bits_card)
  qed (simp add: count_set_bits_card)
qed

lemma ucast_nat_u32: "(ucast (of_nat n :: uword) :: u32) = of_nat n"
  by (simp only: unsigned_of_nat word_of_nat_eq_iff) (simp add: take_bit_take_bit)

lemma ucast_ucast_u16: "(ucast (ucast (c :: u16) :: uword) :: u32) = ucast c"
  using ucast_nat_u32 [of "unat c"] by simp

lemma ucast_add_u32: "(ucast (a + b :: uword) :: u32) = ucast a + ucast b"
proof -
  have "a + b = of_nat (unat a + unat b)" by simp
  then have "(ucast (a + b) :: u32) = of_nat (unat a + unat b)" by (simp only: ucast_nat_u32)
  then show ?thesis by simp
qed

lemma count_minus_one: "ucast (count_set_bits x - of_bool (x \<noteq> 0)) = (ucast (count_set_bits x) - of_bool (x \<noteq> 0) :: u32)"
  using ucast_add_u32 [of "count_set_bits x - of_bool (x \<noteq> 0)" "of_bool (x \<noteq> 0)"] by simp

lemma index2_count:
  fixes x :: uword and c :: u16
  shows "\<not> is_pow2 x \<or> p \<Longrightarrow> ucast c + of_bool (x \<noteq> 0) + ucast (count_set_bits x - of_bool (x \<noteq> 0))
      = (ucast (ucast c + count_set_bits x :: uword) :: u32)"
    "is_pow2 x \<Longrightarrow> ucast c + of_bool (x \<noteq> 0) = (ucast (ucast c + count_set_bits x :: uword) :: u32)"
  by (auto simp: ucast_add_u32 count_minus_one low_bits_count ucast_ucast_u16)

lemma u32_position:
  fixes si :: u32
  shows "unat (si div 64) = unat si div 64" "unat (si mod 64) = unat si mod 64"
  by (simp_all add: unat_div unat_mod)

lemma of_bool_plus: "(of_bool b + (if b then d else 0) :: 'a::len word) = (if b then 1 + d else 0)"
  by simp

text \<open>C22: A lookup in a pair agrees with two single ones, whatever the speculation on the masks.\<close>

theorem sparse_vec_index2_agrees:
  "sparse_vec_index2 v si0 si1 =
     (case (sparse_vec_index v (unat si0), sparse_vec_index v (unat si1)) of
        (Some i0, Some i1) \<Rightarrow> Some (ucast i0, ucast i1) | _ \<Rightarrow> None)"
proof -
  define outside where "outside = (\<lambda>si. length (is_member_bitmap v) \<le> unat si div 64 \<or> length (member_counts v) \<le> unat (si :: u32) div 64)"
  define low where "low = (\<lambda>si. is_member_bitmap v ! (unat si div 64) AND (push_bit (unat (si :: u32) mod 64) 1 - 1))"
  define count where "count = (\<lambda>si. ucast (member_counts v ! (unat (si :: u32) div 64)) + count_set_bits (low si))"
  define found where "found = (\<lambda>si. is_member_bitmap v ! (unat si div 64) AND push_bit (unat (si :: u32) mod 64) 1 \<noteq> 0)"
  have one: "sparse_vec_index v (unat si) = (if outside si then None else Some (if found si then 1 + count si else 0))" for si
    by (simp add: sparse_vec_index_def sparse_vec_index_internal_def Let_def outside_def found_def count_def low_def)
  let ?c = "\<lambda>si. ucast (member_counts v ! (unat (si :: u32) div 64)) :: u32"
  have two: "sparse_vec_index2 v si0 si1 = (if outside si0 \<or> outside si1 then None
      else let (d0, d1) = (if \<not> is_pow2 (low si0) \<or> \<not> is_pow2 (low si1)
               then (?c si0 + of_bool (low si0 \<noteq> 0) + ucast (count_set_bits (low si0) - of_bool (low si0 \<noteq> 0)),
                     ?c si1 + of_bool (low si1 \<noteq> 0) + ucast (count_set_bits (low si1) - of_bool (low si1 \<noteq> 0)))
               else (?c si0 + of_bool (low si0 \<noteq> 0), ?c si1 + of_bool (low si1 \<noteq> 0)))
           in Some (if found si0 then 1 + d0 else 0, if found si1 then 1 + d1 else 0))"
    by (simp only: sparse_vec_index2_def Let_def outside_def low_def found_def u32_position of_bool_plus disj_ac)
  have "sparse_vec_index2 v si0 si1 = (if outside si0 \<or> outside si1 then None
      else Some (if found si0 then 1 + ucast (count si0) else 0, if found si1 then 1 + ucast (count si1) else 0))"
  proof (cases "\<not> is_pow2 (low si0) \<or> \<not> is_pow2 (low si1)")
    case True
    then show ?thesis unfolding two count_def
      using index2_count(1) [of "low si0" "\<not> is_pow2 (low si1)" "member_counts v ! (unat si0 div 64)"]
        index2_count(1) [of "low si1" "\<not> is_pow2 (low si0)" "member_counts v ! (unat si1 div 64)"] by auto
  next
    case False
    then show ?thesis unfolding two count_def
      using index2_count(2) [of "low si0" "member_counts v ! (unat si0 div 64)"]
        index2_count(2) [of "low si1" "member_counts v ! (unat si1 div 64)"] by auto
  qed
  then show ?thesis by (simp add: one ucast_add_u32)
qed

section \<open>Refinement of a map\<close>

lemma new_ok:
  assumes "b \<le> 16"
  shows "sparse_ok (sparse_vec_new b)" "sparse_map (sparse_vec_new b) = Map.empty" "2 ^ b \<le> sparse_size (sparse_vec_new b)"
proof -
  have "min_log2 (2 ^ 6) = 6" by (rule min_log2_unique) (simp_all only: bit_exp_u64, simp_all)
  then have l: "min_log2 64 = 6" by simp
  define n where "n = (2 :: nat) ^ nat (if int b - int 6 < 0 then 0 else int b - int 6)"
  have v: "sparse_vec_new b = \<lparr>is_member_bitmap = replicate n 0, member_counts = replicate n 0, range_flags = [], sparse_elts = [0]\<rparr>"
    by (simp add: sparse_vec_new_def n_def l Let_def)
  have m: "members (sparse_vec_new b) = {}" by (auto simp: v members_def bits_def words_def)
  have "n \<le> 2 ^ 10" unfolding n_def using assms by (intro power_increasing) auto
  then show "sparse_ok (sparse_vec_new b)" unfolding sparse_ok_def below_def m by (simp add: v)
  show "sparse_map (sparse_vec_new b) = Map.empty" by (simp add: sparse_map_def fun_eq_iff m)
  have "2 ^ b \<le> (2 :: nat) ^ (6 + nat (if int b - int 6 < 0 then 0 else int b - int 6))"
    by (intro power_increasing) auto
  then show "2 ^ b \<le> sparse_size (sparse_vec_new b)" by (simp add: sparse_size_def v n_def power_add)
qed

lemma members_insert:
  assumes "si div 64 < length bm" "bm' = bm[si div 64 := bm ! (si div 64) OR push_bit (si mod 64) 1]"
  shows "members (v\<lparr>is_member_bitmap := bm', member_counts := cs, sparse_elts := es\<rparr>)
    = insert si (members (v\<lparr>is_member_bitmap := bm\<rparr>))"
proof (rule set_eqI)
  fix k
  have "k = si \<longleftrightarrow> k div 64 = si div 64 \<and> k mod 64 = si mod 64" by (metis mult_div_mod_eq)
  then show "k \<in> members (v\<lparr>is_member_bitmap := bm', member_counts := cs, sparse_elts := es\<rparr>)
      \<longleftrightarrow> k \<in> insert si (members (v\<lparr>is_member_bitmap := bm\<rparr>))"
    using assms by (auto simp: member_iff bit_or_iff bit_push_bit_iff nth_list_update bitwise)
qed

lemma unat_count_plus:
  fixes c :: u16
  assumes "unat c < 65535"
  shows "unat (c + 1) = unat c + 1"
  using assms by (simp add: unat_word_ariths)

text \<open>The vector after an element has been added for a new index.\<close>

lemma insert_ok:
  fixes v :: "'a sparse_vec" and x :: 'a
  assumes v: "sparse_ok v" and si: "si < sparse_size v" "si \<notin> members v"
  defines "d \<equiv> below (members v) si"
  defines "w \<equiv> v\<lparr>is_member_bitmap := (is_member_bitmap v)[si div 64 := is_member_bitmap v ! (si div 64) OR push_bit (si mod 64) 1],
      member_counts := count_one_more (si div 64) (member_counts v),
      sparse_elts := take (1 + d) (sparse_elts v) @ x # drop (1 + d) (sparse_elts v)\<rparr>"
  shows "sparse_ok w" "sparse_map w = (sparse_map v)(si \<mapsto> x)" "members w = insert si (members v)" "below (members w) si = d"
    "sparse_size w = sparse_size v"
proof -
  note ok = sparse_okD [OF v si(1)]
  show m: "members w = insert si (members v)"
    unfolding w_def using members_insert [where v = v, OF ok(1) refl] by simp
  show d: "below (members w) si = d" by (simp add: m below_insert si(2) d_def)
  show "sparse_size w = sparse_size v" by (simp add: w_def sparse_size_def)
  have lens: "length (is_member_bitmap w) = length (is_member_bitmap v)" "length (member_counts w) = length (member_counts v)"
    by (simp_all add: w_def count_one_more_def)
  have l: "1 + d \<le> length (sparse_elts v)" using ok(6) below_le_card [of "members v" si] by (simp add: d_def)
  then have "length (sparse_elts w) = 1 + card (members w)" unfolding m using ok(6) si(2) by (simp add: w_def)
  moreover have "unat (member_counts w ! j) = below (members w) (64 * j)" if j: "j < length (member_counts w)" for j
  proof -
    have c: "unat (member_counts v ! j) = below (members v) (64 * j)" using v j lens by (simp add: sparse_ok_def)
    have after: "si < 64 * j \<longleftrightarrow> si div 64 < j" by (metis div_less_iff_less_mult mult.commute zero_less_numeral)
    show ?thesis
    proof (cases "si div 64 < j")
      case True
      have "{k \<in> members v. k < 64 * j} \<subseteq> {..<64 * j} - {si}" using si(2) by auto
      then have "below (members v) (64 * j) \<le> card ({..<64 * j} - {si})" unfolding below_def by (intro card_mono) simp_all
      also have "\<dots> = 64 * j - 1" using True after by simp
      also have "j < 1024" using j lens v by (simp add: sparse_ok_def)
      then have "64 * j - 1 < 65535" by simp
      finally show ?thesis unfolding m below_insert [OF finite_members si(2)] using j lens True after c
        by (simp add: w_def count_one_more_def unat_count_plus)
    next
      case False
      then show ?thesis unfolding m below_insert [OF finite_members si(2)] using j lens after c
        by (simp add: w_def count_one_more_def)
    qed
  qed
  ultimately show "sparse_ok w" using v lens by (simp add: sparse_ok_def)
  have nth: "sparse_elts w ! (1 + e) = (if e < d then sparse_elts v ! (1 + e) else if e = d then x else sparse_elts v ! e)"
    if "e \<le> card (members v)" for e
    using that l ok(6) by (auto simp: w_def nth_append min_def nth_Cons')
  show "sparse_map w = (sparse_map v)(si \<mapsto> x)"
  proof
    fix k
    consider "k = si" | "k \<notin> members w" | "k \<in> members v" "k \<noteq> si" using m by blast
    then show "sparse_map w k = ((sparse_map v)(si \<mapsto> x)) k"
    proof cases
      case 1
      then show ?thesis using d m nth [of d] below_le_card [of "members v" si] by (simp add: sparse_map_def d_def)
    next
      case 2
      then show ?thesis using m by (auto simp: sparse_map_def)
    next
      case 3
      then have b: "below (members v) k < card (members v)" by (simp add: below_card)
      show ?thesis
      proof (cases "k < si")
        case True
        then have "below (members v) k < d" unfolding d_def using 3 by (intro below_less) simp_all
        then show ?thesis using 3 True m b nth [of "below (members v) k"] si(2) by (simp add: sparse_map_def below_insert)
      next
        case False
        then have "d \<le> below (members v) k" unfolding d_def by (intro below_mono) simp_all
        then show ?thesis using 3 False m b nth [of "below (members v) k + 1"] si(2) by (simp add: sparse_map_def below_insert)
      qed
    qed
  qed
qed

lemma validate_unfold:
  assumes "sparse_ok v" "si < sparse_size v"
  shows "sparse_vec_validate (Some v) si = Some (if si \<in> members v then (1 + below (members v) si, v)
      else (1 + below (members v) si,
        v\<lparr>is_member_bitmap := (is_member_bitmap v)[si div 64 := is_member_bitmap v ! (si div 64) OR push_bit (si mod 64) 1],
          member_counts := count_one_more (si div 64) (member_counts v),
          sparse_elts := take (1 + below (members v) si) (sparse_elts v) @ 0 # drop (1 + below (members v) si) (sparse_elts v)\<rparr>))"
proof -
  note ok = sparse_okD [OF assms] and rank = lookup_rank [OF assms]
  have "1 + below (members v) si < 2 ^ 64" using ok(5) by simp
  then have i: "unat (1 + of_nat (below (members v) si) :: uword) = 1 + below (members v) si"
    using unat_of_nat_u64 [of "1 + below (members v) si"] by simp
  have "1 + below (members v) si \<le> length (sparse_elts v)" using ok(6) below_le_card [of "members v" si] by simp
  with ok(1,2) rank i show ?thesis
    by (simp add: sparse_vec_validate_def sparse_vec_index_internal_def Let_def del: One_nat_def)
qed



end
