(* ===== verification/Clib_Fheap.thy ===== *)
theory Clib_Fheap
  imports Clib_Prelude "HOL-Library.Monad_Syntax"
begin

text \<open>
  The Fibonacci heaps of \<open>src/clib/fheap.h\<close> and \<open>src/clib/fheap.c\<close>: nodes in a vector, linked by indices
  into rings of siblings; the largest index stands for no node. \<open>None\<close> is the access to a node
  beyond the vector or to no node at all. \<open>fheap_validate\<close>, which only checks, is left out.
\<close>

record fheap_node =
  parent :: u32
  first_child :: u32
  next_sibling :: u32
  prev_sibling :: u32
  node_key :: u32
  rank :: u32
  is_marked :: u32
  is_valid :: u32

record fheap =
  nodes :: "fheap_node list"
  root_list_by_rank :: "u32 list"
  min_root :: u32

abbreviation no_node :: u32 where
  "no_node \<equiv> - 1"

definition node_at :: "fheap \<Rightarrow> u32 \<Rightarrow> fheap_node option" where
  "node_at f i = (if i \<noteq> no_node \<and> unat i < length (nodes f) then Some (nodes f ! unat i) else None)"

definition modify_node :: "u32 \<Rightarrow> (fheap_node \<Rightarrow> fheap_node) \<Rightarrow> fheap \<Rightarrow> fheap option" where
  "modify_node i g f = map_option (\<lambda>n. f\<lparr>nodes := (nodes f)[unat i := g n]\<rparr>) (node_at f i)"

text \<open>The same where the code tests the pointer first.\<close>

definition modify_if_node :: "u32 \<Rightarrow> (fheap_node \<Rightarrow> fheap_node) \<Rightarrow> fheap \<Rightarrow> fheap option" where
  "modify_if_node i g f = (if i = no_node then Some f else modify_node i g f)"

definition null_node :: fheap_node where
  "null_node = \<lparr>parent = 0, first_child = 0, next_sibling = 0, prev_sibling = 0, node_key = 0, rank = 0, is_marked = 0, is_valid = 0\<rparr>"

text \<open>A vector that is long enough keeps its nodes.\<close>

definition fheap_init :: "fheap_node list \<Rightarrow> u32 \<Rightarrow> fheap" where
  "fheap_init save_nodes n_nodes =
     \<lparr>nodes = save_nodes @ replicate (unat (n_nodes - 1) + 1 - length save_nodes) null_node,
      root_list_by_rank = [], min_root = no_node\<rparr>"

definition fheap_find_min :: "fheap \<Rightarrow> u32" where
  "fheap_find_min f = min_root f"

definition fheap_is_empty :: "fheap \<Rightarrow> bool" where
  "fheap_is_empty f \<longleftrightarrow> min_root f = no_node"

definition fheap_node_add_sibling :: "u32 \<Rightarrow> u32 \<Rightarrow> fheap \<Rightarrow> fheap option" where
  "fheap_node_add_sibling ni ni_to_add f = do {
     n \<leftarrow> node_at f ni;
     f \<leftarrow> (if next_sibling n = no_node
       then modify_node ni (\<lambda>n. n\<lparr>next_sibling := ni_to_add, prev_sibling := ni_to_add\<rparr>) f \<bind>
            modify_node ni_to_add (\<lambda>a. a\<lparr>next_sibling := ni, prev_sibling := ni\<rparr>)
       else modify_node ni_to_add (\<lambda>a. a\<lparr>prev_sibling := ni, next_sibling := next_sibling n\<rparr>) f \<bind>
            modify_node ni (\<lambda>n. n\<lparr>next_sibling := ni_to_add\<rparr>) \<bind>
            modify_node (next_sibling n) (\<lambda>m. m\<lparr>prev_sibling := ni_to_add\<rparr>));
     n \<leftarrow> node_at f ni;
     f \<leftarrow> modify_node ni_to_add (\<lambda>a. a\<lparr>parent := parent n\<rparr>) f;
     modify_if_node (parent n) (\<lambda>p. p\<lparr>rank := rank p + 1\<rparr>) f
   }"

definition fheap_add :: "fheap \<Rightarrow> u32 \<Rightarrow> u32 \<Rightarrow> fheap option" where
  "fheap_add f ni key = do {
     f \<leftarrow> modify_node ni (\<lambda>n. null_node\<lparr>parent := no_node, first_child := no_node, next_sibling := no_node,
                                    prev_sibling := no_node, node_key := key\<rparr>) f;
     if min_root f = no_node then Some (f\<lparr>min_root := ni\<rparr>)
     else do {
       f \<leftarrow> fheap_node_add_sibling (min_root f) ni f;
       r \<leftarrow> node_at f (min_root f);
       n \<leftarrow> node_at f ni;
       Some (if node_key n < node_key r then f\<lparr>min_root := ni\<rparr> else f)
     }
   }"

definition fheap_node_remove_internal :: "u32 \<Rightarrow> bool \<Rightarrow> fheap \<Rightarrow> (u32 \<times> fheap) option" where
  "fheap_node_remove_internal ni invalidate f = do {
     n \<leftarrow> node_at f ni;
     let prev_ni = prev_sibling n;
     let next_ni = next_sibling n;
     let list_has_single_element = (prev_ni = ni);
     f \<leftarrow> modify_if_node (parent n) (\<lambda>p. p\<lparr>rank := rank p - 1,
            first_child := (if list_has_single_element then no_node else next_ni)\<rparr>) f;
     f \<leftarrow> modify_if_node prev_ni (\<lambda>m. m\<lparr>next_sibling := next_ni\<rparr>) f;
     f \<leftarrow> modify_if_node next_ni (\<lambda>m. m\<lparr>prev_sibling := prev_ni\<rparr>) f;
     f \<leftarrow> modify_node ni (\<lambda>n. n\<lparr>prev_sibling := ni, next_sibling := ni, parent := no_node,
            is_valid := of_bool (\<not> invalidate)\<rparr>) f;
     Some (if list_has_single_element then no_node else next_ni, f)
   }"

definition fheap_node_remove :: "u32 \<Rightarrow> fheap \<Rightarrow> (u32 \<times> fheap) option" where
  "fheap_node_remove ni f = fheap_node_remove_internal ni False f"

definition fheap_node_remove_and_invalidate :: "u32 \<Rightarrow> fheap \<Rightarrow> (u32 \<times> fheap) option" where
  "fheap_node_remove_and_invalidate ni f = fheap_node_remove_internal ni True f"

definition validate_init_empty :: "'a list \<Rightarrow> nat \<Rightarrow> 'a \<Rightarrow> 'a list" where
  "validate_init_empty xs i x = xs @ replicate (i + 1 - length xs) x"

partial_function (option) fheap_link_root :: "u32 \<Rightarrow> fheap \<Rightarrow> fheap option" where
  "fheap_link_root ni f = do {
     n \<leftarrow> node_at f ni;
     let k = unat (rank n);
     let rl = validate_init_empty (root_list_by_rank f) k no_node;
     let ri = rl ! k;
     if ri = no_node then Some (f\<lparr>root_list_by_rank := rl[k := ni]\<rparr>)
     else do {
       let f = f\<lparr>root_list_by_rank := rl[k := no_node]\<rparr>;
       r \<leftarrow> node_at f ri;
       let (lo_i, hi_i) = (if node_key n < node_key r then (ni, ri) else (ri, ni));
       (_, f) \<leftarrow> fheap_node_remove hi_i f;
       lo \<leftarrow> node_at f lo_i;
       f \<leftarrow> (if first_child lo = no_node
         then modify_node hi_i (\<lambda>hi. hi\<lparr>parent := lo_i\<rparr>) f \<bind>
              modify_node lo_i (\<lambda>lo. lo\<lparr>first_child := hi_i, rank := 1\<rparr>)
         else fheap_node_add_sibling (first_child lo) hi_i f);
       f \<leftarrow> modify_node hi_i (\<lambda>hi. hi\<lparr>is_marked := 0\<rparr>) f;
       fheap_link_root lo_i f
     }
   }"

text \<open>The loops of \<open>fheap_del_min\<close>: over the ring of roots, and over the roots by rank.\<close>

partial_function (option) link_roots :: "u32 \<Rightarrow> u32 \<Rightarrow> fheap \<Rightarrow> fheap option" where
  "link_roots ri ri_last f = do {
     f \<leftarrow> modify_node ri (\<lambda>r. r\<lparr>parent := no_node\<rparr>) f;
     r \<leftarrow> node_at f ri;
     let ri_next = next_sibling r;
     f \<leftarrow> fheap_link_root ri f;
     if ri = ri_last then Some f else link_roots ri_next ri_last f
   }"

fun find_min_root :: "u32 list \<Rightarrow> u32 \<Rightarrow> fheap \<Rightarrow> fheap option" where
  "find_min_root [] min_ds f = Some f"
| "find_min_root (ni # rl) min_ds f =
     (if ni = no_node then find_min_root rl min_ds f
      else do {
        r \<leftarrow> node_at f ni;
        if node_key r < min_ds then find_min_root rl (node_key r) (f\<lparr>min_root := ni\<rparr>)
        else find_min_root rl min_ds f
      })"

definition splice_children :: "u32 \<Rightarrow> fheap \<Rightarrow> fheap option" where
  "splice_children ri f = do {
     r \<leftarrow> node_at f ri;
     if first_child r = no_node then Some f
     else do {
       let ci = first_child r;
       c \<leftarrow> node_at f ci;
       let cni = next_sibling c;
       let rni = next_sibling r;
       f \<leftarrow> modify_node ri (\<lambda>r. r\<lparr>next_sibling := cni\<rparr>) f;
       f \<leftarrow> modify_node ci (\<lambda>c. c\<lparr>next_sibling := rni\<rparr>) f;
       f \<leftarrow> modify_node cni (\<lambda>cn. cn\<lparr>prev_sibling := ri\<rparr>) f;
       modify_node rni (\<lambda>rn. rn\<lparr>prev_sibling := ci\<rparr>) f
     }
   }"

text \<open>The result is the index and, for an index, the key stored through \<open>min_key\<close>.\<close>

definition fheap_del_min :: "fheap \<Rightarrow> (u32 \<times> u32 option \<times> fheap) option" where
  "fheap_del_min f =
     (let to_delete_min_ri = min_root f
      in if to_delete_min_ri = no_node then Some (no_node, None, f)
         else do {
           f \<leftarrow> splice_children to_delete_min_ri f;
           (ri, f) \<leftarrow> fheap_node_remove_and_invalidate to_delete_min_ri f;
           let f = f\<lparr>min_root := no_node\<rparr>;
           f \<leftarrow> (if ri = no_node then Some f
             else do {
               r \<leftarrow> node_at f ri;
               f \<leftarrow> link_roots ri (prev_sibling r) f;
               f \<leftarrow> find_min_root (root_list_by_rank f) no_node f;
               Some (f\<lparr>root_list_by_rank := map (\<lambda>_. no_node) (root_list_by_rank f)\<rparr>)
             });
           r \<leftarrow> node_at f to_delete_min_ri;
           Some (to_delete_min_ri, Some (node_key r), f)
         })"

partial_function (option) fheap_mark_parent :: "u32 \<Rightarrow> fheap \<Rightarrow> fheap option" where
  "fheap_mark_parent pi f = do {
     p \<leftarrow> node_at f pi;
     if parent p = no_node then Some f
     else if is_marked p = 0 then modify_node pi (\<lambda>p. p\<lparr>is_marked := 1\<rparr>) f
     else do {
       (_, f) \<leftarrow> fheap_node_remove pi f;
       f \<leftarrow> fheap_node_add_sibling (min_root f) pi f;
       f \<leftarrow> modify_node pi (\<lambda>p. p\<lparr>is_marked := 0\<rparr>) f;
       p \<leftarrow> node_at f pi;
       if parent p \<noteq> no_node then fheap_mark_parent (parent p) f else Some f
     }
   }"

definition fheap_decrease_key :: "fheap \<Rightarrow> u32 \<Rightarrow> u32 \<Rightarrow> fheap option" where
  "fheap_decrease_key f ni new_key = do {
     let ri = min_root f;
     f \<leftarrow> modify_node ni (\<lambda>n. n\<lparr>node_key := new_key\<rparr>) f;
     n \<leftarrow> node_at f ni;
     f \<leftarrow> (if parent n \<noteq> no_node
       then do {
         f \<leftarrow> fheap_mark_parent (parent n) f;
         (_, f) \<leftarrow> fheap_node_remove ni f;
         fheap_node_add_sibling (min_root f) ni f
       }
       else Some f);
     n \<leftarrow> node_at f ni;
     r \<leftarrow> node_at f ri;
     Some (if node_key n < node_key r then f\<lparr>min_root := ni\<rparr> else f)
   }"

text \<open>The loop over the siblings of the first child, which moves each of them to the roots.\<close>

partial_function (option) move_children :: "u32 \<Rightarrow> u32 \<Rightarrow> fheap \<Rightarrow> fheap option" where
  "move_children first_ni ci f = do {
     c \<leftarrow> node_at f ci;
     let next_ni = next_sibling c;
     (_, f) \<leftarrow> fheap_node_remove ci f;
     f \<leftarrow> fheap_node_add_sibling (min_root f) ci f;
     if next_ni = first_ni then Some f else move_children first_ni next_ni f
   }"

definition fheap_del :: "fheap \<Rightarrow> u32 \<Rightarrow> fheap option" where
  "fheap_del f ni = do {
     n \<leftarrow> node_at f ni;
     if parent n = no_node
     then map_option (snd \<circ> snd) (fheap_del_min f)
     else do {
       f \<leftarrow> fheap_mark_parent (parent n) f;
       n \<leftarrow> node_at f ni;
       f \<leftarrow> (if first_child n = no_node then Some f else move_children (first_child n) (first_child n) f);
       map_option snd (fheap_node_remove_and_invalidate ni f)
     }
   }"

section \<open>Nodes and their fields\<close>

definition in_nodes :: "fheap \<Rightarrow> u32 \<Rightarrow> bool" where
  "in_nodes f i \<longleftrightarrow> i \<noteq> no_node \<and> unat i < length (nodes f)"

definition nd :: "fheap \<Rightarrow> u32 \<Rightarrow> fheap_node" where
  "nd f i = nodes f ! unat i"

definition nx :: "fheap \<Rightarrow> u32 \<Rightarrow> u32" where "nx f x = next_sibling (nd f x)"
definition pv :: "fheap \<Rightarrow> u32 \<Rightarrow> u32" where "pv f x = prev_sibling (nd f x)"
definition pa :: "fheap \<Rightarrow> u32 \<Rightarrow> u32" where "pa f x = parent (nd f x)"
definition fc :: "fheap \<Rightarrow> u32 \<Rightarrow> u32" where "fc f x = first_child (nd f x)"
definition rk :: "fheap \<Rightarrow> u32 \<Rightarrow> u32" where "rk f x = rank (nd f x)"
definition ky :: "fheap \<Rightarrow> u32 \<Rightarrow> u32" where "ky f x = node_key (nd f x)"

lemmas fields = nx_def pv_def pa_def fc_def rk_def ky_def

text \<open>The same vector length, list of ranks and least root.\<close>

definition like :: "fheap \<Rightarrow> fheap \<Rightarrow> bool" where
  "like f g \<longleftrightarrow> length (nodes g) = length (nodes f) \<and> root_list_by_rank g = root_list_by_rank f \<and> min_root g = min_root f"

lemma like_refl [simp]: "like f f"
  by (simp add: like_def)

lemma like_trans: "like f g \<Longrightarrow> like g h \<Longrightarrow> like f h"
  by (simp add: like_def)

lemma like_in [simp]: "like f g \<Longrightarrow> in_nodes g i = in_nodes f i"
  by (simp add: like_def in_nodes_def)

lemma node_at_in: "in_nodes f i \<Longrightarrow> node_at f i = Some (nd f i)"
  by (simp add: node_at_def in_nodes_def nd_def)

lemma modify_node_in:
  assumes "in_nodes f i"
  obtains f' where "modify_node i g f = Some f'" "like f f'" "nd f' = (nd f)(i := g (nd f i))"
proof
  let ?f = "f\<lparr>nodes := (nodes f)[unat i := g (nd f i)]\<rparr>"
  show "modify_node i g f = Some ?f" using assms by (simp add: modify_node_def node_at_in)
  show "like f ?f" by (simp add: like_def)
  show "nd ?f = (nd f)(i := g (nd f i))"
    using assms by (intro ext) (auto simp: nd_def in_nodes_def nth_list_update word_unat_eq_iff)
qed

lemma modify_if_node_in:
  assumes "i = no_node \<or> in_nodes f i"
  obtains f' where "modify_if_node i g f = Some f'" "like f f'"
    "nd f' = (if i = no_node then nd f else (nd f)(i := g (nd f i)))"
proof (cases "i = no_node")
  case True
  then show ?thesis by (intro that [of f]) (simp_all add: modify_if_node_def)
next
  case False
  with assms have "in_nodes f i" by simp
  from modify_node_in [OF this] False show ?thesis by (metis that modify_if_node_def)
qed

text \<open>Adding a sibling in a ring, for a node that is in none, and taking a node out of a ring.\<close>

lemma add_sibling_fields:
  assumes "in_nodes f a" "in_nodes f b" "in_nodes f (nx f a)" "pa f a = no_node \<or> in_nodes f (pa f a)"
    and "a \<noteq> b" "pa f a \<noteq> a" "pa f a \<noteq> b" "nx f a \<noteq> b"
  obtains f' where "fheap_node_add_sibling a b f = Some f'" "like f f'"
    "nx f' = (nx f)(b := nx f a, a := b)" "pv f' = (pv f)(b := a, nx f a := b)"
    "pa f' = (pa f)(b := pa f a)" "fc f' = fc f" "ky f' = ky f"
    "rk f' = (if pa f a = no_node then rk f else (rk f)(pa f a := rk f (pa f a) + 1))"
proof -
  have nn: "nx f a \<noteq> no_node" using assms(3) by (simp add: in_nodes_def)
  obtain f1 where 1: "modify_node b (\<lambda>m. m\<lparr>prev_sibling := a, next_sibling := nx f a\<rparr>) f = Some f1" "like f f1"
      "nd f1 = (nd f)(b := (nd f b)\<lparr>prev_sibling := a, next_sibling := nx f a\<rparr>)"
    by (rule modify_node_in [OF assms(2)])
  have "in_nodes f1 a" using 1(2) assms(1) by simp
  then obtain f2 where 2: "modify_node a (\<lambda>n. n\<lparr>next_sibling := b\<rparr>) f1 = Some f2" "like f1 f2"
      "nd f2 = (nd f1)(a := (nd f1 a)\<lparr>next_sibling := b\<rparr>)"
    by (rule modify_node_in)
  have "in_nodes f2 (nx f a)" using 1(2) 2(2) assms(3) by simp
  then obtain f3 where 3: "modify_node (nx f a) (\<lambda>m. m\<lparr>prev_sibling := b\<rparr>) f2 = Some f3" "like f2 f3"
      "nd f3 = (nd f2)(nx f a := (nd f2 (nx f a))\<lparr>prev_sibling := b\<rparr>)"
    by (rule modify_node_in)
  have pa3: "pa f3 a = pa f a" using 1(3) 2(3) 3(3) by (simp add: pa_def)
  have "in_nodes f3 b" using 1(2) 2(2) 3(2) assms(2) by simp
  then obtain f4 where 4: "modify_node b (\<lambda>m. m\<lparr>parent := pa f a\<rparr>) f3 = Some f4" "like f3 f4"
      "nd f4 = (nd f3)(b := (nd f3 b)\<lparr>parent := pa f a\<rparr>)"
    by (rule modify_node_in)
  have "pa f a = no_node \<or> in_nodes f4 (pa f a)" using 1(2) 2(2) 3(2) 4(2) assms(4) by simp
  then obtain f5 where 5: "modify_if_node (pa f a) (\<lambda>p. p\<lparr>rank := rank p + 1\<rparr>) f4 = Some f5" "like f4 f5"
      "nd f5 = (if pa f a = no_node then nd f4 else (nd f4)(pa f a := (nd f4 (pa f a))\<lparr>rank := rank (nd f4 (pa f a)) + 1\<rparr>))"
    by (rule modify_if_node_in)
  have at: "node_at f a = Some (nd f a)" "node_at f3 a = Some (nd f3 a)"
    using assms(1) 1(2) 2(2) 3(2) by (simp_all add: node_at_in)
  show ?thesis
  proof (rule that)
    show "fheap_node_add_sibling a b f = Some f5"
      using at nn 1(1) 2(1) 3(1) 4(1) 5(1) pa3 by (simp add: fheap_node_add_sibling_def nx_def pa_def)
    show "like f f5" using 1(2) 2(2) 3(2) 4(2) 5(2) by (meson like_trans)
  qed (use assms(5-8) in \<open>auto simp: fun_eq_iff fields 1(3) 2(3) 3(3) 4(3) 5(3)\<close>)
qed

lemma remove_fields:
  assumes "in_nodes f x" "in_nodes f (nx f x)" "in_nodes f (pv f x)" "pa f x = no_node \<or> in_nodes f (pa f x)" "pa f x \<noteq> x"
  obtains f' where "fheap_node_remove_internal x invalidate f = Some (if pv f x = x then no_node else nx f x, f')" "like f f'"
    "nx f' = (nx f)(pv f x := nx f x, x := x)" "pv f' = (pv f)(nx f x := pv f x, x := x)"
    "pa f' = (pa f)(x := no_node)" "ky f' = ky f"
    "fc f' = (if pa f x = no_node then fc f else (fc f)(pa f x := if pv f x = x then no_node else nx f x))"
    "rk f' = (if pa f x = no_node then rk f else (rk f)(pa f x := rk f (pa f x) - 1))"
proof -
  let ?p = "pa f x" and ?single = "if pv f x = x then no_node else nx f x"
  have nn: "nx f x \<noteq> no_node" "pv f x \<noteq> no_node" using assms(2,3) by (simp_all add: in_nodes_def)
  obtain f1 where 1: "modify_if_node ?p (\<lambda>p. p\<lparr>rank := rank p - 1, first_child := ?single\<rparr>) f = Some f1" "like f f1"
      "nd f1 = (if ?p = no_node then nd f else (nd f)(?p := (nd f ?p)\<lparr>rank := rank (nd f ?p) - 1, first_child := ?single\<rparr>))"
    by (rule modify_if_node_in [OF assms(4)])
  have "in_nodes f1 (pv f x)" using 1(2) assms(3) by simp
  then obtain f2 where 2: "modify_node (pv f x) (\<lambda>m. m\<lparr>next_sibling := nx f x\<rparr>) f1 = Some f2" "like f1 f2"
      "nd f2 = (nd f1)(pv f x := (nd f1 (pv f x))\<lparr>next_sibling := nx f x\<rparr>)"
    by (rule modify_node_in)
  have "in_nodes f2 (nx f x)" using 1(2) 2(2) assms(2) by simp
  then obtain f3 where 3: "modify_node (nx f x) (\<lambda>m. m\<lparr>prev_sibling := pv f x\<rparr>) f2 = Some f3" "like f2 f3"
      "nd f3 = (nd f2)(nx f x := (nd f2 (nx f x))\<lparr>prev_sibling := pv f x\<rparr>)"
    by (rule modify_node_in)
  let ?g = "\<lambda>n. n\<lparr>prev_sibling := x, next_sibling := x, parent := no_node, is_valid := of_bool (\<not> invalidate)\<rparr>"
  have "in_nodes f3 x" using 1(2) 2(2) 3(2) assms(1) by simp
  then obtain f4 where 4: "modify_node x ?g f3 = Some f4" "like f3 f4" "nd f4 = (nd f3)(x := ?g (nd f3 x))"
    by (rule modify_node_in)
  have if2: "modify_if_node (pv f x) (\<lambda>m. m\<lparr>next_sibling := nx f x\<rparr>) f1 = Some f2"
    and if3: "modify_if_node (nx f x) (\<lambda>m. m\<lparr>prev_sibling := pv f x\<rparr>) f2 = Some f3"
    using 2(1) 3(1) nn by (simp_all add: modify_if_node_def)
  show ?thesis
  proof (rule that)
    show "fheap_node_remove_internal x invalidate f = Some (?single, f4)"
      by (simp only: fheap_node_remove_internal_def node_at_in [OF assms(1)] bind.bind_lunit Let_def
          nx_def [symmetric] pv_def [symmetric] pa_def [symmetric] 1(1) if2 if3 4(1))
    show "like f f4" using 1(2) 2(2) 3(2) 4(2) by (meson like_trans)
    have "nx f1 = nx f" "pv f1 = pv f" "pa f1 = pa f" "ky f1 = ky f" by (simp_all add: fun_eq_iff fields 1(3))
    moreover have "nx f2 = (nx f1)(pv f x := nx f x)" "pv f2 = pv f1" "pa f2 = pa f1" "ky f2 = ky f1"
      by (simp_all add: fun_eq_iff fields 2(3))
    moreover have "nx f3 = nx f2" "pv f3 = (pv f2)(nx f x := pv f x)" "pa f3 = pa f2" "ky f3 = ky f2"
      by (simp_all add: fun_eq_iff fields 3(3))
    moreover have "nx f4 = (nx f3)(x := x)" "pv f4 = (pv f3)(x := x)" "pa f4 = (pa f3)(x := no_node)" "ky f4 = ky f3"
      by (simp_all add: fun_eq_iff fields 4(3))
    ultimately show "nx f4 = (nx f)(pv f x := nx f x, x := x)" "pv f4 = (pv f)(nx f x := pv f x, x := x)"
      "pa f4 = (pa f)(x := no_node)" "ky f4 = ky f" by simp_all
    have "fc f1 = (if ?p = no_node then fc f else (fc f)(?p := ?single))" "rk f1 = (if ?p = no_node then rk f else (rk f)(?p := rk f ?p - 1))"
      by (simp_all add: fun_eq_iff fields 1(3))
    moreover have "fc f2 = fc f1" "rk f2 = rk f1" by (simp_all add: fun_eq_iff fields 2(3))
    moreover have "fc f3 = fc f2" "rk f3 = rk f2" by (simp_all add: fun_eq_iff fields 3(3))
    moreover have "fc f4 = fc f3" "rk f4 = rk f3" by (simp_all add: fun_eq_iff fields 4(3))
    ultimately show "fc f4 = (if ?p = no_node then fc f else (fc f)(?p := ?single))"
      "rk f4 = (if ?p = no_node then rk f else (rk f)(?p := rk f ?p - 1))" by simp_all
  qed
qed

section \<open>Rings\<close>

definition ring :: "('a \<Rightarrow> 'a) \<Rightarrow> ('a \<Rightarrow> 'a) \<Rightarrow> 'a list \<Rightarrow> bool" where
  "ring N P xs \<longleftrightarrow> xs = [] \<or> chain N P (xs @ [hd xs])"

lemma ring_Nil [simp]: "ring N P []"
  by (simp add: ring_def)

lemma ring_Cons: "ring N P (x # xs) \<longleftrightarrow> chain N P (x # xs @ [x])"
  by (simp add: ring_def)

lemma ring_single: "ring N P [x] \<longleftrightarrow> N x = x \<and> P x = x"
  by (auto simp: ring_def)

lemma ring_cong:
  assumes "\<forall>x \<in> set xs. N' x = N x \<and> P' x = P x"
  shows "ring N' P' xs = ring N P xs"
proof (cases xs)
  case (Cons x ys)
  then show ?thesis using assms unfolding Cons ring_Cons by (intro chain_cong) (auto simp: butlast_append)
qed simp

lemma ring_rotate: "ring N P (xs @ ys) \<longleftrightarrow> ring N P (ys @ xs)"
proof (cases "xs = [] \<or> ys = []")
  case False
  then obtain x xs' y ys' where e: "xs = x # xs'" "ys = y # ys'" by (meson list.exhaust)
  have "chain N P ((x # xs') @ y # ys' @ [x]) \<longleftrightarrow> chain N P ((y # ys') @ x # xs' @ [y])"
    by (subst (1 2) chain_append) auto
  then show ?thesis by (simp add: e ring_Cons)
qed auto

lemma ring_next:
  assumes "ring N P (xs @ x # y # ys)"
  shows "N x = y" "P y = x"
proof -
  have "chain N P (x # y # (ys @ xs) @ [x])" using assms ring_rotate [of N P xs "x # y # ys"] by (simp add: ring_Cons)
  then show "N x = y" "P y = x" by simp_all
qed

lemma ring_hd_last:
  assumes "ring N P xs" "xs \<noteq> []"
  shows "N (last xs) = hd xs" "P (hd xs) = last xs"
proof -
  obtain ys y where xs: "xs = ys @ [y]" using assms(2) by (cases xs rule: rev_cases) auto
  have "chain N P (ys @ y # [hd xs])" using assms xs by (simp add: ring_def)
  then have "chain N P (y # [hd xs])" by (subst (asm) chain_append) blast
  then show "N (last xs) = hd xs" "P (hd xs) = last xs" using xs by simp_all
qed

lemma ring_closed: "ring N P xs \<Longrightarrow> x \<in> set xs \<Longrightarrow> N x \<in> set xs \<and> P x \<in> set xs"
proof -
  assume r: "ring N P xs" and "x \<in> set xs"
  then obtain as bs where xs: "xs = as @ x # bs" by (auto simp: in_set_conv_decomp)
  with r have c: "ring N P (x # bs @ as)" using ring_rotate [of N P as "x # bs"] by simp
  have "N x \<in> set (x # bs @ as)"
    using c unfolding ring_Cons by (cases "bs @ as") auto
  moreover have "P x \<in> set (x # bs @ as)" using ring_hd_last(2) [OF c] by (metis last_in_set list.distinct(1) list.sel(1))
  ultimately show ?thesis by (auto simp: xs)
qed

lemma ring_remove:
  assumes r: "ring N P (x # xs)" and d: "distinct (x # xs)"
  shows "ring (N(P x := N x, x := x)) (P(N x := P x, x := x)) xs"
proof (cases xs)
  case (Cons h t)
  let ?N = "N(P x := N x, x := x)" and ?P = "P(N x := P x, x := x)"
  define l where "l = last xs"
  define b where "b = butlast xs"
  have xs: "xs = b @ [l]" "hd xs = h" using Cons by (simp_all add: l_def b_def)
  have ends: "N x = h" "P h = x" "P x = l"
    using r Cons ring_hd_last(2) [OF r] by (simp_all add: ring_Cons l_def)
  have "x # xs @ [x] = (x # b) @ l # [x]" using xs(1) by simp
  with r have "chain N P ((x # b) @ l # [x])" by (metis ring_Cons)
  then have cl: "chain N P ((x # b) @ [l])" "chain N P (l # [x])" using chain_append [of N P "x # b" l "[x]"] by blast+
  from cl(2) have "N l = x" by simp
  have "x # xs = (x # b) @ [l]" using xs(1) by simp
  with cl(1) have "chain N P (x # xs)" by metis
  then have "chain N P xs" by (cases xs) simp_all
  have "l \<notin> set b" "x \<notin> set xs" "l \<noteq> x" using d xs(1) by auto
  moreover have "h \<notin> set t" "h \<noteq> x" using d Cons by auto
  ultimately have dl: "l \<notin> set b" "x \<notin> set xs" "h \<notin> set t" "l \<noteq> x" "h \<noteq> x" by blast+
  have bt: "butlast xs = b" "tl xs = t" "set xs = insert l (set b)" "set xs = insert h (set t)"
    by (simp only: b_def, simp add: Cons, simp add: xs(1), simp add: Cons)
  have "chain ?N ?P xs = chain N P xs"
  proof (rule chain_cong)
    show "\<forall>y \<in> set (butlast xs). ?N y = N y" using dl bt ends(3) by auto
    show "\<forall>y \<in> set (tl xs). ?P y = P y" using dl bt ends(1) by auto
  qed
  then have "chain ?N ?P (b @ [l])" using \<open>chain N P xs\<close> xs by simp
  moreover have "chain ?N ?P [l, h]" using ends dl by simp
  ultimately have "chain ?N ?P (b @ l # [h])" by (subst chain_append) simp
  then show ?thesis using xs Cons by (simp add: ring_def)
qed simp

lemma ring_insert:
  assumes r: "ring N P (a # xs)" and d: "distinct (a # xs)" "b \<notin> set (a # xs)"
  shows "ring (N(b := N a, a := b)) (P(b := a, N a := b)) (a # b # xs)"
proof -
  let ?N = "N(b := N a, a := b)" and ?P = "P(b := a, N a := b)" and ?ys = "xs @ [a]"
  have h: "N a = hd ?ys" "chain N P ?ys" using r by (simp_all add: ring_Cons chain_Cons)
  have "chain ?N ?P ?ys = chain N P ?ys"
    using d h(1) by (intro chain_cong) (auto simp: butlast_append hd_append split: if_splits list.splits; (cases xs; auto)?)+
  moreover have "hd ?ys \<noteq> b" using d by (cases xs) auto
  ultimately have "chain ?N ?P (a # b # ?ys)"
    using h d by (simp add: chain_Cons)
  then show ?thesis by (simp add: ring_Cons)
qed

lemma ring_splice:
  assumes r: "ring N P (r # rs)" and c: "ring N P (c # cs)" and d: "distinct (r # rs @ c # cs)"
  shows "ring (N(r := N c, c := N r)) (P(N c := r, N r := c)) (r # cs @ c # rs)"
proof -
  let ?N = "N(r := N c, c := N r)" and ?P = "P(N c := r, N r := c)"
  have h: "N r = hd (rs @ [r])" "N c = hd (cs @ [c])" "chain N P (rs @ [r])" "chain N P (cs @ [c])"
    using r c by (simp_all add: ring_Cons chain_Cons)
  have ne: "N r \<noteq> N c" using h(1,2) d by (cases rs; cases cs) auto
  have 1: "chain ?N ?P (cs @ [c]) = chain N P (cs @ [c])"
  proof (rule chain_cong)
    show "\<forall>x \<in> set (tl (cs @ [c])). ?P x = P x" using d h(1,2) by (cases rs; cases cs) auto
  qed (use d in auto)
  have 2: "chain ?N ?P (rs @ [r]) = chain N P (rs @ [r])"
  proof (rule chain_cong)
    show "\<forall>x \<in> set (tl (rs @ [r])). ?P x = P x" using d h(1,2) by (cases rs; cases cs) auto
  qed (use d in auto)
  have "chain ?N ?P (r # (cs @ [c]))" using 1 h ne d by (simp add: chain_Cons)
  moreover have "chain ?N ?P (c # (rs @ [r]))" using 2 h ne d by (auto simp: chain_Cons)
  ultimately have "chain ?N ?P ((r # cs) @ c # (rs @ [r]))" by (subst chain_append) simp
  then show ?thesis by (simp add: ring_Cons)
qed

section \<open>Forests\<close>

text \<open>
  The ring of the roots and the rings of children, as lists: \<open>kids x\<close> starts with the first child
  of \<open>x\<close>. Three sets allow for what holds in the middle of an operation: the roots \<open>U\<close> may still have
  a parent recorded, the nodes of \<open>D\<close> are in no ring, and the nodes of \<open>E\<close> may have a key below
  that of their parent.
\<close>

inductive_set reach :: "'a set \<Rightarrow> ('a \<Rightarrow> 'a list) \<Rightarrow> 'a set" for R kids where
  reach_root: "x \<in> R \<Longrightarrow> x \<in> reach R kids"
| reach_kid: "x \<in> reach R kids \<Longrightarrow> c \<in> set (kids x) \<Longrightarrow> c \<in> reach R kids"

lemma reach_sub:
  assumes "R \<subseteq> reach R' kids'" "\<And>x c. x \<in> reach R' kids' \<Longrightarrow> c \<in> set (kids x) \<Longrightarrow> c \<in> reach R' kids'"
  shows "reach R kids \<subseteq> reach R' kids'"
proof
  fix x assume "x \<in> reach R kids"
  then show "x \<in> reach R' kids'" by induction (use assms in blast)+
qed

definition node_ok :: "u32 set \<Rightarrow> u32 set \<Rightarrow> fheap \<Rightarrow> u32 set \<Rightarrow> u32 list \<Rightarrow> (u32 \<Rightarrow> u32 list) \<Rightarrow> u32 \<Rightarrow> bool" where
  "node_ok E D f S roots kids x \<longleftrightarrow> in_nodes f x \<and> ring (nx f) (pv f) (kids x) \<and> distinct (kids x)
     \<and> fc f x = (if kids x = [] then no_node else hd (kids x)) \<and> rk f x = of_nat (length (kids x))
     \<and> (\<forall>c \<in> set (kids x). c \<in> S - set roots - D \<and> pa f c = x \<and> (c \<notin> E \<longrightarrow> ky f x \<le> ky f c))"

definition forest ::
  "u32 set \<Rightarrow> u32 set \<Rightarrow> u32 set \<Rightarrow> fheap \<Rightarrow> u32 set \<Rightarrow> u32 list \<Rightarrow> (u32 \<Rightarrow> u32 list) \<Rightarrow> bool" where
  "forest E U D f S roots kids \<longleftrightarrow> (\<forall>x \<in> S. node_ok E D f S roots kids x)
     \<and> distinct roots \<and> ring (nx f) (pv f) roots \<and> set roots \<subseteq> S \<and> D \<subseteq> S - set roots
     \<and> (\<forall>x \<in> set roots - U \<union> D. pa f x = no_node)
     \<and> S \<subseteq> reach (set roots \<union> D) kids"

lemma forest_node:
  assumes "forest E U D f S roots kids" "x \<in> S"
  shows "in_nodes f x" "ring (nx f) (pv f) (kids x)" "distinct (kids x)" "fc f x = (if kids x = [] then no_node else hd (kids x))"
    "rk f x = of_nat (length (kids x))" "\<And>c. c \<in> set (kids x) \<Longrightarrow> c \<in> S" "\<And>c. c \<in> set (kids x) \<Longrightarrow> c \<notin> set roots"
    "\<And>c. c \<in> set (kids x) \<Longrightarrow> c \<notin> D" "\<And>c. c \<in> set (kids x) \<Longrightarrow> pa f c = x" "x \<noteq> no_node"
  using assms unfolding forest_def node_ok_def in_nodes_def by blast+

lemma forest_roots:
  assumes "forest E U D f S roots kids"
  shows "distinct roots" "ring (nx f) (pv f) roots" "set roots \<subseteq> S" "D \<subseteq> S - set roots"
    "\<And>x. x \<in> set roots \<Longrightarrow> x \<notin> U \<Longrightarrow> pa f x = no_node" "\<And>x. x \<in> D \<Longrightarrow> pa f x = no_node" "S \<subseteq> reach (set roots \<union> D) kids"
  using assms unfolding forest_def by blast+

lemma forest_rotate: "forest E U D f S (xs @ ys) kids \<longleftrightarrow> forest E U D f S (ys @ xs) kids"
proof -
  have n: "node_ok E D f S (xs @ ys) kids = node_ok E D f S (ys @ xs) kids"
    by (auto simp: node_ok_def fun_eq_iff)
  have s: "set (xs @ ys) = set (ys @ xs)" "distinct (xs @ ys) = distinct (ys @ xs)" by auto
  show ?thesis unfolding forest_def n s ring_rotate [of "nx f" "pv f" xs ys] by (rule refl)
qed

text \<open>Every node but the roots and the nodes on their own is a child of its parent.\<close>

lemma forest_parent:
  assumes f: "forest E U D f S roots kids" and x: "x \<in> S"
  shows "x \<in> set roots \<or> x \<in> D \<or> pa f x \<in> S \<and> x \<in> set (kids (pa f x))"
proof -
  have "x \<in> reach (set roots \<union> D) kids" using forest_roots(7) [OF f] x by blast
  then have "x \<in> S \<and> (x \<in> set roots \<or> x \<in> D \<or> pa f x \<in> S \<and> x \<in> set (kids (pa f x)))"
  proof induction
    case (reach_root x)
    then show ?case using forest_roots(3,4) [OF f] by blast
  next
    case (reach_kid x c)
    then show ?case using forest_node(6,9) [OF f] by metis
  qed
  then show ?thesis by blast
qed

lemma kids_disjoint:
  assumes "forest E U D f S roots kids" "x \<in> S" "y \<in> S" "c \<in> set (kids x)" "c \<in> set (kids y)"
  shows "x = y"
  using forest_node(9) [OF assms(1)] assms(2-5) by metis

text \<open>Taking a root out of the ring.\<close>

lemma detach_root:
  assumes f: "forest E U {} f S (as @ x # bs) kids" and x: "x \<notin> U"
  obtains r f' where "fheap_node_remove_internal x dead f = Some (r, f')" "like f f'" "ky f' = ky f"
    "forest E U {x} f' S (as @ bs) kids" "r = (if as @ bs = [] then no_node else hd (bs @ as))" "pa f' x = no_node"
    "\<And>y. y \<noteq> x \<Longrightarrow> pa f' y = pa f y" "nx f' x = x" "pv f' x = x"
proof -
  have f': "forest E U {} f S (x # bs @ as) kids" using f forest_rotate [of E U "{}" f S as "x # bs"] by simp
  note n = forest_node [OF f'] and r = forest_roots [OF f']
  have x: "x \<in> S" "x \<in> set (x # bs @ as)" "pa f x = no_node" using r(3,5) x by auto
  have c: "nx f x \<in> set (x # bs @ as)" "pv f x \<in> set (x # bs @ as)" using ring_closed [OF r(2) x(2)] by blast+
  then have i: "in_nodes f x" "in_nodes f (nx f x)" "in_nodes f (pv f x)" using n(1) r(3) x(1) by blast+
  have pl: "pv f x = last (x # bs @ as)" "nx f x = hd (bs @ as @ [x])"
    using ring_hd_last(2) [OF r(2)] r(2) by (simp_all add: ring_Cons chain_Cons)
  then have single: "pv f x = x \<longleftrightarrow> as @ bs = []" using r(1) by (cases "bs @ as" rule: rev_cases) auto
  obtain g where g: "fheap_node_remove_internal x dead f = Some (if pv f x = x then no_node else nx f x, g)" "like f g"
      "nx g = (nx f)(pv f x := nx f x, x := x)" "pv g = (pv f)(nx f x := pv f x, x := x)"
      "pa g = (pa f)(x := no_node)" "ky g = ky f" "fc g = fc f" "rk g = rk f"
    by (rule remove_fields [where invalidate = dead, OF i(1-3)]) (use x n(10) in auto)
  have ring: "ring (nx g) (pv g) (bs @ as)" unfolding g(3,4) by (rule ring_remove) (use r in auto)
  have "node_ok E {x} g S (as @ bs) kids y" if y: "y \<in> S" for y
  proof -
    have "\<forall>c \<in> set (kids y). c \<notin> set (x # bs @ as)" using n(7) y by blast
    then have "\<forall>c \<in> set (kids y). nx g c = nx f c \<and> pv g c = pv f c \<and> pa g c = pa f c \<and> c \<noteq> x"
      using c by (auto simp: g(3-5))
    then show ?thesis
      using f' y ring_cong [of "kids y" "nx g" "nx f" "pv g" "pv f"] g(2,6,7,8) unfolding forest_def node_ok_def
      by (auto simp: fun_eq_iff)
  qed
  moreover have "reach (set (x # bs @ as) \<union> {}) kids = reach (set (as @ bs) \<union> {x}) kids"
    by (rule arg_cong [where f = "\<lambda>R. reach R kids"]) auto
  ultimately have "forest E U {x} g S (as @ bs) kids"
    unfolding forest_def using r x(1,3) ring ring_rotate [of "nx g" "pv g" as bs] by (auto simp: g(3-5))
  moreover have "(if pv f x = x then no_node else nx f x) = (if as @ bs = [] then no_node else hd (bs @ as))"
    using single pl(2) by (auto simp: hd_append)
  ultimately show ?thesis using that [of _ g] g(1-6) by simp
qed

lemma not_own_kid:
  assumes f: "forest E U D f S roots kids" and x: "x \<in> S"
  shows "x \<notin> set (kids x)"
proof -
  have "x \<in> reach (set roots \<union> D) kids" using forest_roots(7) [OF f] x by blast
  then have "x \<in> S \<and> x \<notin> set (kids x)"
  proof induction
    case (reach_root x)
    then have "x \<in> S" "x \<in> set roots \<or> x \<in> D" using forest_roots(3,4) [OF f] by blast+
    then show ?case using forest_node(7,8) [OF f] by blast
  next
    case (reach_kid x c)
    then show ?case using forest_node(6,9) [OF f] by metis
  qed
  then show ?thesis by blast
qed

text \<open>Taking a child out of the ring of its siblings.\<close>

lemma detach_child:
  assumes f: "forest E U {} f S roots kids" and p: "p \<in> S" "kids p = as @ x # bs"
  obtains r f' where "fheap_node_remove_internal x dead f = Some (r, f')" "like f f'" "ky f' = ky f"
    "forest (E - {x}) U {x} f' S roots (kids(p := bs @ as))" "pa f' x = no_node" "\<And>y. y \<noteq> x \<Longrightarrow> pa f' y = pa f y"
    "nx f' x = x" "pv f' x = x"
proof -
  note n = forest_node [OF f] and r = forest_roots [OF f]
  have rp: "ring (nx f) (pv f) (x # bs @ as)" using n(2) [OF p(1)] p(2) ring_rotate [of "nx f" "pv f" as "x # bs"] by simp
  have d: "distinct (x # bs @ as)" using n(3) [OF p(1)] p(2) by auto
  have x: "x \<in> set (kids p)" "x \<in> S" "pa f x = p" "x \<notin> set roots" using n(6,7,9) [OF p(1)] p(2) by simp_all
  then have px: "p \<noteq> x" using not_own_kid [OF f] by metis
  have c: "nx f x \<in> set (kids p)" "pv f x \<in> set (kids p)" using ring_closed [OF rp, of x] p(2) by auto
  then have i: "in_nodes f x" "in_nodes f (nx f x)" "in_nodes f (pv f x)" "in_nodes f p"
    using n(1,6) p(1) x(2) by blast+
  have pl: "pv f x = last (x # bs @ as)" "nx f x = hd (bs @ as @ [x])"
    using ring_hd_last(2) [OF rp] rp by (simp_all add: ring_Cons chain_Cons)
  then have single: "pv f x = x \<longleftrightarrow> bs @ as = []" using d by (cases "bs @ as" rule: rev_cases) auto
  have pn: "p \<noteq> no_node" using i(4) by (simp add: in_nodes_def)
  have pa_p: "pa f x = no_node \<or> in_nodes f (pa f x)" using x(3) i(4) by simp
  have "pa f x \<noteq> x" using x(3) px by simp
  from remove_fields [where invalidate = dead, OF i(1-3) pa_p this]
  obtain g where g: "fheap_node_remove_internal x dead f = Some (if pv f x = x then no_node else nx f x, g)" "like f g"
      "nx g = (nx f)(pv f x := nx f x, x := x)" "pv g = (pv f)(nx f x := pv f x, x := x)"
      "pa g = (pa f)(x := no_node)" "ky g = ky f"
      "fc g = (fc f)(p := if pv f x = x then no_node else nx f x)" "rk g = (rk f)(p := rk f p - 1)"
    using x(3) pn by metis
  let ?kids = "kids(p := bs @ as)"
  have ring: "ring (nx g) (pv g) (bs @ as)" unfolding g(3,4) by (rule ring_remove) (use rp d in auto)
  have "node_ok (E - {x}) {x} g S roots ?kids y" if y: "y \<in> S" for y
  proof (cases "y = p")
    case True
    have "fc g p = (if bs @ as = [] then no_node else hd (bs @ as))" using single pl(2) by (auto simp: g(7) hd_append)
    moreover have "rk g p = of_nat (length (bs @ as))" using n(5) [OF p(1)] p(2) by (simp add: g(8))
    moreover have "\<forall>c \<in> set (bs @ as). c \<in> S - set roots - {x} \<and> pa g c = p \<and> (c \<notin> E - {x} \<longrightarrow> ky g p \<le> ky g c)"
      using f p d unfolding forest_def node_ok_def by (auto simp: g(5,6))
    ultimately show ?thesis using True ring d i(4) g(2) by (auto simp: node_ok_def)
  next
    case False
    then have out: "\<forall>c \<in> set (kids y). c \<notin> set (kids p)" using kids_disjoint [OF f] y p(1) by metis
    then have "\<forall>c \<in> set (kids y). nx g c = nx f c \<and> pv g c = pv f c \<and> pa g c = pa f c \<and> c \<noteq> x"
      using c x(1) by (auto simp: g(3-5))
    then show ?thesis
      using False f y ring_cong [of "kids y" "nx g" "nx f" "pv g" "pv f"] g(2) unfolding forest_def node_ok_def
      by (auto simp: g(6-8))
  qed
  moreover have "ring (nx g) (pv g) roots"
  proof -
    have "\<forall>y \<in> set roots. nx g y = nx f y \<and> pv g y = pv f y"
      using c x n(7) [OF p(1)] by (auto simp: g(3,4))
    then show ?thesis using r(2) ring_cong [of roots "nx g" "nx f" "pv g" "pv f"] by simp
  qed
  moreover have "reach (set roots \<union> {}) kids \<subseteq> reach (set roots \<union> {x}) ?kids"
  proof (rule reach_sub)
    fix y z assume "y \<in> reach (set roots \<union> {x}) ?kids" "z \<in> set (kids y)"
    then show "z \<in> reach (set roots \<union> {x}) ?kids"
      using p(2) reach.reach_kid [of y "set roots \<union> {x}" ?kids z] reach.reach_root [of x "set roots \<union> {x}" ?kids]
      by (cases "y = p") auto
  qed (auto intro: reach.reach_root)
  ultimately have "forest (E - {x}) U {x} g S roots ?kids"
    unfolding forest_def using r x by (auto simp: g(3-5))
  then show ?thesis using that [of _ g] g(1-6) by simp
qed

text \<open>Putting a node into the ring of the roots.\<close>

lemma attach_root:
  assumes f: "forest E U {b} f S (as @ a # cs) kids" and a: "a \<notin> U"
  obtains f' where "fheap_node_add_sibling a b f = Some f'" "like f f'" "ky f' = ky f" "pa f' = pa f"
    "forest E U {} f' S (as @ a # b # cs) kids"
proof -
  have f': "forest E U {b} f S (a # cs @ as) kids" using f forest_rotate [of E U "{b}" f S as "a # cs"] by simp
  note n = forest_node [OF f'] and r = forest_roots [OF f']
  have ab: "a \<in> S" "b \<in> S" "a \<noteq> b" "pa f a = no_node" "pa f b = no_node" "b \<notin> set (a # cs @ as)" using r(3,4,5,6) a by auto
  have c: "nx f a \<in> set (a # cs @ as)" using ring_closed [OF r(2)] by simp
  then have i: "in_nodes f a" "in_nodes f b" "in_nodes f (nx f a)" "nx f a \<noteq> b" "no_node \<noteq> a" "no_node \<noteq> b"
    using n(1,10) r(3) ab by (blast, blast, blast, metis, metis, metis)
  have "pa f a = no_node \<or> in_nodes f (pa f a)" "pa f a \<noteq> a" "pa f a \<noteq> b" using ab(4) i(5,6) by auto
  from add_sibling_fields [OF i(1-3) this(1) ab(3) this(2,3) i(4)]
  obtain g where g: "fheap_node_add_sibling a b f = Some g" "like f g"
    "nx g = (nx f)(b := nx f a, a := b)" "pv g = (pv f)(b := a, nx f a := b)"
    "pa g = pa f" "fc g = fc f" "ky g = ky f" "rk g = rk f"
    using ab(4,5) by (metis fun_upd_triv)
  have ring: "ring (nx g) (pv g) (a # b # cs @ as)" unfolding g(3,4) by (rule ring_insert) (use r ab(6) in auto)
  have "node_ok E {} g S (a # b # cs @ as) kids y" if y: "y \<in> S" for y
  proof -
    have "\<forall>z \<in> set (kids y). z \<notin> set (a # cs @ as) \<and> z \<noteq> b" using n(7,8) y by blast
    then have "\<forall>z \<in> set (kids y). nx g z = nx f z \<and> pv g z = pv f z"
      using c by (auto simp: g(3,4))
    then show ?thesis
      using f' y ring_cong [of "kids y" "nx g" "nx f" "pv g" "pv f"] g(2) unfolding forest_def node_ok_def
      by (auto simp: g(5-8))
  qed
  moreover have "reach (set (a # cs @ as) \<union> {b}) kids = reach (set (a # b # cs @ as) \<union> {}) kids"
    by (rule arg_cong [where f = "\<lambda>R. reach R kids"]) auto
  ultimately have "forest E U {} g S (a # b # cs @ as) kids"
    unfolding forest_def using r ab ring by (auto simp: g(5))
  then have "forest E U {} g S (as @ a # b # cs) kids" using forest_rotate [of E U "{}" g S as "a # b # cs"] by simp
  then show ?thesis using that [of g] g(1,2,5,7) by simp
qed

text \<open>Making a node the child of a root.\<close>

lemma attach_child_fields:
  assumes f: "forest E U {b} f S roots kids" and a: "a \<in> set roots"
  obtains f' where
    "(if fc f a = no_node
      then modify_node b (\<lambda>hi. hi\<lparr>parent := a\<rparr>) f \<bind> modify_node a (\<lambda>lo. lo\<lparr>first_child := b, rank := 1\<rparr>)
      else fheap_node_add_sibling (fc f a) b f) = Some f'" "like f f'" "ky f' = ky f"
    "nx f' = (if kids a = [] then nx f else (nx f)(b := nx f (fc f a), fc f a := b))"
    "pv f' = (if kids a = [] then pv f else (pv f)(b := fc f a, nx f (fc f a) := b))"
    "pa f' = (pa f)(b := a)" "fc f' = (if kids a = [] then (fc f)(a := b) else fc f)" "rk f' = (rk f)(a := rk f a + 1)"
proof -
  note n = forest_node [OF f] and r = forest_roots [OF f]
  have ab: "a \<in> S" "b \<in> S" "a \<noteq> b" using r(3,4) a by auto
  then have i: "in_nodes f a" "in_nodes f b" using n(1) by blast+
  show ?thesis
  proof (cases "kids a = []")
    case True
    then have fa: "fc f a = no_node" "rk f a = 0" using n(4,5) [OF ab(1)] by simp_all
    obtain g where g: "modify_node b (\<lambda>hi. hi\<lparr>parent := a\<rparr>) f = Some g" "like f g" "nd g = (nd f)(b := (nd f b)\<lparr>parent := a\<rparr>)"
      by (rule modify_node_in [OF i(2)])
    have "in_nodes g a" using i(1) g(2) by simp
    then obtain h where h: "modify_node a (\<lambda>lo. lo\<lparr>first_child := b, rank := 1\<rparr>) g = Some h" "like g h"
      "nd h = (nd g)(a := (nd g a)\<lparr>first_child := b, rank := 1\<rparr>)"
      by (rule modify_node_in)
    show ?thesis
    proof (rule that)
      show "(if fc f a = no_node
          then modify_node b (\<lambda>hi. hi\<lparr>parent := a\<rparr>) f \<bind> modify_node a (\<lambda>lo. lo\<lparr>first_child := b, rank := 1\<rparr>)
          else fheap_node_add_sibling (fc f a) b f) = Some h"
        by (simp add: fa g(1) h(1))
      show "like f h" using g(2) h(2) by (rule like_trans)
    qed (use ab(3) True fa in \<open>auto simp: fun_eq_iff fields g(3) h(3)\<close>)
  next
    case False
    then obtain c cs where k: "kids a = c # cs" by (cases "kids a") auto
    then have fa: "fc f a = c" using n(4) [OF ab(1)] by simp
    have ring: "ring (nx f) (pv f) (c # cs)" using n(2) [OF ab(1)] k by simp
    have c: "c \<in> S" "pa f c = a" "c \<noteq> a" "c \<noteq> b" using n(6-9) [OF ab(1), of c] k not_own_kid [OF f ab(1)] by auto
    have "nx f c \<in> set (kids a)" using ring_closed [OF ring, of c] k by simp
    then have nc: "in_nodes f (nx f c)" "nx f c \<noteq> b" using n(1,6,8) ab(1) by blast+
    have ic: "in_nodes f c" "c \<noteq> no_node" using n(1,10) c(1) by blast+
    have "pa f c = no_node \<or> in_nodes f (pa f c)" using c(2) i(1) by simp
    moreover have "pa f c \<noteq> c" "pa f c \<noteq> b" using c(2,3) ab(3) by auto
    ultimately obtain g where g: "fheap_node_add_sibling c b f = Some g" "like f g"
      "nx g = (nx f)(b := nx f c, c := b)" "pv g = (pv f)(b := c, nx f c := b)"
      "pa g = (pa f)(b := pa f c)" "fc g = fc f" "ky g = ky f"
      "rk g = (if pa f c = no_node then rk f else (rk f)(pa f c := rk f (pa f c) + 1))"
      using add_sibling_fields [OF ic(1) i(2) nc(1) _ c(4) _ _ nc(2)] by metis
    show ?thesis
      by (rule that [of g]) (use g k fa ic(2) c(2) n(10) [OF ab(1)] in simp_all)
  qed
qed

lemma attach_child:
  assumes f: "forest E U {b} f S roots kids" and b: "nx f b = b" "pv f b = b" and a: "a \<in> set roots" "ky f a \<le> ky f b"
  obtains f' kids' where
    "(if fc f a = no_node
      then modify_node b (\<lambda>hi. hi\<lparr>parent := a\<rparr>) f \<bind> modify_node a (\<lambda>lo. lo\<lparr>first_child := b, rank := 1\<rparr>)
      else fheap_node_add_sibling (fc f a) b f) = Some f'" "like f f'" "ky f' = ky f"
    "\<And>y. y \<noteq> b \<Longrightarrow> pa f' y = pa f y" "forest E U {} f' S roots kids'"
proof -
  note n = forest_node [OF f] and r = forest_roots [OF f]
  have ab: "a \<in> S" "b \<in> S" "a \<noteq> b" "b \<notin> set roots" using r(3,4) a by auto
  obtain g where g: "(if fc f a = no_node
      then modify_node b (\<lambda>hi. hi\<lparr>parent := a\<rparr>) f \<bind> modify_node a (\<lambda>lo. lo\<lparr>first_child := b, rank := 1\<rparr>)
      else fheap_node_add_sibling (fc f a) b f) = Some g" "like f g" "ky g = ky f"
    "nx g = (if kids a = [] then nx f else (nx f)(b := nx f (fc f a), fc f a := b))"
    "pv g = (if kids a = [] then pv f else (pv f)(b := fc f a, nx f (fc f a) := b))"
    "pa g = (pa f)(b := a)" "fc g = (if kids a = [] then (fc f)(a := b) else fc f)" "rk g = (rk f)(a := rk f a + 1)"
    by (rule attach_child_fields [OF f a(1)])
  define ks where "ks = (case kids a of [] \<Rightarrow> [b] | c # cs \<Rightarrow> c # b # cs)"
  let ?kids = "kids(a := ks)"
  have ks: "set ks = insert b (set (kids a))" "length ks = length (kids a) + 1" "ks \<noteq> []"
    by (auto simp: ks_def split: list.split)
  have bk: "b \<notin> set (kids y)" if "y \<in> S" for y using n(8) [OF that] by blast
  have touched: "nx g z = nx f z \<and> pv g z = pv f z" if "z \<noteq> b" "z \<notin> set (kids a)" for z
  proof (cases "kids a")
    case (Cons c cs)
    then have "fc f a = c" using n(4) [OF ab(1)] by simp
    moreover have "nx f c \<in> set (kids a)" using ring_closed [OF n(2) [OF ab(1)], of c] Cons by simp
    ultimately show ?thesis using that Cons by (auto simp: g(4,5))
  qed (simp add: g(4,5))
  have ring: "ring (nx g) (pv g) ks" "distinct ks" "hd ks = fc g a"
  proof -
    show "ring (nx g) (pv g) ks"
    proof (cases "kids a")
      case Nil
      then show ?thesis using b by (simp add: ks_def ring_single g(4,5))
    next
      case (Cons c cs)
      then have "fc f a = c" using n(4) [OF ab(1)] by simp
      moreover have "ring ((nx f)(b := nx f c, c := b)) ((pv f)(b := c, nx f c := b)) (c # b # cs)"
        by (rule ring_insert) (use n(2,3) [OF ab(1)] bk [OF ab(1)] Cons in auto)
      ultimately show ?thesis using Cons by (simp add: ks_def g(4,5))
    qed
    show "distinct ks" using n(3) [OF ab(1)] bk [OF ab(1)] by (auto simp: ks_def split: list.split)
    show "hd ks = fc g a" using n(4) [OF ab(1)] by (auto simp: ks_def g(7) split: list.split)
  qed
  have "node_ok E {} g S roots ?kids y" if y: "y \<in> S" for y
  proof (cases "y = a")
    case True
    have "rk g a = of_nat (length ks)" using n(5) [OF ab(1)] by (simp add: g(8) ks(2))
    moreover have "\<forall>c \<in> set ks. c \<in> S - set roots - {} \<and> pa g c = a \<and> (c \<notin> E \<longrightarrow> ky g a \<le> ky g c)"
      using f ab a(2) bk [OF ab(1)] unfolding forest_def node_ok_def by (auto simp: g(3,6) ks(1))
    ultimately show ?thesis using True ring ks(3) n(1) [OF ab(1)] g(2) by (simp add: node_ok_def)
  next
    case False
    then have "\<forall>z \<in> set (kids y). z \<noteq> b \<and> z \<notin> set (kids a)" using bk y kids_disjoint [OF f] ab(1) by metis
    then have "\<forall>z \<in> set (kids y). nx g z = nx f z \<and> pv g z = pv f z \<and> z \<noteq> b" using touched by blast
    then show ?thesis
      using False f y ring_cong [of "kids y" "nx g" "nx f" "pv g" "pv f"] g(2) unfolding forest_def node_ok_def
      by (auto simp: g(3,6,7,8))
  qed
  moreover have "ring (nx g) (pv g) roots"
  proof -
    have "\<forall>y \<in> set roots. nx g y = nx f y \<and> pv g y = pv f y" using touched ab(4) n(7) [OF ab(1)] by metis
    then show ?thesis using r(2) ring_cong [of roots "nx g" "nx f" "pv g" "pv f"] by simp
  qed
  moreover have "reach (set roots \<union> {b}) kids \<subseteq> reach (set roots \<union> {}) ?kids"
  proof (rule reach_sub)
    have "a \<in> reach (set roots \<union> {}) ?kids" using a(1) by (auto intro: reach.reach_root)
    then have "b \<in> reach (set roots \<union> {}) ?kids" by (rule reach.reach_kid) (simp add: ks(1))
    then show "set roots \<union> {b} \<subseteq> reach (set roots \<union> {}) ?kids" by (auto intro: reach.reach_root)
  next
    fix y z assume "y \<in> reach (set roots \<union> {}) ?kids" "z \<in> set (kids y)"
    then show "z \<in> reach (set roots \<union> {}) ?kids"
      using reach.reach_kid [of y "set roots \<union> {}" ?kids z] by (cases "y = a") (auto simp: ks(1))
  qed
  ultimately have "forest E U {} g S roots ?kids"
    unfolding forest_def using r ab by (auto simp: g(6))
  then show ?thesis using that [of g ?kids] g(1,2,3,6) by simp
qed

text \<open>A forest depends on the fields of its nodes only, the marks left out.\<close>

lemma forest_cong:
  assumes "\<And>x. x \<in> S \<Longrightarrow> in_nodes g x = in_nodes f x \<and> nx g x = nx f x \<and> pv g x = pv f x \<and> pa g x = pa f x
    \<and> fc g x = fc f x \<and> rk g x = rk f x \<and> ky g x = ky f x"
  shows "forest E U D f S roots kids \<Longrightarrow> forest E U D g S roots kids"
proof -
  assume f: "forest E U D f S roots kids"
  note n = forest_node [OF f] and r = forest_roots [OF f]
  have "node_ok E D g S roots kids x" if "x \<in> S" for x
  proof -
    have "ring (nx g) (pv g) (kids x) = ring (nx f) (pv f) (kids x)"
      using assms n(6) [OF that] by (intro ring_cong) blast
    moreover have "\<forall>c \<in> set (kids x). pa g c = pa f c \<and> ky g c = ky f c" using assms n(6) [OF that] by blast
    moreover have "node_ok E D f S roots kids x" using f that by (simp add: forest_def)
    ultimately show ?thesis using assms [OF that] by (simp add: node_ok_def)
  qed
  moreover have "ring (nx g) (pv g) roots"
  proof -
    have "\<forall>x \<in> set roots. nx g x = nx f x \<and> pv g x = pv f x" using r(3) assms by blast
    then have "ring (nx g) (pv g) roots = ring (nx f) (pv f) roots" by (rule ring_cong)
    then show ?thesis using r(2) by simp
  qed
  moreover have "pa g x = no_node" if "x \<in> set roots - U \<union> D" for x
  proof -
    have "x \<in> S" "pa f x = no_node" using that r(3-6) by blast+
    then show ?thesis using assms by simp
  qed
  ultimately show ?thesis unfolding forest_def using r by blast
qed

lemma forest_like:
  assumes "forest E U D f S roots kids" "like f g" "nx g = nx f" "pv g = pv f" "pa g = pa f" "fc g = fc f" "rk g = rk f" "ky g = ky f"
  shows "forest E U D g S roots kids"
  by (rule forest_cong [OF _ assms(1)]) (use assms(2-) in simp)

lemma forest_rank_list: "forest E U D (f\<lparr>root_list_by_rank := rl\<rparr>) S roots kids \<longleftrightarrow> forest E U D f S roots kids"
proof -
  have "in_nodes (f\<lparr>root_list_by_rank := rl\<rparr>) = in_nodes f" "nd (f\<lparr>root_list_by_rank := rl\<rparr>) = nd f"
    by (simp_all add: fun_eq_iff in_nodes_def nd_def)
  then show ?thesis by (intro iffI; elim forest_cong [rotated]) (simp_all add: fields)
qed

text \<open>The roots entered by rank, which are all the roots that have been looked at.\<close>

definition entries :: "u32 list \<Rightarrow> u32 list" where
  "entries rl = filter (\<lambda>x. x \<noteq> no_node) rl"

lemma entries_validate: "entries (validate_init_empty rl k no_node) = entries rl"
  by (simp add: entries_def validate_init_empty_def)

lemma entries_append: "entries (xs @ ys) = entries xs @ entries ys"
  by (simp add: entries_def)

lemma entries_Cons: "entries (x # xs) = (if x = no_node then [] else [x]) @ entries xs"
  by (simp add: entries_def)

lemma entries_split:
  assumes "k < length rl"
  shows "entries rl = entries (take k rl) @ (if rl ! k = no_node then [] else [rl ! k]) @ entries (drop (Suc k) rl)"
    "entries (rl[k := x]) = entries (take k rl) @ (if x = no_node then [] else [x]) @ entries (drop (Suc k) rl)"
proof -
  show "entries rl = entries (take k rl) @ (if rl ! k = no_node then [] else [rl ! k]) @ entries (drop (Suc k) rl)"
    by (subst id_take_nth_drop [OF assms]) (simp only: entries_append entries_Cons)
  show "entries (rl[k := x]) = entries (take k rl) @ (if x = no_node then [] else [x]) @ entries (drop (Suc k) rl)"
    by (simp only: upd_conv_take_nth_drop [OF assms] entries_append entries_Cons)
qed

lemma length_validate_ranks: "k < length (validate_init_empty rl k x)"
  by (simp add: validate_init_empty_def)

text \<open>One turn of the linking loop that finds another root of the same rank.\<close>

lemma link_two:
  assumes f: "forest {} U {} f S (vs @ rest) kids" and U: "U \<subseteq> set rest"
    and v: "lo \<in> set vs" "hi \<in> set vs" "lo \<noteq> hi" "ky f lo \<le> ky f hi"
  obtains r f1 f2 f3 vs' kids' where "fheap_node_remove hi f = Some (r, f1)" "node_at f1 lo = Some (nd f1 lo)"
    "(if first_child (nd f1 lo) = no_node
      then modify_node hi (\<lambda>hi. hi\<lparr>parent := lo\<rparr>) f1 \<bind> modify_node lo (\<lambda>lo. lo\<lparr>first_child := hi, rank := 1\<rparr>)
      else fheap_node_add_sibling (first_child (nd f1 lo)) hi f1) = Some f2"
    "modify_node hi (\<lambda>hi. hi\<lparr>is_marked := 0\<rparr>) f2 = Some f3" "like f f3" "ky f3 = ky f"
    "forest {} U {} f3 S (vs' @ rest) kids'" "set vs' = set vs - {hi}"
proof -
  obtain as bs where vs: "vs = as @ hi # bs" using v(2) by (auto simp: in_set_conv_decomp)
  have d: "distinct (vs @ rest)" using forest_roots(1) [OF f] .
  then have hiU: "hi \<notin> U" using U v(2) by auto
  have f0: "forest {} U {} f S (as @ hi # (bs @ rest)) kids" using f vs by simp
  obtain r f1 where 1: "fheap_node_remove_internal hi False f = Some (r, f1)" "like f f1" "ky f1 = ky f"
      "forest {} U {hi} f1 S (as @ bs @ rest) kids" "nx f1 hi = hi" "pv f1 hi = hi"
    by (rule detach_root [OF f0 hiU])
  have lo: "lo \<in> set (as @ bs @ rest)" using v(1,3) vs by auto
  have "ky f1 lo \<le> ky f1 hi" using v(4) 1(3) by simp
  from attach_child [OF 1(4-6) lo this]
  obtain f2 kids' where 2: "(if fc f1 lo = no_node
      then modify_node hi (\<lambda>hi. hi\<lparr>parent := lo\<rparr>) f1 \<bind> modify_node lo (\<lambda>lo. lo\<lparr>first_child := hi, rank := 1\<rparr>)
      else fheap_node_add_sibling (fc f1 lo) hi f1) = Some f2" "like f1 f2" "ky f2 = ky f1"
    "forest {} U {} f2 S (as @ bs @ rest) kids'" by blast
  have S: "lo \<in> S" "hi \<in> S" using forest_roots(3) [OF f] v by auto
  then have i: "in_nodes f1 lo" "in_nodes f2 hi" using forest_node(1) [OF 1(4)] forest_node(1) [OF 2(4)] by blast+
  obtain f3 where 3: "modify_node hi (\<lambda>hi. hi\<lparr>is_marked := 0\<rparr>) f2 = Some f3" "like f2 f3"
      "nd f3 = (nd f2)(hi := (nd f2 hi)\<lparr>is_marked := 0\<rparr>)"
    by (rule modify_node_in [OF i(2)])
  have same: "nx f3 = nx f2" "pv f3 = pv f2" "pa f3 = pa f2" "fc f3 = fc f2" "rk f3 = rk f2" "ky f3 = ky f2"
    by (simp_all add: fun_eq_iff fields 3(3))
  have "forest {} U {} f3 S ((as @ bs) @ rest) kids'" using forest_like [OF 2(4) 3(2) same] by simp
  moreover have "like f f3" using 1(2) 2(2) 3(2) by (meson like_trans)
  moreover have "set (as @ bs) = set vs - {hi}" using d vs by auto
  ultimately show ?thesis
    using that [of r f1 f2 f3 "as @ bs" kids'] 1(1,3) 2(1) [unfolded fc_def] 2(3) 3(1) same(6) node_at_in [OF i(1)]
    by (simp add: fheap_node_remove_def)
qed

lemma link_root:
  assumes "forest {} U {} f S (vs @ rest) kids" "U \<subseteq> set rest" "ni \<in> set vs"
    "distinct (entries (root_list_by_rank f))" "set (entries (root_list_by_rank f)) = set vs - {ni}"
  shows "\<exists>f' vs' kids'. fheap_link_root ni f = Some f' \<and> forest {} U {} f' S (vs' @ rest) kids' \<and> set vs' \<subseteq> set vs
    \<and> distinct (entries (root_list_by_rank f')) \<and> set (entries (root_list_by_rank f')) = set vs'
    \<and> length (nodes f') = length (nodes f) \<and> ky f' = ky f"
  using assms
proof (induction "length (entries (root_list_by_rank f))" arbitrary: f vs kids ni rule: less_induct)
  case less
  note f = less.prems(1) and ent = less.prems(4,5)
  define k where "k = unat (rk f ni)"
  define rl where "rl = validate_init_empty (root_list_by_rank f) k no_node"
  define n where "n = nd f ni"
  have kl: "k < length rl" by (simp add: rl_def length_validate_ranks)
  have e: "entries rl = entries (root_list_by_rank f)" by (simp add: rl_def entries_validate)
  have niS: "ni \<in> S" using forest_roots(3) [OF f] less.prems(3) by auto
  then have ni: "in_nodes f ni" "ni \<noteq> no_node" using forest_node(1,10) [OF f] by blast+
  have unf: "fheap_link_root ni f = (if rl ! k = no_node then Some (f\<lparr>root_list_by_rank := rl[k := ni]\<rparr>)
     else do {
       let f = f\<lparr>root_list_by_rank := rl[k := no_node]\<rparr>;
       r \<leftarrow> node_at f (rl ! k);
       let (lo_i, hi_i) = (if node_key n < node_key r then (ni, rl ! k) else (rl ! k, ni));
       (_, f) \<leftarrow> fheap_node_remove hi_i f;
       lo \<leftarrow> node_at f lo_i;
       f \<leftarrow> (if first_child lo = no_node
         then modify_node hi_i (\<lambda>hi. hi\<lparr>parent := lo_i\<rparr>) f \<bind>
              modify_node lo_i (\<lambda>lo. lo\<lparr>first_child := hi_i, rank := 1\<rparr>)
         else fheap_node_add_sibling (first_child lo) hi_i f);
       f \<leftarrow> modify_node hi_i (\<lambda>hi. hi\<lparr>is_marked := 0\<rparr>) f;
       fheap_link_root lo_i f
     })"
    by (subst fheap_link_root.simps) (simp only: node_at_in [OF ni(1)] bind.bind_lunit Let_def k_def rl_def rk_def n_def)
  show ?case
  proof (cases "rl ! k = no_node")
    case True
    have "entries (rl[k := ni]) = entries (take k rl) @ ni # entries (drop (Suc k) rl)"
      "entries rl = entries (take k rl) @ entries (drop (Suc k) rl)"
      using entries_split [OF kl] True ni(2) by simp_all
    then have "distinct (entries (rl[k := ni]))" "set (entries (rl[k := ni])) = set vs"
      using ent less.prems(3) e by auto
    then show ?thesis using True f unf by (intro exI [of _ "f\<lparr>root_list_by_rank := rl[k := ni]\<rparr>"] exI [of _ vs] exI [of _ kids])
        (simp add: forest_rank_list fun_eq_iff ky_def nd_def)
  next
    case False
    define ri where "ri = rl ! k"
    let ?f = "f\<lparr>root_list_by_rank := rl[k := no_node]\<rparr>"
    have split: "entries (rl[k := no_node]) = entries (take k rl) @ entries (drop (Suc k) rl)"
      "entries (root_list_by_rank f) = entries (take k rl) @ ri # entries (drop (Suc k) rl)"
      using entries_split [OF kl] False e by (simp_all add: ri_def)
    then have ri: "ri \<in> set vs" "ri \<noteq> ni" "set (entries (rl[k := no_node])) = set vs - {ni} - {ri}"
        "distinct (entries (rl[k := no_node]))" "length (entries (rl[k := no_node])) < length (entries (root_list_by_rank f))"
      using ent by auto
    have f1: "forest {} U {} ?f S (vs @ rest) kids" using f by (simp add: forest_rank_list)
    have "ri \<in> S" using forest_roots(3) [OF f] ri(1) by auto
    then have at: "node_at ?f ri = Some (nd ?f ri)" using forest_node(1) [OF f1] by (intro node_at_in)
    define lo where "lo = (if node_key n < node_key (nd ?f ri) then ni else ri)"
    define hi where "hi = (if node_key n < node_key (nd ?f ri) then ri else ni)"
    have pair: "(if node_key n < node_key (nd ?f ri) then (ni, ri) else (ri, ni)) = (lo, hi)"
      by (simp add: lo_def hi_def)
    have n: "node_key n = ky ?f ni" by (simp add: n_def ky_def nd_def)
    have v: "lo \<in> set vs" "hi \<in> set vs" "lo \<noteq> hi" "ky ?f lo \<le> ky ?f hi"
      using ri(1,2) less.prems(3) by (auto simp: lo_def hi_def n ky_def)
    obtain r f2 f3 f4 vs' kids' where s: "fheap_node_remove hi ?f = Some (r, f2)" "node_at f2 lo = Some (nd f2 lo)"
        "(if first_child (nd f2 lo) = no_node
          then modify_node hi (\<lambda>hi. hi\<lparr>parent := lo\<rparr>) f2 \<bind> modify_node lo (\<lambda>lo. lo\<lparr>first_child := hi, rank := 1\<rparr>)
          else fheap_node_add_sibling (first_child (nd f2 lo)) hi f2) = Some f3"
        "modify_node hi (\<lambda>hi. hi\<lparr>is_marked := 0\<rparr>) f3 = Some f4" "like ?f f4" "ky f4 = ky ?f"
        "forest {} U {} f4 S (vs' @ rest) kids'" "set vs' = set vs - {hi}"
      by (rule link_two [OF f1 less.prems(2) v])
    have step: "fheap_link_root ni f = fheap_link_root lo f4"
      unfolding unf using False
      by (simp only: Let_def ri_def [symmetric] if_False at pair bind.bind_lunit prod.case s(1-4))
    have rl4: "root_list_by_rank f4 = rl[k := no_node]" "length (nodes f4) = length (nodes f)" using s(5) by (simp_all add: like_def)
    have "lo \<in> set vs'" "set (entries (root_list_by_rank f4)) = set vs' - {lo}"
      using v ri(3) s(8) rl4 by (auto simp: lo_def hi_def)
    then obtain f' vs'' kids'' where "fheap_link_root lo f4 = Some f'" "forest {} U {} f' S (vs'' @ rest) kids''" "set vs'' \<subseteq> set vs'"
        "distinct (entries (root_list_by_rank f'))" "set (entries (root_list_by_rank f')) = set vs''"
        "length (nodes f') = length (nodes f4)" "ky f' = ky f4"
      using less.hyps [of f4 vs' kids' lo] ri(4,5) s(7) less.prems(2) rl4(1) by auto
    moreover have "ky ?f = ky f" by (simp add: fun_eq_iff ky_def nd_def)
    ultimately show ?thesis unfolding step using s(6,8) rl4(2) by auto
  qed
qed

lemma forest_clear_parent:
  assumes f: "forest E U {} f S roots kids" and r: "ri \<in> set roots"
    and g: "like f g" "nd g = (nd f)(ri := (nd f ri)\<lparr>parent := no_node\<rparr>)"
  shows "forest E (U - {ri}) {} g S roots kids" "ky g = ky f" "nx g = nx f"
proof -
  note n = forest_node [OF f] and r' = forest_roots [OF f]
  have same: "nx g = nx f" "pv g = pv f" "fc g = fc f" "rk g = rk f" "ky g = ky f" "pa g = (pa f)(ri := no_node)"
    by (simp_all add: fun_eq_iff fields g(2))
  then show "ky g = ky f" "nx g = nx f" by simp_all
  have "node_ok E {} g S roots kids x" if "x \<in> S" for x
  proof -
    have "node_ok E {} f S roots kids x" using f that by (simp add: forest_def)
    moreover have "\<forall>c \<in> set (kids x). pa g c = pa f c" using n(7) [OF that] r by (auto simp: same(6))
    ultimately show ?thesis using g(1) by (simp add: node_ok_def same(1-5))
  qed
  then show "forest E (U - {ri}) {} g S roots kids"
    unfolding forest_def using r' by (auto simp: same)
qed

text \<open>The loop over the ring of roots: those up to here are entered by rank, \<open>ri\<close> and \<open>rest\<close> are to come.\<close>

lemma link_roots_step:
  assumes f: "forest {} U {} f S (vs @ ri # rest) kids" and U: "U \<subseteq> set (ri # rest)"
    and e: "distinct (entries (root_list_by_rank f))" "set (entries (root_list_by_rank f)) = set vs"
  obtains f' vs' kids' where
    "link_roots ri ri_last f = (if ri = ri_last then Some f' else link_roots (nx f ri) ri_last f')"
    "forest {} (U - {ri}) {} f' S (vs' @ rest) kids'" "set vs' \<subseteq> set (vs @ [ri])"
    "distinct (entries (root_list_by_rank f'))" "set (entries (root_list_by_rank f')) = set vs'"
    "length (nodes f') = length (nodes f)" "ky f' = ky f"
proof -
  have "ri \<in> S" using forest_roots(3) [OF f] by simp
  then have ri: "in_nodes f ri" using forest_node(1) [OF f] by blast
  obtain g where g: "modify_node ri (\<lambda>r. r\<lparr>parent := no_node\<rparr>) f = Some g" "like f g"
      "nd g = (nd f)(ri := (nd f ri)\<lparr>parent := no_node\<rparr>)"
    by (rule modify_node_in [OF ri])
  have "ri \<in> set (vs @ ri # rest)" by simp
  note c = forest_clear_parent [OF f this g(2,3)]
  have 1: "forest {} (U - {ri}) {} g S ((vs @ [ri]) @ rest) kids" using c(1) by simp
  have rest: "U - {ri} \<subseteq> set rest" using U by auto
  have "distinct (vs @ ri # rest)" using forest_roots(1) [OF f] .
  then have e': "set (entries (root_list_by_rank g)) = set (vs @ [ri]) - {ri}" "distinct (entries (root_list_by_rank g))"
    using e g(2) by (auto simp: like_def)
  obtain h vs' kids' where h: "fheap_link_root ri g = Some h" "forest {} (U - {ri}) {} h S (vs' @ rest) kids'"
      "set vs' \<subseteq> set (vs @ [ri])" "distinct (entries (root_list_by_rank h))" "set (entries (root_list_by_rank h)) = set vs'"
      "length (nodes h) = length (nodes g)" "ky h = ky g"
    using link_root [OF 1 rest _ e'(2,1)] by auto
  have at: "node_at g ri = Some (nd g ri)" using ri g(2) by (simp add: node_at_in)
  have "link_roots ri ri_last f = (if ri = ri_last then Some h else link_roots (nx f ri) ri_last h)"
    by (subst link_roots.simps) (simp add: g(1) at h(1) Let_def flip: nx_def c(3))
  then show ?thesis using that [OF _ h(2-5)] h(6,7) g(2) c(2) by (simp add: like_def)
qed

lemma link_roots:
  assumes "forest {} U {} f S (vs @ ri # rest) kids" "U \<subseteq> set (ri # rest)" "ri_last = last (ri # rest)"
    "distinct (entries (root_list_by_rank f))" "set (entries (root_list_by_rank f)) = set vs"
  shows "\<exists>f' vs' kids'. link_roots ri ri_last f = Some f' \<and> forest {} {} {} f' S vs' kids'
    \<and> set (entries (root_list_by_rank f')) = set vs' \<and> length (nodes f') = length (nodes f) \<and> ky f' = ky f"
  using assms
proof (induction rest arbitrary: f U vs ri kids)
  case Nil
  obtain f' vs' kids' where "link_roots ri ri_last f = (if ri = ri_last then Some f' else link_roots (nx f ri) ri_last f')"
    "forest {} (U - {ri}) {} f' S (vs' @ []) kids'" "set (entries (root_list_by_rank f')) = set vs'"
    "length (nodes f') = length (nodes f)" "ky f' = ky f"
    by (rule link_roots_step [OF Nil.prems(1,2,4,5)])
  moreover have "U - {ri} = {}" using Nil.prems(2) by auto
  ultimately show ?case using Nil.prems(3) by auto
next
  case (Cons ri' rest)
  obtain f' vs' kids' where s: "link_roots ri ri_last f = (if ri = ri_last then Some f' else link_roots (nx f ri) ri_last f')"
    "forest {} (U - {ri}) {} f' S (vs' @ ri' # rest) kids'"
    "distinct (entries (root_list_by_rank f'))" "set (entries (root_list_by_rank f')) = set vs'"
    "length (nodes f') = length (nodes f)" "ky f' = ky f"
    by (rule link_roots_step [OF Cons.prems(1,2,4,5)])
  have "nx f ri = ri'" using ring_next(1) [OF forest_roots(2) [OF Cons.prems(1)]] .
  moreover have "ri \<noteq> ri_last" using Cons.prems(3) forest_roots(1) [OF Cons.prems(1)] by auto
  moreover have "U - {ri} \<subseteq> set (ri' # rest)" "ri_last = last (ri' # rest)" using Cons.prems(2,3) by auto
  note Cons.IH [OF s(2) this s(3,4)]
  ultimately show ?case using s(1,5,6) by auto
qed

text \<open>The search through the entries.\<close>

lemma find_min_root:
  assumes "\<forall>x \<in> set (entries rl). in_nodes f x"
  shows "\<exists>m. find_min_root rl d f = Some (f\<lparr>min_root := m\<rparr>)
    \<and> (if \<exists>x \<in> set (entries rl). ky f x < d then m \<in> set (entries rl) \<and> ky f m < d \<and> (\<forall>x \<in> set (entries rl). ky f m \<le> ky f x)
       else m = min_root f)"
  using assms
proof (induction rl arbitrary: d f)
  case Nil
  then show ?case by (simp add: entries_def)
next
  case (Cons ni rl)
  show ?case
  proof (cases "ni = no_node")
    case True
    then have skip: "find_min_root (ni # rl) d f = find_min_root rl d f" "entries (ni # rl) = entries rl"
      by (simp_all add: entries_Cons)
    show ?thesis using Cons.prems unfolding skip by (rule Cons.IH)
  next
    case False
    have at: "node_at f ni = Some (nd f ni)" using Cons.prems False by (simp add: entries_Cons node_at_in)
    let ?g = "f\<lparr>min_root := ni\<rparr>"
    have g: "in_nodes ?g = in_nodes f" "ky ?g = ky f" by (simp_all add: fun_eq_iff in_nodes_def ky_def nd_def)
    have ok: "\<forall>x \<in> set (entries rl). in_nodes f x" using Cons.prems by (simp add: entries_Cons)
    show ?thesis
    proof (cases "ky f ni < d")
      case True
      obtain m where m: "find_min_root rl (ky f ni) ?g = Some (?g\<lparr>min_root := m\<rparr>)"
        "if \<exists>x \<in> set (entries rl). ky f x < ky f ni then m \<in> set (entries rl) \<and> ky f m < ky f ni \<and> (\<forall>x \<in> set (entries rl). ky f m \<le> ky f x)
         else m = min_root ?g"
        using Cons.IH [of ?g "ky f ni"] ok unfolding g by blast
      have "find_min_root (ni # rl) d f = Some (f\<lparr>min_root := m\<rparr>)" using False at True m(1) by (simp add: ky_def)
      then show ?thesis using False True m(2) by (intro exI [of _ m]) (auto simp: entries_Cons not_less split: if_splits)
    next
      case nless: False
      obtain m where m: "find_min_root rl d f = Some (f\<lparr>min_root := m\<rparr>)"
        "if \<exists>x \<in> set (entries rl). ky f x < d then m \<in> set (entries rl) \<and> ky f m < d \<and> (\<forall>x \<in> set (entries rl). ky f m \<le> ky f x)
         else m = min_root f"
        using Cons.IH [OF ok] by blast
      have "find_min_root (ni # rl) d f = Some (f\<lparr>min_root := m\<rparr>)" using False at nless m(1) by (simp add: ky_def)
      then show ?thesis using False nless m(2) by (intro exI [of _ m]) (auto simp: entries_Cons not_less split: if_splits)
    qed
  qed
qed

text \<open>No node has a key below all roots.\<close>

lemma least_root:
  assumes f: "forest {} U {} f S roots kids" and x: "x \<in> S"
  shows "\<exists>r \<in> set roots. ky f r \<le> ky f x"
proof -
  have "x \<in> reach (set roots \<union> {}) kids" using forest_roots(7) [OF f] x by blast
  then have "x \<in> S \<and> (\<exists>r \<in> set roots. ky f r \<le> ky f x)"
  proof induction
    case (reach_root x)
    then show ?case using forest_roots(3) [OF f] by auto
  next
    case (reach_kid x c)
    then have "node_ok {} {} f S roots kids x" using f by (simp add: forest_def)
    with reach_kid show ?case unfolding node_ok_def by (meson DiffD1 empty_iff order_trans)
  qed
  then show ?thesis by blast
qed

end
