(* ===== verification/Clib_Fheap_Queue.thy ===== *)
theory Clib_Fheap_Queue
  imports Clib_Fheap "HOL-Library.Multiset"
begin

text \<open>
  The operations of \<open>src/clib/fheap.c\<close> as those of a queue of keyed indices: what each of them does to
  the map from the indices of the nodes to their keys, and the order in which the nodes leave.
\<close>

section \<open>Taking out the least root\<close>

definition promoted :: "u32 list \<Rightarrow> u32 list \<Rightarrow> u32 list" where
  "promoted ks rs = (case ks of [] \<Rightarrow> rs | c # cs \<Rightarrow> cs @ c # rs)"

lemma set_promoted: "set (promoted ks rs) = set ks \<union> set rs"
  by (auto simp: promoted_def split: list.split)

lemma splice_fields:
  assumes f: "forest {} {} {} f S (r # rs) kids"
  obtains f' where "splice_children r f = Some f'" "like f f'" "pa f' = pa f" "fc f' = fc f" "rk f' = rk f" "ky f' = ky f"
    "ring (nx f') (pv f') (r # promoted (kids r) rs)"
    "\<forall>y. y \<notin> set (r # rs) \<longrightarrow> y \<notin> set (kids r) \<longrightarrow> nx f' y = nx f y \<and> pv f' y = pv f y"
proof -
  note n = forest_node [OF f] and ro = forest_roots [OF f]
  have r: "r \<in> S" using ro(3) by simp
  then have ri: "in_nodes f r" using n(1) by blast
  show ?thesis
  proof (cases "kids r")
    case Nil
    then have "first_child (nd f r) = no_node" using n(4) [OF r] by (simp add: fc_def)
    then show ?thesis using node_at_in [OF ri] Nil ro(2) by (intro that [of f]) (simp_all add: splice_children_def promoted_def)
  next
    case (Cons c cs)
    then have fcr: "fc f r = c" using n(4) [OF r] by simp
    have cS: "c \<in> S" "c \<notin> set (r # rs)" using n(6,7) [OF r, of c] Cons by simp_all
    have rings: "ring (nx f) (pv f) (r # rs)" "ring (nx f) (pv f) (c # cs)" using ro(2) n(2) [OF r] Cons by simp_all
    have dist: "distinct (r # rs @ c # cs)" using ro(1) n(3,7) [OF r] Cons by auto
    have cn: "nx f c \<in> set (c # cs)" "nx f r \<in> set (r # rs)"
      using ring_closed [OF rings(2), of c] ring_closed [OF rings(1), of r] by simp_all
    then have "nx f c \<in> S" "nx f r \<in> S" using n(6) [OF r] Cons ro(3) by auto
    then have i: "in_nodes f c" "in_nodes f (nx f c)" "in_nodes f (nx f r)" using n(1) cS by blast+
    have ne: "nx f c \<noteq> nx f r" "c \<noteq> r" using cn dist by auto
    obtain f1 where 1: "modify_node r (\<lambda>r. r\<lparr>next_sibling := nx f c\<rparr>) f = Some f1" "like f f1"
        "nd f1 = (nd f)(r := (nd f r)\<lparr>next_sibling := nx f c\<rparr>)"
      by (rule modify_node_in [OF ri])
    have "in_nodes f1 c" using 1(2) i by simp
    then obtain f2 where 2: "modify_node c (\<lambda>c. c\<lparr>next_sibling := nx f r\<rparr>) f1 = Some f2" "like f1 f2"
        "nd f2 = (nd f1)(c := (nd f1 c)\<lparr>next_sibling := nx f r\<rparr>)"
      by (rule modify_node_in)
    have "in_nodes f2 (nx f c)" using 1(2) 2(2) i by simp
    then obtain f3 where 3: "modify_node (nx f c) (\<lambda>cn. cn\<lparr>prev_sibling := r\<rparr>) f2 = Some f3" "like f2 f3"
        "nd f3 = (nd f2)(nx f c := (nd f2 (nx f c))\<lparr>prev_sibling := r\<rparr>)"
      by (rule modify_node_in)
    have "in_nodes f3 (nx f r)" using 1(2) 2(2) 3(2) i by simp
    then obtain f4 where 4: "modify_node (nx f r) (\<lambda>rn. rn\<lparr>prev_sibling := c\<rparr>) f3 = Some f4" "like f3 f4"
        "nd f4 = (nd f3)(nx f r := (nd f3 (nx f r))\<lparr>prev_sibling := c\<rparr>)"
      by (rule modify_node_in)
    have np: "nx f4 = (nx f)(r := nx f c, c := nx f r)" "pv f4 = (pv f)(nx f c := r, nx f r := c)"
    proof -
      have "nx f1 = (nx f)(r := nx f c)" "pv f1 = pv f" by (simp_all add: fun_eq_iff fields 1(3))
      moreover have "nx f2 = (nx f1)(c := nx f r)" "pv f2 = pv f1" by (simp_all add: fun_eq_iff fields 2(3))
      moreover have "nx f3 = nx f2" "pv f3 = (pv f2)(nx f c := r)" by (simp_all add: fun_eq_iff fields 3(3))
      moreover have "nx f4 = nx f3" "pv f4 = (pv f3)(nx f r := c)" by (simp_all add: fun_eq_iff fields 4(3))
      ultimately show "nx f4 = (nx f)(r := nx f c, c := nx f r)" "pv f4 = (pv f)(nx f c := r, nx f r := c)" by simp_all
    qed
    have same: "pa f4 = pa f" "fc f4 = fc f" "rk f4 = rk f" "ky f4 = ky f"
    proof -
      have "pa f1 = pa f" "fc f1 = fc f" "rk f1 = rk f" "ky f1 = ky f" by (simp_all add: fun_eq_iff fields 1(3))
      moreover have "pa f2 = pa f1" "fc f2 = fc f1" "rk f2 = rk f1" "ky f2 = ky f1" by (simp_all add: fun_eq_iff fields 2(3))
      moreover have "pa f3 = pa f2" "fc f3 = fc f2" "rk f3 = rk f2" "ky f3 = ky f2" by (simp_all add: fun_eq_iff fields 3(3))
      moreover have "pa f4 = pa f3" "fc f4 = fc f3" "rk f4 = rk f3" "ky f4 = ky f3" by (simp_all add: fun_eq_iff fields 4(3))
      ultimately show "pa f4 = pa f" "fc f4 = fc f" "rk f4 = rk f" "ky f4 = ky f" by simp_all
    qed
    have "splice_children r f = Some f4"
      using n(10) [OF cS(1)] by (simp only: splice_children_def node_at_in [OF ri] bind.bind_lunit fc_def [symmetric] nx_def [symmetric]
          fcr Let_def node_at_in [OF i(1)] 1(1) 2(1) 3(1) 4(1) if_False)
    moreover have "like f f4" using 1(2) 2(2) 3(2) 4(2) by (meson like_trans)
    moreover have "ring (nx f4) (pv f4) (r # promoted (kids r) rs)"
      using ring_splice [OF rings dist] by (simp add: promoted_def Cons np)
    ultimately show ?thesis using same cn Cons by (intro that [of f4]) (auto simp: np)
  qed
qed

lemma remove_root:
  assumes f: "forest {} {} {} f S (r # rs) kids"
  defines "new \<equiv> promoted (kids r) rs"
  obtains f1 f2 kids' where "splice_children r f = Some f1"
    "fheap_node_remove_and_invalidate r f1 = Some (if new = [] then no_node else hd new, f2)" "like f f2" "ky f2 = ky f"
    "forest {} (set (kids r)) {} f2 (S - {r}) new kids'"
proof -
  note n = forest_node [OF f] and ro = forest_roots [OF f]
  have r: "r \<in> S" "pa f r = no_node" using ro(3,5) by simp_all
  obtain f1 where 1: "splice_children r f = Some f1" "like f f1" "pa f1 = pa f" "fc f1 = fc f" "rk f1 = rk f" "ky f1 = ky f"
      "ring (nx f1) (pv f1) (r # new)"
      "\<forall>y. y \<notin> set (r # rs) \<longrightarrow> y \<notin> set (kids r) \<longrightarrow> nx f1 y = nx f y \<and> pv f1 y = pv f y"
    unfolding new_def by (rule splice_fields [OF f])
  have d: "distinct (r # new)" "set (r # new) \<subseteq> S"
  proof -
    have "\<forall>c \<in> set (kids r). c \<in> S \<and> c \<notin> set (r # rs)" using n(6,7) [OF r(1)] by blast
    then show "distinct (r # new)" "set (r # new) \<subseteq> S"
      using ro(1,3) n(3) [OF r(1)] by (auto simp: new_def promoted_def split: list.split)
  qed
  have c: "nx f1 r \<in> set (r # new)" "pv f1 r \<in> set (r # new)" using ring_closed [OF 1(7), of r] by simp_all
  then have "nx f1 r \<in> S" "pv f1 r \<in> S" using d(2) by blast+
  then have i: "in_nodes f1 r" "in_nodes f1 (nx f1 r)" "in_nodes f1 (pv f1 r)" using n(1) r(1) 1(2) by simp_all
  have pr: "pa f1 r = no_node" using r(2) 1(3) by simp
  then have "pa f1 r = no_node \<or> in_nodes f1 (pa f1 r)" "pa f1 r \<noteq> r" using n(10) [OF r(1)] by auto
  from remove_fields [where invalidate = True, OF i this]
  obtain g where g: "fheap_node_remove_internal r True f1 = Some (if pv f1 r = r then no_node else nx f1 r, g)" "like f1 g"
      "nx g = (nx f1)(pv f1 r := nx f1 r, r := r)" "pv g = (pv f1)(nx f1 r := pv f1 r, r := r)"
      "pa g = (pa f1)(r := no_node)" "ky g = ky f1" "fc g = fc f1" "rk g = rk f1"
    using pr by metis
  have pl: "pv f1 r = last (r # new)" "nx f1 r = hd (new @ [r])"
    using ring_hd_last(2) [OF 1(7)] 1(7) by (simp_all add: ring_Cons chain_Cons)
  then have "pv f1 r = r \<longleftrightarrow> new = []" using d(1) by (cases new rule: rev_cases) auto
  then have ret: "(if pv f1 r = r then no_node else nx f1 r) = (if new = [] then no_node else hd new)"
    using pl(2) by (cases new) auto
  let ?kids = "kids(r := [])"
  have "ring (nx g) (pv g) new" unfolding g(3,4) by (rule ring_remove [OF 1(7) d(1)])
  moreover have "node_ok {} {} g (S - {r}) new ?kids x" if x: "x \<in> S - {r}" for x
  proof -
    have "\<forall>z \<in> set (kids x). z \<notin> set (r # rs) \<and> z \<notin> set (kids r)"
      using n(7) x kids_disjoint [OF f _ r(1)] by blast
    then have z: "\<forall>z \<in> set (kids x). z \<notin> set (r # new)" by (auto simp: new_def set_promoted)
    then have "\<forall>z \<in> set (kids x). nx g z = nx f z \<and> pv g z = pv f z"
      using c 1(8) by (auto simp: g(3,4) new_def set_promoted)
    then have "ring (nx g) (pv g) (kids x)" using ring_cong [of "kids x" "nx g" "nx f" "pv g" "pv f"] n(2) x by simp
    moreover have "node_ok {} {} f S (r # rs) kids x" using f x by (simp add: forest_def)
    ultimately show ?thesis using z x 1(2-6) g(2,5-8) unfolding node_ok_def by auto
  qed
  moreover have "S - {r} \<subseteq> reach (set new \<union> {}) ?kids"
  proof
    fix x assume x: "x \<in> S - {r}"
    then have "x \<in> reach (set (r # rs) \<union> {}) kids" using ro(7) by blast
    then have "x = r \<or> x \<in> reach (set new \<union> {}) ?kids"
    proof induction
      case (reach_root x)
      then show ?case by (auto intro: reach.reach_root simp: new_def set_promoted)
    next
      case (reach_kid x c)
      show ?case
      proof (cases "x = r")
        case True
        then show ?thesis using reach_kid by (auto intro: reach.reach_root simp: new_def set_promoted)
      next
        case False
        then have "c \<in> set (?kids x)" using reach_kid by simp
        then show ?thesis using reach_kid False by (blast intro: reach.reach_kid)
      qed
    qed
    then show "x \<in> reach (set new \<union> {}) ?kids" using x by blast
  qed
  moreover have "pa g x = no_node" if "x \<in> set new - set (kids r) \<union> {}" for x
    using that ro(5) 1(3) by (auto simp: g(5) new_def set_promoted)
  ultimately have "forest {} (set (kids r)) {} g (S - {r}) new ?kids"
    unfolding forest_def using d by auto
  then show ?thesis using that 1(1,2,6) g(1,2,6) ret by (simp add: fheap_node_remove_and_invalidate_def like_def)
qed

section \<open>Refinement of a map from indices to keys\<close>

text \<open>
  A single node that has never had a sibling is in no ring: its links are to no node. Otherwise the
  nodes are a forest, and the least root is one of the roots.
\<close>

definition lone :: "fheap \<Rightarrow> u32 set \<Rightarrow> bool" where
  "lone f S \<longleftrightarrow> S = {min_root f} \<and> fc f (min_root f) = no_node \<and> rk f (min_root f) = 0 \<and> pa f (min_root f) = no_node
     \<and> nx f (min_root f) = no_node \<and> pv f (min_root f) = no_node"

definition fheap_ok :: "fheap \<Rightarrow> (u32 \<rightharpoonup> u32) \<Rightarrow> bool" where
  "fheap_ok f m \<longleftrightarrow> entries (root_list_by_rank f) = [] \<and> (\<forall>x k. m x = Some k \<longrightarrow> in_nodes f x \<and> ky f x = k)
     \<and> (if m = Map.empty then min_root f = no_node
        else min_root f \<in> dom m \<and> (\<forall>x \<in> dom m. ky f (min_root f) \<le> ky f x)
          \<and> (lone f (dom m) \<or> (\<exists>roots kids. forest {} {} {} f (dom m) roots kids \<and> min_root f \<in> set roots)))"

lemma fheap_ok_entries: "fheap_ok f m \<Longrightarrow> entries (root_list_by_rank f) = []"
  unfolding fheap_ok_def by blast

lemma fheap_ok_node: "fheap_ok f m \<Longrightarrow> m x = Some k \<Longrightarrow> in_nodes f x \<and> ky f x = k"
  unfolding fheap_ok_def by blast

lemma fheap_okD:
  assumes "fheap_ok f m" "m \<noteq> Map.empty"
  shows "min_root f \<in> dom m" "in_nodes f (min_root f)" "\<And>x k. m x = Some k \<Longrightarrow> ky f (min_root f) \<le> k"
    "lone f (dom m) \<or> (\<exists>rs kids. forest {} {} {} f (dom m) (min_root f # rs) kids)"
    "m (min_root f) = Some (ky f (min_root f))"
proof -
  show r: "min_root f \<in> dom m" using assms by (simp add: fheap_ok_def)
  then show "in_nodes f (min_root f)" "m (min_root f) = Some (ky f (min_root f))" using fheap_ok_node [OF assms(1)] by blast+
  show "ky f (min_root f) \<le> k" if "m x = Some k" for x k
  proof -
    have "x \<in> dom m" using that by blast
    then have "ky f x = k" "ky f (min_root f) \<le> ky f x" using assms fheap_ok_node [OF assms(1) that] unfolding fheap_ok_def by metis+
    then show ?thesis by simp
  qed
  have "lone f (dom m) \<or> (\<exists>roots kids. forest {} {} {} f (dom m) roots kids \<and> min_root f \<in> set roots)"
    using assms by (simp add: fheap_ok_def)
  then show "lone f (dom m) \<or> (\<exists>rs kids. forest {} {} {} f (dom m) (min_root f # rs) kids)"
  proof
    assume "\<exists>roots kids. forest {} {} {} f (dom m) roots kids \<and> min_root f \<in> set roots"
    then obtain as bs kids where "forest {} {} {} f (dom m) (as @ min_root f # bs) kids" by (auto simp: in_set_conv_decomp)
    then have "forest {} {} {} f (dom m) (min_root f # bs @ as) kids"
      using forest_rotate [of "{}" "{}" "{}" f "dom m" as "min_root f # bs"] by simp
    then show ?thesis by blast
  qed blast
qed

lemma fheap_init_ok: "fheap_ok (fheap_init ns n) Map.empty"
  by (simp add: fheap_ok_def fheap_init_def entries_def)

lemma lone_kids:
  assumes "lone f {r}" "in_nodes f r"
  shows "node_ok {} {} f S roots (\<lambda>_. []) r"
  using assms by (simp add: lone_def node_ok_def)

text \<open>A new node, not in a ring yet.\<close>

lemma fresh_node:
  assumes f: "forest {} {} {} f S roots kids" and ni: "ni \<notin> S" "in_nodes f ni"
    and g: "like f g" "nd g = (nd f)(ni := null_node\<lparr>parent := no_node, first_child := no_node,
      next_sibling := no_node, prev_sibling := no_node, node_key := key\<rparr>)"
  shows "forest {} {} {ni} g (insert ni S) roots (kids(ni := []))"
proof -
  have old: "forest {} {} {} g S roots kids"
    by (rule forest_cong [OF _ f]) (use ni g in \<open>auto simp: fields\<close>)
  note n = forest_node [OF old] and r = forest_roots [OF old]
  have new: "fc g ni = no_node" "rk g ni = 0" "pa g ni = no_node" "in_nodes g ni"
    using ni(2) g(1) by (simp_all add: fields g(2) null_node_def)
  have "node_ok {} {ni} g (insert ni S) roots (kids(ni := [])) x" if "x \<in> insert ni S" for x
  proof (cases "x = ni")
    case True
    then show ?thesis using new by (simp add: node_ok_def)
  next
    case False
    then have "node_ok {} {} g S roots kids x" using old that by (auto simp: forest_def)
    then show ?thesis using False ni(1) by (auto simp: node_ok_def)
  qed
  moreover have "insert ni S \<subseteq> reach (set roots \<union> {ni}) (kids(ni := []))"
  proof -
    have "reach (set roots \<union> {}) kids \<inter> S \<subseteq> reach (set roots \<union> {ni}) (kids(ni := []))"
    proof
      fix x assume "x \<in> reach (set roots \<union> {}) kids \<inter> S"
      then have "x \<in> reach (set roots \<union> {}) kids" by blast
      then have "x \<in> S \<and> x \<in> reach (set roots \<union> {ni}) (kids(ni := []))"
      proof induction
        case (reach_root x)
        then show ?case using r(3) by (auto intro: reach.reach_root)
      next
        case (reach_kid x c)
        then have "c \<in> set ((kids(ni := [])) x)" using ni(1) by auto
        then show ?case using reach_kid n(6) by (blast intro: reach.reach_kid)
      qed
      then show "x \<in> reach (set roots \<union> {ni}) (kids(ni := []))" by blast
    qed
    moreover have "ni \<in> reach (set roots \<union> {ni}) (kids(ni := []))" by (simp add: reach.reach_root)
    ultimately show ?thesis using r(7) by blast
  qed
  moreover have "ni \<notin> set roots" using r(3) ni(1) by blast
  ultimately show ?thesis unfolding forest_def using r new by auto
qed

text \<open>The second node turns the single one into a ring of two.\<close>

lemma add_to_lone:
  assumes a: "lone f {a}" "in_nodes f a" "in_nodes f b" "a \<noteq> b" and b: "fc f b = no_node" "rk f b = 0"
  obtains f' where "fheap_node_add_sibling a b f = Some f'" "like f f'" "ky f' = ky f"
    "forest {} {} {} f' {a, b} [a, b] (\<lambda>_. [])"
proof -
  have la: "fc f a = no_node" "rk f a = 0" "pa f a = no_node" "nx f a = no_node" "a = min_root f" using a(1) by (auto simp: lone_def)
  obtain f1 where 1: "modify_node a (\<lambda>n. n\<lparr>next_sibling := b, prev_sibling := b\<rparr>) f = Some f1" "like f f1"
      "nd f1 = (nd f)(a := (nd f a)\<lparr>next_sibling := b, prev_sibling := b\<rparr>)"
    by (rule modify_node_in [OF a(2)])
  have "in_nodes f1 b" using 1(2) a(3) by simp
  then obtain f2 where 2: "modify_node b (\<lambda>m. m\<lparr>next_sibling := a, prev_sibling := a\<rparr>) f1 = Some f2" "like f1 f2"
      "nd f2 = (nd f1)(b := (nd f1 b)\<lparr>next_sibling := a, prev_sibling := a\<rparr>)"
    by (rule modify_node_in)
  have "in_nodes f2 b" using 1(2) 2(2) a(3) by simp
  then obtain f3 where 3: "modify_node b (\<lambda>m. m\<lparr>parent := no_node\<rparr>) f2 = Some f3" "like f2 f3"
      "nd f3 = (nd f2)(b := (nd f2 b)\<lparr>parent := no_node\<rparr>)"
    by (rule modify_node_in)
  have f3: "nx f3 a = b" "nx f3 b = a" "pv f3 a = b" "pv f3 b = a" "pa f3 a = no_node" "pa f3 b = no_node"
    "fc f3 = fc f" "rk f3 = rk f" "ky f3 = ky f"
    using a(4) la by (simp_all add: fun_eq_iff fields 1(3) 2(3) 3(3))
  have like: "like f f3" using 1(2) 2(2) 3(2) by (meson like_trans)
  have at: "node_at f a = Some (nd f a)" "node_at f2 a = Some (nd f2 a)" using a(2) 1(2) 2(2) by (simp_all add: node_at_in)
  have n: "next_sibling (nd f a) = no_node" "parent (nd f2 a) = no_node" using la a(4) by (simp_all add: fields 1(3) 2(3))
  have "fheap_node_add_sibling a b f = Some f3"
    using at 1(1) 2(1) 3(1) n by (simp add: fheap_node_add_sibling_def modify_if_node_def)
  moreover have "forest {} {} {} f3 {a, b} [a, b] (\<lambda>_. [])"
    using a(2-4) b la(1,2) f3 like by (auto simp: forest_def node_ok_def ring_def intro: reach.reach_root)
  ultimately show ?thesis using that like f3(9) by blast
qed

lemma fheap_add_ok:
  assumes ok: "fheap_ok f m" and ni: "in_nodes f ni" "ni \<notin> dom m"
  shows "\<exists>f'. fheap_add f ni key = Some f' \<and> fheap_ok f' (m(ni \<mapsto> key)) \<and> length (nodes f') = length (nodes f)"
proof -
  let ?g = "\<lambda>n. null_node\<lparr>parent := no_node, first_child := no_node, next_sibling := no_node, prev_sibling := no_node, node_key := key\<rparr>"
  obtain f1 where 1: "modify_node ni ?g f = Some f1" "like f f1" "nd f1 = (nd f)(ni := ?g (nd f ni))"
    by (rule modify_node_in [OF ni(1)])
  have ni1: "fc f1 ni = no_node" "rk f1 ni = 0" "nx f1 ni = no_node" "pv f1 ni = no_node" "pa f1 ni = no_node" "ky f1 ni = key" "in_nodes f1 ni"
    using ni(1) 1(2) by (simp_all add: fields 1(3) null_node_def)
  have old: "nd f1 x = nd f x" if "x \<noteq> ni" for x using that by (simp add: 1(3))
  have keys: "in_nodes f1 x \<and> ky f1 x = k" if "m x = Some k" for x k
  proof -
    have "x \<noteq> ni" using that ni(2) by blast
    moreover have "in_nodes f x" "ky f x = k" using fheap_ok_node [OF ok that] by blast+
    ultimately show ?thesis using 1(2) old [of x] by (simp add: ky_def)
  qed
  show ?thesis
  proof (cases "m = Map.empty")
    case True
    then have "min_root f = no_node" using ok unfolding fheap_ok_def by argo
    then have "min_root f1 = no_node" using 1(2) by (simp only: like_def)
    then have "fheap_add f ni key = Some (f1\<lparr>min_root := ni\<rparr>)" using 1(1) by (simp add: fheap_add_def)
    moreover have "fheap_ok (f1\<lparr>min_root := ni\<rparr>) [ni \<mapsto> key]"
    proof -
      let ?h = "f1\<lparr>min_root := ni\<rparr>"
      have same: "in_nodes ?h ni" "fc ?h ni = no_node" "rk ?h ni = 0" "nx ?h ni = no_node" "pv ?h ni = no_node" "pa ?h ni = no_node" "ky ?h ni = key"
        using ni1 by (simp_all add: fields nd_def in_nodes_def)
      then have "lone ?h {ni}" by (simp add: lone_def)
      moreover have "entries (root_list_by_rank ?h) = []" using fheap_ok_entries [OF ok] 1(2) by (simp add: like_def)
      ultimately show ?thesis using same by (simp add: fheap_ok_def)
    qed
    ultimately show ?thesis using True 1(2) by (simp add: like_def)
  next
    case False
    note okD = fheap_okD [OF ok False]
    let ?r = "min_root f"
    have r: "min_root f1 = ?r" "?r \<noteq> ni" "in_nodes f1 ?r" "?r \<noteq> no_node"
      using okD(1,2) 1(2) ni(2) by (auto simp: like_def in_nodes_def)
    have "\<exists>f2 roots kids. fheap_node_add_sibling ?r ni f1 = Some f2 \<and> like f1 f2 \<and> ky f2 = ky f1
        \<and> forest {} {} {} f2 (insert ni (dom m)) roots kids \<and> {?r, ni} \<subseteq> set roots"
      using okD(4)
    proof (elim disjE exE)
      assume l: "lone f (dom m)"
      then have d: "dom m = {?r}" by (simp add: lone_def)
      then have "lone f1 {?r}" using l old [OF r(2)] r(1) by (simp add: lone_def fields)
      from add_to_lone [OF this r(3) ni1(7) r(2) ni1(1,2)] obtain f2 where
        "fheap_node_add_sibling ?r ni f1 = Some f2" "like f1 f2" "ky f2 = ky f1" "forest {} {} {} f2 {?r, ni} [?r, ni] (\<lambda>_. [])" .
      moreover have "insert ni (dom m) = {?r, ni}" using d by auto
      ultimately show ?thesis by (intro exI [of _ f2] exI [of _ "[?r, ni]"] exI [of _ "\<lambda>_. []"]) simp
    next
      fix rs kids assume f: "forest {} {} {} f (dom m) (?r # rs) kids"
      from fresh_node [OF f ni(2,1) 1(2,3)] have "forest {} {} {ni} f1 (insert ni (dom m)) ([] @ ?r # rs) (kids(ni := []))" by simp
      from attach_root [OF this] obtain f2 where
        "fheap_node_add_sibling ?r ni f1 = Some f2" "like f1 f2" "ky f2 = ky f1"
        "forest {} {} {} f2 (insert ni (dom m)) ([] @ ?r # ni # rs) (kids(ni := []))" by auto
      then show ?thesis by (intro exI [of _ f2] exI [of _ "?r # ni # rs"] exI [of _ "kids(ni := [])"]) simp
    qed
    then obtain f2 roots kids where 2: "fheap_node_add_sibling ?r ni f1 = Some f2" "like f1 f2" "ky f2 = ky f1"
        "forest {} {} {} f2 (insert ni (dom m)) roots kids" "{?r, ni} \<subseteq> set roots" by blast
    have at: "node_at f2 ?r = Some (nd f2 ?r)" "node_at f2 ni = Some (nd f2 ni)" using r(3) ni1(7) 2(2) by (simp_all add: node_at_in)
    define f3 where "f3 = (if node_key (nd f2 ni) < node_key (nd f2 ?r) then f2\<lparr>min_root := ni\<rparr> else f2)"
    have "min_root f2 = ?r" using 2(2) r(1) by (simp add: like_def)
    then have "fheap_add f ni key = Some f3"
      using 1(1) r(1,4) 2(1) at by (simp add: fheap_add_def f3_def)
    moreover have same: "in_nodes f3 = in_nodes f2" "nx f3 = nx f2" "pv f3 = pv f2" "pa f3 = pa f2" "fc f3 = fc f2" "rk f3 = rk f2"
        "ky f3 = ky f2" "root_list_by_rank f3 = root_list_by_rank f2" "length (nodes f3) = length (nodes f2)"
      by (auto simp: f3_def fun_eq_iff in_nodes_def fields nd_def)
    have "forest {} {} {} f3 (insert ni (dom m)) roots kids"
      by (rule forest_cong [OF _ 2(4)]) (simp add: same)
    moreover have kr: "ky f2 ?r = ky f ?r" using keys [OF okD(5)] 2(3) by simp
    have least: "min_root f3 \<in> {?r, ni}" "ky f3 (min_root f3) \<le> ky f3 ?r" "ky f3 (min_root f3) \<le> ky f3 ni"
      using \<open>min_root f2 = ?r\<close> by (auto simp: f3_def ky_def nd_def)
    moreover have le: "ky f3 ?r \<le> ky f3 x" if "m x = Some k" for x k
      using keys [OF that] okD(3) [OF that] kr by (simp add: same 2(3))
    moreover have "in_nodes f3 x \<and> ky f3 x = k" if "(m(ni \<mapsto> key)) x = Some k" for x k
      using that keys [of x k] ni1(6,7) 2(2,3) by (simp add: same split: if_splits)
    moreover have "entries (root_list_by_rank f3) = []" using fheap_ok_entries [OF ok] 1(2) 2(2) by (simp add: like_def same)
    moreover have "ky f3 (min_root f3) \<le> ky f3 x" if "x \<in> dom (m(ni \<mapsto> key))" for x
      using that least(2,3) le by (cases "x = ni") (auto intro: order_trans)
    moreover have "min_root f3 \<in> dom (m(ni \<mapsto> key))" "min_root f3 \<in> set roots" using least(1) okD(1) 2(5) by auto
    ultimately have "fheap_ok f3 (m(ni \<mapsto> key))"
      unfolding fheap_ok_def by auto
    then show ?thesis using \<open>fheap_add f ni key = Some f3\<close> same(9) 1(2) 2(2) by (simp add: like_def)
  qed
qed

lemma reach_empty: "reach {} kids = {}"
proof -
  have False if "x \<in> reach {} kids" for x using that by induction auto
  then show ?thesis by blast
qed

lemma forest_no_roots: "forest E U {} f S [] kids \<Longrightarrow> S = {}"
  using forest_roots(7) [of E U "{}" f S "[]" kids] by (simp add: reach_empty)

lemma forest_min_root: "forest E U D (f\<lparr>min_root := r\<rparr>) S roots kids \<longleftrightarrow> forest E U D f S roots kids"
proof -
  have "in_nodes (f\<lparr>min_root := r\<rparr>) = in_nodes f" "nd (f\<lparr>min_root := r\<rparr>) = nd f"
    by (simp_all add: fun_eq_iff in_nodes_def nd_def)
  then show ?thesis by (intro iffI; elim forest_cong [rotated]) (simp_all add: fields)
qed

text \<open>What happens between the removal of the root and the return of its key.\<close>

definition consolidate :: "u32 \<Rightarrow> fheap \<Rightarrow> fheap option" where
  "consolidate ri f =
     (if ri = no_node then Some f
      else do {
        r \<leftarrow> node_at f ri;
        f \<leftarrow> link_roots ri (prev_sibling r) f;
        f \<leftarrow> find_min_root (root_list_by_rank f) no_node f;
        Some (f\<lparr>root_list_by_rank := map (\<lambda>_. no_node) (root_list_by_rank f)\<rparr>)
      })"

lemma consolidate_ok:
  assumes f: "forest {} U {} f S new kids" and U: "U \<subseteq> set new" and mr: "min_root f = no_node"
    and e: "entries (root_list_by_rank f) = []" and k: "\<forall>x k. m x = Some k \<longrightarrow> k \<noteq> no_node"
    and m: "\<And>x k. m x = Some k \<Longrightarrow> ky f x = k" "dom m = S"
  shows "\<exists>f'. consolidate (if new = [] then no_node else hd new) f = Some f' \<and> fheap_ok f' m
    \<and> length (nodes f') = length (nodes f) \<and> ky f' = ky f"
proof (cases new)
  case Nil
  then have "S = {}" using f forest_no_roots by blast
  then have "m = Map.empty" using m(2) by simp
  moreover have "fheap_ok f Map.empty" using e mr by (simp add: fheap_ok_def)
  ultimately show ?thesis using Nil by (simp add: consolidate_def)
next
  case (Cons ri rest)
  have f0: "forest {} U {} f S ([] @ ri # rest) kids" using f Cons by simp
  have "ri \<in> S" using forest_roots(3) [OF f] Cons by simp
  then have ri: "in_nodes f ri" "ri \<noteq> no_node" using forest_node(1,10) [OF f] by blast+
  have last: "prev_sibling (nd f ri) = last (ri # rest)"
    using ring_hd_last(2) [OF forest_roots(2) [OF f]] Cons by (simp add: pv_def)
  obtain f1 vs kids1 where 1: "link_roots ri (prev_sibling (nd f ri)) f = Some f1" "forest {} {} {} f1 S vs kids1"
      "set (entries (root_list_by_rank f1)) = set vs" "length (nodes f1) = length (nodes f)" "ky f1 = ky f"
    using link_roots [OF f0 _ last] U Cons e by auto
  let ?es = "set (entries (root_list_by_rank f1))"
  have "\<forall>x \<in> ?es. in_nodes f1 x" using 1(3) forest_roots(3) [OF 1(2)] forest_node(1) [OF 1(2)] by auto
  from find_min_root [OF this, of no_node]
  obtain r where r: "find_min_root (root_list_by_rank f1) no_node f1 = Some (f1\<lparr>min_root := r\<rparr>)"
    "if \<exists>x \<in> ?es. ky f1 x < no_node then r \<in> ?es \<and> ky f1 r < no_node \<and> (\<forall>x \<in> ?es. ky f1 r \<le> ky f1 x) else r = min_root f1"
    by blast
  let ?g = "f1\<lparr>min_root := r\<rparr>"
  let ?h = "?g\<lparr>root_list_by_rank := map (\<lambda>_. no_node) (root_list_by_rank f1)\<rparr>"
  have "vs \<noteq> []" using forest_no_roots 1(2) \<open>ri \<in> S\<close> by blast
  then obtain x where x: "x \<in> set vs" by (meson list.set_sel(1))
  then obtain kx where kx: "m x = Some kx" using forest_roots(3) [OF 1(2)] m(2) by blast
  then have "ky f1 x \<noteq> no_node" using k m(1) 1(5) by metis
  then have "ky f1 x < no_node" by (simp add: order.strict_iff_order)
  then have least: "r \<in> set vs" "\<forall>x \<in> set vs. ky f1 r \<le> ky f1 x" using r(2) x 1(3) by (metis, metis)
  have same: "ky ?h = ky f1" "in_nodes ?h = in_nodes f1" by (simp_all add: fun_eq_iff fields nd_def in_nodes_def)
  have "fheap_ok ?h m"
    unfolding fheap_ok_def
  proof (intro conjI)
    show "entries (root_list_by_rank ?h) = []" by (simp add: entries_def)
    show "\<forall>x k. m x = Some k \<longrightarrow> in_nodes ?h x \<and> ky ?h x = k"
      using m forest_node(1) [OF 1(2)] by (auto simp: same 1(5))
    have ne: "m \<noteq> Map.empty" using kx by auto
    have "min_root ?h \<in> dom m" using least(1) forest_roots(3) [OF 1(2)] m(2) by auto
    moreover have "ky ?h (min_root ?h) \<le> ky ?h x" if "x \<in> dom m" for x
      using least_root [OF 1(2), of x] least(2) m(2) that by (auto simp: same intro: order_trans)
    moreover have "forest {} {} {} ?h (dom m) vs kids1" using 1(2) m(2) by (simp add: forest_rank_list forest_min_root)
    ultimately show "if m = Map.empty then min_root ?h = no_node else min_root ?h \<in> dom m \<and> (\<forall>x \<in> dom m. ky ?h (min_root ?h) \<le> ky ?h x)
        \<and> (lone ?h (dom m) \<or> (\<exists>roots kids. forest {} {} {} ?h (dom m) roots kids \<and> min_root ?h \<in> set roots))"
      using ne least(1) by auto
  qed
  moreover have "consolidate ri f = Some ?h"
    using ri(2) 1(1) r(1) by (simp add: consolidate_def node_at_in [OF ri(1)])
  ultimately show ?thesis using Cons 1(4,5) same(1) by simp
qed

lemma del_min_unfold:
  assumes "min_root f \<noteq> no_node"
  shows "fheap_del_min f = do {
    f1 \<leftarrow> splice_children (min_root f) f;
    (ri, f2) \<leftarrow> fheap_node_remove_and_invalidate (min_root f) f1;
    f3 \<leftarrow> consolidate ri (f2\<lparr>min_root := no_node\<rparr>);
    r \<leftarrow> node_at f3 (min_root f);
    Some (min_root f, Some (node_key r), f3) }"
  using assms by (simp add: fheap_del_min_def consolidate_def Let_def)

lemma remove_lone:
  assumes "lone f {r}" "in_nodes f r"
  obtains f2 where "splice_children r f = Some f" "fheap_node_remove_and_invalidate r f = Some (no_node, f2)" "like f f2" "ky f2 = ky f"
proof -
  have l: "fc f r = no_node" "nx f r = no_node" "pv f r = no_node" "pa f r = no_node" "r \<noteq> no_node"
    using assms by (auto simp: lone_def in_nodes_def)
  let ?g = "\<lambda>n. n\<lparr>prev_sibling := r, next_sibling := r, parent := no_node, is_valid := of_bool (\<not> True)\<rparr>"
  obtain g where g: "modify_node r ?g f = Some g" "like f g" "nd g = (nd f)(r := ?g (nd f r))"
    by (rule modify_node_in [OF assms(2)])
  have "ky g = ky f" by (simp add: fun_eq_iff fields g(3))
  moreover have "fheap_node_remove_and_invalidate r f = Some (no_node, g)"
    using g(1) l by (simp add: fheap_node_remove_and_invalidate_def fheap_node_remove_internal_def node_at_in [OF assms(2)]
        Let_def modify_if_node_def fields)
  moreover have "splice_children r f = Some f" using l(1) by (simp add: splice_children_def node_at_in [OF assms(2)] fc_def)
  ultimately show ?thesis using that g(2) by blast
qed

lemma fheap_del_min_ok:
  assumes ok: "fheap_ok f m" "m \<noteq> Map.empty" and k: "\<forall>x k. m x = Some k \<longrightarrow> k \<noteq> no_node"
  shows "\<exists>f'. fheap_del_min f = Some (min_root f, m (min_root f), f') \<and> fheap_ok f' (m(min_root f := None))
    \<and> length (nodes f') = length (nodes f)"
proof -
  note okD = fheap_okD [OF ok]
  let ?r = "min_root f" and ?m = "m(min_root f := None)"
  have rn: "?r \<noteq> no_node" using okD(2) by (simp add: in_nodes_def)
  have "\<exists>f1 f2 U new kids. splice_children ?r f = Some f1
      \<and> fheap_node_remove_and_invalidate ?r f1 = Some (if new = [] then no_node else hd new, f2)
      \<and> like f f2 \<and> ky f2 = ky f \<and> U \<subseteq> set new \<and> forest {} U {} f2 (dom ?m) new kids"
    using okD(4)
  proof (elim disjE exE)
    assume "lone f (dom m)"
    then have d: "dom m = {?r}" "lone f {?r}" by (auto simp: lone_def)
    obtain f2 where "splice_children ?r f = Some f" "fheap_node_remove_and_invalidate ?r f = Some (no_node, f2)" "like f f2" "ky f2 = ky f"
      by (rule remove_lone [OF d(2) okD(2)])
    moreover have "forest {} {} {} f2 (dom ?m) [] (\<lambda>_. [])" using d(1) by (simp add: forest_def)
    ultimately show ?thesis by (intro exI [of _ f] exI [of _ f2] exI [of _ "{}"] exI [of _ "[]"] exI [of _ "\<lambda>_. []"]) simp
  next
    fix rs kids assume f: "forest {} {} {} f (dom m) (?r # rs) kids"
    obtain f1 f2 kids' where 1: "splice_children ?r f = Some f1"
      "fheap_node_remove_and_invalidate ?r f1 = Some (if promoted (kids ?r) rs = [] then no_node else hd (promoted (kids ?r) rs), f2)"
      "like f f2" "ky f2 = ky f" "forest {} (set (kids ?r)) {} f2 (dom m - {?r}) (promoted (kids ?r) rs) kids'"
      by (rule remove_root [OF f])
    then show ?thesis
      by (intro exI [of _ f1] exI [of _ f2] exI [of _ "set (kids ?r)"] exI [of _ "promoted (kids ?r) rs"] exI [of _ kids'])
        (auto simp: set_promoted)
  qed
  then obtain f1 f2 U new kids where 1: "splice_children ?r f = Some f1"
      "fheap_node_remove_and_invalidate ?r f1 = Some (if new = [] then no_node else hd new, f2)"
      "like f f2" "ky f2 = ky f" "U \<subseteq> set new" "forest {} U {} f2 (dom ?m) new kids" by blast
  let ?f2 = "f2\<lparr>min_root := no_node\<rparr>"
  have "forest {} U {} ?f2 (dom ?m) new kids" "min_root ?f2 = no_node" "entries (root_list_by_rank ?f2) = []"
    using 1(3,6) fheap_ok_entries [OF ok(1)] by (simp_all add: forest_min_root like_def)
  moreover have ky: "ky ?f2 = ky f" using 1(4) by (simp add: fun_eq_iff ky_def nd_def)
  have "ky ?f2 x = k" if "?m x = Some k" for x k
    using that fheap_ok_node [OF ok(1), of x k] unfolding ky by (simp split: if_splits)
  moreover have "\<forall>x k. ?m x = Some k \<longrightarrow> k \<noteq> no_node" using k by (simp split: if_splits)
  ultimately obtain f3 where 3: "consolidate (if new = [] then no_node else hd new) ?f2 = Some f3" "fheap_ok f3 ?m"
      "length (nodes f3) = length (nodes ?f2)" "ky f3 = ky ?f2"
    using consolidate_ok [of U ?f2 "dom ?m" new kids ?m] 1(5) by blast
  have len: "length (nodes f3) = length (nodes f)" using 3(3) 1(3) by (simp add: like_def)
  then have "node_at f3 ?r = Some (nd f3 ?r)" using okD(2) by (intro node_at_in) (simp add: in_nodes_def)
  moreover have "node_key (nd f3 ?r) = ky f ?r" using 3(4) ky by (metis ky_def)
  ultimately have "fheap_del_min f = Some (?r, m ?r, f3)"
    unfolding del_min_unfold [OF rn] using 1(1,2) 3(1) okD(5) by simp
  then show ?thesis using 3(2) len by blast
qed

section \<open>Lowering a key and taking out any node\<close>

lemma forest_weaken: "forest E U D f S roots kids \<Longrightarrow> E \<subseteq> E' \<Longrightarrow> forest E' U D f S roots kids"
  unfolding forest_def node_ok_def by blast

lemma forest_root_exempt:
  assumes "forest E U D f S roots kids" "x \<in> set roots"
  shows "forest (E - {x}) U D f S roots kids"
  using assms unfolding forest_def node_ok_def by blast

lemma cut:
  assumes f: "forest E {} {} f S roots kids" and x: "x \<in> S" "x \<notin> set roots" and r: "mr \<in> set roots"
  obtains r f1 f2 roots' kids' where "fheap_node_remove_internal x dead f = Some (r, f1)" "fheap_node_add_sibling mr x f1 = Some f2"
    "like f f1" "like f f2" "ky f2 = ky f" "forest (E - {x}) {} {} f2 S roots' kids'" "set roots' = insert x (set roots)"
    "pa f2 x = no_node" "\<forall>y. y \<noteq> x \<longrightarrow> pa f2 y = pa f y"
proof -
  have p: "pa f x \<in> S" "x \<in> set (kids (pa f x))" using forest_parent [OF f x(1)] x(2) by auto
  then obtain as bs where k: "kids (pa f x) = as @ x # bs" by (auto simp: in_set_conv_decomp)
  obtain r f1 where 1: "fheap_node_remove_internal x dead f = Some (r, f1)" "like f f1" "ky f1 = ky f"
    "forest (E - {x}) {} {x} f1 S roots (kids(pa f x := bs @ as))" "pa f1 x = no_node" "\<forall>y. y \<noteq> x \<longrightarrow> pa f1 y = pa f y"
    using detach_child [OF f p(1) k, of dead] by metis
  obtain cs ds where roots: "roots = cs @ mr # ds" using r by (auto simp: in_set_conv_decomp)
  have "forest (E - {x}) {} {x} f1 S (cs @ mr # ds) (kids(pa f x := bs @ as))" using 1(4) roots by simp
  then obtain f2 where 2: "fheap_node_add_sibling mr x f1 = Some f2" "like f1 f2" "ky f2 = ky f1" "pa f2 = pa f1"
    "forest (E - {x}) {} {} f2 S (cs @ mr # x # ds) (kids(pa f x := bs @ as))"
    by (rule attach_root) simp_all
  have "set (cs @ mr # x # ds) = insert x (set roots)" using roots by auto
  moreover have "like f f2" using 1(2) 2(2) by (rule like_trans)
  ultimately show ?thesis using that 1(1,2,3,5,6) 2(1,3,4,5) by auto
qed

lemma mark_parent:
  assumes f: "forest E {} {} f S roots kids" and p: "pi \<in> S" and r: "min_root f \<in> set roots"
  obtains f' roots' kids' where "fheap_mark_parent pi f = Some f'" "like f f'" "ky f' = ky f"
    "forest E {} {} f' S roots' kids'" "set roots' \<subseteq> insert pi (set roots)" "set roots \<subseteq> set roots'"
    "\<forall>y. y \<noteq> pi \<longrightarrow> pa f' y = pa f y"
proof -
  have i: "in_nodes f pi" using forest_node(1) [OF f p] .
  note at = node_at_in [OF i]
  consider "parent (nd f pi) = no_node" | "parent (nd f pi) \<noteq> no_node" "is_marked (nd f pi) = 0"
    | "parent (nd f pi) \<noteq> no_node" "is_marked (nd f pi) \<noteq> 0" by blast
  then show ?thesis
  proof cases
    case 1
    then have "fheap_mark_parent pi f = Some f" by (subst fheap_mark_parent.simps) (simp add: at)
    then show ?thesis using f by (intro that [of f roots kids]) auto
  next
    case 2
    obtain g where g: "modify_node pi (\<lambda>p. p\<lparr>is_marked := 1\<rparr>) f = Some g" "like f g" "nd g = (nd f)(pi := (nd f pi)\<lparr>is_marked := 1\<rparr>)"
      by (rule modify_node_in [OF i])
    have same: "nx g = nx f" "pv g = pv f" "pa g = pa f" "fc g = fc f" "rk g = rk f" "ky g = ky f"
      by (simp_all add: fun_eq_iff fields g(3))
    have "fheap_mark_parent pi f = Some g" using 2 g(1) by (subst fheap_mark_parent.simps) (simp add: at)
    then show ?thesis using forest_like [OF f g(2) same] g(2) same by (intro that [of g roots kids]) auto
  next
    case 3
    then have "pi \<notin> set roots" using forest_roots(5) [OF f] by (auto simp: pa_def)
    from cut [OF f p this r]
    obtain r f1 f2 roots' kids' where c: "fheap_node_remove_internal pi False f = Some (r, f1)"
      "fheap_node_add_sibling (min_root f) pi f1 = Some f2" "like f f1" "like f f2" "ky f2 = ky f"
      "forest (E - {pi}) {} {} f2 S roots' kids'" "set roots' = insert pi (set roots)" "pa f2 pi = no_node"
      "\<forall>y. y \<noteq> pi \<longrightarrow> pa f2 y = pa f y" .
    have i2: "in_nodes f2 pi" using i c(4) by simp
    obtain g where g: "modify_node pi (\<lambda>p. p\<lparr>is_marked := 0\<rparr>) f2 = Some g" "like f2 g" "nd g = (nd f2)(pi := (nd f2 pi)\<lparr>is_marked := 0\<rparr>)"
      by (rule modify_node_in [OF i2])
    have same: "nx g = nx f2" "pv g = pv f2" "pa g = pa f2" "fc g = fc f2" "rk g = rk f2" "ky g = ky f2"
      by (simp_all add: fun_eq_iff fields g(3))
    have mr: "min_root f1 = min_root f" using c(3) by (simp add: like_def)
    have pg: "node_at g pi = Some (nd g pi)" "parent (nd g pi) = no_node"
      using i2 g(2) c(8) same(3) by (simp_all add: node_at_in flip: pa_def)
    have "fheap_mark_parent pi f = Some g"
      using 3 c(1,2) g(1) pg by (subst fheap_mark_parent.simps) (simp add: at fheap_node_remove_def mr)
    moreover have "forest E {} {} g S roots' kids'"
      using forest_weaken [OF forest_like [OF c(6) g(2) same]] by blast
    ultimately show ?thesis using c(4,5,7,9) g(2) same by (intro that [of g roots' kids']) (auto intro: like_trans)
  qed
qed

lemma lower_key:
  assumes f: "forest {} {} {} f S roots kids" and k: "k \<le> ky f ni"
    and g: "like f g" "nd g = (nd f)(ni := (nd f ni)\<lparr>node_key := k\<rparr>)"
  shows "forest {ni} {} {} g S roots kids"
proof -
  have same: "nx g = nx f" "pv g = pv f" "pa g = pa f" "fc g = fc f" "rk g = rk f" "ky g = (ky f)(ni := k)"
    by (simp_all add: fun_eq_iff fields g(2))
  have "node_ok {ni} {} g S roots kids x" if "x \<in> S" for x
  proof -
    have "node_ok {} {} f S roots kids x" using f that by (simp add: forest_def)
    then show ?thesis using g(1) k unfolding node_ok_def by (auto simp: same intro: order_trans)
  qed
  then show ?thesis using forest_roots [OF f] unfolding forest_def by (auto simp: same)
qed

lemma fheap_decrease_key_ok:
  assumes ok: "fheap_ok f m" and ni: "m ni = Some k0" "k \<le> k0"
  shows "\<exists>f'. fheap_decrease_key f ni k = Some f' \<and> fheap_ok f' (m(ni \<mapsto> k)) \<and> length (nodes f') = length (nodes f)"
proof -
  have ne: "m \<noteq> Map.empty" using ni by auto
  note okD = fheap_okD [OF ok ne] and old = fheap_ok_node [OF ok]
  let ?r = "min_root f" and ?g = "\<lambda>n. n\<lparr>node_key := k\<rparr>"
  have i: "in_nodes f ni" "ky f ni = k0" using old [OF ni(1)] by simp_all
  obtain f1 where 1: "modify_node ni ?g f = Some f1" "like f f1" "nd f1 = (nd f)(ni := ?g (nd f ni))"
    by (rule modify_node_in [OF i(1)])
  have ky1: "ky f1 = (ky f)(ni := k)" and pa1: "pa f1 = pa f" by (simp_all add: fun_eq_iff fields 1(3))
  have at1: "node_at f1 ni = Some (nd f1 ni)" using i(1) 1(2) by (simp add: node_at_in)
  define body where "body = (if parent (nd f1 ni) \<noteq> no_node
       then do {
         f \<leftarrow> fheap_mark_parent (parent (nd f1 ni)) f1;
         (_, f) \<leftarrow> fheap_node_remove ni f;
         fheap_node_add_sibling (min_root f) ni f
       }
       else Some f1)"
  have "\<exists>f2. body = Some f2 \<and> like f1 f2 \<and> ky f2 = ky f1
    \<and> (lone f2 (dom m) \<and> ni = ?r \<or> (\<exists>roots kids. forest {} {} {} f2 (dom m) roots kids \<and> ?r \<in> set roots \<and> ni \<in> set roots))"
    using okD(4)
  proof (elim disjE exE)
    assume "lone f (dom m)"
    then have l: "dom m = {?r}" "lone f {?r}" by (auto simp: lone_def)
    then have "ni = ?r" using ni(1) by blast
    moreover from this have "pa f ni = no_node" using l(2) by (simp add: lone_def)
    moreover have "lone f1 (dom m)" using l \<open>ni = ?r\<close> 1(2) by (simp add: lone_def like_def fields 1(3))
    ultimately show ?thesis using pa1 by (simp add: body_def flip: pa_def)
  next
    fix rs kids assume f: "forest {} {} {} f (dom m) (?r # rs) kids"
    have f1: "forest {ni} {} {} f1 (dom m) (?r # rs) kids" by (rule lower_key [OF f _ 1(2,3)]) (use ni(2) i(2) in simp)
    have nS: "ni \<in> dom m" using ni(1) by blast
    have r1: "min_root f1 = ?r" using 1(2) by (simp add: like_def)
    show ?thesis
    proof (cases "ni \<in> set (?r # rs)")
      case True
      then have "pa f1 ni = no_node" using forest_roots(5) [OF f1] by blast
      then have "body = Some f1" by (simp add: body_def pa_def)
      moreover have "forest {} {} {} f1 (dom m) (?r # rs) kids" using forest_root_exempt [OF f1 True] by simp
      ultimately show ?thesis using True by (intro exI [of _ f1]) (auto intro!: exI [of _ "?r # rs"])
    next
      case False
      then have p: "pa f1 ni \<in> dom m" "ni \<in> set (kids (pa f1 ni))" using forest_parent [OF f1 nS] by auto
      then have pn: "pa f1 ni \<noteq> ni" "pa f1 ni \<noteq> no_node" using not_own_kid [OF f1 nS] forest_node(10) [OF f1 p(1)] by auto
      obtain f2 roots2 kids2 where 2: "fheap_mark_parent (pa f1 ni) f1 = Some f2" "like f1 f2" "ky f2 = ky f1"
          "forest {ni} {} {} f2 (dom m) roots2 kids2" "set roots2 \<subseteq> insert (pa f1 ni) (set (?r # rs))" "set (?r # rs) \<subseteq> set roots2"
        by (rule mark_parent [OF f1 p(1)]) (simp_all add: r1)
      have "ni \<notin> set roots2" "?r \<in> set roots2" using 2(5,6) False pn by auto
      from cut [OF 2(4) nS this]
      obtain r f3 f4 roots4 kids4 where 4: "fheap_node_remove_internal ni False f2 = Some (r, f3)" "fheap_node_add_sibling ?r ni f3 = Some f4"
          "like f2 f3" "like f2 f4" "ky f4 = ky f2" "forest ({ni} - {ni}) {} {} f4 (dom m) roots4 kids4" "set roots4 = insert ni (set roots2)" .
      have "min_root f3 = ?r" using 2(2) 4(3) r1 by (simp add: like_def)
      then have "body = Some f4" using pn(2) 2(1) 4(1,2) by (simp add: body_def fheap_node_remove_def flip: pa_def)
      then show ?thesis using 2(2,3,6) 4(4-7) by (intro exI [of _ f4]) (auto intro: like_trans)
    qed
  qed
  then obtain f2 where 2: "body = Some f2" "like f1 f2" "ky f2 = ky f1"
    "lone f2 (dom m) \<and> ni = ?r \<or> (\<exists>roots kids. forest {} {} {} f2 (dom m) roots kids \<and> ?r \<in> set roots \<and> ni \<in> set roots)" by blast
  define f3 where "f3 = (if node_key (nd f2 ni) < node_key (nd f2 ?r) then f2\<lparr>min_root := ni\<rparr> else f2)"
  have like2: "like f f2" using 1(2) 2(2) by (rule like_trans)
  have "node_at f2 ni = Some (nd f2 ni)" "node_at f2 ?r = Some (nd f2 ?r)" using i(1) okD(2) like2 by (simp_all add: node_at_in)
  then have run: "fheap_decrease_key f ni k = Some f3"
    using 1(1) at1 2(1) unfolding fheap_decrease_key_def body_def by (simp add: f3_def)
  have same: "in_nodes f3 = in_nodes f2" "nx f3 = nx f2" "pv f3 = pv f2" "pa f3 = pa f2" "fc f3 = fc f2" "rk f3 = rk f2"
        "ky f3 = ky f2" "root_list_by_rank f3 = root_list_by_rank f2" "length (nodes f3) = length (nodes f2)"
    by (auto simp: f3_def fun_eq_iff in_nodes_def fields nd_def)
  have r2: "min_root f2 = ?r" using like2 by (simp add: like_def)
  have ky3: "ky f3 = (ky f)(ni := k)" by (simp add: same 2(3) ky1)
  have mr: "min_root f3 \<in> {?r, ni}" "ky f3 (min_root f3) \<le> ky f3 ?r" "ky f3 (min_root f3) \<le> ky f3 ni"
    using r2 by (auto simp: f3_def ky_def nd_def)
  have le: "ky f3 (min_root f3) \<le> ky f3 x" if "x \<in> dom m" for x
  proof (cases "x = ni")
    case False
    obtain kx where kx: "m x = Some kx" using \<open>x \<in> dom m\<close> by blast
    then have "ky f ?r \<le> ky f x" using okD(3) old by metis
    moreover have "ky f3 ?r \<le> ky f ?r" using ni(2) i(2) by (simp add: ky3)
    ultimately show ?thesis using mr(2) False by (simp add: ky3)
  qed (use mr(3) in simp)
  have "fheap_ok f3 (m(ni \<mapsto> k))"
    unfolding fheap_ok_def
  proof (intro conjI)
    show "entries (root_list_by_rank f3) = []" using fheap_ok_entries [OF ok] like2 by (simp add: same like_def)
    show "\<forall>x kx. (m(ni \<mapsto> k)) x = Some kx \<longrightarrow> in_nodes f3 x \<and> ky f3 x = kx"
      using old i(1) like2 by (auto simp: same(1) ky3)
    have d: "dom (m(ni \<mapsto> k)) = dom m" using ni(1) by auto
    have "min_root f3 \<in> dom m" using mr(1) okD(1) ni(1) by auto
    moreover have "lone f3 (dom m) \<or> (\<exists>roots kids. forest {} {} {} f3 (dom m) roots kids \<and> min_root f3 \<in> set roots)"
      using 2(4)
    proof (elim disjE conjE exE)
      assume "lone f2 (dom m)" "ni = ?r"
      then show ?thesis by (simp add: f3_def)
    next
      fix roots kids assume r: "forest {} {} {} f2 (dom m) roots kids" "?r \<in> set roots" "ni \<in> set roots"
      have "forest {} {} {} f3 (dom m) roots kids" by (rule forest_cong [OF _ r(1)]) (simp add: same)
      then show ?thesis using mr(1) r(2,3) by auto
    qed
    ultimately show "if m(ni \<mapsto> k) = Map.empty then min_root f3 = no_node else min_root f3 \<in> dom (m(ni \<mapsto> k))
        \<and> (\<forall>x \<in> dom (m(ni \<mapsto> k)). ky f3 (min_root f3) \<le> ky f3 x)
        \<and> (lone f3 (dom (m(ni \<mapsto> k))) \<or> (\<exists>roots kids. forest {} {} {} f3 (dom (m(ni \<mapsto> k))) roots kids \<and> min_root f3 \<in> set roots))"
      unfolding d using le by simp
  qed
  then show ?thesis using run same(9) like2 by (simp add: like_def)
qed

text \<open>
  The loop over the children takes each of them to the roots. When the last one has become a root the
  loop goes on through the roots until it meets the first child, moving the children once more.
\<close>

lemma move_root:
  assumes f: "forest {} {} {} f S (mr # M @ x # T) kids" and mr: "min_root f = mr"
  obtains r f1 f2 where "fheap_node_remove x f = Some (r, f1)" "fheap_node_add_sibling (min_root f1) x f1 = Some f2" "like f f2"
    "ky f2 = ky f" "forest {} {} {} f2 S (mr # x # M @ T) kids" "pa f2 = pa f"
proof -
  have f0: "forest {} {} {} f S ((mr # M) @ x # T) kids" using f by simp
  then have px: "pa f x = no_node" using forest_roots(5) [OF f0, of x] by simp
  obtain r f1 where 1: "fheap_node_remove_internal x False f = Some (r, f1)" "like f f1" "ky f1 = ky f"
    "forest {} {} {x} f1 S ((mr # M) @ T) kids" "pa f1 x = no_node" "\<forall>y. y \<noteq> x \<longrightarrow> pa f1 y = pa f y"
    using detach_root [OF f0, of False] by (metis empty_iff)
  have "forest {} {} {x} f1 S ([] @ mr # M @ T) kids" using 1(4) by simp
  then obtain f2 where 2: "fheap_node_add_sibling mr x f1 = Some f2" "like f1 f2" "ky f2 = ky f1" "pa f2 = pa f1"
    "forest {} {} {} f2 S ([] @ mr # x # M @ T) kids"
    by (rule attach_root) simp_all
  have "min_root f1 = mr" using mr 1(2) by (simp add: like_def)
  moreover have "pa f2 = pa f"
  proof
    show "pa f2 y = pa f y" for y using 1(5,6) 2(4) px by (cases "y = x") simp_all
  qed
  ultimately show ?thesis using that [of r f1 f2] 1(1-3) 2 by (simp add: fheap_node_remove_def) (meson like_trans)
qed

lemma move_again:
  assumes "forest {} {} {} f S (mr # M @ x # ts @ first # us) kids" "min_root f = mr"
  shows "\<exists>f' roots'. move_children first x f = Some f' \<and> like f f' \<and> ky f' = ky f \<and> forest {} {} {} f' S roots' kids
    \<and> set roots' = set (mr # M @ x # ts @ first # us) \<and> pa f' = pa f"
  using assms
proof (induction ts arbitrary: f M x)
  case Nil
  have "in_nodes f x" using forest_roots(3) [OF Nil.prems(1)] forest_node(1) [OF Nil.prems(1)] by auto
  then have at: "node_at f x = Some (nd f x)" by (rule node_at_in)
  have nx: "next_sibling (nd f x) = first"
    using ring_next(1) [of "nx f" "pv f" "mr # M" x first us] forest_roots(2) [OF Nil.prems(1)] by (simp add: nx_def)
  obtain r f1 f2 where 2: "fheap_node_remove x f = Some (r, f1)" "fheap_node_add_sibling (min_root f1) x f1 = Some f2" "like f f2"
    "ky f2 = ky f" "forest {} {} {} f2 S (mr # x # M @ [] @ first # us) kids" "pa f2 = pa f"
    by (rule move_root [OF Nil.prems])
  have "move_children first x f = Some f2"
    using 2(1,2) nx by (subst move_children.simps) (simp add: at Let_def)
  then show ?case using 2(3-6) by (intro exI [of _ f2] exI [of _ "mr # x # M @ [] @ first # us"]) auto
next
  case (Cons t ts)
  have "in_nodes f x" using forest_roots(3) [OF Cons.prems(1)] forest_node(1) [OF Cons.prems(1)] by auto
  then have at: "node_at f x = Some (nd f x)" by (rule node_at_in)
  have nx: "next_sibling (nd f x) = t"
    using ring_next(1) [of "nx f" "pv f" "mr # M" x t "ts @ first # us"] forest_roots(2) [OF Cons.prems(1)] by (simp add: nx_def)
  have ne: "t \<noteq> first" using forest_roots(1) [OF Cons.prems(1)] by auto
  obtain r f1 f2 where 2: "fheap_node_remove x f = Some (r, f1)" "fheap_node_add_sibling (min_root f1) x f1 = Some f2" "like f f2"
    "ky f2 = ky f" "forest {} {} {} f2 S (mr # x # M @ (t # ts) @ first # us) kids" "pa f2 = pa f"
    by (rule move_root [OF Cons.prems])
  have step: "move_children first x f = move_children first t f2"
    using 2(1,2) nx ne by (subst move_children.simps) (simp add: at Let_def)
  have "forest {} {} {} f2 S (mr # (x # M) @ t # ts @ first # us) kids" "min_root f2 = mr"
    using 2(3,5) Cons.prems(2) by (simp_all add: like_def)
  from Cons.IH [OF this] obtain f' roots' where 3: "move_children first t f2 = Some f'" "like f2 f'" "ky f' = ky f2"
    "forest {} {} {} f' S roots' kids" "set roots' = set (mr # (x # M) @ t # ts @ first # us)" "pa f' = pa f2" by blast
  have "set roots' = set (mr # M @ x # (t # ts) @ first # us)" unfolding 3(5) by auto
  then show ?case using 3 2(3,4,6) unfolding step by (intro exI [of _ f'] exI [of _ roots']) (auto intro: like_trans)
qed

text \<open>A child of a node becomes the root after the least one.\<close>

lemma move_child:
  assumes f: "forest {} {} {} f S (mr # rs) kids" and p: "p \<in> S" "kids p = c # cs" and mr: "min_root f = mr"
  obtains r f1 f2 where "fheap_node_remove c f = Some (r, f1)" "fheap_node_add_sibling (min_root f1) c f1 = Some f2" "like f f2"
    "ky f2 = ky f" "forest {} {} {} f2 S (mr # c # rs) (kids(p := cs))" "\<forall>y. y \<noteq> c \<longrightarrow> pa f2 y = pa f y"
proof -
  have "kids p = [] @ c # cs" using p(2) by simp
  then obtain r f1 where 1: "fheap_node_remove_internal c False f = Some (r, f1)" "like f f1" "ky f1 = ky f"
    "forest {} {} {c} f1 S (mr # rs) (kids(p := cs))" "\<forall>y. y \<noteq> c \<longrightarrow> pa f1 y = pa f y"
    using detach_child [OF f p(1), of "[]" c cs False] by (metis Diff_empty append_Nil2 Diff_insert0 empty_iff)
  have "forest {} {} {c} f1 S ([] @ mr # rs) (kids(p := cs))" using 1(4) by simp
  then obtain f2 where 2: "fheap_node_add_sibling mr c f1 = Some f2" "like f1 f2" "ky f2 = ky f1" "pa f2 = pa f1"
    "forest {} {} {} f2 S ([] @ mr # c # rs) (kids(p := cs))"
    by (rule attach_root) simp_all
  have "min_root f1 = mr" using mr 1(2) by (simp add: like_def)
  then show ?thesis using that [of r f1 f2] 1(1-3,5) 2 by (simp add: fheap_node_remove_def) (meson like_trans)
qed

lemma move_children:
  assumes "forest {} {} {} f S (mr # ds @ us) kids" "p \<in> S" "kids p = ci # cs" "min_root f = mr"
    and "ds = [] \<and> first = ci \<or> ds \<noteq> [] \<and> first = last ds"
  shows "\<exists>f' roots' kids'. move_children first ci f = Some f' \<and> like f f' \<and> ky f' = ky f \<and> forest {} {} {} f' S roots' kids'
    \<and> kids' p = [] \<and> mr \<in> set roots' \<and> set roots' \<subseteq> set (ci # cs @ mr # ds @ us)"
  using assms
proof (induction cs arbitrary: f ds ci kids)
  case Nil
  note f = Nil.prems(1) and p = Nil.prems(2,3)
  have ciS: "ci \<in> S" "ci \<notin> set (mr # ds @ us)" using forest_node(6,7) [OF f p(1), of ci] p(2) by simp_all
  have at: "node_at f ci = Some (nd f ci)" by (rule node_at_in) (rule forest_node(1) [OF f ciS(1)])
  have nx: "next_sibling (nd f ci) = ci" using forest_node(2) [OF f p(1)] p(2) by (simp add: ring_single nx_def)
  define k' where "k' = kids(p := [])"
  have kp: "k' p = []" by (simp add: k'_def)
  obtain r f1 f2 where 2: "fheap_node_remove ci f = Some (r, f1)" "fheap_node_add_sibling (min_root f1) ci f1 = Some f2" "like f f2"
    "ky f2 = ky f" "forest {} {} {} f2 S (mr # ci # ds @ us) k'"
    unfolding k'_def by (rule move_child [OF f p Nil.prems(4)])
  have m2: "min_root f2 = mr" using 2(3) Nil.prems(4) by (simp add: like_def)
  have step: "move_children first ci f = (if ci = first then Some f2 else move_children first ci f2)"
    using 2(1,2) nx by (subst move_children.simps) (simp add: at Let_def)
  show ?case
  proof (cases "ds = []")
    case True
    then have "move_children first ci f = Some f2" using step Nil.prems(5) by simp
    then show ?thesis using 2(3-5) kp
      by (intro exI [of _ f2] exI [of _ "mr # ci # ds @ us"] exI [of _ k']) auto
  next
    case False
    then obtain ts where ts: "ds = ts @ [first]" using Nil.prems(5) by (metis append_butlast_last_id)
    have ne: "ci \<noteq> first" using ciS(2) ts by auto
    have "forest {} {} {} f2 S (mr # [] @ ci # ts @ first # us) k'" using 2(5) ts by simp
    from move_again [OF this m2] obtain f' roots' where 3: "move_children first ci f2 = Some f'" "like f2 f'" "ky f' = ky f2"
      "forest {} {} {} f' S roots' k'" "set roots' = set (mr # [] @ ci # ts @ first # us)" by blast
    then show ?thesis using step ne 2(3,4) ts kp
      by (intro exI [of _ f'] exI [of _ roots'] exI [of _ k']) (auto intro: like_trans)
  qed
next
  case (Cons c cs)
  note f = Cons.prems(1) and p = Cons.prems(2,3)
  have ciS: "ci \<in> S" "ci \<notin> set (mr # ds @ us)" using forest_node(6,7) [OF f p(1), of ci] p(2) by simp_all
  have cS: "c \<notin> set (mr # ds @ us)" using forest_node(7) [OF f p(1), of c] p(2) by simp
  have at: "node_at f ci = Some (nd f ci)" by (rule node_at_in) (rule forest_node(1) [OF f ciS(1)])
  have nx: "next_sibling (nd f ci) = c"
    using ring_next(1) [of "nx f" "pv f" "[]" ci c cs] forest_node(2) [OF f p(1)] p(2) by (simp add: nx_def)
  have d: "distinct (ci # c # cs)" using forest_node(3) [OF f p(1)] p(2) by simp
  then have ne: "c \<noteq> first" using Cons.prems(5) cS by auto
  obtain r f1 f2 where 2: "fheap_node_remove ci f = Some (r, f1)" "fheap_node_add_sibling (min_root f1) ci f1 = Some f2" "like f f2"
    "ky f2 = ky f" "forest {} {} {} f2 S (mr # ci # ds @ us) (kids(p := c # cs))"
    by (rule move_child [OF f p Cons.prems(4)])
  have m2: "min_root f2 = mr" using 2(3) Cons.prems(4) by (simp add: like_def)
  have step: "move_children first ci f = move_children first c f2"
    using 2(1,2) nx ne by (subst move_children.simps) (simp add: at Let_def)
  have "forest {} {} {} f2 S (mr # (ci # ds) @ us) (kids(p := c # cs))" using 2(5) by simp
  from Cons.IH [OF this p(1) _ m2] Cons.prems(5)
  obtain f' roots' kids' where 3: "move_children first c f2 = Some f'" "like f2 f'" "ky f' = ky f2" "forest {} {} {} f' S roots' kids'"
    "kids' p = []" "mr \<in> set roots'" "set roots' \<subseteq> set (c # cs @ mr # (ci # ds) @ us)" by auto
  then show ?case using 2(3,4) unfolding step by (intro exI [of _ f'] exI [of _ roots'] exI [of _ kids']) (auto intro: like_trans)
qed

text \<open>A node without children that is in no ring can be left out.\<close>

lemma drop_node:
  assumes f: "forest {} {} {x} f S roots kids" and x: "kids x = []"
  shows "forest {} {} {} f (S - {x}) roots kids"
proof -
  have "node_ok {} {} f (S - {x}) roots kids y" if "y \<in> S - {x}" for y
    using f that unfolding forest_def node_ok_def by blast
  moreover have "S - {x} \<subseteq> reach (set roots \<union> {}) kids"
  proof
    fix y assume y: "y \<in> S - {x}"
    then have "y \<in> reach (set roots \<union> {x}) kids" using forest_roots(7) [OF f] by blast
    then have "y = x \<or> y \<in> reach (set roots \<union> {}) kids"
    proof induction
      case (reach_kid y c)
      then show ?case using x by (auto intro: reach.reach_kid)
    qed (auto intro: reach.reach_root)
    then show "y \<in> reach (set roots \<union> {}) kids" using y by blast
  qed
  ultimately show ?thesis using forest_roots [OF f] unfolding forest_def by auto
qed

lemma fheap_del_ok:
  assumes ok: "fheap_ok f m" and ni: "ni \<in> dom m" and k: "\<forall>x k. m x = Some k \<longrightarrow> k \<noteq> no_node"
  shows "\<exists>f'. fheap_del f ni = Some f' \<and> fheap_ok f' (m((if pa f ni = no_node then min_root f else ni) := None))
    \<and> length (nodes f') = length (nodes f)"
proof -
  have ne: "m \<noteq> Map.empty" using ni by auto
  note okD = fheap_okD [OF ok ne] and old = fheap_ok_node [OF ok]
  let ?r = "min_root f"
  have i: "in_nodes f ni" using old ni by blast
  note at = node_at_in [OF i]
  show ?thesis
  proof (cases "pa f ni = no_node")
    case True
    obtain f' where "fheap_del_min f = Some (?r, m ?r, f')" "fheap_ok f' (m(?r := None))" "length (nodes f') = length (nodes f)"
      using fheap_del_min_ok [OF ok ne k] by blast
    then show ?thesis using True by (simp add: fheap_del_def at pa_def)
  next
    case False
    have "\<not> lone f (dom m)"
    proof
      assume "lone f (dom m)"
      then have "dom m = {?r}" "pa f ?r = no_node" by (simp_all only: lone_def)
      with ni False show False by simp
    qed
    then obtain rs kids where f: "forest {} {} {} f (dom m) (?r # rs) kids" using okD(4) by blast
    have nr: "ni \<notin> set (?r # rs)" using False forest_roots(5) [OF f] by blast
    then have p: "pa f ni \<in> dom m" "ni \<in> set (kids (pa f ni))" using forest_parent [OF f ni] by auto
    then have pn: "pa f ni \<noteq> ni" using not_own_kid [OF f ni] by auto
    obtain f1 roots1 kids1 where 1: "fheap_mark_parent (pa f ni) f = Some f1" "like f f1" "ky f1 = ky f"
        "forest {} {} {} f1 (dom m) roots1 kids1" "set roots1 \<subseteq> insert (pa f ni) (set (?r # rs))" "set (?r # rs) \<subseteq> set roots1"
      by (rule mark_parent [OF f p(1)]) simp_all
    have r1: "min_root f1 = ?r" using 1(2) by (simp add: like_def)
    have at1: "node_at f1 ni = Some (nd f1 ni)" using i 1(2) by (simp add: node_at_in)
    have nr1: "ni \<notin> set roots1" using 1(5) nr pn by auto
    define moved where "moved = (if first_child (nd f1 ni) = no_node then Some f1 else move_children (first_child (nd f1 ni)) (first_child (nd f1 ni)) f1)"
    have "\<exists>f2 roots2 kids2. moved = Some f2 \<and> like f1 f2 \<and> ky f2 = ky f1 \<and> forest {} {} {} f2 (dom m) roots2 kids2 \<and> kids2 ni = []
        \<and> ?r \<in> set roots2 \<and> ni \<notin> set roots2"
    proof (cases "kids1 ni")
      case Nil
      then have "moved = Some f1" using forest_node(4) [OF 1(4) ni] by (simp add: moved_def fc_def)
      then show ?thesis using 1(4,6) nr1 Nil by (intro exI [of _ f1] exI [of _ roots1] exI [of _ kids1]) auto
    next
      case (Cons c cs)
      then have fc: "first_child (nd f1 ni) = c" using forest_node(4) [OF 1(4) ni] by (simp add: fc_def)
      have cn: "c \<noteq> no_node" "ni \<notin> set (c # cs)"
        using forest_node(6,10) [OF 1(4)] ni Cons not_own_kid [OF 1(4) ni] by auto
      obtain as bs where split: "roots1 = as @ ?r # bs" using 1(6) by (auto simp: in_set_conv_decomp)
      then have "forest {} {} {} f1 (dom m) (as @ ?r # bs) kids1" using 1(4) by simp
      then have f1: "forest {} {} {} f1 (dom m) (?r # [] @ bs @ as) kids1"
        using forest_rotate [of "{}" "{}" "{}" f1 "dom m" as "?r # bs"] by simp
      have "moved = move_children c c f1" using fc cn(1) by (simp add: moved_def)
      moreover obtain f2 roots2 kids2 where 2: "move_children c c f1 = Some f2" "like f1 f2" "ky f2 = ky f1"
        "forest {} {} {} f2 (dom m) roots2 kids2" "kids2 ni = []" "?r \<in> set roots2" "set roots2 \<subseteq> set (c # cs @ ?r # [] @ bs @ as)"
        using move_children [OF f1 ni Cons r1, of c] by auto
      moreover have "ni \<notin> set (c # cs @ ?r # [] @ bs @ as)" using cn(2) nr1 split by auto
      ultimately show ?thesis by (intro exI [of _ f2] exI [of _ roots2] exI [of _ kids2]) auto
    qed
    then obtain f2 roots2 kids2 where 2: "moved = Some f2" "like f1 f2" "ky f2 = ky f1" "forest {} {} {} f2 (dom m) roots2 kids2"
      "kids2 ni = []" "?r \<in> set roots2" "ni \<notin> set roots2" by blast
    have p2: "pa f2 ni \<in> dom m" "ni \<in> set (kids2 (pa f2 ni))" using forest_parent [OF 2(4) ni] 2(7) by auto
    then obtain as bs where k2: "kids2 (pa f2 ni) = as @ ni # bs" by (auto simp: in_set_conv_decomp)
    have pn2: "pa f2 ni \<noteq> ni" using p2 2(5) by auto
    obtain r f3 where 3: "fheap_node_remove_internal ni True f2 = Some (r, f3)" "like f2 f3" "ky f3 = ky f2"
      "forest {} {} {ni} f3 (dom m) roots2 (kids2(pa f2 ni := bs @ as))"
      using detach_child [OF 2(4) p2(1) k2, of True] by (metis empty_Diff)
    have f3: "forest {} {} {} f3 (dom m - {ni}) roots2 (kids2(pa f2 ni := bs @ as))"
      by (rule drop_node [OF 3(4)]) (use 2(5) pn2 in simp)
    have run: "fheap_del f ni = Some f3"
      using False 1(1) at1 2(1) 3(1) unfolding moved_def fheap_del_def
      by (simp add: at fheap_node_remove_and_invalidate_def flip: pa_def)
    have like: "like f f3" using 1(2) 2(2) 3(2) by (meson like_trans)
    have ky: "ky f3 = ky f" using 1(3) 2(3) 3(3) by simp
    have d: "dom (m(ni := None)) = dom m - {ni}" by simp
    have mr: "min_root f3 = ?r" "?r \<in> dom m - {ni}" using like okD(1) nr by (auto simp: like_def)
    have "fheap_ok f3 (m(ni := None))"
      unfolding fheap_ok_def
    proof (intro conjI)
      show "entries (root_list_by_rank f3) = []" using fheap_ok_entries [OF ok] like by (simp add: like_def)
      show "\<forall>x k. (m(ni := None)) x = Some k \<longrightarrow> in_nodes f3 x \<and> ky f3 x = k"
        using old like by (simp add: ky)
      have "m(ni := None) \<noteq> Map.empty" using mr(2) d by (metis dom_empty empty_iff)
      moreover have "ky f3 (min_root f3) \<le> ky f3 x" if "x \<in> dom m - {ni}" for x
        using that okD(3) old unfolding ky mr(1) by fastforce
      ultimately show "if m(ni := None) = Map.empty then min_root f3 = no_node else min_root f3 \<in> dom (m(ni := None))
          \<and> (\<forall>x \<in> dom (m(ni := None)). ky f3 (min_root f3) \<le> ky f3 x)
          \<and> (lone f3 (dom (m(ni := None))) \<or> (\<exists>roots kids. forest {} {} {} f3 (dom (m(ni := None))) roots kids \<and> min_root f3 \<in> set roots))"
        unfolding d using f3 2(6) mr by auto
    qed
    then show ?thesis using run False like by (simp add: like_def)
  qed
qed

section \<open>Reachable heaps\<close>

inductive fheap_reachable :: "fheap \<Rightarrow> (u32 \<rightharpoonup> u32) \<Rightarrow> bool" where
  start: "fheap_reachable (fheap_init ns n) Map.empty"
| add: "fheap_reachable f m \<Longrightarrow> in_nodes f ni \<Longrightarrow> ni \<notin> dom m \<Longrightarrow> k \<noteq> no_node \<Longrightarrow> fheap_add f ni k = Some f' \<Longrightarrow>
    fheap_reachable f' (m(ni \<mapsto> k))"
| decrease: "fheap_reachable f m \<Longrightarrow> m ni = Some k0 \<Longrightarrow> k \<le> k0 \<Longrightarrow> fheap_decrease_key f ni k = Some f' \<Longrightarrow>
    fheap_reachable f' (m(ni \<mapsto> k))"
| del_min: "fheap_reachable f m \<Longrightarrow> fheap_del_min f = Some (i, k, f') \<Longrightarrow> fheap_reachable f' (m(i := None))"
| del: "fheap_reachable f m \<Longrightarrow> ni \<in> dom m \<Longrightarrow> pa f ni \<noteq> no_node \<or> ni = min_root f \<Longrightarrow> fheap_del f ni = Some f' \<Longrightarrow>
    fheap_reachable f' (m(ni := None))"

lemma del_min_empty: "fheap_ok f Map.empty \<Longrightarrow> fheap_del_min f = Some (no_node, None, f)"
  by (simp add: fheap_ok_def fheap_del_min_def)

lemma reachable_ok:
  assumes "fheap_reachable f m"
  shows "fheap_ok f m \<and> (\<forall>x k. m x = Some k \<longrightarrow> k \<noteq> no_node)"
  using assms
proof induction
  case (start ns n)
  then show ?case by (simp add: fheap_init_ok)
next
  case (add f m ni k f')
  then have "fheap_ok f' (m(ni \<mapsto> k))"
    using fheap_add_ok [OF conjunct1 [OF add.IH] add.hyps(2,3), of k] by (elim conjE exE) (simp only: option.inject)
  moreover have "\<forall>x k'. (m(ni \<mapsto> k)) x = Some k' \<longrightarrow> k' \<noteq> no_node" using add.IH add.hyps(4) by simp
  ultimately show ?case by blast
next
  case (decrease f m ni k0 k f')
  then have "k \<noteq> no_node" by (metis word_order.extremum_uniqueI)
  moreover have "fheap_ok f' (m(ni \<mapsto> k))"
    using fheap_decrease_key_ok [OF conjunct1 [OF decrease.IH] decrease.hyps(2,3)] decrease.hyps(4)
    by (elim conjE exE) (simp only: option.inject)
  ultimately have "\<forall>x k'. (m(ni \<mapsto> k)) x = Some k' \<longrightarrow> k' \<noteq> no_node" using decrease.IH by simp
  then show ?case using \<open>fheap_ok f' (m(ni \<mapsto> k))\<close> by blast
next
  case (del_min f m i k f')
  have "fheap_ok f' (m(i := None))"
  proof (cases "m = Map.empty")
    case True
    then show ?thesis using del_min del_min_empty [of f] by (simp add: fun_upd_idem)
  next
    case False
    then show ?thesis
      using fheap_del_min_ok [OF conjunct1 [OF del_min.IH] False conjunct2 [OF del_min.IH]] del_min.hyps(2)
      by (elim conjE exE) (simp only: option.inject prod.inject)
  qed
  moreover have "\<forall>x k'. (m(i := None)) x = Some k' \<longrightarrow> k' \<noteq> no_node" using del_min.IH by simp
  ultimately show ?case by blast
next
  case (del f m ni f')
  then have "(if pa f ni = no_node then min_root f else ni) = ni" by auto
  then have "fheap_ok f' (m(ni := None))" using fheap_del_ok [of f m ni] del by auto
  moreover have "\<forall>x k'. (m(ni := None)) x = Some k' \<longrightarrow> k' \<noteq> no_node" using del.IH by simp
  ultimately show ?case by blast
qed

text \<open>
  C17: A heap that has been worked on through its operations, with keys below the largest one, tells the
  least node and whether it is empty, and every operation on it comes to an end without an
  access to a node that is not there.
\<close>

theorem fheap_refines_map:
  assumes "fheap_reachable f m"
  shows "(fheap_is_empty f \<longleftrightarrow> m = Map.empty)
    \<and> (\<forall>x k. m x = Some k \<longrightarrow> (\<exists>k0. m (fheap_find_min f) = Some k0 \<and> k0 \<le> k))
    \<and> (\<forall>ni k. in_nodes f ni \<and> ni \<notin> dom m \<longrightarrow> (\<exists>f'. fheap_add f ni k = Some f' \<and> fheap_ok f' (m(ni \<mapsto> k))))
    \<and> (\<forall>ni k0 k. m ni = Some k0 \<and> k \<le> k0 \<longrightarrow> (\<exists>f'. fheap_decrease_key f ni k = Some f' \<and> fheap_ok f' (m(ni \<mapsto> k))))
    \<and> (m \<noteq> Map.empty \<longrightarrow> (\<exists>f'. fheap_del_min f = Some (fheap_find_min f, m (fheap_find_min f), f')
         \<and> fheap_ok f' (m(fheap_find_min f := None))))"
proof -
  note ok = conjunct1 [OF reachable_ok [OF assms]] and keys = conjunct2 [OF reachable_ok [OF assms]]
  have "fheap_is_empty f \<longleftrightarrow> m = Map.empty"
    using ok fheap_okD(2) [OF ok] by (auto simp: fheap_is_empty_def in_nodes_def fheap_ok_def)
  moreover have "\<exists>k0. m (fheap_find_min f) = Some k0 \<and> k0 \<le> k" if "m x = Some k" for x k
  proof -
    have "m \<noteq> Map.empty" using that by auto
    from fheap_okD(3,5) [OF ok this] show ?thesis using that by (auto simp: fheap_find_min_def)
  qed
  ultimately show ?thesis
    using fheap_add_ok [OF ok] fheap_decrease_key_ok [OF ok] fheap_del_min_ok [OF ok _ keys]
    unfolding fheap_find_min_def by blast
qed

lemma two_nodes_in: "in_nodes (fheap_init [] 2) 0" "in_nodes (fheap_init [] 2) 1"
  by (simp_all add: in_nodes_def fheap_init_def)

theorem fheap_refines_map_witness:
  "\<exists>f f'. fheap_add (fheap_init [] 2) 1 7 = Some f \<and> fheap_del_min f = Some (fheap_find_min f, [1 \<mapsto> 7] (fheap_find_min f), f')
    \<and> \<not> fheap_is_empty f"
proof -
  have "\<exists>f. fheap_add (fheap_init [] 2) 1 7 = Some f"
    using fheap_add_ok [OF fheap_init_ok two_nodes_in(2)] by fastforce
  then obtain f where f: "fheap_add (fheap_init [] 2) 1 7 = Some f" by blast
  then have "fheap_reachable f (Map.empty(1 \<mapsto> 7))"
    by (intro fheap_reachable.add [OF fheap_reachable.start two_nodes_in(2)]) simp_all
  from fheap_refines_map [OF this] f show ?thesis by auto
qed

section \<open>Order of departure\<close>

text \<open>The interface: a queue that stands for a map and gives the least key at each departure.\<close>

fun drain :: "('q \<Rightarrow> ('h \<times> 'k option \<times> 'q) option) \<Rightarrow> nat \<Rightarrow> 'q \<Rightarrow> 'k list option" where
  "drain del_min 0 q = Some []"
| "drain del_min (Suc n) q =
     (case del_min q of Some (_, Some k, q') \<Rightarrow> map_option (Cons k) (drain del_min n q') | _ \<Rightarrow> None)"

locale least_first =
  fixes stands_for :: "'q \<Rightarrow> ('h \<rightharpoonup> 'k::linorder) \<Rightarrow> bool" and del_min :: "'q \<Rightarrow> ('h \<times> 'k option \<times> 'q) option"
  assumes leaves: "stands_for q m \<Longrightarrow> m \<noteq> Map.empty \<Longrightarrow>
    \<exists>h k q'. del_min q = Some (h, Some k, q') \<and> m h = Some k \<and> (\<forall>x k'. m x = Some k' \<longrightarrow> k \<le> k') \<and> stands_for q' (m(h := None))"
begin

lemma drain_sorts:
  "finite (dom m) \<Longrightarrow> stands_for q m \<Longrightarrow>
    \<exists>ks. drain del_min (card (dom m)) q = Some ks \<and> sorted ks \<and> mset ks = image_mset (\<lambda>x. the (m x)) (mset_set (dom m))"
proof (induction "card (dom m)" arbitrary: m q)
  case 0
  then show ?case by simp
next
  case (Suc n)
  then have "m \<noteq> Map.empty" by auto
  from leaves [OF Suc.prems(2) this] obtain h k q' where d: "del_min q = Some (h, Some k, q')" "m h = Some k"
    "\<forall>x k'. m x = Some k' \<longrightarrow> k \<le> k'" "stands_for q' (m(h := None))" by blast
  have dom: "dom (m(h := None)) = dom m - {h}" "h \<in> dom m" using d(2) by auto
  then have "n = card (dom (m(h := None)))" using Suc.hyps(2) Suc.prems(1) by simp
  from Suc.hyps(1) [OF this _ d(4)] obtain ks where ks: "drain del_min n q' = Some ks" "sorted ks"
      "mset ks = image_mset (\<lambda>x. the ((m(h := None)) x)) (mset_set (dom (m(h := None))))"
    using Suc.prems(1) \<open>n = card (dom (m(h := None)))\<close> by auto
  have "mset ks = image_mset (\<lambda>x. the (m x)) (mset_set (dom m - {h}))"
    unfolding ks(3) dom(1) using Suc.prems(1) by (intro image_mset_cong) simp
  moreover have "mset_set (dom m) = add_mset h (mset_set (dom m - {h}))"
    using Suc.prems(1) dom(2) by (metis mset_set.remove)
  ultimately have all: "mset (k # ks) = image_mset (\<lambda>x. the (m x)) (mset_set (dom m))" using d(2) by simp
  have "k \<le> k'" if "k' \<in> set ks" for k'
  proof -
    have "k' \<in># image_mset (\<lambda>x. the (m x)) (mset_set (dom m))" using that all by (metis insert_iff list.simps(15) set_mset_mset)
    then show ?thesis using d(3) Suc.prems(1) by auto
  qed
  then have "sorted (k # ks)" using ks(2) by simp
  moreover have "drain del_min (card (dom m)) q = Some (k # ks)" using d(1) ks(1) by (simp flip: Suc.hyps(2))
  ultimately show ?case using all by blast
qed

end

interpretation fheap: least_first "\<lambda>f m. fheap_ok f m \<and> (\<forall>x k. m x = Some k \<longrightarrow> k \<noteq> no_node)" fheap_del_min
proof
  fix f m assume a: "fheap_ok f m \<and> (\<forall>x k. m x = Some k \<longrightarrow> k \<noteq> no_node)" "m \<noteq> Map.empty"
  obtain f' where "fheap_del_min f = Some (min_root f, m (min_root f), f')" "fheap_ok f' (m(min_root f := None))"
    using fheap_del_min_ok a by blast
  then show "\<exists>h k q'. fheap_del_min f = Some (h, Some k, q') \<and> m h = Some k \<and> (\<forall>x k'. m x = Some k' \<longrightarrow> k \<le> k')
      \<and> fheap_ok q' (m(h := None)) \<and> (\<forall>x k. (m(h := None)) x = Some k \<longrightarrow> k \<noteq> no_node)"
    using a fheap_okD(3,5) [of f m] by (intro exI [of _ "min_root f"] exI [of _ "ky f (min_root f)"] exI [of _ f']) (auto split: if_splits)
qed

text \<open>
  C18: Taking out the least node until the heap is empty gives the keys in ascending order, each of them
  as often as there are nodes with it.
\<close>

theorem fheap_drains_sorted:
  assumes "fheap_reachable f m"
  shows "\<exists>ks. drain fheap_del_min (card (dom m)) f = Some ks \<and> sorted ks \<and> mset ks = image_mset (\<lambda>x. the (m x)) (mset_set (dom m))"
  using fheap.drain_sorts [OF _ reachable_ok [OF assms]] by simp

theorem fheap_drains_sorted_witness:
  "\<exists>f. fheap_add (fheap_init [] 2) 1 7 = Some f \<and> drain fheap_del_min 1 f = Some [7]"
proof -
  have "\<exists>f. fheap_add (fheap_init [] 2) 1 7 = Some f"
    using fheap_add_ok [OF fheap_init_ok two_nodes_in(2)] by fastforce
  then obtain f where f: "fheap_add (fheap_init [] 2) 1 7 = Some f" by blast
  then have "fheap_reachable f (Map.empty(1 \<mapsto> 7))"
    by (intro fheap_reachable.add [OF fheap_reachable.start two_nodes_in(2)]) simp_all
  from fheap_drains_sorted [OF this] f show ?thesis by auto
qed

section \<open>Where the code does not do this\<close>

text \<open>
  C36: \<open>fheap_del\<close> of a root that is not the least one takes out the least one: without assertions the
  test that the two are the same is gone.
\<close>

theorem fheap_del_takes_least:
  assumes "fheap_reachable f m" "ni \<in> dom m"
  shows "\<exists>f'. fheap_del f ni = Some f' \<and> fheap_ok f' (m((if pa f ni = no_node then fheap_find_min f else ni) := None))"
  using fheap_del_ok assms(2) reachable_ok [OF assms(1)] unfolding fheap_find_min_def by blast

theorem fheap_del_takes_least_witness:
  "\<exists>f f' g. fheap_add (fheap_init [] 2) 1 7 = Some f \<and> fheap_add f 0 9 = Some f' \<and> fheap_del f' 0 = Some g \<and> fheap_ok g [0 \<mapsto> 9]"
proof -
  obtain f where f: "fheap_add (fheap_init [] 2) 1 7 = Some f" "fheap_ok f (Map.empty(1 \<mapsto> 7))" "length (nodes f) = 2"
    using fheap_add_ok [OF fheap_init_ok two_nodes_in(2), of 7] by (auto simp: fheap_init_def)
  have i: "in_nodes f 0" using f(3) by (simp add: in_nodes_def)
  obtain f' where f': "fheap_add f 0 9 = Some f'" "fheap_ok f' ((Map.empty(1 \<mapsto> 7))(0 \<mapsto> 9))"
    using fheap_add_ok [OF f(2) i, of 9] by auto
  have "f' = the (Option.bind (fheap_add (fheap_init [] 2) 1 7) (\<lambda>f. fheap_add f 0 9))" using f f' by simp
  then have place: "pa f' 0 = no_node" "fheap_find_min f' = 1"
    by (simp_all only:) code_simp+
  have reach: "fheap_reachable f' ((Map.empty(1 \<mapsto> 7))(0 \<mapsto> 9))"
    by (rule fheap_reachable.add [OF fheap_reachable.add [OF fheap_reachable.start two_nodes_in(2) _ _ f(1)] i _ _ f'(1)])
      simp_all
  have "((Map.empty(1::u32 \<mapsto> 7))(0 \<mapsto> 9))(1 := None) = [0 \<mapsto> 9]" by (auto simp: fun_eq_iff)
  then show ?thesis using fheap_del_takes_least [OF reach, of 0] place f(1) f'(1) by auto
qed

end
