(* ===== verification/Clib_Heap.thy ===== *)
theory Clib_Heap
  imports Clib_Vec Clib_Byte_Order "HOL-Library.Monad_Syntax"
begin

text \<open>
  Heaps of objects, \<open>src/clib/heap.h\<close> and \<open>src/clib/heap.c\<close>: a vector of objects cut into used and free
  blocks. Each block has an element, and the elements form a doubly linked chain in the order of the
  blocks. Free blocks are listed by the bin of their size; the place in its list is kept in the
  memory of the free block, or in a vector of its own when an object is smaller than that number.

  A pointer to an element is its index, a 32 bit number; the links are differences of indices. \<open>elts\<close> is
  the memory of the vector of elements and \<open>n_elts\<close> its length, so that an element taken from the
  end and made again has its old contents. \<open>objects\<close> is the length of the vector of objects and
  \<open>memory\<close> its bytes. An access outside of a vector is \<open>None\<close>. The bitmap of used elements,
  kept by debugging builds only, is left out.
\<close>

record heap_elt =
  offset :: u32
  next_elt :: u32
  prev_elt :: u32

record heap =
  elts :: "heap_elt list"
  n_elts :: nat
  small_free_elt_free_index :: "u32 list"
  free_elts :: "u32 list"
  free_lists :: "u32 list list"
  head :: u32
  tail :: u32
  used_count :: u32
  max_len :: u32
  elt_bytes :: u32
  flags :: u32
  objects :: nat
  memory :: "u8 list"

definition HEAP_ELT_FREE_BIT :: u32 where
  "HEAP_ELT_FREE_BIT = 2147483648"

definition HEAP_SMALL_BINS :: nat where
  "HEAP_SMALL_BINS = 32"

definition HEAP_N_BINS :: nat where
  "HEAP_N_BINS = 2 * HEAP_SMALL_BINS"

definition HEAP_IS_STATIC :: u32 where
  "HEAP_IS_STATIC = 1"

definition heap_is_free :: "heap_elt \<Rightarrow> bool" where
  "heap_is_free e \<longleftrightarrow> offset e AND HEAP_ELT_FREE_BIT \<noteq> 0"

definition heap_offset :: "heap_elt \<Rightarrow> uword" where
  "heap_offset e = ucast (offset e AND NOT HEAP_ELT_FREE_BIT)"

definition elt_at :: "heap \<Rightarrow> u32 \<Rightarrow> heap_elt option" where
  "elt_at h i = (if unat i < n_elts h then Some (elts h ! unat i) else None)"

definition modify_elt :: "u32 \<Rightarrow> (heap_elt \<Rightarrow> heap_elt) \<Rightarrow> heap \<Rightarrow> heap option" where
  "modify_elt i g h = map_option (\<lambda>e. h\<lparr>elts := (elts h)[unat i := g e]\<rparr>) (elt_at h i)"

definition heap_next :: "heap \<Rightarrow> u32 \<Rightarrow> u32 option" where
  "heap_next h e = map_option (\<lambda>x. e + next_elt x) (elt_at h e)"

definition heap_prev :: "heap \<Rightarrow> u32 \<Rightarrow> u32 option" where
  "heap_prev h e = map_option (\<lambda>x. e + prev_elt x) (elt_at h e)"

definition heap_elt_size :: "heap \<Rightarrow> u32 \<Rightarrow> uword option" where
  "heap_elt_size h e = do {
     x \<leftarrow> elt_at h e;
     n \<leftarrow> heap_next h e;
     next_offset \<leftarrow> (if n \<noteq> e then map_option heap_offset (elt_at h n) else Some (of_nat (objects h)));
     Some (next_offset - heap_offset x)
   }"

section \<open>Bins\<close>

definition size_to_bin :: "uword \<Rightarrow> nat" where
  "size_to_bin sz =
     (if sz \<le> of_nat HEAP_SMALL_BINS
      then if sz = 0 then 0 else unat (sz - 1)
      else let bin = HEAP_SMALL_BINS + max_log2 sz - (5 + 1)
           in if HEAP_N_BINS \<le> bin then HEAP_N_BINS - 1 else bin)"

definition bin_to_size :: "nat \<Rightarrow> uword" where
  "bin_to_size bin =
     (if bin \<le> HEAP_SMALL_BINS - 1 then of_nat bin + 1 else push_bit ((bin - HEAP_SMALL_BINS) + 5 + 1) 1)"

section \<open>The chain of elements\<close>

definition elt_delete :: "u32 \<Rightarrow> heap \<Rightarrow> heap option" where
  "elt_delete e h = do {
     let l = of_nat (n_elts h) - 1;
     p \<leftarrow> heap_prev h e;
     n \<leftarrow> heap_next h e;
     h \<leftarrow> (if p = e then
             map_option (\<lambda>h. h\<lparr>head := n\<rparr>) (modify_elt n (\<lambda>x. x\<lparr>prev_elt := 0\<rparr>) h)
           else if n = e then
             map_option (\<lambda>h. h\<lparr>tail := p\<rparr>) (modify_elt p (\<lambda>x. x\<lparr>next_elt := 0\<rparr>) h)
           else
             modify_elt p (\<lambda>x. x\<lparr>next_elt := n - p\<rparr>) h \<bind> modify_elt n (\<lambda>x. x\<lparr>prev_elt := p - n\<rparr>));
     Some (if e < l then h\<lparr>free_elts := free_elts h @ [e]\<rparr> else h\<lparr>n_elts := n_elts h - 1\<rparr>)
   }"

definition elt_insert_before :: "u32 \<Rightarrow> u32 \<Rightarrow> heap \<Rightarrow> heap option" where
  "elt_insert_before e new h = do {
     p \<leftarrow> heap_prev h e;
     if p = e then do {
       h \<leftarrow> modify_elt new (\<lambda>x. x\<lparr>prev_elt := 0, next_elt := e - new\<rparr>) h;
       h \<leftarrow> modify_elt p (\<lambda>x. x\<lparr>prev_elt := new - p\<rparr>) h;
       Some (h\<lparr>head := new\<rparr>)
     } else do {
       h \<leftarrow> modify_elt new (\<lambda>x. x\<lparr>prev_elt := p - new, next_elt := e - new\<rparr>) h;
       h \<leftarrow> modify_elt e (\<lambda>x. x\<lparr>prev_elt := new - e\<rparr>) h;
       modify_elt p (\<lambda>x. x\<lparr>next_elt := new - p\<rparr>) h
     }
   }"

definition elt_insert_after :: "u32 \<Rightarrow> u32 \<Rightarrow> heap \<Rightarrow> heap option" where
  "elt_insert_after e new h = do {
     n \<leftarrow> heap_next h e;
     if n = e then do {
       h \<leftarrow> modify_elt new (\<lambda>x. x\<lparr>next_elt := 0, prev_elt := e - new\<rparr>) h;
       h \<leftarrow> modify_elt e (\<lambda>x. x\<lparr>next_elt := new - e\<rparr>) h;
       Some (h\<lparr>tail := new\<rparr>)
     } else do {
       h \<leftarrow> modify_elt new (\<lambda>x. x\<lparr>prev_elt := e - new, next_elt := n - new\<rparr>) h;
       h \<leftarrow> modify_elt e (\<lambda>x. x\<lparr>next_elt := new - e\<rparr>) h;
       modify_elt n (\<lambda>x. x\<lparr>prev_elt := new - n\<rparr>) h
     }
   }"

definition zero_elt :: heap_elt where
  "zero_elt = \<lparr>offset = 0, next_elt = 0, prev_elt = 0\<rparr>"

definition elt_new :: "heap \<Rightarrow> u32 \<times> heap" where
  "elt_new h =
     (if free_elts h \<noteq> [] then (last (free_elts h), h\<lparr>free_elts := butlast (free_elts h)\<rparr>)
      else (of_nat (n_elts h),
        h\<lparr>n_elts := n_elts h + 1, elts := (if n_elts h < length (elts h) then elts h else elts h @ [zero_elt])\<rparr>))"

section \<open>Free lists\<close>

text \<open>A 32 bit number at an address.\<close>

definition get_u32 :: "u8 list \<Rightarrow> nat \<Rightarrow> u32" where
  "get_u32 m p = word_of (take 4 (drop p m))"

definition put_u32 :: "u8 list \<Rightarrow> nat \<Rightarrow> u32 \<Rightarrow> u8 list" where
  "put_u32 m p x = take p m @ bytes_of 4 x @ drop (p + 4) m"

definition elt_data :: "heap \<Rightarrow> heap_elt \<Rightarrow> nat" where
  "elt_data h e = unat (heap_offset e) * unat (elt_bytes h)"

definition set_free_elt :: "u32 \<Rightarrow> u32 \<Rightarrow> heap \<Rightarrow> heap option" where
  "set_free_elt e fi h = do {
     h \<leftarrow> modify_elt e (\<lambda>x. x\<lparr>offset := offset x OR HEAP_ELT_FREE_BIT\<rparr>) h;
     x \<leftarrow> elt_at h e;
     if 4 \<le> elt_bytes h
     then if elt_data h x + 4 \<le> length (memory h) then Some (h\<lparr>memory := put_u32 (memory h) (elt_data h x) fi\<rparr>) else None
     else let small = small_free_elt_free_index h;
              small = small @ replicate (unat e + 1 - length small) 0
          in Some (h\<lparr>small_free_elt_free_index := small[unat e := fi]\<rparr>)
   }"

definition get_free_elt :: "heap \<Rightarrow> u32 \<Rightarrow> (nat \<times> nat) option" where
  "get_free_elt h e = do {
     x \<leftarrow> elt_at h e;
     sz \<leftarrow> heap_elt_size h e;
     fi \<leftarrow> (if 4 \<le> elt_bytes h
       then if elt_data h x + 4 \<le> length (memory h) then Some (get_u32 (memory h) (elt_data h x)) else None
       else if unat e < length (small_free_elt_free_index h) then Some (small_free_elt_free_index h ! unat e) else None);
     Some (unat fi, size_to_bin sz)
   }"

text \<open>\<open>vec_validate (h->free_lists, b)\<close> and the addition of an element to list \<open>b\<close>.\<close>

definition validate_list :: "nat \<Rightarrow> u32 list list \<Rightarrow> u32 list list" where
  "validate_list b ls = ls @ replicate (b + 1 - length ls) []"

definition add_to_list :: "nat \<Rightarrow> u32 \<Rightarrow> heap \<Rightarrow> heap" where
  "add_to_list b e h =
     (let ls = validate_list b (free_lists h) in h\<lparr>free_lists := ls[b := ls ! b @ [e]]\<rparr>)"

definition remove_free_block :: "nat \<Rightarrow> nat \<Rightarrow> heap \<Rightarrow> heap option" where
  "remove_free_block b i h =
     (if length (free_lists h) \<le> b \<or> length (free_lists h ! b) \<le> i then None
      else let fl = free_lists h ! b; l = length fl
           in do {
             h \<leftarrow> (if i < l - 1
               then set_free_elt (fl ! (l - 1)) (of_nat i) (h\<lparr>free_lists := (free_lists h)[b := fl[i := fl ! (l - 1)]]\<rparr>)
               else Some h);
             Some (h\<lparr>free_lists := (free_lists h)[b := butlast (free_lists h ! b)]\<rparr>)
           })"

text \<open>
  The loop over a free list from its end: the place of the first block found that is large enough, and how
  much larger it is. When there is none, the source also takes the number in front of the list, which is its
  length, for an element and reads the size of that one, of which it makes nothing. The element may lie
  outside of the vector; \<open>mapped\<close> tells that the memory there can be read.
\<close>

fun find_fit :: "bool \<Rightarrow> heap \<Rightarrow> uword \<Rightarrow> u32 list \<Rightarrow> nat \<Rightarrow> (nat \<times> uword) option option" where
  "find_fit mapped h sz fl 0 =
     (if mapped \<or> heap_elt_size h (of_nat (length fl)) \<noteq> None then Some None else None)"
| "find_fit mapped h sz fl (Suc l) = do {
     f_size \<leftarrow> heap_elt_size h (fl ! l);
     let s = f_size - sz;
     if 0 \<le> sint s then Some (Some (l, s)) else find_fit mapped h sz fl l
   }"

fun search_bins :: "bool \<Rightarrow> heap \<Rightarrow> uword \<Rightarrow> nat list \<Rightarrow> (nat \<times> nat \<times> uword) option option" where
  "search_bins mapped h sz [] = Some None"
| "search_bins mapped h sz (b # bs) =
     (if free_lists h ! b = [] then search_bins mapped h sz bs
      else do {
        r \<leftarrow> find_fit mapped h sz (free_lists h ! b) (length (free_lists h ! b));
        case r of Some (l, s) \<Rightarrow> Some (Some (b, l, s)) | None \<Rightarrow> search_bins mapped h sz bs
      })"

definition search_free_list :: "bool \<Rightarrow> uword \<Rightarrow> heap \<Rightarrow> (u32 \<times> heap) option option" where
  "search_free_list mapped sz h = do {
     r \<leftarrow> search_bins mapped h sz [size_to_bin sz..<length (free_lists h)];
     case r of None \<Rightarrow> Some None
     | Some (b, l, s) \<Rightarrow> do {
         let f = free_lists h ! b ! l;
         (u, fb, h) \<leftarrow> (if s = 0 then Some (f, HEAP_N_BINS, h)
           else let (u, h) = elt_new h in do {
             h \<leftarrow> elt_insert_after f u h;
             Some (u, size_to_bin s, h)
           });
         fe \<leftarrow> elt_at h f;
         h \<leftarrow> modify_elt u (\<lambda>x. x\<lparr>offset := ucast (heap_offset fe + s)\<rparr>) h;
         h \<leftarrow> (if fb \<noteq> b
           then do {
             h \<leftarrow> (if fb < HEAP_N_BINS
               then let i = length (validate_list fb (free_lists h) ! fb)
                    in set_free_elt f (of_nat i) (add_to_list fb f h)
               else Some h);
             remove_free_block b l h
           }
           else Some h);
         Some (Some (u, h))
       }
   }"

section \<open>Combination of free blocks\<close>

record free_elt =
  fe_index :: u32
  fe_bin :: nat
  fe_bin_index :: nat

text \<open>The loop that fills the array of three records; more would not fit.\<close>

fun free_run :: "nat \<Rightarrow> heap \<Rightarrow> u32 \<Rightarrow> u32 \<Rightarrow> (free_elt list \<times> uword) option" where
  "free_run 0 h e e1 = None"
| "free_run (Suc n) h e e1 = do {
     (ti, tb) \<leftarrow> get_free_elt h e;
     if length (free_lists h) \<le> tb \<or> length (free_lists h ! tb) \<le> ti then None
     else do {
       let f = \<lparr>fe_index = free_lists h ! tb ! ti, fe_bin = tb, fe_bin_index = ti\<rparr>;
       sz \<leftarrow> heap_elt_size h (fe_index f);
       if e = e1 then Some ([f], sz)
       else do {
         e' \<leftarrow> heap_next h e;
         (fs, total) \<leftarrow> free_run n h e' e1;
         Some (f # fs, sz + total)
       }
     }
   }"

fun delete_unused :: "u32 \<Rightarrow> free_elt list \<Rightarrow> heap \<Rightarrow> heap option" where
  "delete_unused g [] h = Some h"
| "delete_unused g (f # fs) h =
     (if g \<noteq> fe_index f
      then do {
        (ti, tb) \<leftarrow> get_free_elt h (fe_index f);
        h \<leftarrow> remove_free_block tb ti h;
        h \<leftarrow> elt_delete (fe_index f) h;
        delete_unused g fs h
      }
      else delete_unused g fs h)"

definition combine_free_blocks :: "u32 \<Rightarrow> u32 \<Rightarrow> heap \<Rightarrow> heap option" where
  "combine_free_blocks e0 e1 h = do {
     (f, total_size) \<leftarrow> free_run 3 h e0 e1;
     let b = size_to_bin total_size;
     (g_index, g_bin_index, h) \<leftarrow> (case find (\<lambda>x. fe_bin x = b) f of
       Some g \<Rightarrow> Some (fe_index g, fe_bin_index g, h)
     | None \<Rightarrow> let (g, h) = elt_new h;
                    i = length (validate_list b (free_lists h) ! b)
                in map_option (\<lambda>h. (g, i, h)) (elt_insert_before (fe_index (hd f)) g (add_to_list b g h)));
     x \<leftarrow> elt_at h (fe_index (hd f));
     h \<leftarrow> delete_unused g_index f h;
     h \<leftarrow> modify_elt g_index (\<lambda>y. y\<lparr>offset := offset x\<rparr>) h;
     set_free_elt g_index (of_nat g_bin_index) h
   }"

definition dealloc_elt :: "u32 \<Rightarrow> heap \<Rightarrow> heap option" where
  "dealloc_elt e h = do {
     sz \<leftarrow> heap_elt_size h e;
     let b = size_to_bin sz;
     let l = length (validate_list b (free_lists h) ! b);
     h \<leftarrow> set_free_elt e (of_nat l) (add_to_list b e h);
     p \<leftarrow> heap_prev h e;
     pe \<leftarrow> elt_at h p;
     let p = (if heap_is_free pe then p else e);
     n \<leftarrow> heap_next h e;
     ne \<leftarrow> elt_at h n;
     let n = (if heap_is_free ne then n else e);
     if p \<noteq> n then combine_free_blocks p n h else Some h
   }"

section \<open>Allocation\<close>

definition empty_heap :: heap where
  "empty_heap = \<lparr>elts = [], n_elts = 0, small_free_elt_free_index = [], free_elts = [], free_lists = [], head = 0, tail = 0,
     used_count = 0, max_len = 0, elt_bytes = 0, flags = 0, objects = 0, memory = []\<rparr>"

definition heap_new :: "u32 \<Rightarrow> u32 \<Rightarrow> heap" where
  "heap_new len n_elt_bytes =
     empty_heap\<lparr>objects := unat len, memory := replicate (unat (len * n_elt_bytes)) 0, elt_bytes := n_elt_bytes\<rparr>"

definition heap_set_max_len :: "heap \<Rightarrow> uword \<Rightarrow> heap" where
  "heap_set_max_len h n = h\<lparr>max_len := ucast n\<rparr>"

definition heap_get_max_len :: "heap option \<Rightarrow> uword" where
  "heap_get_max_len v = (case v of None \<Rightarrow> 0 | Some h \<Rightarrow> ucast (max_len h))"

text \<open>A heap in memory of the caller: the header and the length in front of the objects take the first 76 bytes.\<close>

definition heap_create_from_memory :: "u8 list \<Rightarrow> uword \<Rightarrow> uword \<Rightarrow> heap option" where
  "heap_create_from_memory mem n bytes =
     (if n * bytes < 72 then None
      else Some (empty_heap\<lparr>max_len := ucast n, elt_bytes := ucast bytes, flags := HEAP_IS_STATIC,
        memory := drop (vec_header_bytes 72) mem\<rparr>))"

text \<open>More objects at the end. A vector that is grown has zeros there.\<close>

definition heap_grow :: "heap option \<Rightarrow> uword \<Rightarrow> u32 \<Rightarrow> heap" where
  "heap_grow v align_size bytes =
     (let h = (case v of None \<Rightarrow> empty_heap | Some h \<Rightarrow> h);
          n = objects h + unat align_size;
          need = n * unat bytes;
          h = (if v = None \<or> flags h AND HEAP_IS_STATIC = 0
            then h\<lparr>objects := n, memory := memory h @ replicate (need - length (memory h)) 0\<rparr>
            else h\<lparr>objects := n\<rparr>)
      in if n = unat align_size then h\<lparr>elt_bytes := bytes\<rparr> else h)"

text \<open>The object moves up to its alignment, the fragments before and behind it are freed.\<close>

definition heap_align :: "u32 \<Rightarrow> uword \<Rightarrow> uword \<Rightarrow> uword \<Rightarrow> heap \<Rightarrow> heap option" where
  "heap_align e sz align align_size h = do {
     x \<leftarrow> elt_at h e;
     let old_offset = (ucast (offset x) :: uword);
     let new_offset = (old_offset + align - 1) AND NOT (align - 1);
     h \<leftarrow> modify_elt e (\<lambda>x. x\<lparr>offset := ucast new_offset\<rparr>) h;
     h \<leftarrow> (if old_offset < new_offset
       then let (before_e, h) = elt_new h in
         modify_elt before_e (\<lambda>x. x\<lparr>offset := ucast old_offset\<rparr>) h \<bind> elt_insert_before e before_e \<bind> dealloc_elt before_e
       else Some h);
     if new_offset + sz < old_offset + align_size
     then let (after_e, h) = elt_new h in
       modify_elt after_e (\<lambda>x. x\<lparr>offset := ucast (new_offset + sz)\<rparr>) h \<bind> elt_insert_after e after_e \<bind> dealloc_elt after_e
     else Some h
   }"

text \<open>The results are the offset and the handle, both \<open>~0\<close> when there is no room, and the heap.\<close>

definition heap_alloc :: "bool \<Rightarrow> heap option \<Rightarrow> uword \<Rightarrow> uword \<Rightarrow> u32 \<Rightarrow> (uword \<times> uword \<times> heap option) option" where
  "heap_alloc mapped v sz align bytes =
     (if sz = 0 then Some (- 1, - 1, v)
      else let (align, align_size) =
                 (if align \<le> 1 then (0, sz) else let align = max_pow2 align in (align, sz + align - 1))
           in do {
             found \<leftarrow> (case v of None \<Rightarrow> Some None | Some h \<Rightarrow> search_free_list mapped align_size h);
             let offset' = (case v of None \<Rightarrow> 0 | Some h \<Rightarrow> of_nat (objects h));
             let max = heap_get_max_len v;
             if found = None \<and> max \<noteq> 0 \<and> max < offset' + align_size then Some (- 1, - 1, v)
             else do {
               (e, h) \<leftarrow> (case found of Some r \<Rightarrow> Some r
                 | None \<Rightarrow> let (e, h) = elt_new (heap_grow v align_size bytes) in do {
                     h \<leftarrow> modify_elt e (\<lambda>x. x\<lparr>offset := ucast offset'\<rparr>) h;
                     h \<leftarrow> elt_insert_after (tail h) e h;
                     Some (e, h)
                   });
               h \<leftarrow> (if 0 < align then heap_align e sz align align_size h else Some h);
               x \<leftarrow> elt_at h e;
               Some (ucast (offset x), ucast e, Some (h\<lparr>used_count := used_count h + 1\<rparr>))
             }
           })"

definition heap_dealloc :: "heap \<Rightarrow> u32 \<Rightarrow> heap option" where
  "heap_dealloc h handle = dealloc_elt handle (h\<lparr>used_count := used_count h - 1\<rparr>)"

section \<open>Queries\<close>

definition heap_len :: "heap \<Rightarrow> u32 \<Rightarrow> uword option" where
  "heap_len h handle = heap_elt_size h handle"

definition heap_elts :: "heap \<Rightarrow> u32" where
  "heap_elts h = used_count h"

definition heap_is_free_handle :: "heap \<Rightarrow> u32 \<Rightarrow> bool option" where
  "heap_is_free_handle h handle = map_option heap_is_free (elt_at h handle)"

text \<open>The object of a handle, as its index in the vector.\<close>

definition heap_elt_with_handle :: "heap \<Rightarrow> u32 \<Rightarrow> uword option" where
  "heap_elt_with_handle h handle = map_option heap_offset (elt_at h handle)"

text \<open>The index and the length of the objects the body runs on, in order.\<close>

partial_function (option) foreach_from :: "heap \<Rightarrow> u32 \<Rightarrow> (uword \<times> uword) list option" where
  "foreach_from h e = do {
     x \<leftarrow> elt_at h e;
     sz \<leftarrow> heap_elt_size h e;
     n \<leftarrow> heap_next h e;
     rest \<leftarrow> (if e = tail h then Some [] else foreach_from h n);
     Some (if heap_is_free x then rest else (heap_offset x, sz) # rest)
   }"

definition heap_foreach :: "heap option \<Rightarrow> (uword \<times> uword) list option" where
  "heap_foreach v = (case v of None \<Rightarrow> Some [] | Some h \<Rightarrow> if objects h = 0 then Some [] else foreach_from h (head h))"

definition heap_dup :: "heap option \<Rightarrow> heap option" where
  "heap_dup v = map_option (\<lambda>h. h\<lparr>elts := take (n_elts h) (elts h), memory := take (objects h * unat (elt_bytes h)) (memory h)\<rparr>) v"

end
