(* ===== verification/Clib_Heap_Laws.thy ===== *)
theory Clib_Heap_Laws
  imports Clib_Heap
begin

text \<open>
  The chain of elements of \<open>Clib_Heap\<close>, the sizes of the blocks, and the free lists: what each
  operation on them does.
\<close>

section \<open>Bins\<close>

lemma max_log2_bounds:
  assumes "1 < unat x" "unat x \<le> 2 ^ 63"
  shows "unat x \<le> 2 ^ max_log2 x" "2 ^ (max_log2 x - 1) < unat x" "0 < max_log2 x"
proof -
  have x: "x \<noteq> 0" using assms(1) by auto
  note k = min_log2_spec(3) [OF x] min_log2_bounds(1) [OF x] min_log2_bounds(2) [of x]
  have less: "(2 ^ min_log2 x < x) = (2 ^ min_log2 x < unat x)"
    by (simp add: word_less_nat_alt unat_exp_u64 k)
  show "unat x \<le> 2 ^ max_log2 x"
    using k(3) by (auto simp: max_log2_def Let_def less)
  show "0 < max_log2 x" using assms(1) by (cases "min_log2 x = 0") (auto simp: max_log2_def Let_def word_less_nat_alt)
  show "2 ^ (max_log2 x - 1) < unat x"
  proof (cases "2 ^ min_log2 x < unat x")
    case False
    then have "unat x = 2 ^ min_log2 x" "max_log2 x = min_log2 x" using k(2) by (auto simp: max_log2_def Let_def less)
    then show ?thesis using \<open>0 < max_log2 x\<close> by (simp add: power_strict_increasing)
  qed (simp add: max_log2_def Let_def less)
qed

definition bin :: "nat \<Rightarrow> nat" where
  "bin n = size_to_bin (of_nat n)"

lemma bin_small: "0 < n \<Longrightarrow> n \<le> 32 \<Longrightarrow> bin n = n - 1"
  using unat_of_nat_u64 [of n] unat_sub_u64 [of 1 "of_nat n"]
  by (auto simp: bin_def size_to_bin_def HEAP_SMALL_BINS_def word_le_nat_alt)

lemma bin_large:
  assumes "32 < n" "n < 2 ^ 32"
  shows "\<exists>k. bin n = 26 + k \<and> 6 \<le> k \<and> k \<le> 32 \<and> 2 ^ (k - 1) < n \<and> n \<le> 2 ^ k"
proof -
  have u: "unat (of_nat n :: uword) = n" using unat_of_nat_u64 [of n] assms(2) by simp
  let ?k = "max_log2 (of_nat n)"
  have b: "n \<le> 2 ^ ?k" "2 ^ (?k - 1) < n" "0 < ?k"
    using max_log2_bounds [of "of_nat n"] assms unfolding u by simp_all
  have "(2 :: nat) ^ 5 < 2 ^ ?k" using b(1) assms(1) by (simp add: order_less_le_trans)
  then have "5 < ?k" by (rule power_less_imp_less_exp [rotated]) simp
  then have k6: "6 \<le> ?k" by simp
  have "(2 :: nat) ^ (?k - 1) < 2 ^ 32" using b(2) assms(2) by (rule order_less_trans)
  then have "?k - 1 < 32" by (rule power_less_imp_less_exp [rotated]) simp
  then have k32: "?k \<le> 32" by simp
  have "bin n = 26 + ?k"
    using k6 k32 assms u by (simp add: bin_def size_to_bin_def HEAP_SMALL_BINS_def HEAP_N_BINS_def word_le_nat_alt Let_def)
  with k6 k32 b(2,1) show ?thesis by blast
qed

lemma bin_less: "0 < n \<Longrightarrow> n < 2 ^ 32 \<Longrightarrow> bin n < HEAP_N_BINS"
  using bin_large [of n] by (cases "n \<le> 32") (auto simp: bin_small HEAP_N_BINS_def HEAP_SMALL_BINS_def)

text \<open>A larger block is in no lower bin, and no bin holds two parts of a block together with the block.\<close>

lemma bin_mono:
  assumes "0 < m" "m \<le> n" "n < 2 ^ 32"
  shows "bin m \<le> bin n"
proof (cases "n \<le> 32")
  case True
  then show ?thesis using assms by (simp add: bin_small)
next
  case False
  then obtain k where k: "bin n = 26 + k" "6 \<le> k" "n \<le> 2 ^ k" using assms(3) bin_large [of n] by auto
  show ?thesis
  proof (cases "m \<le> 32")
    case False
    then obtain j where j: "bin m = 26 + j" "6 \<le> j" "2 ^ (j - 1) < m" using assms bin_large [of m] by auto
    then have "(2 :: nat) ^ (j - 1) < 2 ^ k" using assms(2) k(3) by linarith
    then have "j - 1 < k" using power_less_imp_less_exp [of "2 :: nat" "j - 1" k] by simp
    then show ?thesis using j k by simp
  qed (use assms k in \<open>simp add: bin_small\<close>)
qed

lemma bin_parts:
  assumes "0 < a" "0 < b" "a + b \<le> n" "n < 2 ^ 32" "bin a = bin n" "bin b = bin n"
  shows False
proof (cases "n \<le> 32")
  case True
  then show ?thesis using assms by (simp add: bin_small)
next
  case False
  then obtain k where k: "bin n = 26 + k" "6 \<le> k" "n \<le> 2 ^ k" using assms(4) bin_large [of n] by auto
  have large: "2 ^ (k - 1) < m" if "0 < m" "m < 2 ^ 32" "bin m = bin n" for m
  proof (cases "m \<le> 32")
    case True
    then have "m - 1 = 26 + k" using that bin_small [of m] k by simp
    then show ?thesis using k(2) True by simp
  next
    case False
    then obtain j where "bin m = 26 + j" "2 ^ (j - 1) < m" using bin_large [of m] \<open>m < 2 ^ 32\<close> by auto
    then show ?thesis using that k by simp
  qed
  have "2 ^ (k - 1) + 2 ^ (k - 1) < a + b" using large [of a] large [of b] assms by simp
  moreover have "2 ^ (k - 1) + 2 ^ (k - 1) = (2 :: nat) ^ k" using k(2) by (cases k) simp_all
  ultimately show ?thesis using assms(3) k(3) by simp
qed

section \<open>Elements and their fields\<close>

definition in_elts :: "heap \<Rightarrow> u32 \<Rightarrow> bool" where
  "in_elts h e \<longleftrightarrow> unat e < n_elts h \<and> n_elts h \<le> length (elts h)"

definition el :: "heap \<Rightarrow> u32 \<Rightarrow> heap_elt" where
  "el h e = elts h ! unat e"

definition nx :: "heap \<Rightarrow> u32 \<Rightarrow> u32" where "nx h e = e + next_elt (el h e)"
definition pv :: "heap \<Rightarrow> u32 \<Rightarrow> u32" where "pv h e = e + prev_elt (el h e)"
definition ofs :: "heap \<Rightarrow> u32 \<Rightarrow> nat" where "ofs h e = unat (heap_offset (el h e))"
definition fr :: "heap \<Rightarrow> u32 \<Rightarrow> bool" where "fr h e \<longleftrightarrow> heap_is_free (el h e)"

lemma elt_at_in: "in_elts h e \<Longrightarrow> elt_at h e = Some (el h e)"
  by (simp add: elt_at_def in_elts_def el_def)

lemma next_in: "in_elts h e \<Longrightarrow> heap_next h e = Some (nx h e)"
  by (simp add: heap_next_def elt_at_in nx_def)

lemma prev_in: "in_elts h e \<Longrightarrow> heap_prev h e = Some (pv h e)"
  by (simp add: heap_prev_def elt_at_in pv_def)

text \<open>Everything but the elements is the same, and the pool of elements has the same size.\<close>

definition same_data :: "heap \<Rightarrow> heap \<Rightarrow> bool" where
  "same_data h g \<longleftrightarrow> objects g = objects h \<and> memory g = memory h \<and> free_lists g = free_lists h
     \<and> small_free_elt_free_index g = small_free_elt_free_index h \<and> elt_bytes g = elt_bytes h \<and> max_len g = max_len h
     \<and> flags g = flags h \<and> used_count g = used_count h"

definition same_pool :: "heap \<Rightarrow> heap \<Rightarrow> bool" where
  "same_pool h g \<longleftrightarrow> n_elts g = n_elts h \<and> free_elts g = free_elts h \<and> length (elts g) = length (elts h)"

lemma same_data_refl [simp]: "same_data h h" by (simp add: same_data_def)
lemma same_pool_refl [simp]: "same_pool h h" by (simp add: same_pool_def)
lemma same_data_trans: "same_data h g \<Longrightarrow> same_data g k \<Longrightarrow> same_data h k" by (simp add: same_data_def)
lemma same_pool_trans: "same_pool h g \<Longrightarrow> same_pool g k \<Longrightarrow> same_pool h k" by (simp add: same_pool_def)
lemma same_pool_in: "same_pool h g \<Longrightarrow> in_elts g e = in_elts h e" by (simp add: same_pool_def in_elts_def)

lemma modify_elt_in:
  assumes "in_elts h e"
  obtains h' where "modify_elt e f h = Some h'" "same_data h h'" "same_pool h h'" "head h' = head h" "tail h' = tail h"
    "el h' = (el h)(e := f (el h e))"
proof
  let ?h = "h\<lparr>elts := (elts h)[unat e := f (el h e)]\<rparr>"
  show "modify_elt e f h = Some ?h" using assms by (simp add: modify_elt_def elt_at_in)
  show "same_data h ?h" "same_pool h ?h" "head ?h = head h" "tail ?h = tail h" by (simp_all add: same_data_def same_pool_def)
  show "el ?h = (el h)(e := f (el h e))"
    using assms by (intro ext) (auto simp: el_def in_elts_def nth_list_update word_unat_eq_iff)
qed

section \<open>The chain\<close>

text \<open>
  The elements of \<open>cs\<close> are linked in this order; every element is in the chain, in the vector of free elements, or
  in the set \<open>D\<close> of those that are in neither for the moment.
\<close>

definition links :: "heap \<Rightarrow> u32 list \<Rightarrow> u32 set \<Rightarrow> bool" where
  "links h cs D \<longleftrightarrow> n_elts h \<le> length (elts h) \<and> n_elts h \<le> objects h + 1 \<and> objects h < 2 ^ 31
     \<and> distinct cs \<and> distinct (free_elts h) \<and> set cs \<inter> set (free_elts h) = {} \<and> (set cs \<union> set (free_elts h)) \<inter> D = {}
     \<and> set cs \<union> set (free_elts h) \<union> D = {e. in_elts h e} \<and> cs \<noteq> []
     \<and> chain (nx h) (pv h) cs \<and> pv h (hd cs) = hd cs \<and> nx h (last cs) = last cs \<and> head h = hd cs \<and> tail h = last cs"

lemma linksD:
  assumes "links h cs D"
  shows "n_elts h \<le> length (elts h)" "n_elts h \<le> objects h + 1" "objects h < 2 ^ 31" "distinct cs" "distinct (free_elts h)"
    "set cs \<inter> set (free_elts h) = {}" "(set cs \<union> set (free_elts h)) \<inter> D = {}" "set cs \<union> set (free_elts h) \<union> D = {e. in_elts h e}"
    "cs \<noteq> []" "chain (nx h) (pv h) cs" "pv h (hd cs) = hd cs" "nx h (last cs) = last cs" "head h = hd cs" "tail h = last cs"
  using assms by (simp_all add: links_def)

lemma links_in: "links h cs D \<Longrightarrow> e \<in> set cs \<or> e \<in> D \<Longrightarrow> in_elts h e"
  using linksD(8) [of h cs D] by blast

text \<open>The neighbours of an element.\<close>

lemma links_next:
  assumes "links h (as @ x # bs) D"
  shows "nx h x = (case bs of [] \<Rightarrow> x | y # _ \<Rightarrow> y)"
proof -
  note l = linksD(10,12) [OF assms]
  have "chain (nx h) (pv h) (x # bs)" using l(1) by (subst (asm) chain_append) blast
  then show ?thesis using l(2) by (cases bs) auto
qed

lemma links_prev:
  assumes "links h (as @ x # bs) D"
  shows "pv h x = (if as = [] then x else last as)"
proof (cases as rule: rev_cases)
  case Nil
  then show ?thesis using linksD(11) [OF assms] by simp
next
  case (snoc as' y)
  then have "chain (nx h) (pv h) (as' @ y # x # bs)" using linksD(10) [OF assms] by simp
  then have "chain (nx h) (pv h) (y # x # bs)" by (subst (asm) chain_append) blast
  then show ?thesis using snoc by simp
qed

lemma chain_heads:
  assumes "chain N P (as @ x # bs)"
  shows "chain N P (as @ [x])" "chain N P (x # bs)"
  using assms by (subst (asm) chain_append, blast)+

lemma chain_glue: "chain N P (as @ [x]) \<Longrightarrow> chain N P (x # bs) \<Longrightarrow> chain N P (as @ x # bs)"
  by (subst chain_append) blast

lemma nx_pv_el: "el g e = el h e \<Longrightarrow> nx g e = nx h e \<and> pv g e = pv h e \<and> ofs g e = ofs h e \<and> fr g e = fr h e"
  by (simp add: nx_def pv_def ofs_def fr_def)

lemma el_fields: "el g = el h \<Longrightarrow> nx g = nx h \<and> pv g = pv h \<and> ofs g = ofs h \<and> fr g = fr h"
  by (simp add: fun_eq_iff nx_def pv_def ofs_def fr_def)

lemma elt_new_links:
  assumes l: "links h cs {}" and n: "length cs \<le> objects h" and new: "elt_new h = (i, g)"
  shows "links g cs {i}" "same_data h g" "i \<notin> set cs" "\<forall>e \<in> set cs. el g e = el h e"
proof -
  note d = linksD [OF l]
  have "links g cs {i} \<and> same_data h g \<and> i \<notin> set cs \<and> (\<forall>e \<in> set cs. el g e = el h e)"
  proof (cases "free_elts h = []")
    case False
    then obtain fs where fs: "free_elts h = fs @ [i]" "g = h\<lparr>free_elts := fs\<rparr>"
      using new unfolding elt_new_def by (cases "free_elts h" rule: rev_cases) auto
    have e: "el g = el h" "nx g = nx h" "pv g = pv h" "in_elts g = in_elts h"
      by (simp_all add: fs(2) el_def nx_def pv_def in_elts_def fun_eq_iff)
    show ?thesis using d unfolding links_def e by (auto simp: fs same_data_def)
  next
    case True
    have g: "i = of_nat (n_elts h)" "g = h\<lparr>n_elts := n_elts h + 1, elts := (if n_elts h < length (elts h) then elts h else elts h @ [zero_elt])\<rparr>"
      using new True unfolding elt_new_def by auto
    have "set cs = {e. in_elts h e}" using d(8) True by simp
    also have "\<dots> = unat -` {..<n_elts h}" using d(1) by (auto simp: in_elts_def)
    finally have cs: "set cs = unat -` {..<n_elts h}" .
    have n32: "n_elts h < 2 ^ 32" using d(2,3) by simp
    have "{..<n_elts h} \<subseteq> range (unat :: u32 \<Rightarrow> nat)"
    proof
      fix j assume "j \<in> {..<n_elts h}"
      then have "unat (of_nat j :: u32) = j" using n32 by (simp add: unat_of_nat)
      then show "j \<in> range (unat :: u32 \<Rightarrow> nat)" by (metis rangeI)
    qed
    moreover have "inj (unat :: u32 \<Rightarrow> nat)" by (simp add: inj_def word_unat_eq_iff)
    ultimately have "card (set cs) = n_elts h"
      using card_vimage_inj [of "unat :: u32 \<Rightarrow> nat" "{..<n_elts h}"] by (simp add: cs)
    then have n_obj: "n_elts h \<le> objects h" using n distinct_card [OF d(4)] by simp
    have i: "unat i = n_elts h" using g(1) n32 by (simp add: unat_of_nat)
    then have "i \<notin> set cs" by (simp add: cs)
    have el: "el g e = el h e" if "e \<in> set cs" for e
    proof -
      have "unat e < n_elts h" using that by (simp add: cs)
      then show ?thesis using d(1) by (simp add: el_def g(2) nth_append)
    qed
    have np: "nx g e = nx h e" "pv g e = pv h e" if "e \<in> set cs" for e using nx_pv_el [OF el [OF that]] by simp_all
    have "chain (nx g) (pv g) cs = chain (nx h) (pv h) cs"
      by (rule chain_cong_all) (simp add: np)
    with d(10) have "chain (nx g) (pv g) cs" by simp
    moreover have "{e. in_elts g e} = set cs \<union> {i}"
      using d(1) i by (auto simp: in_elts_def g(2) cs less_Suc_eq word_unat_eq_iff)
    moreover have "pv g (hd cs) = hd cs" "nx g (last cs) = last cs" using np d(9,11,12) by simp_all
    moreover have "n_elts g = n_elts h + 1" "n_elts h + 1 \<le> length (elts g)" "free_elts g = []" "same_data h g"
        "head g = head h" "tail g = tail h"
      using d(1) True by (simp_all add: g(2) same_data_def)
    moreover have "\<forall>e \<in> set cs. el g e = el h e" using el by blast
    ultimately show ?thesis
      using d(3,4,9,13,14) \<open>i \<notin> set cs\<close> n_obj unfolding links_def by (simp add: same_data_def)
  qed
  then show "links g cs {i}" "same_data h g" "i \<notin> set cs" "\<forall>e \<in> set cs. el g e = el h e" by simp_all
qed

lemma insert_after_links:
  assumes l: "links h (as @ x # bs) {i}"
  shows "\<exists>g. elt_insert_after x i h = Some g \<and> links g (as @ x # i # bs) {} \<and> same_data h g \<and> same_pool h g
    \<and> (\<forall>e. offset (el g e) = offset (el h e))"
proof -
  note d = linksD [OF l]
  have inx: "in_elts h x" "in_elts h i" using links_in [OF l] by simp_all
  have i: "i \<notin> set as" "i \<noteq> x" "i \<notin> set bs" using d(7) by auto
  have dist: "x \<notin> set as" "x \<notin> set bs" "set as \<inter> set bs = {}" using d(4) by auto
  note nxt = links_next [OF l] and ch = chain_heads [OF d(10)]
  show ?thesis
  proof (cases bs)
    case Nil
    obtain g1 where 1: "modify_elt i (\<lambda>y. y\<lparr>next_elt := 0, prev_elt := x - i\<rparr>) h = Some g1" "same_data h g1" "same_pool h g1"
        "head g1 = head h" "tail g1 = tail h" "el g1 = (el h)(i := (el h i)\<lparr>next_elt := 0, prev_elt := x - i\<rparr>)"
      by (rule modify_elt_in [OF inx(2)])
    have "in_elts g1 x" using inx(1) same_pool_in [OF 1(3)] by simp
    then obtain g2 where 2: "modify_elt x (\<lambda>y. y\<lparr>next_elt := i - x\<rparr>) g1 = Some g2" "same_data g1 g2" "same_pool g1 g2"
        "head g2 = head g1" "tail g2 = tail g1" "el g2 = (el g1)(x := (el g1 x)\<lparr>next_elt := i - x\<rparr>)"
      by (rule modify_elt_in)
    let ?g = "g2\<lparr>tail := i\<rparr>"
    have el: "el ?g = el g2" by (simp add: el_def fun_eq_iff)
    have pool: "same_pool h ?g" "same_data h ?g" using 1(2,3) 2(2,3) by (simp_all add: same_pool_def same_data_def)
    have N: "nx ?g = (nx h)(i := i, x := i)" and P: "pv ?g = (pv h)(i := x)"
      using i(2) unfolding nx_def pv_def el 2(6) 1(6) by (auto simp: fun_eq_iff)
    have "chain (nx ?g) (pv ?g) (as @ [x])"
      using ch(1) dist i unfolding N P by (subst chain_cong_snoc [of _ _ "nx h" _ _ "pv h"]) auto
    moreover have "chain (nx ?g) (pv ?g) (x # [i])" using i(2) by (simp add: N P)
    ultimately have "chain (nx ?g) (pv ?g) (as @ x # i # bs)" unfolding Nil by (rule chain_glue)
    moreover have "pv ?g (hd (as @ x # i # bs)) = hd (as @ x # i # bs)" using d(11) i unfolding P by (cases as) auto
    ultimately have "links ?g (as @ x # i # bs) {}"
      using d i pool Nil 1(4) 2(4) same_pool_in [OF pool(1)] unfolding links_def
      by (cases as) (auto simp: same_pool_def same_data_def N)
    moreover have "elt_insert_after x i h = Some ?g"
      using nxt Nil 1(1) 2(1) by (simp add: elt_insert_after_def next_in [OF inx(1)])
    moreover have "\<forall>e. offset (el ?g e) = offset (el h e)" unfolding el 2(6) 1(6) by simp
    ultimately show ?thesis using pool by blast
  next
    case (Cons y ys)
    have iny: "in_elts h y" using links_in [OF l] Cons by simp
    have y: "y \<noteq> x" "y \<noteq> i" "y \<notin> set as" "y \<notin> set ys" using d(4) i dist unfolding Cons by auto
    obtain g1 where 1: "modify_elt i (\<lambda>z. z\<lparr>prev_elt := x - i, next_elt := y - i\<rparr>) h = Some g1" "same_data h g1" "same_pool h g1"
        "head g1 = head h" "tail g1 = tail h" "el g1 = (el h)(i := (el h i)\<lparr>prev_elt := x - i, next_elt := y - i\<rparr>)"
      by (rule modify_elt_in [OF inx(2)])
    have "in_elts g1 x" using inx(1) same_pool_in [OF 1(3)] by simp
    then obtain g2 where 2: "modify_elt x (\<lambda>z. z\<lparr>next_elt := i - x\<rparr>) g1 = Some g2" "same_data g1 g2" "same_pool g1 g2"
        "head g2 = head g1" "tail g2 = tail g1" "el g2 = (el g1)(x := (el g1 x)\<lparr>next_elt := i - x\<rparr>)"
      by (rule modify_elt_in)
    have "in_elts g2 y" using iny same_pool_in [OF 1(3)] same_pool_in [OF 2(3)] by simp
    then obtain g where 3: "modify_elt y (\<lambda>z. z\<lparr>prev_elt := i - y\<rparr>) g2 = Some g" "same_data g2 g" "same_pool g2 g"
        "head g = head g2" "tail g = tail g2" "el g = (el g2)(y := (el g2 y)\<lparr>prev_elt := i - y\<rparr>)"
      by (rule modify_elt_in)
    have pool: "same_pool h g" "same_data h g" using 1(2,3) 2(2,3) 3(2,3) by (simp_all add: same_pool_def same_data_def)
    have N: "nx g = (nx h)(i := y, x := i)" and P: "pv g = (pv h)(i := x, y := i)"
      using i(2) y unfolding nx_def pv_def 3(6) 2(6) 1(6) by (auto simp: fun_eq_iff)
    have "chain (nx g) (pv g) (as @ [x])"
      using ch(1) dist i y unfolding N P by (subst chain_cong_snoc [of _ _ "nx h" _ _ "pv h"]) auto
    moreover have "chain (nx g) (pv g) (y # ys)"
      using ch(2) dist i y unfolding N P Cons by (subst chain_cong_Cons [of _ _ _ "nx h" _ "pv h"]) auto
    then have "chain (nx g) (pv g) (x # i # y # ys)" using i y by (simp add: N P)
    ultimately have "chain (nx g) (pv g) (as @ x # i # bs)" unfolding Cons by (rule chain_glue)
    moreover have "pv g (hd (as @ x # i # bs)) = hd (as @ x # i # bs)" using d(11) i y unfolding P by (cases as) auto
    moreover have "nx g (last bs) = last bs"
      using d(12) i dist Cons last_in_set [of bs] unfolding N by (auto split: if_splits)
    ultimately have "links g (as @ x # i # bs) {}"
      using d i pool Cons 1(4,5) 2(4,5) 3(4,5) same_pool_in [OF pool(1)] unfolding links_def
      by (cases as) (auto simp: same_pool_def same_data_def)
    moreover have "elt_insert_after x i h = Some g"
      using nxt Cons y 1(1) 2(1) 3(1) by (simp add: elt_insert_after_def next_in [OF inx(1)])
    moreover have "\<forall>e. offset (el g e) = offset (el h e)" unfolding 3(6) 2(6) 1(6) by simp
    ultimately show ?thesis using pool by blast
  qed
qed

lemma insert_before_links:
  assumes l: "links h (as @ x # bs) {i}"
  shows "\<exists>g. elt_insert_before x i h = Some g \<and> links g (as @ i # x # bs) {} \<and> same_data h g \<and> same_pool h g
    \<and> (\<forall>e. offset (el g e) = offset (el h e))"
proof -
  note d = linksD [OF l]
  have inx: "in_elts h x" "in_elts h i" using links_in [OF l] by simp_all
  have i: "i \<notin> set as" "i \<noteq> x" "i \<notin> set bs" using d(7) by auto
  have dist: "x \<notin> set as" "x \<notin> set bs" "set as \<inter> set bs = {}" using d(4) by auto
  note prv = links_prev [OF l] and ch = chain_heads [OF d(10)]
  show ?thesis
  proof (cases as rule: rev_cases)
    case Nil
    obtain g1 where 1: "modify_elt i (\<lambda>y. y\<lparr>prev_elt := 0, next_elt := x - i\<rparr>) h = Some g1" "same_data h g1" "same_pool h g1"
        "head g1 = head h" "tail g1 = tail h" "el g1 = (el h)(i := (el h i)\<lparr>prev_elt := 0, next_elt := x - i\<rparr>)"
      by (rule modify_elt_in [OF inx(2)])
    have "in_elts g1 x" using inx(1) same_pool_in [OF 1(3)] by simp
    then obtain g2 where 2: "modify_elt x (\<lambda>y. y\<lparr>prev_elt := i - x\<rparr>) g1 = Some g2" "same_data g1 g2" "same_pool g1 g2"
        "head g2 = head g1" "tail g2 = tail g1" "el g2 = (el g1)(x := (el g1 x)\<lparr>prev_elt := i - x\<rparr>)"
      by (rule modify_elt_in)
    let ?g = "g2\<lparr>head := i\<rparr>"
    have el: "el ?g = el g2" by (simp add: el_def fun_eq_iff)
    have pool: "same_pool h ?g" "same_data h ?g" using 1(2,3) 2(2,3) by (simp_all add: same_pool_def same_data_def)
    have N: "nx ?g = (nx h)(i := x)" and P: "pv ?g = (pv h)(i := i, x := i)"
      using i(2) unfolding nx_def pv_def el 2(6) 1(6) by (auto simp: fun_eq_iff)
    have "chain (nx ?g) (pv ?g) (x # bs)"
      using ch(2) dist i unfolding N P by (subst chain_cong_Cons [of _ _ _ "nx h" _ "pv h"]) auto
    then have "chain (nx ?g) (pv ?g) (as @ i # x # bs)" using i Nil by (simp add: N P)
    moreover have "nx ?g (last (x # bs)) = last (x # bs)"
      using d(12) i last_in_set [of "x # bs"] unfolding N Nil by (auto split: if_splits)
    ultimately have "links ?g (as @ i # x # bs) {}"
      using d i pool Nil 1(5) 2(5) same_pool_in [OF pool(1)] unfolding links_def
      by (auto simp: same_pool_def same_data_def P)
    moreover have "elt_insert_before x i h = Some ?g"
      using prv Nil 1(1) 2(1) by (simp add: elt_insert_before_def prev_in [OF inx(1)])
    moreover have "\<forall>e. offset (el ?g e) = offset (el h e)" unfolding el 2(6) 1(6) by simp
    ultimately show ?thesis using pool by blast
  next
    case (snoc ys y)
    have iny: "in_elts h y" using links_in [OF l] snoc by simp
    have y: "y \<noteq> x" "y \<noteq> i" "y \<notin> set bs" "y \<notin> set ys" using d(4) i dist unfolding snoc by auto
    obtain g1 where 1: "modify_elt i (\<lambda>z. z\<lparr>prev_elt := y - i, next_elt := x - i\<rparr>) h = Some g1" "same_data h g1" "same_pool h g1"
        "head g1 = head h" "tail g1 = tail h" "el g1 = (el h)(i := (el h i)\<lparr>prev_elt := y - i, next_elt := x - i\<rparr>)"
      by (rule modify_elt_in [OF inx(2)])
    have "in_elts g1 x" using inx(1) same_pool_in [OF 1(3)] by simp
    then obtain g2 where 2: "modify_elt x (\<lambda>z. z\<lparr>prev_elt := i - x\<rparr>) g1 = Some g2" "same_data g1 g2" "same_pool g1 g2"
        "head g2 = head g1" "tail g2 = tail g1" "el g2 = (el g1)(x := (el g1 x)\<lparr>prev_elt := i - x\<rparr>)"
      by (rule modify_elt_in)
    have "in_elts g2 y" using iny same_pool_in [OF 1(3)] same_pool_in [OF 2(3)] by simp
    then obtain g where 3: "modify_elt y (\<lambda>z. z\<lparr>next_elt := i - y\<rparr>) g2 = Some g" "same_data g2 g" "same_pool g2 g"
        "head g = head g2" "tail g = tail g2" "el g = (el g2)(y := (el g2 y)\<lparr>next_elt := i - y\<rparr>)"
      by (rule modify_elt_in)
    have pool: "same_pool h g" "same_data h g" using 1(2,3) 2(2,3) 3(2,3) by (simp_all add: same_pool_def same_data_def)
    have N: "nx g = (nx h)(i := x, y := i)" and P: "pv g = (pv h)(i := y, x := i)"
      using i(2) y unfolding nx_def pv_def 3(6) 2(6) 1(6) by (auto simp: fun_eq_iff)
    have "chain (nx h) (pv h) (ys @ y # [x])" using ch(1) unfolding snoc by simp
    from chain_heads(1) [OF this] have "chain (nx g) (pv g) (ys @ [y])"
      using dist i y unfolding N P snoc by (subst chain_cong_snoc [of _ _ "nx h" _ _ "pv h"]) auto
    moreover have "chain (nx g) (pv g) (x # bs)"
      using ch(2) dist i y unfolding N P by (subst chain_cong_Cons [of _ _ _ "nx h" _ "pv h"]) auto
    then have "chain (nx g) (pv g) (y # i # x # bs)" using i y by (simp add: N P)
    ultimately have "chain (nx g) (pv g) (ys @ y # i # x # bs)" by (rule chain_glue)
    moreover have "nx g (last (x # bs)) = last (x # bs)"
      using d(12) i y last_in_set [of "x # bs"] unfolding N snoc by (auto split: if_splits)
    moreover have "pv g (hd (ys @ [y])) = hd (ys @ [y])" using d(11) dist i unfolding P snoc by (cases ys) auto
    ultimately have "links g (as @ i # x # bs) {}"
      using d i pool snoc 1(4,5) 2(4,5) 3(4,5) same_pool_in [OF pool(1)] unfolding links_def
      by (cases ys) (auto simp: same_pool_def same_data_def)
    moreover have "elt_insert_before x i h = Some g"
      using prv snoc y 1(1) 2(1) 3(1) by (simp add: elt_insert_before_def prev_in [OF inx(1)])
    moreover have "\<forall>e. offset (el g e) = offset (el h e)" unfolding 3(6) 2(6) 1(6) by simp
    ultimately show ?thesis using pool by blast
  qed
qed

text \<open>The element taken out goes to the free ones, or off the end of the vector.\<close>

definition unpooled :: "u32 \<Rightarrow> heap \<Rightarrow> heap" where
  "unpooled e h = (if e < of_nat (n_elts h) - 1 then h\<lparr>free_elts := free_elts h @ [e]\<rparr> else h\<lparr>n_elts := n_elts h - 1\<rparr>)"

lemma unpooled_links:
  assumes "links h cs {x}"
  shows "links (unpooled x h) cs {}" "same_data h (unpooled x h)" "el (unpooled x h) = el h"
proof -
  note d = linksD [OF assms]
  have n: "0 < n_elts h" "n_elts h < 2 ^ 32" and x: "unat x < n_elts h"
    using links_in [OF assms, of x] d(2,3) by (auto simp: in_elts_def)
  have l: "unat (of_nat (n_elts h) - 1 :: u32) = n_elts h - 1"
    using n by (subst unat_sub) (simp_all add: unat_of_nat word_le_nat_alt)
  show e: "el (unpooled x h) = el h" by (simp add: unpooled_def el_def fun_eq_iff)
  show "same_data h (unpooled x h)" by (simp add: unpooled_def same_data_def)
  have np: "nx (unpooled x h) = nx h" "pv (unpooled x h) = pv h" by (simp_all add: nx_def pv_def fun_eq_iff e)
  show "links (unpooled x h) cs {}"
  proof (cases "x < of_nat (n_elts h) - 1")
    case True
    then have "unpooled x h = h\<lparr>free_elts := free_elts h @ [x]\<rparr>" by (simp add: unpooled_def)
    then show ?thesis using d np unfolding links_def by (auto simp: in_elts_def)
  next
    case False
    then have u: "unpooled x h = h\<lparr>n_elts := n_elts h - 1\<rparr>" by (simp add: unpooled_def)
    from False x l have "unat x = n_elts h - 1" by (simp add: word_less_nat_alt)
    then have "{e. in_elts (unpooled x h) e} = {e. in_elts h e} - {x}"
      using d(1) n(1) by (auto simp: in_elts_def u word_unat_eq_iff)
    also have "\<dots> = set cs \<union> set (free_elts h)" using d(7,8) by auto
    finally show ?thesis using d np u unfolding links_def by simp linarith
  qed
qed

lemma delete_links:
  assumes l: "links h (as @ x # bs) {}" and ne: "as @ bs \<noteq> []"
  shows "\<exists>g. elt_delete x h = Some g \<and> links g (as @ bs) {} \<and> same_data h g \<and> (\<forall>e. offset (el g e) = offset (el h e))"
proof -
  note d = linksD [OF l]
  have inx: "in_elts h x" using links_in [OF l] by simp
  have dist: "x \<notin> set as" "x \<notin> set bs" "set as \<inter> set bs = {}" using d(4) by auto
  note prv = links_prev [OF l] and nxt = links_next [OF l] and ch = chain_heads [OF d(10)]
  consider (first) y ys where "as = []" "bs = y # ys" | (last) zs z where "as = zs @ [z]" "bs = []"
    | (middle) zs z y ys where "as = zs @ [z]" "bs = y # ys"
    using ne by (cases as rule: rev_cases; cases bs) auto
  then have "\<exists>g. elt_delete x h = Some (unpooled x g) \<and> links g (as @ bs) {x} \<and> same_data h g
    \<and> (\<forall>e. offset (el g e) = offset (el h e))"
  proof cases
    case first
    have "in_elts h y" using links_in [OF l] first by simp
    then obtain g where 1: "modify_elt y (\<lambda>z. z\<lparr>prev_elt := 0\<rparr>) h = Some g" "same_data h g" "same_pool h g"
        "head g = head h" "tail g = tail h" "el g = (el h)(y := (el h y)\<lparr>prev_elt := 0\<rparr>)"
      by (rule modify_elt_in)
    let ?g = "g\<lparr>head := y\<rparr>"
    have el: "el ?g = el g" by (simp add: el_def fun_eq_iff)
    have pool: "same_pool h ?g" "same_data h ?g" using 1(2,3) by (simp_all add: same_pool_def same_data_def)
    have N: "nx ?g = nx h" and P: "pv ?g = (pv h)(y := y)"
      unfolding nx_def pv_def el 1(6) by (auto simp: fun_eq_iff)
    have "chain (nx h) (pv h) (y # ys)" using ch(2) first by simp
    then have "chain (nx ?g) (pv ?g) (y # ys)"
      using d(4) first unfolding N P by (subst chain_cong_Cons [of _ _ _ "nx h" _ "pv h"]) auto
    then have "links ?g (as @ bs) {x}"
      using d pool first 1(5) same_pool_in [OF pool(1)] unfolding links_def by (auto simp: same_pool_def same_data_def N P)
    moreover have "elt_delete x h = Some (unpooled x ?g)"
      using prv nxt first 1(1,3) by (simp add: elt_delete_def prev_in [OF inx] next_in [OF inx] unpooled_def same_pool_def)
    moreover have "\<forall>e. offset (el ?g e) = offset (el h e)" unfolding el 1(6) by simp
    ultimately show ?thesis using pool by blast
  next
    case last
    have "in_elts h z" using links_in [OF l] last by simp
    then obtain g where 1: "modify_elt z (\<lambda>z. z\<lparr>next_elt := 0\<rparr>) h = Some g" "same_data h g" "same_pool h g"
        "head g = head h" "tail g = tail h" "el g = (el h)(z := (el h z)\<lparr>next_elt := 0\<rparr>)"
      by (rule modify_elt_in)
    let ?g = "g\<lparr>tail := z\<rparr>"
    have el: "el ?g = el g" by (simp add: el_def fun_eq_iff)
    have pool: "same_pool h ?g" "same_data h ?g" using 1(2,3) by (simp_all add: same_pool_def same_data_def)
    have N: "nx ?g = (nx h)(z := z)" and P: "pv ?g = pv h"
      unfolding nx_def pv_def el 1(6) by (auto simp: fun_eq_iff)
    have "chain (nx h) (pv h) (zs @ z # [x])" using ch(1) last by simp
    from chain_heads(1) [OF this] have "chain (nx ?g) (pv ?g) (zs @ [z])"
      using d(4) last unfolding N P by (subst chain_cong_snoc [of _ _ "nx h" _ _ "pv h"]) auto
    moreover have "z \<noteq> x" using dist last by auto
    ultimately have "links ?g (as @ bs) {x}"
      using d pool last 1(4) same_pool_in [OF pool(1)] unfolding links_def
      by (cases zs) (auto simp: same_pool_def same_data_def N P)
    moreover have "elt_delete x h = Some (unpooled x ?g)"
      using prv nxt last \<open>z \<noteq> x\<close> 1(1,3) by (simp add: elt_delete_def prev_in [OF inx] next_in [OF inx] unpooled_def same_pool_def)
    moreover have "\<forall>e. offset (el ?g e) = offset (el h e)" unfolding el 1(6) by simp
    ultimately show ?thesis using pool by blast
  next
    case middle
    have "in_elts h z" using links_in [OF l] middle by simp
    then obtain g1 where 1: "modify_elt z (\<lambda>u. u\<lparr>next_elt := y - z\<rparr>) h = Some g1" "same_data h g1" "same_pool h g1"
        "head g1 = head h" "tail g1 = tail h" "el g1 = (el h)(z := (el h z)\<lparr>next_elt := y - z\<rparr>)"
      by (rule modify_elt_in)
    have "in_elts g1 y" using links_in [OF l] middle same_pool_in [OF 1(3)] by simp
    then obtain g where 2: "modify_elt y (\<lambda>u. u\<lparr>prev_elt := z - y\<rparr>) g1 = Some g" "same_data g1 g" "same_pool g1 g"
        "head g = head g1" "tail g = tail g1" "el g = (el g1)(y := (el g1 y)\<lparr>prev_elt := z - y\<rparr>)"
      by (rule modify_elt_in)
    have pool: "same_pool h g" "same_data h g" using 1(2,3) 2(2,3) by (simp_all add: same_pool_def same_data_def)
    have z: "z \<noteq> x" "z \<noteq> y" "y \<noteq> x" "z \<notin> set ys" "y \<notin> set zs" "z \<notin> set zs" "y \<notin> set ys" "set zs \<inter> set ys = {}"
      using d(4) dist middle by auto
    have N: "nx g = (nx h)(z := y)" and P: "pv g = (pv h)(y := z)"
      using z unfolding nx_def pv_def 2(6) 1(6) by (auto simp: fun_eq_iff)
    have "chain (nx h) (pv h) (zs @ z # [x])" using ch(1) middle by simp
    from chain_heads(1) [OF this] have "chain (nx g) (pv g) (zs @ [z])"
      using z unfolding N P by (subst chain_cong_snoc [of _ _ "nx h" _ _ "pv h"]) auto
    moreover have "chain (nx h) (pv h) (y # ys)" using ch(2) middle by simp
    then have "chain (nx g) (pv g) (y # ys)"
      using z unfolding N P by (subst chain_cong_Cons [of _ _ _ "nx h" _ "pv h"]) auto
    then have "chain (nx g) (pv g) (z # y # ys)" by (simp add: N P)
    ultimately have c: "chain (nx g) (pv g) (zs @ z # y # ys)" by (rule chain_glue)
    have "nx g (last (y # ys)) = last (y # ys)"
      using d(12) z last_in_set [of "y # ys"] unfolding N middle by (auto split: if_splits)
    moreover have "pv g (hd (zs @ [z])) = hd (zs @ [z])" using d(11) z unfolding P middle by (cases zs) auto
    ultimately have "links g (as @ bs) {x}"
      using d c pool middle 1(4,5) 2(4,5) same_pool_in [OF pool(1)] unfolding links_def
      by (cases zs) (auto simp: same_pool_def same_data_def)
    moreover have "elt_delete x h = Some (unpooled x g)"
      using prv nxt middle z 1(1) 2(1) pool(1)
      by (simp add: elt_delete_def prev_in [OF inx] next_in [OF inx] unpooled_def same_pool_def)
    moreover have "\<forall>e. offset (el g e) = offset (el h e)" unfolding 2(6) 1(6) by simp
    ultimately show ?thesis using pool by blast
  qed
  then obtain g where g: "elt_delete x h = Some (unpooled x g)" "links g (as @ bs) {x}" "same_data h g"
    "\<forall>e. offset (el g e) = offset (el h e)" by blast
  show ?thesis
    using g unpooled_links [OF g(2)] by (intro exI [of _ "unpooled x g"]) (auto intro: same_data_trans)
qed

section \<open>Offsets and sizes\<close>

lemma offset_el: "offset (el g e) = offset (el h e) \<Longrightarrow> ofs g e = ofs h e \<and> fr g e = fr h e"
  by (simp add: ofs_def fr_def heap_offset_def heap_is_free_def)

lemma bit_free_bit: "bit HEAP_ELT_FREE_BIT i \<longleftrightarrow> i = 31"
proof -
  have "bit (2 ^ 31 :: u32) i \<longleftrightarrow> i = 31" by (simp only: bit_exp_iff) auto
  then show ?thesis by (simp add: HEAP_ELT_FREE_BIT_def)
qed

lemma offset_free_bit:
  "heap_offset (e\<lparr>offset := offset e OR HEAP_ELT_FREE_BIT\<rparr>) = heap_offset e" "heap_is_free (e\<lparr>offset := offset e OR HEAP_ELT_FREE_BIT\<rparr>)"
proof -
  have "(x OR HEAP_ELT_FREE_BIT) AND NOT HEAP_ELT_FREE_BIT = x AND NOT HEAP_ELT_FREE_BIT" for x
    by (rule bit_word_eqI) (auto simp: bit_simps)
  then show "heap_offset (e\<lparr>offset := offset e OR HEAP_ELT_FREE_BIT\<rparr>) = heap_offset e"
    by (simp add: heap_offset_def)
  have "bit ((x OR HEAP_ELT_FREE_BIT) AND HEAP_ELT_FREE_BIT) 31" for x
    by (simp add: bit_simps bit_free_bit)
  then have "(x OR HEAP_ELT_FREE_BIT) AND HEAP_ELT_FREE_BIT \<noteq> 0" for x by (metis bit_0_eq bot_apply bot_bool_def)
  then show "heap_is_free (e\<lparr>offset := offset e OR HEAP_ELT_FREE_BIT\<rparr>)"
    by (simp add: heap_is_free_def)
qed

lemma offset_used:
  assumes "unat w < 2 ^ 31"
  shows "heap_offset (e\<lparr>offset := ucast (w :: uword)\<rparr>) = w" "\<not> heap_is_free (e\<lparr>offset := ucast w\<rparr>)"
    "ucast (ucast w :: u32) = w"
proof -
  have high: "\<not> bit w i" if "31 \<le> i" for i using assms that unat_less_exp_iff [of w 31] by blast
  have "i < 32" if "bit w i" for i using high [of i] that by (cases "31 \<le> i") auto
  then show u: "ucast (ucast w :: u32) = w"
    by (intro bit_word_eqI) (auto simp: bit_simps)
  have "(ucast w :: u32) AND HEAP_ELT_FREE_BIT = 0"
    by (rule bit_word_eqI) (auto simp: bit_simps bit_free_bit high)
  then show "\<not> heap_is_free (e\<lparr>offset := ucast w\<rparr>)" by (simp add: heap_is_free_def)
  have "(ucast w :: u32) AND NOT HEAP_ELT_FREE_BIT = ucast w"
    by (rule bit_word_eqI) (auto simp: bit_simps bit_free_bit high)
  then show "heap_offset (e\<lparr>offset := ucast w\<rparr>) = w" using u by (simp add: heap_offset_def)
qed

text \<open>The blocks cover the objects from the first one on.\<close>

definition tiles :: "heap \<Rightarrow> u32 list \<Rightarrow> bool" where
  "tiles h cs \<longleftrightarrow> ofs h (hd cs) = 0 \<and> sorted_wrt (<) (map (ofs h) cs @ [objects h])"

definition bend :: "heap \<Rightarrow> u32 list \<Rightarrow> nat" where
  "bend h bs = (case bs of [] \<Rightarrow> objects h | y # _ \<Rightarrow> ofs h y)"

lemma bend_simps [simp]: "bend h [] = objects h" "bend h (y # ys) = ofs h y"
  by (simp_all add: bend_def)

lemma bend_append: "bs \<noteq> [] \<Longrightarrow> bend h (bs @ cs) = bend h bs"
  by (cases bs) simp_all

lemma tiles_bend:
  assumes "tiles h (as @ x # bs)"
  shows "ofs h x < bend h bs" "bend h bs \<le> objects h" "ofs h x < objects h"
    "\<forall>y \<in> set as. ofs h y < ofs h x" "\<forall>y \<in> set bs. bend h bs \<le> ofs h y"
  using assms unfolding tiles_def by (cases bs; force simp: sorted_wrt_append)+

lemma tiles_inj:
  assumes "tiles h cs"
  shows "inj_on (ofs h) (set cs)"
proof -
  have "distinct (map (ofs h) cs)" using assms strict_sorted_iff [of "map (ofs h) cs"] by (simp add: tiles_def sorted_wrt_append)
  then show ?thesis by (simp add: distinct_map)
qed

lemma tiles_length:
  assumes "tiles h cs"
  shows "length cs \<le> objects h"
proof -
  have "distinct (map (ofs h) cs)" using assms strict_sorted_iff [of "map (ofs h) cs"] by (simp add: tiles_def sorted_wrt_append)
  then have "length cs = card (set (map (ofs h) cs))" by (simp add: distinct_card del: set_map)
  also have "\<dots> \<le> card {..<objects h}" using assms by (intro card_mono) (auto simp: tiles_def sorted_wrt_append)
  finally show ?thesis by simp
qed

lemma heap_offset_nat: "heap_offset (el h e) = of_nat (ofs h e)"
  by (simp add: ofs_def)

lemma elt_size:
  assumes l: "links h (as @ x # bs) D" and "ofs h x \<le> bend h bs"
  shows "heap_elt_size h x = Some (of_nat (bend h bs - ofs h x))"
proof -
  have x: "in_elts h x" using links_in [OF l] by simp
  have "heap_elt_size h x = Some (of_nat (bend h bs) - of_nat (ofs h x))"
  proof (cases bs)
    case Nil
    then show ?thesis using links_next [OF l] by (simp add: heap_elt_size_def elt_at_in [OF x] next_in [OF x] heap_offset_nat)
  next
    case (Cons y ys)
    then have "in_elts h y" "y \<noteq> x" using links_in [OF l] linksD(4) [OF l] by auto
    then show ?thesis using Cons links_next [OF l]
      by (simp add: heap_elt_size_def elt_at_in [OF x] next_in [OF x] elt_at_in heap_offset_nat)
  qed
  then show ?thesis using assms(2) by simp
qed

section \<open>Free lists\<close>

text \<open>The lists hold the elements of \<open>F\<close>, each at a place of its own.\<close>

definition listed :: "u32 list list \<Rightarrow> u32 set \<Rightarrow> (u32 \<Rightarrow> nat) \<Rightarrow> (u32 \<Rightarrow> nat) \<Rightarrow> bool" where
  "listed ls F B P \<longleftrightarrow>
     (\<forall>b i. b < length ls \<longrightarrow> i < length (ls ! b) \<longrightarrow> ls ! b ! i \<in> F \<and> B (ls ! b ! i) = b \<and> P (ls ! b ! i) = i)
     \<and> (\<forall>x \<in> F. B x < length ls \<and> P x < length (ls ! B x) \<and> ls ! B x ! P x = x)"

lemma listed_place:
  assumes "listed ls F B P" "x \<in> F"
  shows "B x < length ls" "P x < length (ls ! B x)" "ls ! B x ! P x = x"
  using assms by (auto simp: listed_def)

lemma listed_entry:
  assumes "listed ls F B P" "b < length ls" "i < length (ls ! b)"
  shows "ls ! b ! i \<in> F" "B (ls ! b ! i) = b" "P (ls ! b ! i) = i"
  using assms by (auto simp: listed_def)

lemma listed_cong:
  assumes "listed ls F B P" "\<forall>x \<in> F. B' x = B x \<and> P' x = P x"
  shows "listed ls F B' P'"
  using assms unfolding listed_def by metis

lemma nth_validate_list: "b < length (validate_list n ls) \<Longrightarrow> validate_list n ls ! b = (if b < length ls then ls ! b else [])"
  by (auto simp: validate_list_def nth_append)

lemma length_validate_list [simp]: "length (validate_list n ls) = max (length ls) (n + 1)"
  by (simp add: validate_list_def)

lemma listed_validate: "listed ls F B P \<Longrightarrow> listed (validate_list n ls) F B P"
  unfolding listed_def by (auto simp: nth_validate_list less_max_iff_disj split: if_splits)

lemma listed_add:
  fixes b :: nat
  assumes l: "listed ls F B P" and x: "x \<notin> F"
  defines "vs \<equiv> validate_list b ls"
  shows "listed (vs[b := vs ! b @ [x]]) (insert x F) (B(x := b)) (P(x := length (vs ! b)))"
proof -
  have v: "listed vs F B P" "b < length vs" using listed_validate [OF l, of b] by (simp_all add: vs_def less_max_iff_disj)
  have "vs[b := vs ! b @ [x]] ! c ! i \<in> insert x F \<and> (B(x := b)) (vs[b := vs ! b @ [x]] ! c ! i) = c
      \<and> (P(x := length (vs ! b))) (vs[b := vs ! b @ [x]] ! c ! i) = i"
    if "c < length vs" "i < length (vs[b := vs ! b @ [x]] ! c)" for c i
  proof (cases "c = b \<and> i = length (vs ! b)")
    case True
    then show ?thesis using v(2) by simp
  next
    case False
    then have "i < length (vs ! c)" using that v(2) by (cases "c = b") auto
    moreover have "vs[b := vs ! b @ [x]] ! c ! i = vs ! c ! i" using calculation v(2) by (cases "c = b") (auto simp: nth_append)
    ultimately show ?thesis using listed_entry [OF v(1) that(1)] x by auto
  qed
  moreover have "(B(x := b)) y < length vs \<and> (P(x := length (vs ! b))) y < length (vs[b := vs ! b @ [x]] ! (B(x := b)) y)
      \<and> vs[b := vs ! b @ [x]] ! (B(x := b)) y ! (P(x := length (vs ! b))) y = y" if "y \<in> insert x F" for y
  proof (cases "y = x")
    case False
    then have "y \<in> F" using that by simp
    from listed_place [OF v(1) this] False v(2) show ?thesis
      by (cases "B y = b") (auto simp: nth_append)
  qed (use v(2) in simp)
  ultimately show ?thesis unfolding listed_def by simp
qed

lemma listed_remove:
  assumes l: "listed ls F B P" and x: "x \<in> F"
  defines "fl \<equiv> ls ! B x"
  defines "t \<equiv> fl ! (length fl - 1)"
  shows "listed (ls[B x := butlast (if P x < length fl - 1 then fl[P x := t] else fl)]) (F - {x}) B
    (if P x < length fl - 1 then P(t := P x) else P)"
    "t \<in> F" "B t = B x" "P t = length fl - 1"
proof -
  note p = listed_place [OF l x]
  have last: "length fl - 1 < length (ls ! B x)" using p(2) by (simp add: fl_def)
  show t: "t \<in> F" "B t = B x" "P t = length fl - 1"
    using listed_entry [OF l p(1) last] by (simp_all add: t_def fl_def)
  let ?fl = "if P x < length fl - 1 then fl[P x := t] else fl"
  let ?P = "if P x < length fl - 1 then P(t := P x) else P"
  have t_x: "t = x \<longleftrightarrow> \<not> P x < length fl - 1" using t(3) p
    by (cases "P x = length fl - 1") (auto simp: t_def fl_def)
  have entry: "ls[B x := butlast ?fl] ! c ! i \<in> F - {x} \<and> B (ls[B x := butlast ?fl] ! c ! i) = c
      \<and> ?P (ls[B x := butlast ?fl] ! c ! i) = i"
    if c: "c < length ls" and i: "i < length (ls[B x := butlast ?fl] ! c)" for c i
  proof (cases "c = B x")
    case False
    then have "i < length (ls ! c)" using i by simp
    from listed_entry [OF l c this] False show ?thesis using t by auto
  next
    case True
    then have i': "i < length fl - 1" using i p(1) by (auto split: if_splits)
    then have fli: "fl ! i \<in> F" "B (fl ! i) = B x" "P (fl ! i) = i" using listed_entry [OF l p(1), of i] by (simp_all add: fl_def)
    have eq: "ls[B x := butlast ?fl] ! c ! i = (if i = P x then t else fl ! i)"
      using True p(1) i' t_x by (auto simp: nth_butlast nth_list_update)
    have "i \<noteq> P x \<Longrightarrow> fl ! i \<noteq> x" using fli by auto
    moreover have "fl ! i \<noteq> t" using fli(3) t(3) i' by auto
    ultimately show ?thesis unfolding eq using fli t t_x True i' by auto
  qed
  have place: "B y < length ls \<and> ?P y < length (ls[B x := butlast ?fl] ! B y) \<and> ls[B x := butlast ?fl] ! B y ! ?P y = y"
    if y: "y \<in> F - {x}" for y
  proof -
    have "y \<in> F" "y \<noteq> x" using y by auto
    note py = listed_place [OF l \<open>y \<in> F\<close>]
    show ?thesis
    proof (cases "B y = B x")
      case False
      then show ?thesis using py t by auto
    next
      case True
      have "P y \<noteq> P x" using py(3) p(3) True \<open>y \<noteq> x\<close> by auto
      moreover have "y = t \<or> P y < length fl - 1"
        using py(2,3) True by (cases "P y = length fl - 1") (auto simp: t_def fl_def)
      ultimately show ?thesis using True p(1,2) py t_x \<open>y \<noteq> x\<close>
        by (auto simp: nth_butlast nth_list_update fl_def)
    qed
  qed
  show "listed (ls[B x := butlast ?fl]) (F - {x}) B ?P"
    using entry place unfolding listed_def by simp
qed

section \<open>The place of a free block in its list\<close>

lemma put_u32:
  assumes "p + 4 \<le> length m"
  shows "length (put_u32 m p x) = length m" "get_u32 (put_u32 m p x) p = x"
    "q < p \<or> p + 4 \<le> q \<Longrightarrow> put_u32 m p x ! q = m ! q"
    "q + 4 \<le> p \<or> p + 4 \<le> q \<Longrightarrow> get_u32 (put_u32 m p x) q = get_u32 m q"
proof -
  show len: "length (put_u32 m p x) = length m" using assms by (simp add: put_u32_def)
  show "get_u32 (put_u32 m p x) p = x" using assms by (simp add: get_u32_def put_u32_def word_of_bytes_of)
  have same: "put_u32 m p x ! i = m ! i" if "i < p \<or> p + 4 \<le> i" for i
    using that assms by (auto simp: put_u32_def nth_append min_def)
  then show "q < p \<or> p + 4 \<le> q \<Longrightarrow> put_u32 m p x ! q = m ! q" .
  assume "q + 4 \<le> p \<or> p + 4 \<le> q"
  then have "take 4 (drop q (put_u32 m p x)) = take 4 (drop q m)"
    using len same by (intro nth_equalityI) auto
  then show "get_u32 (put_u32 m p x) q = get_u32 m q" by (simp add: get_u32_def)
qed

definition has_slot :: "heap \<Rightarrow> u32 \<Rightarrow> bool" where
  "has_slot h x \<longleftrightarrow> (if 4 \<le> elt_bytes h then ofs h x * unat (elt_bytes h) + 4 \<le> length (memory h)
     else unat x < length (small_free_elt_free_index h))"

definition place :: "heap \<Rightarrow> u32 \<Rightarrow> nat" where
  "place h x = unat (if 4 \<le> elt_bytes h then get_u32 (memory h) (ofs h x * unat (elt_bytes h)) else small_free_elt_free_index h ! unat x)"

lemma place_less: "place h x < 2 ^ 32"
  unfolding place_def by (rule order_less_le_trans [OF unsigned_less]) simp

definition room :: "heap \<Rightarrow> bool" where
  "room h \<longleftrightarrow> 0 < elt_bytes h \<and> objects h * unat (elt_bytes h) \<le> length (memory h)"

lemma room_slot: "room h \<Longrightarrow> 4 \<le> elt_bytes h \<Longrightarrow> ofs h x < objects h \<Longrightarrow> has_slot h x"
proof -
  assume r: "room h" "4 \<le> elt_bytes h" "ofs h x < objects h"
  have "ofs h x * unat (elt_bytes h) + 4 \<le> (ofs h x + 1) * unat (elt_bytes h)" using r(2) by (simp add: word_le_nat_alt)
  also have "\<dots> \<le> objects h * unat (elt_bytes h)" using r(3) by (intro mult_right_mono) simp_all
  finally show "has_slot h x" using r(1,2) by (simp add: has_slot_def room_def)
qed

text \<open>Memory is written only in the first bytes of the blocks at the offsets \<open>A\<close>.\<close>

definition wrote :: "heap \<Rightarrow> heap \<Rightarrow> nat set \<Rightarrow> bool" where
  "wrote h g A \<longleftrightarrow> length (memory g) = length (memory h) \<and> elt_bytes g = elt_bytes h
     \<and> (\<forall>p. (4 \<le> elt_bytes h \<longrightarrow> (\<forall>a \<in> A. p < a * unat (elt_bytes h) \<or> a * unat (elt_bytes h) + 4 \<le> p)) \<longrightarrow> memory g ! p = memory h ! p)"

lemma wrote_refl [simp]: "wrote h h A"
  by (simp add: wrote_def)

lemma wrote_trans: "wrote h g A \<Longrightarrow> wrote g k B \<Longrightarrow> A \<subseteq> C \<Longrightarrow> B \<subseteq> C \<Longrightarrow> wrote h k C"
  unfolding wrote_def by (metis subsetD)

lemma wrote_mono: "wrote h g A \<Longrightarrow> A \<subseteq> B \<Longrightarrow> wrote h g B"
  unfolding wrote_def by blast

lemma same_data_wrote: "same_data h g \<Longrightarrow> wrote h g A"
  by (simp add: same_data_def wrote_def)

definition same_links :: "heap \<Rightarrow> heap \<Rightarrow> bool" where
  "same_links h g \<longleftrightarrow> same_pool h g \<and> head g = head h \<and> tail g = tail h \<and> objects g = objects h \<and> elt_bytes g = elt_bytes h
     \<and> max_len g = max_len h \<and> flags g = flags h \<and> used_count g = used_count h \<and> nx g = nx h \<and> pv g = pv h"

lemma same_links_refl [simp]: "same_links h h" by (simp add: same_links_def)
lemma same_links_trans: "same_links h g \<Longrightarrow> same_links g k \<Longrightarrow> same_links h k"
  unfolding same_links_def by (auto intro: same_pool_trans)

lemma same_links_links: "same_links h g \<Longrightarrow> links h cs D \<Longrightarrow> links g cs D"
  using same_pool_in [of h g] unfolding same_links_def links_def by (auto simp: same_pool_def)

lemma elt_data_ofs: "elt_data h (el h x) = ofs h x * unat (elt_bytes h)"
  by (simp add: elt_data_def ofs_def)

lemma set_free_elt_in:
  assumes x: "in_elts h x" and slot: "4 \<le> elt_bytes h \<Longrightarrow> has_slot h x"
  shows "\<exists>g. set_free_elt x w h = Some g \<and> same_links h g \<and> free_lists g = free_lists h \<and> ofs g = ofs h
    \<and> fr g = (\<lambda>e. e = x \<or> fr h e) \<and> has_slot g x \<and> place g x = unat w
    \<and> (\<forall>y. y \<noteq> x \<longrightarrow> ofs h y \<noteq> ofs h x \<longrightarrow> has_slot h y \<longrightarrow> has_slot g y \<and> place g y = place h y)
    \<and> wrote h g {ofs h x}"
proof -
  obtain h1 where 1: "modify_elt x (\<lambda>x. x\<lparr>offset := offset x OR HEAP_ELT_FREE_BIT\<rparr>) h = Some h1" "same_data h h1" "same_pool h h1"
      "head h1 = head h" "tail h1 = tail h" "el h1 = (el h)(x := (el h x)\<lparr>offset := offset (el h x) OR HEAP_ELT_FREE_BIT\<rparr>)"
    by (rule modify_elt_in [OF x])
  have o1: "ofs h1 = ofs h" "fr h1 = (\<lambda>e. e = x \<or> fr h e)" "nx h1 = nx h" "pv h1 = pv h"
    unfolding ofs_def fr_def nx_def pv_def 1(6) by (auto simp: fun_eq_iff offset_free_bit)
  have "in_elts h1 x" using x same_pool_in [OF 1(3)] by simp
  note x1 = elt_at_in [OF this]
  have sl1: "same_links h h1" using 1(2-5) o1 by (simp add: same_links_def same_data_def)
  show ?thesis
  proof (cases "4 \<le> elt_bytes h")
    case True
    let ?p = "ofs h x * unat (elt_bytes h)"
    have p: "?p + 4 \<le> length (memory h)" using slot [OF True] True by (simp add: has_slot_def)
    let ?g = "h1\<lparr>memory := put_u32 (memory h) ?p w\<rparr>"
    have el: "el ?g = el h1" by (simp add: el_def fun_eq_iff)
    have o2: "ofs ?g = ofs h" "fr ?g = (\<lambda>e. e = x \<or> fr h e)" "nx ?g = nx h" "pv ?g = pv h"
      using o1 el_fields [OF el] by simp_all
    have same: "has_slot ?g y \<and> place ?g y = place h y" if y: "ofs h y \<noteq> ofs h x" "has_slot h y" for y
    proof -
      let ?q = "ofs h y * unat (elt_bytes h)"
      have eb: "4 \<le> unat (elt_bytes h)" using True by (simp add: word_le_nat_alt)
      have "?q + 4 \<le> ?p \<or> ?p + 4 \<le> ?q"
      proof (cases "ofs h y < ofs h x")
        case True
        then have "(ofs h y + 1) * unat (elt_bytes h) \<le> ?p" by (intro mult_right_mono) simp_all
        then show ?thesis using eb by simp
      next
        case False
        then have "(ofs h x + 1) * unat (elt_bytes h) \<le> ?q" using y(1) by (intro mult_right_mono) simp_all
        then show ?thesis using eb by simp
      qed
      then show ?thesis using True y(2) put_u32(1,4) [OF p] 1(2) by (simp add: has_slot_def place_def o2 same_data_def)
    qed
    have "set_free_elt x w h = Some ?g"
      using True p 1(1,2) x1 by (simp add: set_free_elt_def same_data_def elt_data_ofs o1(1))
    moreover have "same_links h ?g" using sl1 o2 by (simp add: same_links_def same_pool_def)
    moreover have "has_slot ?g x" "place ?g x = unat w"
      using True p put_u32(1,2) [OF p] 1(2) by (simp_all add: has_slot_def place_def o2 same_data_def)
    moreover have "wrote h ?g {ofs h x}" using put_u32(1,3) [OF p] 1(2) True by (simp add: wrote_def same_data_def)
    moreover have "free_lists ?g = free_lists h" using 1(2) by (simp add: same_data_def)
    ultimately show ?thesis using o2 same by blast
  next
    case False
    let ?s = "small_free_elt_free_index h @ replicate (unat x + 1 - length (small_free_elt_free_index h)) 0"
    let ?g = "h1\<lparr>small_free_elt_free_index := ?s[unat x := w]\<rparr>"
    have el: "el ?g = el h1" by (simp add: el_def fun_eq_iff)
    have o2: "ofs ?g = ofs h" "fr ?g = (\<lambda>e. e = x \<or> fr h e)" "nx ?g = nx h" "pv ?g = pv h"
      using o1 el_fields [OF el] by simp_all
    have "set_free_elt x w h = Some ?g"
      using False 1(1,2) x1 by (simp add: set_free_elt_def same_data_def Let_def)
    moreover have "same_links h ?g" using sl1 o2 by (simp add: same_links_def same_pool_def)
    moreover have "has_slot ?g x" "place ?g x = unat w"
      using False 1(2) by (simp_all add: has_slot_def place_def same_data_def)
    moreover have "has_slot ?g y \<and> place ?g y = place h y" if y: "y \<noteq> x" "has_slot h y" for y
    proof -
      have "unat x \<noteq> unat y" using y(1) by (simp add: word_unat_eq_iff)
      then show ?thesis using y(2) False 1(2) by (simp add: has_slot_def place_def same_data_def nth_append)
    qed
    moreover have "wrote h ?g {ofs h x}" using 1(2) False by (simp add: wrote_def same_data_def)
    moreover have "free_lists ?g = free_lists h" using 1(2) by (simp add: same_data_def)
    ultimately show ?thesis using o2 by blast
  qed
qed

lemma get_free_elt_in:
  assumes "links h (as @ x # bs) D" "ofs h x \<le> bend h bs" "has_slot h x"
  shows "get_free_elt h x = Some (place h x, bin (bend h bs - ofs h x))"
proof -
  have x: "in_elts h x" using links_in [OF assms(1)] by simp
  show ?thesis
    using assms(3) elt_size [OF assms(1,2)]
    by (simp add: get_free_elt_def elt_at_in [OF x] elt_data_ofs has_slot_def place_def bin_def)
qed

text \<open>
  The free elements \<open>F\<close> are listed, and each of them that is not in \<open>X\<close> has its place written down. \<open>B\<close> is the list
  of an element and \<open>P\<close> its place there.
\<close>

definition holds :: "heap \<Rightarrow> u32 set \<Rightarrow> u32 set \<Rightarrow> (u32 \<Rightarrow> nat) \<Rightarrow> (u32 \<Rightarrow> nat) \<Rightarrow> bool" where
  "holds h F X B P \<longleftrightarrow> listed (free_lists h) F B P \<and> inj_on (ofs h) (F - X)
     \<and> (\<forall>x \<in> F - X. in_elts h x \<and> fr h x \<and> has_slot h x \<and> place h x = P x)"

lemma same_links_in: "same_links h g \<Longrightarrow> in_elts g x = in_elts h x"
  by (simp add: same_links_def same_pool_in)

lemma lists_only:
  "in_elts (h\<lparr>free_lists := ls\<rparr>) = in_elts h" "ofs (h\<lparr>free_lists := ls\<rparr>) = ofs h" "fr (h\<lparr>free_lists := ls\<rparr>) = fr h"
  "has_slot (h\<lparr>free_lists := ls\<rparr>) = has_slot h" "place (h\<lparr>free_lists := ls\<rparr>) = place h"
  "same_links h (h\<lparr>free_lists := ls\<rparr>)" "wrote h (h\<lparr>free_lists := ls\<rparr>) A"
proof -
  have el: "el (h\<lparr>free_lists := ls\<rparr>) = el h" by (simp add: el_def fun_eq_iff)
  note f = el_fields [OF el]
  show "in_elts (h\<lparr>free_lists := ls\<rparr>) = in_elts h" by (simp add: in_elts_def fun_eq_iff)
  show "ofs (h\<lparr>free_lists := ls\<rparr>) = ofs h" "fr (h\<lparr>free_lists := ls\<rparr>) = fr h" using f by simp_all
  show "has_slot (h\<lparr>free_lists := ls\<rparr>) = has_slot h" "place (h\<lparr>free_lists := ls\<rparr>) = place h"
    using f by (simp_all add: has_slot_def place_def fun_eq_iff)
  show "same_links h (h\<lparr>free_lists := ls\<rparr>)" using f by (simp add: same_links_def same_pool_def)
  show "wrote h (h\<lparr>free_lists := ls\<rparr>) A" by (simp add: wrote_def)
qed

lemma remove_free_block_holds:
  assumes hl: "holds h F X B P" and x: "x \<in> F" "P x < 2 ^ 32" and X: "\<forall>y \<in> X. y \<noteq> x \<longrightarrow> B y \<noteq> B x"
  shows "\<exists>g P'. remove_free_block (B x) (P x) h = Some g \<and> same_links h g \<and> ofs g = ofs h \<and> fr g = fr h
    \<and> holds g (F - {x}) X B P' \<and> (\<forall>y. B y \<noteq> B x \<longrightarrow> P' y = P y) \<and> wrote h g (ofs h ` (F - X))
    \<and> length (free_lists g) = length (free_lists h) \<and> (\<forall>c. c \<noteq> B x \<longrightarrow> free_lists g ! c = free_lists h ! c)
    \<and> (\<forall>y. (\<forall>z \<in> F - X. z \<noteq> x \<longrightarrow> y \<noteq> z \<and> ofs h y \<noteq> ofs h z) \<longrightarrow> has_slot h y \<longrightarrow> has_slot g y \<and> place g y = place h y)"
proof -
  have l: "listed (free_lists h) F B P" and inj: "inj_on (ofs h) (F - X)"
    and ok: "\<forall>y \<in> F - X. in_elts h y \<and> fr h y \<and> has_slot h y \<and> place h y = P y"
    using hl by (simp_all add: holds_def)
  let ?fl = "free_lists h ! B x"
  let ?t = "?fl ! (length ?fl - 1)"
  note p = listed_place [OF l x(1)] and rm = listed_remove [OF l x(1)]
  show ?thesis
  proof (cases "P x < length ?fl - 1")
    case True
    let ?h0 = "h\<lparr>free_lists := (free_lists h)[B x := ?fl[P x := ?t]]\<rparr>"
    have t: "?t \<in> F - X" "?t \<noteq> x" using rm(2-4) X True by auto
    have "in_elts ?h0 ?t" "has_slot ?h0 ?t" using ok t unfolding lists_only by blast+
    then obtain h1 where 1: "set_free_elt ?t (of_nat (P x)) ?h0 = Some h1" "same_links ?h0 h1" "free_lists h1 = free_lists ?h0"
        "ofs h1 = ofs h" "fr h1 = (\<lambda>e. e = ?t \<or> fr h e)" "has_slot h1 ?t" "place h1 ?t = unat (of_nat (P x) :: u32)"
        "\<forall>y. y \<noteq> ?t \<longrightarrow> ofs h y \<noteq> ofs h ?t \<longrightarrow> has_slot h y \<longrightarrow> has_slot h1 y \<and> place h1 y = place h y" "wrote ?h0 h1 {ofs h ?t}"
      using set_free_elt_in [of ?h0 ?t "of_nat (P x)"] unfolding lists_only by blast
    let ?ls = "(free_lists h)[B x := butlast (?fl[P x := ?t])]"
    let ?g = "h1\<lparr>free_lists := ?ls\<rparr>"
    have place_x: "unat (of_nat (P x) :: u32) = P x" using x(2) by (simp add: unat_of_nat)
    have "remove_free_block (B x) (P x) h = Some ?g"
      using p(1,2) True 1(1,3) by (simp add: remove_free_block_def Let_def)
    moreover have "same_links h ?g" by (rule same_links_trans [OF same_links_trans [OF lists_only(6) 1(2)] lists_only(6)])
    moreover have "ofs ?g = ofs h" using 1(4) by (simp add: lists_only)
    moreover have "fr ?g = fr h" using 1(5) ok t(1) by (auto simp: lists_only fun_eq_iff)
    moreover have "holds ?g (F - {x}) X B (P(?t := P x))"
    proof -
      have "listed ?ls (F - {x}) B (P(?t := P x))" using rm(1) True by simp
      moreover have "in_elts ?g y \<and> fr ?g y \<and> has_slot ?g y \<and> place ?g y = (P(?t := P x)) y" if y: "y \<in> F - {x} - X" for y
      proof (cases "y = ?t")
        case True
        have "in_elts h1 ?t" using same_links_in [OF 1(2)] ok t by (simp add: lists_only)
        then show ?thesis using 1(5-7) place_x True unfolding lists_only by simp
      next
        case False
        have yF: "y \<in> F - X" using y by auto
        then have "ofs h y \<noteq> ofs h ?t" using inj_onD [OF inj] False t(1) by blast
        then show ?thesis using ok yF False 1(5,8) same_links_in [OF 1(2)] unfolding lists_only by simp
      qed
      moreover have "inj_on (ofs ?g) (F - {x} - X)" unfolding lists_only 1(4) by (rule inj_on_subset [OF inj]) auto
      ultimately show ?thesis unfolding holds_def by simp
    qed
    moreover have "\<forall>y. B y \<noteq> B x \<longrightarrow> (P(?t := P x)) y = P y" using rm(3) by auto
    moreover have "wrote h ?g (ofs h ` (F - X))"
      by (rule wrote_trans [OF wrote_trans [OF lists_only(7) 1(9)] lists_only(7)]) (use t(1) in auto)
    moreover have "length (free_lists ?g) = length (free_lists h)" "\<forall>c. c \<noteq> B x \<longrightarrow> free_lists ?g ! c = free_lists h ! c" by simp_all
    moreover have "\<forall>y. (\<forall>z \<in> F - X. z \<noteq> x \<longrightarrow> y \<noteq> z \<and> ofs h y \<noteq> ofs h z) \<longrightarrow> has_slot h y \<longrightarrow> has_slot ?g y \<and> place ?g y = place h y"
      using 1(8) t unfolding lists_only by blast
    ultimately show ?thesis by blast
  next
    case False
    let ?ls = "(free_lists h)[B x := butlast ?fl]"
    let ?g = "h\<lparr>free_lists := ?ls\<rparr>"
    have "remove_free_block (B x) (P x) h = Some ?g"
      using p(1,2) False by (simp add: remove_free_block_def Let_def)
    moreover have "listed ?ls (F - {x}) B P" using rm(1) False by simp
    then have "holds ?g (F - {x}) X B P"
      using ok inj unfolding holds_def lists_only by (auto intro: inj_on_subset)
    ultimately show ?thesis
      using lists_only(2-6) lists_only(7) [of h ?ls "ofs h ` (F - X)"] by (intro exI [of _ ?g] exI [of _ P]) simp
  qed
qed

text \<open>A list is shorter than there are indices, so its length fits the 32 bit number that is written.\<close>

lemma listed_length:
  assumes l: "listed ls F B P" and x: "x \<notin> F"
  shows "length (validate_list b ls ! b) < 2 ^ 32"
proof -
  let ?fl = "validate_list b ls ! b"
  have v: "listed (validate_list b ls) F B P" "b < length (validate_list b ls)"
    using listed_validate [OF l, of b] by (simp_all add: less_max_iff_disj)
  have e: "?fl ! i \<in> F \<and> P (?fl ! i) = i" if "i < length ?fl" for i
    using listed_entry [OF v that] by simp
  have "distinct ?fl" unfolding distinct_conv_nth using e by metis
  then have "length ?fl = card (set ?fl)" by (simp add: distinct_card)
  also have "\<dots> \<le> card F" using e by (intro card_mono) (auto simp: in_set_conv_nth)
  also have "\<dots> < card (UNIV :: u32 set)" using x by (intro psubset_card_mono) auto
  finally show ?thesis by (simp add: card_word)
qed

text \<open>Entering an element in a list.\<close>

lemma add_free_elt_holds:
  fixes b :: nat
  assumes hl: "holds h F {} B P" and x: "x \<notin> F" "in_elts h x" "4 \<le> elt_bytes h \<Longrightarrow> has_slot h x"
    and o: "\<forall>y \<in> F. ofs h y \<noteq> ofs h x"
  defines "l \<equiv> length (validate_list b (free_lists h) ! b)"
  shows "\<exists>g. set_free_elt x (of_nat l) (add_to_list b x h) = Some g \<and> same_links h g \<and> ofs g = ofs h
    \<and> fr g = (\<lambda>e. e = x \<or> fr h e) \<and> holds g (insert x F) {} (B(x := b)) (P(x := l)) \<and> wrote h g {ofs h x}"
proof -
  have ls: "listed (free_lists h) F B P" and inj: "inj_on (ofs h) F"
    and ok: "\<forall>y \<in> F. in_elts h y \<and> fr h y \<and> has_slot h y \<and> place h y = P y"
    using hl by (simp_all add: holds_def)
  let ?ls = "(validate_list b (free_lists h))[b := validate_list b (free_lists h) ! b @ [x]]"
  have a: "add_to_list b x h = h\<lparr>free_lists := ?ls\<rparr>" by (simp add: add_to_list_def Let_def)
  have l32: "unat (of_nat l :: u32) = l" using listed_length [OF ls x(1), of b] by (simp add: l_def unat_of_nat)
  obtain g where g: "set_free_elt x (of_nat l) (add_to_list b x h) = Some g" "same_links (h\<lparr>free_lists := ?ls\<rparr>) g"
      "free_lists g = ?ls" "ofs g = ofs h" "fr g = (\<lambda>e. e = x \<or> fr h e)" "has_slot g x" "place g x = l"
      "\<forall>y. y \<noteq> x \<longrightarrow> ofs h y \<noteq> ofs h x \<longrightarrow> has_slot h y \<longrightarrow> has_slot g y \<and> place g y = place h y"
      "wrote (h\<lparr>free_lists := ?ls\<rparr>) g {ofs h x}"
    using set_free_elt_in [of "h\<lparr>free_lists := ?ls\<rparr>" x "of_nat l"] x(2,3) unfolding lists_only a l32
    by (auto simp: lists_only)
  have "listed (free_lists g) (insert x F) (B(x := b)) (P(x := l))"
    using listed_add [OF ls x(1), of b] g(3) by (simp add: l_def)
  moreover have "inj_on (ofs g) (insert x F)" using inj o x(1) g(4) by (auto simp: inj_on_def)
  moreover have "in_elts g y \<and> fr g y \<and> has_slot g y \<and> place g y = (P(x := l)) y" if "y \<in> insert x F" for y
  proof (cases "y = x")
    case True
    then show ?thesis using x(2) g(5-7) same_links_in [OF g(2)] by (simp add: lists_only)
  next
    case False
    then have "y \<in> F" using that by simp
    then show ?thesis using False ok o g(5,8) same_links_in [OF g(2)] by (simp add: lists_only)
  qed
  ultimately have "holds g (insert x F) {} (B(x := b)) (P(x := l))" unfolding holds_def by simp
  moreover have "same_links h g" by (rule same_links_trans [OF lists_only(6) g(2)])
  moreover have "wrote h g {ofs h x}" by (rule wrote_trans [OF lists_only(7) [where A = "{}"] g(9)]) simp_all
  ultimately show ?thesis using g(1,4,5) by blast
qed

end
