(* ===== verification/Clib_Heap_Blocks.thy ===== *)
theory Clib_Heap_Blocks
  imports Clib_Heap_Laws
begin

text \<open>
  The invariant of a heap of \<open>src/clib/heap.c\<close>: the blocks cover the objects, the free ones are listed by the bin of
  their size. The combination of neighbouring free blocks and the release of a block keep it.
\<close>

section \<open>The invariant\<close>

text \<open>The length of the block of an element, by the offset of the next element in the chain.\<close>

fun len_in :: "(u32 \<Rightarrow> nat) \<Rightarrow> nat \<Rightarrow> u32 list \<Rightarrow> u32 \<Rightarrow> nat" where
  "len_in f n [] x = 0"
| "len_in f n (y # ys) x = (if x = y then (case ys of [] \<Rightarrow> n | z # _ \<Rightarrow> f z) - f y else len_in f n ys x)"

abbreviation blen :: "heap \<Rightarrow> u32 list \<Rightarrow> u32 \<Rightarrow> nat" where
  "blen h \<equiv> len_in (ofs h) (objects h)"

lemma len_in_right: "x \<notin> set as \<Longrightarrow> len_in f n (as @ cs) x = len_in f n cs x"
  by (induction as) auto

lemma blen_split: "x \<notin> set as \<Longrightarrow> blen h (as @ x # bs) x = bend h bs - ofs h x"
  by (simp add: len_in_right bend_def)

lemma len_in_left:
  assumes "x \<in> set as" "cs \<noteq> []" "ds \<noteq> []" "f' (hd ds) = f (hd cs)" "\<forall>y \<in> set as. f' y = f y"
  shows "len_in f' n (as @ ds) x = len_in f n (as @ cs) x"
  using assms
proof (induction as)
  case (Cons y ys)
  then show ?case by (cases ys; cases cs; cases ds) auto
qed simp

lemma len_in_left_end:
  assumes "x \<in> set as" "\<forall>y \<in> set as. f' y = f y" "m = f (hd cs)" "cs \<noteq> []"
  shows "len_in f' m as x = len_in f n (as @ cs) x"
  using assms
proof (induction as)
  case (Cons y ys)
  then show ?case by (cases ys; cases cs) auto
qed simp

lemma len_in_cong: "\<forall>y \<in> set cs. f' y = f y \<Longrightarrow> len_in f' n cs x = len_in f n cs x"
  by (induction cs) (auto split: list.splits)

definition free_set :: "heap \<Rightarrow> u32 list \<Rightarrow> u32 set" where
  "free_set h cs = {x \<in> set cs. fr h x}"

definition sound :: "heap \<Rightarrow> u32 list \<Rightarrow> bool" where
  "sound h cs \<longleftrightarrow> links h cs {} \<and> tiles h cs \<and> room h \<and> holds h (free_set h cs) {} (\<lambda>x. bin (blen h cs x)) (place h)"

lemma soundD:
  assumes "sound h cs"
  shows "links h cs {}" "tiles h cs" "room h" "holds h (free_set h cs) {} (\<lambda>x. bin (blen h cs x)) (place h)"
  using assms by (simp_all add: sound_def)

lemma soundI:
  assumes "links h cs {}" "tiles h cs" "room h" "holds h (free_set h cs) {} B P" "\<forall>x \<in> free_set h cs. B x = bin (blen h cs x)"
  shows "sound h cs"
proof -
  have "listed (free_lists h) (free_set h cs) (\<lambda>x. bin (blen h cs x)) (place h)"
    by (rule listed_cong [of _ _ B P]) (use assms(4,5) in \<open>auto simp: holds_def\<close>)
  then show ?thesis using assms unfolding sound_def holds_def by simp
qed

lemma sound_distinct: "sound h cs \<Longrightarrow> distinct cs"
  using soundD(1) linksD(4) by blast

lemma sound_size:
  assumes "sound h (as @ x # bs)"
  shows "heap_elt_size h x = Some (of_nat (blen h (as @ x # bs) x))" "blen h (as @ x # bs) x = bend h bs - ofs h x"
    "0 < blen h (as @ x # bs) x" "blen h (as @ x # bs) x < 2 ^ 31"
proof -
  note d = soundD [OF assms] and b = tiles_bend [OF soundD(2) [OF assms]]
  have "x \<notin> set as" using sound_distinct [OF assms] by simp
  then show e: "blen h (as @ x # bs) x = bend h bs - ofs h x" by (rule blen_split)
  then show "heap_elt_size h x = Some (of_nat (blen h (as @ x # bs) x))" using elt_size [OF d(1)] b(1) by simp
  show "0 < blen h (as @ x # bs) x" using b(1) e by simp
  show "blen h (as @ x # bs) x < 2 ^ 31" using b(2) linksD(3) [OF d(1)] e by linarith
qed

lemma sound_get_free:
  assumes "sound h (as @ x # bs)" "fr h x"
  shows "get_free_elt h x = Some (place h x, bin (blen h (as @ x # bs) x))"
proof -
  have "has_slot h x" using soundD(4) [OF assms(1)] assms(2) by (simp add: holds_def free_set_def)
  then show ?thesis
    using get_free_elt_in [OF soundD(1) [OF assms(1)]] tiles_bend(1) [OF soundD(2) [OF assms(1)]] sound_size(2) [OF assms(1)] by simp
qed

lemma sound_listed:
  assumes "sound h cs" "x \<in> set cs" "fr h x"
  shows "bin (blen h cs x) < length (free_lists h)" "place h x < length (free_lists h ! bin (blen h cs x))"
    "free_lists h ! bin (blen h cs x) ! place h x = x"
  using listed_place [of "free_lists h" "free_set h cs" "\<lambda>x. bin (blen h cs x)" "place h" x] soundD(4) [OF assms(1)] assms(2,3)
  by (simp_all add: holds_def free_set_def)

section \<open>The run of free blocks\<close>

definition run_record :: "heap \<Rightarrow> u32 list \<Rightarrow> u32 \<Rightarrow> free_elt" where
  "run_record h cs x = \<lparr>fe_index = x, fe_bin = bin (blen h cs x), fe_bin_index = place h x\<rparr>"

lemma free_run_sound:
  assumes "sound h cs" "cs = as @ run @ bs" "run \<noteq> []" "\<forall>x \<in> set run. fr h x" "length run \<le> n"
  shows "free_run n h (hd run) (last run) = Some (map (run_record h cs) run, of_nat (bend h bs - ofs h (hd run)))"
  using assms(2-5)
proof (induction run arbitrary: as n)
  case Nil
  then show ?case by simp
next
  case (Cons x run)
  then obtain m where n: "n = Suc m" by (cases n) auto
  have cs: "cs = as @ x # run @ bs" and s: "sound h (as @ x # run @ bs)" using Cons.prems(1) assms(1) by simp_all
  have x: "fr h x" "x \<in> set cs" using Cons.prems(3) cs by auto
  note lst = sound_listed [OF assms(1) x(2,1)]
  note sz = sound_size [OF s, folded cs] and gf = sound_get_free [OF s x(1), folded cs]
  have xin: "in_elts h x" using links_in [OF soundD(1) [OF s]] by simp
  show ?case
  proof (cases run)
    case Nil
    then show ?thesis using n gf sz lst by (simp add: run_record_def)
  next
    case (Cons y ys)
    have "x \<notin> set run" using sound_distinct [OF s] by simp
    then have ne: "x \<noteq> last run" using Cons last_in_set [of run] by auto
    have "nx h x = y" using links_next [OF soundD(1) [OF s]] Cons by simp
    moreover have "free_run m h (hd run) (last run) = Some (map (run_record h cs) run, of_nat (bend h bs - ofs h (hd run)))"
      using Cons.prems cs n Cons by (intro Cons.IH [of "as @ [x]"]) simp_all
    moreover have "ofs h x < ofs h y" using tiles_bend(1) [OF soundD(2) [OF s]] Cons by simp
    moreover have "ofs h y < bend h bs"
    proof (cases "last run = y")
      case True
      then show ?thesis
        using tiles_bend(1) [of h "as @ x # butlast run" "last run" bs] soundD(2) [OF s] Cons
        by (metis append.assoc append_Cons append_butlast_last_id append_Nil list.distinct(1))
    next
      case False
      have "tiles h ((as @ x # butlast run) @ last run # bs)" using soundD(2) [OF s] Cons
        by (metis append.assoc append_Cons append_butlast_last_id append_Nil list.distinct(1))
      note t = tiles_bend [OF this]
      have "y \<in> set (as @ x # butlast run)" using False Cons by auto
      then have "ofs h y < ofs h (last run)" using t(4) by blast
      then show ?thesis using t(1) by simp
    qed
    ultimately have "ofs h y - ofs h x + (bend h bs - ofs h y) = bend h bs - ofs h x" by simp
    then have "(of_nat (ofs h y - ofs h x) + of_nat (bend h bs - ofs h y) :: uword) = of_nat (bend h bs - ofs h x)"
      by (metis of_nat_add)
    then show ?thesis
      using n gf sz lst ne Cons \<open>nx h x = y\<close> \<open>free_run m h (hd run) (last run) = _\<close>
      by (simp add: run_record_def next_in [OF xin])
  qed
qed

section \<open>Taking the other blocks of the run out\<close>

definition same_sizes :: "heap \<Rightarrow> heap \<Rightarrow> bool" where
  "same_sizes h g \<longleftrightarrow> objects g = objects h \<and> elt_bytes g = elt_bytes h \<and> max_len g = max_len h \<and> flags g = flags h
     \<and> used_count g = used_count h"

lemma same_sizes_refl [simp]: "same_sizes h h" by (simp add: same_sizes_def)
lemma same_sizes_trans: "same_sizes h g \<Longrightarrow> same_sizes g k \<Longrightarrow> same_sizes h k" by (simp add: same_sizes_def)
lemma same_links_sizes: "same_links h g \<Longrightarrow> same_sizes h g" by (simp add: same_links_def same_sizes_def)
lemma same_data_sizes: "same_data h g \<Longrightarrow> same_sizes h g" by (simp add: same_data_def same_sizes_def)

lemma bend_cong: "ofs g = ofs h \<Longrightarrow> objects g = objects h \<Longrightarrow> bend g = bend h"
  by (simp add: bend_def fun_eq_iff split: list.splits)

text \<open>The data of a heap whose elements alone are changed.\<close>

lemma offsets_el: "\<forall>e. offset (el g e) = offset (el h e) \<Longrightarrow> ofs g = ofs h \<and> fr g = fr h"
  by (simp add: fun_eq_iff ofs_def fr_def heap_offset_def heap_is_free_def)

lemma holds_data:
  assumes "same_data h g" "\<forall>e. offset (el g e) = offset (el h e)" "holds h F X B P" "\<forall>x \<in> F - X. in_elts g x"
  shows "holds g F X B P"
proof -
  have o: "ofs g = ofs h" "fr g = fr h" using offsets_el [OF assms(2)] by simp_all
  have "has_slot g = has_slot h" "place g = place h" using assms(1) o by (simp_all add: has_slot_def place_def same_data_def fun_eq_iff)
  then show ?thesis using assms(1,3,4) o unfolding holds_def same_data_def by simp
qed

lemma delete_unused_run:
  assumes "links h (ps @ map fe_index fs @ bs) {}" "holds h F X B P" "X \<subseteq> {g}" "set (map fe_index fs) - {g} \<subseteq> F - X" "F - X \<subseteq> set (ps @ map fe_index fs @ bs)"
    "g \<in> set ps \<union> set (map fe_index fs)"
    "sorted_wrt (<) (map (ofs h) (map fe_index fs) @ [bend h bs])"
    "\<forall>r1 f r2. fs = r1 @ f # r2 \<longrightarrow> fe_index f \<noteq> g \<longrightarrow>
       B (fe_index f) = bin (bend h (map fe_index r2 @ bs) - ofs h (fe_index f)) \<and> B (fe_index f) \<noteq> B g"
  shows "\<exists>h' P'. delete_unused g fs h = Some h' \<and> links h' (ps @ filter (\<lambda>r. r = g) (map fe_index fs) @ bs) {}
    \<and> ofs h' = ofs h \<and> fr h' = fr h \<and> same_sizes h h' \<and> holds h' (F - (set (map fe_index fs) - {g})) X B P' \<and> P' g = P g
    \<and> wrote h h' (ofs h ` (F - X))"
  using assms
proof (induction fs arbitrary: h ps F P)
  case Nil
  then show ?case by (intro exI [of _ h] exI [of _ P]) simp
next
  case (Cons f fs)
  let ?x = "fe_index f"
  have srt: "sorted_wrt (<) (map (ofs h) (map fe_index fs) @ [bend h bs])" "ofs h ?x \<le> bend h (map fe_index fs @ bs)"
    using Cons.prems(7) by (cases fs; simp)+
  have bins: "\<forall>r1 f' r2. fs = r1 @ f' # r2 \<longrightarrow> fe_index f' \<noteq> g \<longrightarrow>
     B (fe_index f') = bin (bend h (map fe_index r2 @ bs) - ofs h (fe_index f')) \<and> B (fe_index f') \<noteq> B g"
    using Cons.prems(8) by (metis append_Cons)
  show ?case
  proof (cases "?x = g")
    case True
    have "g \<notin> set (map fe_index fs)" using linksD(4) [OF Cons.prems(1)] True by simp
    then have "filter (\<lambda>r. r = g) (map fe_index fs) = []" by (auto simp: filter_empty_conv simp del: set_map)
    moreover have "set (map fe_index fs) - {g} = set (map fe_index (f # fs)) - {g}" using True by auto
    moreover have "\<exists>h' P'. delete_unused g fs h = Some h' \<and> links h' ((ps @ [?x]) @ filter (\<lambda>r. r = g) (map fe_index fs) @ bs) {}
      \<and> ofs h' = ofs h \<and> fr h' = fr h \<and> same_sizes h h' \<and> holds h' (F - (set (map fe_index fs) - {g})) X B P' \<and> P' g = P g
      \<and> wrote h h' (ofs h ` (F - X))"
      by (rule Cons.IH [OF _ Cons.prems(2,3) _ _ _ srt(1) bins]) (use Cons.prems(1,4-6) True in auto)
    ultimately show ?thesis using True by simp
  next
    case False
    have x: "?x \<in> F" "?x \<notin> X" "B ?x \<noteq> B g" using Cons.prems(3,4,8) False by (auto dest: spec [of _ "[]"])
    have hx: "in_elts h ?x \<and> has_slot h ?x \<and> place h ?x = P ?x" using Cons.prems(2) x by (simp add: holds_def)
    have l: "links h (ps @ ?x # map fe_index fs @ bs) {}" using Cons.prems(1) by simp
    have Bx: "B ?x = bin (bend h (map fe_index fs @ bs) - ofs h ?x)" using Cons.prems(8) False by auto
    have get: "get_free_elt h ?x = Some (P ?x, B ?x)"
      using get_free_elt_in [OF l srt(2)] hx Bx by simp
    have "\<forall>y \<in> X. y \<noteq> ?x \<longrightarrow> B y \<noteq> B ?x" using x(3) Cons.prems(3) by auto
    moreover have "P ?x < 2 ^ 32" using hx place_less [of h ?x] by simp
    ultimately obtain h1 P1 where
      1: "remove_free_block (B ?x) (P ?x) h = Some h1" "same_links h h1" "ofs h1 = ofs h" "fr h1 = fr h"
        "holds h1 (F - {?x}) X B P1" "\<forall>y. B y \<noteq> B ?x \<longrightarrow> P1 y = P y" "wrote h h1 (ofs h ` (F - X))"
      using remove_free_block_holds [OF Cons.prems(2) x(1)] by blast
    have "ps @ map fe_index fs @ bs \<noteq> []" using Cons.prems(6) False by auto
    from delete_links [OF same_links_links [OF 1(2) l] this] obtain h2 where
      2: "elt_delete ?x h1 = Some h2" "links h2 (ps @ map fe_index fs @ bs) {}" "same_data h1 h2" "\<forall>e. offset (el h2 e) = offset (el h1 e)" by blast
    have o2: "ofs h2 = ofs h" "fr h2 = fr h" using offsets_el [OF 2(4)] 1(3,4) by simp_all
    have sz: "same_sizes h h2" by (rule same_sizes_trans [OF same_links_sizes [OF 1(2)] same_data_sizes [OF 2(3)]])
    then have be: "bend h2 = bend h" using o2 by (intro bend_cong) (simp_all add: same_sizes_def)
    have "in_elts h2 y" if "y \<in> F - {?x} - X" for y
      using links_in [OF 2(2)] Cons.prems(5) that by auto
    then have h2: "holds h2 (F - {?x}) X B P1" by (intro holds_data [OF 2(3,4) 1(5)]) blast
    have "\<exists>h' P'. delete_unused g fs h2 = Some h' \<and> links h' (ps @ filter (\<lambda>r. r = g) (map fe_index fs) @ bs) {}
      \<and> ofs h' = ofs h2 \<and> fr h' = fr h2 \<and> same_sizes h2 h' \<and> holds h' (F - {?x} - (set (map fe_index fs) - {g})) X B P' \<and> P' g = P1 g
      \<and> wrote h2 h' (ofs h2 ` (F - {?x} - X))"
    proof (rule Cons.IH [OF 2(2) h2 Cons.prems(3)])
      have "?x \<notin> set (map fe_index fs)" using linksD(4) [OF l] by simp
      then show "set (map fe_index fs) - {g} \<subseteq> F - {?x} - X" using Cons.prems(4) by (auto simp del: set_map)
      show "F - {?x} - X \<subseteq> set (ps @ map fe_index fs @ bs)" using Cons.prems(5) by auto
      show "g \<in> set ps \<union> set (map fe_index fs)" using Cons.prems(6) False by simp
      show "sorted_wrt (<) (map (ofs h2) (map fe_index fs) @ [bend h2 bs])" using srt(1) unfolding be o2 .
    qed (unfold be o2, rule bins)
    then obtain h' P' where 3: "delete_unused g fs h2 = Some h'" "links h' (ps @ filter (\<lambda>r. r = g) (map fe_index fs) @ bs) {}"
      "ofs h' = ofs h" "fr h' = fr h" "same_sizes h2 h'" "holds h' (F - {?x} - (set (map fe_index fs) - {g})) X B P'" "P' g = P1 g"
      "wrote h2 h' (ofs h ` (F - {?x} - X))" unfolding o2 by blast
    have "F - {?x} - (set (map fe_index fs) - {g}) = F - (set (map fe_index (f # fs)) - {g})" using False by auto
    moreover have "wrote h h' (ofs h ` (F - X))"
      by (rule wrote_trans [OF wrote_trans [OF 1(7) same_data_wrote [OF 2(3), of "{}"], of "ofs h ` (F - X)"] 3(8)]) auto
    moreover have "P' g = P g" using 3(7) 1(6) x(3) by simp
    ultimately show ?thesis
      using 3(1-6) False get 1(1) 2(1) same_sizes_trans [OF sz 3(5)]
      by (intro exI [of _ h'] exI [of _ P']) simp
  qed
qed

section \<open>Combination\<close>

text \<open>The element that is left gets the offset of the first one, and its place is written down.\<close>

lemma combined:
  assumes l: "links h (as @ g # bs) {}" and hl: "holds h F {g} B P" and F: "F = insert g (free_set h as \<union> free_set h bs)"
    and off: "heap_offset (e\<lparr>offset := w\<rparr>) = of_nat k" "heap_is_free (e\<lparr>offset := w\<rparr>)" "k < 2 ^ 31"
    and t: "sorted_wrt (<) (map (ofs h) as @ k # map (ofs h) bs @ [objects h])" "as = [] \<Longrightarrow> k = 0" "as \<noteq> [] \<Longrightarrow> ofs h (hd as) = 0"
    and r: "room h" and B: "\<forall>y \<in> F. B y = bin (len_in ((ofs h)(g := k)) (objects h) (as @ g # bs) y)" and P: "P g < 2 ^ 32"
  shows "\<exists>h'. modify_elt g (\<lambda>y. y\<lparr>offset := w\<rparr>) h \<bind> set_free_elt g (of_nat (P g)) = Some h' \<and> sound h' (as @ g # bs)
    \<and> ofs h' = (ofs h)(g := k) \<and> fr h' = (fr h)(g := True) \<and> same_sizes h h' \<and> wrote h h' {k}"
proof -
  have g: "in_elts h g" "g \<notin> set as" "g \<notin> set bs" using links_in [OF l] linksD(4) [OF l] by auto
  obtain h1 where 1: "modify_elt g (\<lambda>y. y\<lparr>offset := w\<rparr>) h = Some h1" "same_data h h1" "same_pool h h1"
      "head h1 = head h" "tail h1 = tail h" "el h1 = (el h)(g := (el h g)\<lparr>offset := w\<rparr>)"
    by (rule modify_elt_in [OF g(1)])
  have w: "heap_offset (x\<lparr>offset := w\<rparr>) = of_nat k" "heap_is_free (x\<lparr>offset := w\<rparr>)" for x
    using off(1,2) by (simp_all add: heap_offset_def heap_is_free_def)
  have "unat (of_nat k :: uword) = k" using off(3) unat_of_nat_u64 [of k] by simp
  then have o1: "ofs h1 = (ofs h)(g := k)" "fr h1 = (fr h)(g := True)" "nx h1 = nx h" "pv h1 = pv h"
    using w unfolding ofs_def fr_def nx_def pv_def 1(6) by (auto simp: fun_eq_iff)
  have s1: "same_links h h1" using 1(2-5) o1(3,4) by (simp add: same_links_def same_data_def)
  have l1: "links h1 (as @ g # bs) {}" by (rule same_links_links [OF s1 l])
  have ob: "objects h1 = objects h" "elt_bytes h1 = elt_bytes h" "memory h1 = memory h" "free_lists h1 = free_lists h"
      "small_free_elt_free_index h1 = small_free_elt_free_index h"
    using 1(2) by (simp_all add: same_data_def)
  have maps: "map ((ofs h)(g := k)) as = map (ofs h) as" "map ((ofs h)(g := k)) bs = map (ofs h) bs" using g(2,3) by auto
  have t1: "tiles h1 (as @ g # bs)"
    unfolding tiles_def o1(1) ob using t maps g by (cases as) (auto simp: sorted_wrt_append)
  have r1: "room h1" using r ob by (simp add: room_def)
  have "k < objects h" using t(1) by (simp add: sorted_wrt_append)
  then have "4 \<le> elt_bytes h1 \<Longrightarrow> has_slot h1 g" using room_slot [OF r1] o1(1) ob(1) by simp
  then obtain h2 where 2: "set_free_elt g (of_nat (P g)) h1 = Some h2" "same_links h1 h2" "free_lists h2 = free_lists h1"
      "ofs h2 = ofs h1" "fr h2 = (\<lambda>e. e = g \<or> fr h1 e)" "has_slot h2 g" "place h2 g = unat (of_nat (P g) :: u32)"
      "\<forall>y. y \<noteq> g \<longrightarrow> ofs h1 y \<noteq> ofs h1 g \<longrightarrow> has_slot h1 y \<longrightarrow> has_slot h2 y \<and> place h2 y = place h1 y" "wrote h1 h2 {ofs h1 g}"
    using set_free_elt_in [of h1 g "of_nat (P g)"] links_in [OF l1, of g] by auto
  have o2: "ofs h2 = (ofs h)(g := k)" "fr h2 = (fr h)(g := True)" using 2(4,5) o1 by (auto simp: fun_eq_iff)
  have l2: "links h2 (as @ g # bs) {}" by (rule same_links_links [OF 2(2) l1])
  have ob2: "objects h2 = objects h" using 2(2) ob by (simp add: same_links_def)
  have t2: "tiles h2 (as @ g # bs)" using t1 by (simp add: tiles_def o1(1) o2(1) ob ob2)
  have inj: "inj_on (ofs h2) (set (as @ g # bs))" by (rule tiles_inj [OF t2])
  have Fs: "F = free_set h2 (as @ g # bs)" using F g by (auto simp: free_set_def o2(2))
  have "unat (of_nat (P g) :: u32) = P g" using P by (simp add: unat_of_nat)
  note Pg = 2(7) [unfolded this]
  have slots: "in_elts h2 y \<and> fr h2 y \<and> has_slot h2 y \<and> place h2 y = P y" if y: "y \<in> F" for y
  proof (cases "y = g")
    case True
    then show ?thesis using 2(6) Pg links_in [OF l2, of g] o2(2) by simp
  next
    case False
    have mem: "y \<in> set (as @ g # bs)" using y F by (auto simp: free_set_def)
    have "has_slot h y \<and> place h y = P y" using hl y False by (simp add: holds_def)
    then have "has_slot h1 y \<and> place h1 y = P y"
      using False by (auto simp: has_slot_def place_def ob o1(1) split: if_splits)
    moreover have "ofs h1 y \<noteq> ofs h1 g" using inj_onD [OF inj, of y g] mem False 2(4) by auto
    ultimately show ?thesis using 2(8) False links_in [OF l2, of y] mem y Fs by (auto simp: free_set_def)
  qed
  have "listed (free_lists h2) F B P" using hl 2(3) ob by (simp add: holds_def)
  moreover have "inj_on (ofs h2) F" by (rule inj_on_subset [OF inj]) (auto simp: Fs free_set_def)
  ultimately have "holds h2 F {} B P" using slots by (simp add: holds_def)
  moreover have "room h2" using r1 2(9) 2(2) by (simp add: room_def wrote_def same_links_def)
  moreover have "\<forall>y \<in> F. B y = bin (blen h2 (as @ g # bs) y)" using B by (simp add: o2(1) ob2)
  ultimately have "sound h2 (as @ g # bs)" using soundI [OF l2 t2] Fs by simp
  moreover have "same_sizes h h2" by (rule same_sizes_trans [OF same_data_sizes [OF 1(2)] same_links_sizes [OF 2(2)]])
  moreover have "wrote h h2 {k}"
    using wrote_trans [OF same_data_wrote [OF 1(2), of "{}"] 2(9), of "{k}"] o1(1) by simp
  ultimately show ?thesis using 1(1) 2(1) o2 by (intro exI [of _ h2]) simp
qed

lemma tiles_run: "tiles h (as @ run @ bs) \<Longrightarrow> sorted_wrt (<) (map (ofs h) run @ [bend h bs])"
  by (cases bs) (auto simp: tiles_def sorted_wrt_append)

text \<open>What is common to the two ways of choosing the element that is left: one of the run, or a new one in front of it.\<close>

lemma combine_rest:
  assumes s: "sound h (as @ run @ bs)" and run: "run \<noteq> []" "\<forall>x \<in> set run. fr h x" "map fe_index fs = run"
    and l1: "links h1 (ps @ run @ bs) {}" and ps: "ps = as \<and> g \<in> set run \<or> ps = as @ [g] \<and> g \<notin> set (as @ run @ bs)"
    and hl: "holds h1 (insert g (free_set h (as @ run @ bs))) {g} B P"
    and o: "\<forall>x \<in> set (as @ run @ bs). ofs h1 x = ofs h x \<and> fr h1 x = fr h x" and sz: "same_sizes h h1"
    and B: "\<forall>x \<in> free_set h (as @ run @ bs) - {g}. B x = bin (blen h (as @ run @ bs) x)" "B g = bin (bend h bs - ofs h (hd run))"
      "\<forall>r \<in> set run - {g}. B r \<noteq> B g"
    and P: "P g < 2 ^ 32" and wr: "wrote h h1 {}"
  shows "\<exists>h'. delete_unused g fs h1 \<bind> modify_elt g (\<lambda>y. y\<lparr>offset := offset (el h1 (hd run))\<rparr>) \<bind> set_free_elt g (of_nat (P g)) = Some h'
    \<and> sound h' (as @ g # bs) \<and> fr h' g \<and> ofs h' g = ofs h (hd run) \<and> (\<forall>x \<in> set (as @ bs). ofs h' x = ofs h x \<and> fr h' x = fr h x)
    \<and> same_sizes h h' \<and> wrote h h' (ofs h ` free_set h (as @ run @ bs))"
proof -
  let ?F = "insert g (free_set h (as @ run @ bs))" and ?k = "ofs h (hd run)"
  note sd = soundD [OF s]
  have dist: "distinct (as @ run @ bs)" by (rule sound_distinct [OF s])
  have ob: "objects h1 = objects h" using sz by (simp add: same_sizes_def)
  have be: "bend h1 xs = bend h xs" if "set xs \<subseteq> set (as @ run @ bs)" for xs
    using that o ob by (cases xs) auto
  have beb: "bend h1 bs = bend h bs" by (rule be) auto
  have map_run: "map (ofs h1) run = map (ofs h) run" using o by auto
  have "\<exists>h' P'. delete_unused g fs h1 = Some h' \<and> links h' (ps @ filter (\<lambda>r. r = g) (map fe_index fs) @ bs) {}
    \<and> ofs h' = ofs h1 \<and> fr h' = fr h1 \<and> same_sizes h1 h' \<and> holds h' (?F - (set (map fe_index fs) - {g})) {g} B P' \<and> P' g = P g
    \<and> wrote h1 h' (ofs h1 ` (?F - {g}))"
  proof (rule delete_unused_run)
    show "links h1 (ps @ map fe_index fs @ bs) {}" using l1 run(3) by simp
    show "holds h1 ?F {g} B P" by (rule hl)
    show "set (map fe_index fs) - {g} \<subseteq> ?F - {g}" using run(2,3) by (auto simp: free_set_def simp del: set_map)
    show "?F - {g} \<subseteq> set (ps @ map fe_index fs @ bs)" using ps run(3) by (auto simp: free_set_def simp del: set_map)
    show "g \<in> set ps \<union> set (map fe_index fs)" using ps run(3) by (auto simp del: set_map)
    show "sorted_wrt (<) (map (ofs h1) (map fe_index fs) @ [bend h1 bs])"
      using tiles_run [OF sd(2)] unfolding run(3) map_run beb .
    show "\<forall>r1 f r2. fs = r1 @ f # r2 \<longrightarrow> fe_index f \<noteq> g \<longrightarrow>
       B (fe_index f) = bin (bend h1 (map fe_index r2 @ bs) - ofs h1 (fe_index f)) \<and> B (fe_index f) \<noteq> B g"
    proof (intro allI impI)
      fix r1 f r2 assume f: "fs = r1 @ f # r2" "fe_index f \<noteq> g"
      let ?x = "fe_index f"
      have r: "run = map fe_index r1 @ ?x # map fe_index r2" using f(1) run(3) by auto
      then have x: "?x \<in> set run" by simp
      then have "?x \<in> free_set h (as @ run @ bs)" using run(2) by (simp add: free_set_def)
      then have "B ?x = bin (blen h (as @ run @ bs) ?x)" using B(1) f(2) by simp
      also have "as @ run @ bs = (as @ map fe_index r1) @ ?x # (map fe_index r2 @ bs)" using r by simp
      also have "blen h \<dots> ?x = bend h (map fe_index r2 @ bs) - ofs h ?x"
      proof (rule blen_split)
        show "?x \<notin> set (as @ map fe_index r1)" using dist r by (auto simp del: set_map)
      qed
      also have "bend h (map fe_index r2 @ bs) = bend h1 (map fe_index r2 @ bs)" by (rule be [symmetric]) (use r in auto)
      also have "ofs h ?x = ofs h1 ?x" using o x by simp
      finally have "B ?x = bin (bend h1 (map fe_index r2 @ bs) - ofs h1 ?x)" .
      moreover have "B ?x \<noteq> B g" using B(3) x f(2) by blast
      ultimately show "B ?x = bin (bend h1 (map fe_index r2 @ bs) - ofs h1 ?x) \<and> B ?x \<noteq> B g" by blast
    qed
  qed simp
  then obtain h2 P2 where 2: "delete_unused g fs h1 = Some h2" "links h2 (ps @ filter (\<lambda>r. r = g) run @ bs) {}" "ofs h2 = ofs h1" "fr h2 = fr h1"
      "same_sizes h1 h2" "holds h2 (?F - (set run - {g})) {g} B P2" "P2 g = P g" "wrote h1 h2 (ofs h1 ` (?F - {g}))"
    unfolding run(3) by blast
  have "distinct run" using dist by simp
  then have "filter (\<lambda>r. r = g) run = (if g \<in> set run then [g] else [])"
    by (induction run) (auto simp: filter_empty_conv)
  then have ch: "ps @ filter (\<lambda>r. r = g) run @ bs = as @ g # bs" using ps by auto
  have l2: "links h2 (as @ g # bs) {}" using 2(2) unfolding ch .
  have gn: "g \<notin> set as" "g \<notin> set bs" using linksD(4) [OF l2] by auto
  have o2: "\<forall>x \<in> set (as @ bs). ofs h2 x = ofs h x \<and> fr h2 x = fr h x" using o unfolding 2(3,4) by auto
  have ob2: "objects h2 = objects h" using ob 2(5) by (simp add: same_sizes_def)
  have hdr: "hd run \<in> set run" using run(1) by simp
  obtain r rs where "run = r # rs" using run(1) by (cases run) simp_all
  then have klt: "?k < objects h" "?k < 2 ^ 31"
    using tiles_bend(3) [of h as r "rs @ bs"] sd(2) linksD(3) [OF sd(1)] by simp_all
  have e: "heap_offset ((el h1 (hd run))\<lparr>offset := offset (el h1 (hd run))\<rparr>) = of_nat ?k"
      "heap_is_free ((el h1 (hd run))\<lparr>offset := offset (el h1 (hd run))\<rparr>)"
    using o hdr run(2) heap_offset_nat [of h1 "hd run"] by (simp_all add: fr_def)
  have maps: "map (ofs h2) as = map (ofs h) as" "map (ofs h2) bs = map (ofs h) bs" using o2 by auto
  have F2: "?F - (set run - {g}) = insert g (free_set h2 as \<union> free_set h2 bs)"
    using o2 dist gn by (auto simp: free_set_def)
  have "\<exists>h'. modify_elt g (\<lambda>y. y\<lparr>offset := offset (el h1 (hd run))\<rparr>) h2 \<bind> set_free_elt g (of_nat (P2 g)) = Some h' \<and> sound h' (as @ g # bs)
    \<and> ofs h' = (ofs h2)(g := ?k) \<and> fr h' = (fr h2)(g := True) \<and> same_sizes h2 h' \<and> wrote h2 h' {?k}"
  proof (rule combined [OF l2 2(6) F2 e klt(2)])
    show "sorted_wrt (<) (map (ofs h2) as @ ?k # map (ofs h2) bs @ [objects h2])"
      using sd(2) run(1) unfolding maps ob2 tiles_def by (cases run) (auto simp: sorted_wrt_append)
    show "as = [] \<Longrightarrow> ?k = 0" using sd(2) run(1) by (simp add: tiles_def)
    show "as \<noteq> [] \<Longrightarrow> ofs h2 (hd as) = 0" using sd(2) o2 by (simp add: tiles_def)
    show "room h2" using sd(3) ob2 2(5) sz wrote_trans [OF wr 2(8), of UNIV]
      by (simp add: room_def wrote_def same_sizes_def)
    show "P2 g < 2 ^ 32" using P 2(7) by simp
    show "\<forall>y \<in> ?F - (set run - {g}). B y = bin (len_in ((ofs h2)(g := ?k)) (objects h2) (as @ g # bs) y)"
    proof
      fix y assume y: "y \<in> ?F - (set run - {g})"
      consider "y = g" | (left) "y \<in> set as" "y \<noteq> g" | (right) "y \<in> set bs" "y \<noteq> g" "y \<notin> set as" "y \<notin> set run"
        using y dist by (auto simp: free_set_def)
      then show "B y = bin (len_in ((ofs h2)(g := ?k)) (objects h2) (as @ g # bs) y)"
      proof cases
        case 1
        then show ?thesis using gn o2 B(2) ob2 by (cases bs) (auto simp: len_in_right bend_def)
      next
        case left
        have "len_in ((ofs h2)(g := ?k)) (objects h) (as @ g # bs) y = blen h (as @ run @ bs) y"
          by (rule len_in_left) (use left run(1) o2 gn in auto)
        then show ?thesis using B(1) y left ob2 by simp
      next
        case right
        have "len_in ((ofs h2)(g := ?k)) (objects h) bs y = blen h bs y" by (rule len_in_cong) (use gn o2 in auto)
        then show ?thesis using B(1) y right ob2 by (simp add: len_in_right)
      qed
    qed
  qed
  then obtain h' where 3: "modify_elt g (\<lambda>y. y\<lparr>offset := offset (el h1 (hd run))\<rparr>) h2 \<bind> set_free_elt g (of_nat (P g)) = Some h'"
      "sound h' (as @ g # bs)" "ofs h' = (ofs h2)(g := ?k)" "fr h' = (fr h2)(g := True)" "same_sizes h2 h'" "wrote h2 h' {?k}"
    using 2(7) by auto
  have "ofs h1 ` (?F - {g}) \<subseteq> ofs h ` free_set h (as @ run @ bs)" using o by (auto simp: free_set_def)
  moreover have "?k \<in> ofs h ` free_set h (as @ run @ bs)" using hdr run(2) by (intro imageI) (simp add: free_set_def)
  ultimately have "wrote h h' (ofs h ` free_set h (as @ run @ bs))"
    by (intro wrote_trans [OF wrote_trans [OF wr 2(8), of "ofs h ` free_set h (as @ run @ bs)"] 3(6)]) simp_all
  moreover have "same_sizes h h'" by (rule same_sizes_trans [OF sz same_sizes_trans [OF 2(5) 3(5)]])
  ultimately show ?thesis using 2(1) 3(1-4) o2 gn by (intro exI [of _ h']) auto
qed

lemma bend_le:
  assumes "sound h (as @ bs)" "as \<noteq> []"
  shows "bend h bs \<le> objects h"
proof -
  have "sound h (butlast as @ last as # bs)" using assms by (metis append.assoc append_Cons append_Nil append_butlast_last_id)
  from tiles_bend(2) [OF soundD(2) [OF this]] show ?thesis .
qed

text \<open>Two blocks of a run are together not longer than the run.\<close>

lemma two_in_order:
  assumes s: "sound h (as @ (r1 @ x # r2 @ y # r3) @ bs)"
  defines "cs \<equiv> as @ (r1 @ x # r2 @ y # r3) @ bs"
  shows "blen h cs x + blen h cs y \<le> bend h bs - ofs h (hd (r1 @ x # r2 @ y # r3))"
proof -
  have sx: "sound h ((as @ r1) @ x # (r2 @ y # r3 @ bs))" and sy: "sound h ((as @ r1 @ x # r2) @ y # (r3 @ bs))"
    using s by simp_all
  note tx = tiles_bend [OF soundD(2) [OF sx]] and ty = tiles_bend [OF soundD(2) [OF sy]]
  have x: "blen h cs x = bend h (r2 @ y # r3 @ bs) - ofs h x" and y: "blen h cs y = bend h (r3 @ bs) - ofs h y"
    using sound_size(2) [OF sx] sound_size(2) [OF sy] by (simp_all add: cs_def)
  have "bend h (r2 @ y # r3 @ bs) \<le> ofs h y" using tx(5) by simp
  moreover have "bend h (r3 @ bs) \<le> bend h bs"
  proof (cases bs)
    case Nil
    then show ?thesis using ty(2) by simp
  next
    case (Cons b bs')
    then show ?thesis using ty(5) by simp
  qed
  moreover have "ofs h (hd (r1 @ x # r2 @ y # r3)) \<le> ofs h x" using tx(4) by (cases r1) auto
  ultimately show ?thesis using x y tx(1) ty(1) by linarith
qed

lemma two_in_run:
  assumes s: "sound h (as @ run @ bs)" and xy: "x \<in> set run" "y \<in> set run" "x \<noteq> y"
  shows "blen h (as @ run @ bs) x + blen h (as @ run @ bs) y \<le> bend h bs - ofs h (hd run)"
proof -
  obtain r1 r where r: "run = r1 @ x # r" using split_list [OF xy(1)] by blast
  then consider "y \<in> set r" | "y \<in> set r1" using xy by auto
  then show ?thesis
  proof cases
    case 1
    then obtain r2 r3 where "r = r2 @ y # r3" using split_list by fast
    then show ?thesis using two_in_order [of h as r1 x r2 y r3 bs] s r by simp
  next
    case 2
    then obtain r0 r2 where "r1 = r0 @ y # r2" using split_list by fast
    then show ?thesis using two_in_order [of h as r0 y r2 x r bs] s r by (simp add: add.commute)
  qed
qed

lemma find_record:
  "find (\<lambda>r. fe_bin r = b) (map (run_record h cs) xs) = map_option (run_record h cs) (find (\<lambda>x. bin (blen h cs x) = b) xs)"
  by (induction xs) (simp_all add: run_record_def)

lemma combine_sound:
  assumes s: "sound h (as @ run @ bs)" and run: "2 \<le> length run" "length run \<le> 3" "\<forall>x \<in> set run. fr h x"
  shows "\<exists>h' g. combine_free_blocks (hd run) (last run) h = Some h' \<and> sound h' (as @ g # bs) \<and> g \<notin> set (as @ bs) \<and> fr h' g
    \<and> ofs h' g = ofs h (hd run) \<and> (\<forall>x \<in> set (as @ bs). ofs h' x = ofs h x \<and> fr h' x = fr h x)
    \<and> same_sizes h h' \<and> wrote h h' (ofs h ` free_set h (as @ run @ bs))"
proof -
  let ?cs = "as @ run @ bs" and ?T = "bend h bs - ofs h (hd run)"
  let ?F = "free_set h ?cs" and ?B = "\<lambda>x. bin (blen h ?cs x)"
  let ?fs = "map (run_record h ?cs) run"
  note sd = soundD [OF s]
  have ne: "run \<noteq> []" using run(1) by auto
  have fe: "map fe_index ?fs = run" by (simp add: run_record_def comp_def)
  have free_run: "free_run 3 h (hd run) (last run) = Some (?fs, of_nat ?T)" by (rule free_run_sound [OF s refl ne run(3,2)])
  have hdr: "hd run \<in> set run" and hdi: "fe_index (hd ?fs) = hd run" using ne by (auto simp: hd_map run_record_def)
  have dist: "distinct ?cs" by (rule sound_distinct [OF s])
  show ?thesis
  proof (cases "find (\<lambda>x. ?B x = bin ?T) run")
    case (Some g)
    then have g: "g \<in> set run" "?B g = bin ?T" by (auto simp: find_Some_iff)
    have gF: "g \<in> ?F" using g(1) run(3) by (simp add: free_set_def)
    have P32: "place h g < 2 ^ 32" by (rule place_less)
    have others: "\<forall>r \<in> set run - {g}. ?B r \<noteq> ?B g"
    proof
      fix r assume r: "r \<in> set run - {g}"
      have "blen h ?cs r + blen h ?cs g \<le> ?T" by (rule two_in_run [OF s]) (use r g in auto)
      moreover have "0 < blen h ?cs x" if "x \<in> set run" for x
        using sound_size(3) [of h "as @ _" x "_ @ bs"] s split_list [OF that] by fastforce
      moreover have "?T < 2 ^ 32" using bend_le [of h "as @ run" bs] s ne linksD(3) [OF sd(1)] by simp
      ultimately show "?B r \<noteq> ?B g" using bin_parts [of "blen h ?cs r" "blen h ?cs g" ?T] r g by auto
    qed
    have hl: "holds h (insert g ?F) {g} ?B (place h)"
      using sd(4) gF by (auto simp: holds_def insert_absorb intro: inj_on_subset)
    obtain h' where h': "delete_unused g ?fs h \<bind> modify_elt g (\<lambda>y. y\<lparr>offset := offset (el h (hd run))\<rparr>) \<bind> set_free_elt g (of_nat (place h g)) = Some h'"
      "sound h' (as @ g # bs)" "fr h' g" "ofs h' g = ofs h (hd run)" "\<forall>x \<in> set (as @ bs). ofs h' x = ofs h x \<and> fr h' x = fr h x"
      "same_sizes h h'" "wrote h h' (ofs h ` ?F)"
      using combine_rest [OF s ne run(3) fe sd(1) _ hl _ _ _ _ others P32] g by auto
    have "in_elts h (hd run)" using links_in [OF sd(1)] hdr by simp
    then have "combine_free_blocks (hd run) (last run) h = Some h'"
      using free_run h'(1) Some hdi by (simp add: combine_free_blocks_def find_record run_record_def elt_at_in bin_def)
    moreover have "g \<notin> set (as @ bs)" using dist g(1) by auto
    ultimately show ?thesis using h' by blast
  next
    case None
    then have none: "\<forall>r \<in> set run. ?B r \<noteq> bin ?T" by (simp add: find_None_iff)
    obtain g h1 where new: "elt_new h = (g, h1)" by fastforce
    have "length ?cs \<le> objects h" by (rule tiles_length [OF sd(2)])
    note n = elt_new_links [OF sd(1) this new]
    let ?b = "bin ?T"
    let ?l = "length (validate_list ?b (free_lists h1) ! ?b)"
    let ?ls = "(validate_list ?b (free_lists h1))[?b := validate_list ?b (free_lists h1) ! ?b @ [g]]"
    let ?h2 = "h1\<lparr>free_lists := ?ls\<rparr>"
    have a: "add_to_list ?b g h1 = ?h2" by (simp add: add_to_list_def Let_def)
    have "links ?h2 ?cs {g}" by (rule same_links_links [OF lists_only(6) n(1)])
    then have "\<exists>k. elt_insert_before (hd run) g ?h2 = Some k \<and> links k (as @ g # run @ bs) {} \<and> same_data ?h2 k \<and> same_pool ?h2 k
      \<and> (\<forall>e. offset (el k e) = offset (el ?h2 e))"
      using insert_before_links [of ?h2 as "hd run" "tl run @ bs" g] ne by (cases run) simp_all
    then obtain h3 where
      3: "elt_insert_before (hd run) g ?h2 = Some h3" "links h3 (as @ g # run @ bs) {}" "same_data ?h2 h3" "same_pool ?h2 h3"
        "\<forall>e. offset (el h3 e) = offset (el ?h2 e)" by blast
    have o3: "ofs h3 = ofs h1" "fr h3 = fr h1" using offsets_el [OF 3(5)] by (simp_all add: lists_only)
    have o: "\<forall>x \<in> set ?cs. ofs h3 x = ofs h x \<and> fr h3 x = fr h x" using n(4) o3 nx_pv_el by metis
    have data: "free_lists h1 = free_lists h" "memory h3 = memory h" "elt_bytes h3 = elt_bytes h" "objects h3 = objects h"
        "small_free_elt_free_index h3 = small_free_elt_free_index h" "free_lists h3 = ?ls" "same_sizes h h3"
      using n(2) 3(3) by (simp_all add: same_data_def same_sizes_def)
    have lst: "listed (free_lists h1) ?F ?B (place h)" using sd(4) data(1) by (simp add: holds_def)
    have gF: "g \<notin> ?F" using n(3) by (simp add: free_set_def)
    have "listed (free_lists h3) (insert g ?F) (?B(g := ?b)) ((place h)(g := ?l))"
      using listed_add [OF lst gF, of ?b] by (simp add: data)
    moreover have "insert g ?F - {g} = ?F" using gF by simp
    moreover have "inj_on (ofs h3) ?F" using sd(4) o by (auto simp: holds_def free_set_def inj_on_def)
    moreover have "in_elts h3 y \<and> fr h3 y \<and> has_slot h3 y \<and> place h3 y = place h y" if "y \<in> ?F" for y
    proof -
      have "y \<in> set ?cs" "fr h y" "has_slot h y" using that sd(4) by (auto simp: free_set_def holds_def)
      then show ?thesis using o links_in [OF 3(2), of y] by (auto simp: has_slot_def place_def data)
    qed
    ultimately have hl: "holds h3 (insert g ?F) {g} (?B(g := ?b)) ((place h)(g := ?l))"
      using gF by (auto simp: holds_def)
    have l32: "((place h)(g := ?l)) g < 2 ^ 32" using listed_length [OF lst gF, of ?b] by simp
    have g_new: "g \<notin> set ?cs" by (rule n(3))
    have wr: "wrote h h3 {}" using data by (simp add: wrote_def)
    have b1: "\<forall>x \<in> ?F - {g}. (?B(g := ?b)) x = ?B x" by simp
    have b2: "(?B(g := ?b)) g = ?b" by simp
    have b3: "\<forall>r \<in> set run - {g}. (?B(g := ?b)) r \<noteq> (?B(g := ?b)) g" using none by auto
    have l3: "links h3 ((as @ [g]) @ run @ bs) {}" using 3(2) by simp
    obtain h' where h': "delete_unused g ?fs h3 \<bind> modify_elt g (\<lambda>y. y\<lparr>offset := offset (el h3 (hd run))\<rparr>) \<bind> set_free_elt g (of_nat ?l) = Some h'"
      "sound h' (as @ g # bs)" "fr h' g" "ofs h' g = ofs h (hd run)" "\<forall>x \<in> set (as @ bs). ofs h' x = ofs h x \<and> fr h' x = fr h x"
      "same_sizes h h'" "wrote h h' (ofs h ` ?F)"
      using combine_rest [OF s ne run(3) fe l3 disjI2 [OF conjI [OF refl g_new]] hl o data(7) b1 b2 b3 l32 wr]
      unfolding fun_upd_same by blast
    have "in_elts h3 (hd run)" using links_in [OF 3(2)] hdr by simp
    then have "combine_free_blocks (hd run) (last run) h = Some h'"
      using free_run h'(1) None hdi new 3(1) a by (simp add: combine_free_blocks_def find_record elt_at_in bin_def)
    moreover have "g \<notin> set (as @ bs)" using g_new by auto
    ultimately show ?thesis using h' by blast
  qed
qed

section \<open>Blocks in use\<close>

text \<open>The offset and the length of the blocks in use, by the index of their element.\<close>

definition used :: "heap \<Rightarrow> u32 list \<Rightarrow> u32 \<rightharpoonup> nat \<times> nat" where
  "used h cs x = (if x \<in> set cs \<and> \<not> fr h x then Some (ofs h x, blen h cs x) else None)"

definition apart :: "heap \<Rightarrow> u32 list \<Rightarrow> bool" where
  "apart h cs \<longleftrightarrow> successively (\<lambda>x y. \<not> (fr h x \<and> fr h y)) cs"

lemma apart_mono:
  assumes "apart h cs" "\<forall>x \<in> set cs. fr g x \<longrightarrow> fr h x"
  shows "apart g cs"
  using assms unfolding apart_def by (induction cs rule: induct_list012) auto

lemma apart_append:
  "apart h (as @ bs) \<longleftrightarrow> apart h as \<and> apart h bs \<and> (as = [] \<or> bs = [] \<or> \<not> (fr h (last as) \<and> fr h (hd bs)))"
  by (simp add: apart_def successively_append_iff)

lemma apart_Cons: "apart h (x # xs) \<longleftrightarrow> apart h xs \<and> (xs = [] \<or> \<not> (fr h x \<and> fr h (hd xs)))"
  by (auto simp: apart_def successively_Cons)

lemma apart_simps [simp]: "apart h []" "apart h [x]"
  by (simp_all add: apart_def)

text \<open>A run of free blocks replaced by one, or one by a run: the other blocks stay.\<close>

lemma used_replace:
  assumes d: "distinct (as @ xs @ bs)" "distinct (as @ ys @ bs)" and ne: "xs \<noteq> []" "ys \<noteq> []"
    and o: "objects g = objects h" "ofs g (hd ys) = ofs h (hd xs)" "\<forall>z \<in> set (as @ bs). ofs g z = ofs h z \<and> fr g z = fr h z"
  shows "used g (as @ ys @ bs) = (\<lambda>z. if z \<in> set (as @ bs) then used h (as @ xs @ bs) z
    else if z \<in> set ys \<and> \<not> fr g z then Some (ofs g z, blen g (as @ ys @ bs) z) else None)"
proof
  fix z
  have left: "blen g (as @ ys @ bs) z = blen h (as @ xs @ bs) z" if "z \<in> set as"
    unfolding o(1) by (rule len_in_left) (use that ne o in auto)
  have right: "blen g (as @ ys @ bs) z = blen h (as @ xs @ bs) z" if "z \<in> set bs"
  proof -
    have "z \<notin> set as" "z \<notin> set xs" "z \<notin> set ys" using that d by auto
    moreover have "blen g bs z = blen h bs z" unfolding o(1) by (rule len_in_cong) (use o in auto)
    ultimately show ?thesis by (simp add: len_in_right)
  qed
  show "used g (as @ ys @ bs) z = (if z \<in> set (as @ bs) then used h (as @ xs @ bs) z
    else if z \<in> set ys \<and> \<not> fr g z then Some (ofs g z, blen g (as @ ys @ bs) z) else None)"
    using left right o(3) by (auto simp: used_def)
qed

section \<open>Release\<close>

lemma split_last_free:
  obtains as1 ps where "as = as1 @ ps" "ps = [] \<and> (as = [] \<or> \<not> fr h (last as)) \<or> (as \<noteq> [] \<and> ps = [last as] \<and> fr h (last as))"
proof (cases "as \<noteq> [] \<and> fr h (last as)")
  case True
  then show ?thesis using that [of "butlast as" "[last as]"] by simp
next
  case False
  then show ?thesis using that [of as "[]"] by auto
qed

lemma split_hd_free:
  obtains ns bs1 where "bs = ns @ bs1" "ns = [] \<and> (bs = [] \<or> \<not> fr h (hd bs)) \<or> (bs \<noteq> [] \<and> ns = [hd bs] \<and> fr h (hd bs))"
proof (cases "bs \<noteq> [] \<and> fr h (hd bs)")
  case True
  then show ?thesis using that [of "[hd bs]" "tl bs"] by simp
next
  case False
  then show ?thesis using that [of "[]" bs] by auto
qed

lemma dealloc_sound:
  assumes s: "sound h cs" and cs: "cs = as @ e # bs" and ap: "apart h cs" and e: "\<not> fr h e"
  shows "\<exists>h' cs'. dealloc_elt e h = Some h' \<and> sound h' cs' \<and> apart h' cs' \<and> same_sizes h h' \<and> used h' cs' = (used h cs)(e := None)
    \<and> wrote h h' (ofs h ` insert e (free_set h cs))"
proof -
  note s' = s [unfolded cs] and sd = soundD [OF s]
  let ?F = "free_set h cs"
  let ?b = "bin (blen h cs e)"
  have dist: "distinct (as @ e # bs)" by (rule sound_distinct [OF s'])
  have ein: "in_elts h e" "e \<in> set cs" "e \<notin> ?F" using links_in [OF sd(1)] cs e by (auto simp: free_set_def)
  have slot: "4 \<le> elt_bytes h \<Longrightarrow> has_slot h e" by (rule room_slot [OF sd(3)]) (use tiles_bend(3) soundD(2) [OF s'] in auto)
  have offs: "\<forall>y \<in> ?F. ofs h y \<noteq> ofs h e"
    using tiles_inj [OF sd(2)] ein by (auto simp: inj_on_def free_set_def)
  let ?l = "length (validate_list ?b (free_lists h) ! ?b)"
  obtain h1 where 1: "set_free_elt e (of_nat ?l) (add_to_list ?b e h) = Some h1" "same_links h h1" "ofs h1 = ofs h"
      "fr h1 = (\<lambda>x. x = e \<or> fr h x)" "holds h1 (insert e ?F) {} ((\<lambda>x. bin (blen h cs x))(e := ?b)) ((place h)(e := ?l))" "wrote h h1 {ofs h e}"
    using add_free_elt_holds [OF sd(4) ein(3,1) slot offs, of ?b] by blast
  have ob: "objects h1 = objects h" "same_sizes h h1" using 1(2) same_links_sizes by (auto simp: same_links_def)
  have l1: "links h1 cs {}" by (rule same_links_links [OF 1(2) sd(1)])
  have F1: "free_set h1 cs = insert e ?F" using 1(4) ein(2) by (auto simp: free_set_def)
  have s1: "sound h1 cs"
  proof (rule soundI [OF l1])
    show "tiles h1 cs" using sd(2) by (simp add: tiles_def 1(3) ob)
    show "room h1" using sd(3) 1(6) ob by (simp add: room_def wrote_def)
    show "holds h1 (free_set h1 cs) {} ((\<lambda>x. bin (blen h cs x))(e := ?b)) ((place h)(e := ?l))" using 1(5) F1 by simp
  qed (simp add: 1(3) ob)
  have used1: "used h1 cs = (used h cs)(e := None)" by (auto simp: used_def fun_eq_iff 1(3,4) ob)
  have w1: "wrote h h1 (ofs h ` insert e ?F)" by (rule wrote_mono [OF 1(6)]) simp
  have start: "dealloc_elt e h = (do {
      p \<leftarrow> heap_prev h1 e; pe \<leftarrow> elt_at h1 p; let p = (if heap_is_free pe then p else e);
      n \<leftarrow> heap_next h1 e; ne \<leftarrow> elt_at h1 n; let n = (if heap_is_free ne then n else e);
      if p \<noteq> n then combine_free_blocks p n h1 else Some h1 })"
    using 1(1) sound_size(1) [OF s'] by (simp add: dealloc_elt_def Let_def bin_def cs)
  have e1: "in_elts h1 e" using links_in [OF l1] ein(2) by simp
  have pv: "pv h1 e = (if as = [] then e else last as)" and nx: "nx h1 e = (case bs of [] \<Rightarrow> e | y # _ \<Rightarrow> y)"
    using links_prev links_next l1 cs by auto
  have nb: "in_elts h1 (pv h1 e)" "in_elts h1 (nx h1 e)"
    using links_in [OF l1] cs unfolding pv nx by (auto split: list.splits)
  obtain as1 ps where as: "as = as1 @ ps" "ps = [] \<and> (as = [] \<or> \<not> fr h (last as)) \<or> (as \<noteq> [] \<and> ps = [last as] \<and> fr h (last as))"
    by (rule split_last_free)
  obtain ns bs1 where bs: "bs = ns @ bs1" "ns = [] \<and> (bs = [] \<or> \<not> fr h (hd bs)) \<or> (bs \<noteq> [] \<and> ns = [hd bs] \<and> fr h (hd bs))"
    by (rule split_hd_free)
  let ?run = "ps @ e # ns"
  have cs1: "cs = as1 @ ?run @ bs1" using cs as bs by simp
  have p: "(if heap_is_free (el h1 (pv h1 e)) then pv h1 e else e) = hd ?run"
    using as(2) 1(4) dist unfolding pv fr_def [symmetric] by (auto split: if_splits)
  have n: "(if heap_is_free (el h1 (nx h1 e)) then nx h1 e else e) = last ?run"
    using bs(2) 1(4) dist unfolding nx fr_def [symmetric] by (cases bs) (auto split: if_splits)
  have res: "dealloc_elt e h = (if hd ?run \<noteq> last ?run then combine_free_blocks (hd ?run) (last ?run) h1 else Some h1)"
    unfolding start by (simp add: prev_in [OF e1] next_in [OF e1] elt_at_in [OF nb(1)] elt_at_in [OF nb(2)] Let_def p n)
  have free_run: "\<forall>x \<in> set ?run. fr h1 x" using as(2) bs(2) 1(4) by auto
  have borders: "as1 = [] \<or> \<not> fr h1 (last as1)" "bs1 = [] \<or> \<not> fr h1 (hd bs1)"
  proof -
    have "ps = [] \<and> (as1 = [] \<or> \<not> fr h (last as1)) \<or> (\<exists>p. ps = [p] \<and> fr h p)" using as by auto
    then have "as1 = [] \<or> \<not> fr h (last as1)" using ap unfolding cs1 by (auto simp: apart_append)
    then show "as1 = [] \<or> \<not> fr h1 (last as1)" using 1(4) dist as(1) last_in_set [of as1] by auto
    have "ns = [] \<and> (bs1 = [] \<or> \<not> fr h (hd bs1)) \<or> (\<exists>n. ns = [n] \<and> fr h n)" using bs by auto
    moreover have "cs = (as1 @ ps @ [e]) @ (ns @ bs1)" using cs1 by simp
    then have "apart h (ns @ bs1)" using ap apart_append [of h "as1 @ ps @ [e]" "ns @ bs1"] by simp
    ultimately have "bs1 = [] \<or> \<not> fr h (hd bs1)" by (auto simp: apart_append)
    then show "bs1 = [] \<or> \<not> fr h1 (hd bs1)" using 1(4) dist bs(1) hd_in_set [of bs1] by auto
  qed
  have ap1: "apart h1 as1" "apart h1 bs1"
  proof -
    have "cs = as1 @ (?run @ bs1)" "cs = (as1 @ ?run) @ bs1" using cs1 by simp_all
    then have "apart h as1" "apart h bs1" using ap apart_append [of h as1 "?run @ bs1"] apart_append [of h "as1 @ ?run" bs1] by simp_all
    moreover have "e \<notin> set as1" "e \<notin> set bs1" using dist as(1) bs(1) by auto
    ultimately show "apart h1 as1" "apart h1 bs1" using 1(4) by (auto intro: apart_mono)
  qed
  show ?thesis
  proof (cases "ps = [] \<and> ns = []")
    case True
    then have "apart h1 cs" using ap1 borders unfolding cs1 by (auto simp: apart_append apart_Cons)
    moreover have "dealloc_elt e h = Some h1" using res True by simp
    ultimately show ?thesis using s1 ob(2) used1 w1 by blast
  next
    case False
    have len: "2 \<le> length ?run" "length ?run \<le> 3" using False as(2) bs(2) by auto
    have "distinct ?run" using dist as(1) bs(1) by auto
    then have ne: "hd ?run \<noteq> last ?run" using len(1) False by (cases ps; cases ns) auto
    obtain h' g where 2: "combine_free_blocks (hd ?run) (last ?run) h1 = Some h'" "sound h' (as1 @ g # bs1)" "g \<notin> set (as1 @ bs1)" "fr h' g"
        "ofs h' g = ofs h1 (hd ?run)" "\<forall>x \<in> set (as1 @ bs1). ofs h' x = ofs h1 x \<and> fr h' x = fr h1 x" "same_sizes h1 h'"
        "wrote h1 h' (ofs h1 ` free_set h1 cs)"
      using combine_sound [OF s1 [unfolded cs1] len free_run] unfolding cs1 [symmetric] by blast
    have "apart h' as1" "apart h' bs1" using ap1 2(6) by (auto intro: apart_mono)
    moreover have "as1 \<noteq> [] \<Longrightarrow> fr h' (last as1) = fr h1 (last as1)" "bs1 \<noteq> [] \<Longrightarrow> fr h' (hd bs1) = fr h1 (hd bs1)" using 2(6) by auto
    ultimately have "apart h' (as1 @ g # bs1)"
      using borders by (cases bs1) (auto simp: apart_append apart_Cons)
    moreover have "used h' (as1 @ [g] @ bs1) = used h1 (as1 @ ?run @ bs1)"
    proof -
      have "used h' (as1 @ [g] @ bs1) = (\<lambda>z. if z \<in> set (as1 @ bs1) then used h1 (as1 @ ?run @ bs1) z
        else if z \<in> set [g] \<and> \<not> fr h' z then Some (ofs h' z, blen h' (as1 @ [g] @ bs1) z) else None)"
        by (rule used_replace) (use dist as(1) bs(1) sound_distinct [OF 2(2)] 2(5-7) in \<open>auto simp: same_sizes_def\<close>)
      then show ?thesis using 2(4) free_run by (auto simp: used_def fun_eq_iff)
    qed
    moreover have "wrote h h' (ofs h ` insert e ?F)"
      by (rule wrote_trans [OF w1 2(8)]) (simp_all add: F1 1(3))
    ultimately show ?thesis
      using res ne 2(1,2) used1 same_sizes_trans [OF ob(2) 2(7)] unfolding cs1 [symmetric]
      by (intro exI [of _ h'] exI [of _ "as1 @ g # bs1"]) simp
  qed
qed

end
