(* ===== verification/Clib_Heap_Alloc.thy ===== *)
theory Clib_Heap_Alloc
  imports Clib_Heap_Blocks
begin

text \<open>
  Allocation on a heap of \<open>src/clib/heap.c\<close>: the search of the free lists, the division of blocks, alignment, growth, and
  what allocation and release promise together.
\<close>

section \<open>The search\<close>

lemma remaining:
  assumes "n < 2 ^ 31" "unat sz < 2 ^ 63"
  shows "0 \<le> sint (of_nat n - sz :: uword) \<longleftrightarrow> unat sz \<le> n" "unat sz \<le> n \<Longrightarrow> of_nat n - sz = of_nat (n - unat sz)"
proof -
  have n: "unat (of_nat n :: uword) = n" using assms(1) unat_of_nat_u64 [of n] by simp
  show diff: "of_nat n - sz = of_nat (n - unat sz)" if "unat sz \<le> n"
    using that by simp
  show "0 \<le> sint (of_nat n - sz :: uword) \<longleftrightarrow> unat sz \<le> n"
  proof (cases "unat sz \<le> n")
    case True
    have "unat (of_nat (n - unat sz) :: uword) = n - unat sz" using assms(1) unat_of_nat_u64 [of "n - unat sz"] by simp
    then have "\<not> sint (of_nat n - sz :: uword) < 0" unfolding diff [OF True] sint_neg_iff using assms(1) by simp
    then show ?thesis using True by simp
  next
    case False
    then have "unat (of_nat n - sz :: uword) = 2 ^ 64 - unat sz + n"
      using assms n unat_u64_lt [of sz] by (subst unat_sub_if') (simp add: word_le_nat_alt)
    then have "sint (of_nat n - sz :: uword) < 0" unfolding sint_neg_iff using assms(2) by simp
    then show ?thesis using False by simp
  qed
qed

lemma find_fit_sound:
  assumes s: "sound h cs" and fl: "set fl \<subseteq> set cs" and sz: "unat sz < 2 ^ 63" and l: "l \<le> length fl"
  shows "\<exists>r. find_fit True h sz fl l = Some r \<and> (case r of None \<Rightarrow> \<forall>i<l. blen h cs (fl ! i) < unat sz
    | Some (j, t) \<Rightarrow> j < l \<and> unat sz \<le> blen h cs (fl ! j) \<and> t = of_nat (blen h cs (fl ! j) - unat sz))"
  using l
proof (induction l)
  case (Suc l)
  then have "fl ! l \<in> set cs" using fl by auto
  then obtain as bs where cs: "cs = as @ fl ! l # bs" using split_list by fast
  note size = sound_size [OF s [unfolded cs], folded cs]
  show ?case
  proof (cases "unat sz \<le> blen h cs (fl ! l)")
    case True
    then show ?thesis using size remaining [OF size(4) sz] by (simp add: Let_def)
  next
    case False
    from Suc obtain r where r: "find_fit True h sz fl l = Some r" "case r of None \<Rightarrow> \<forall>i<l. blen h cs (fl ! i) < unat sz
      | Some (j, t) \<Rightarrow> j < l \<and> unat sz \<le> blen h cs (fl ! j) \<and> t = of_nat (blen h cs (fl ! j) - unat sz)" by auto
    have "find_fit True h sz fl (Suc l) = Some r"
      using False r(1) size(1) remaining(1) [OF size(4) sz] by (simp add: Let_def)
    moreover have "case r of None \<Rightarrow> \<forall>i<Suc l. blen h cs (fl ! i) < unat sz
      | Some (j, t) \<Rightarrow> j < Suc l \<and> unat sz \<le> blen h cs (fl ! j) \<and> t = of_nat (blen h cs (fl ! j) - unat sz)"
      using r(2) False by (cases r) (auto simp only: option.case prod.case less_Suc_eq not_le)
    ultimately show ?thesis by blast
  qed
qed simp

lemma search_bins_sound:
  assumes s: "sound h cs" and sz: "unat sz < 2 ^ 63" and bs: "set bs \<subseteq> {..<length (free_lists h)}"
  shows "\<exists>r. search_bins True h sz bs = Some r \<and> (case r of
      None \<Rightarrow> \<forall>b \<in> set bs. \<forall>x \<in> set (free_lists h ! b). blen h cs x < unat sz
    | Some (b, j, t) \<Rightarrow> b \<in> set bs \<and> j < length (free_lists h ! b) \<and> unat sz \<le> blen h cs (free_lists h ! b ! j)
        \<and> t = of_nat (blen h cs (free_lists h ! b ! j) - unat sz))"
  using bs
proof (induction bs)
  case (Cons b bs)
  let ?fl = "free_lists h ! b"
  have "set ?fl \<subseteq> set cs"
    using listed_entry(1) [of "free_lists h" "free_set h cs" _ _ b] soundD(4) [OF s] Cons.prems
    by (fastforce simp: holds_def in_set_conv_nth free_set_def)
  from find_fit_sound [OF s this sz order_refl] obtain r where r: "find_fit True h sz ?fl (length ?fl) = Some r"
    "case r of None \<Rightarrow> \<forall>i<length ?fl. blen h cs (?fl ! i) < unat sz
      | Some (j, t) \<Rightarrow> j < length ?fl \<and> unat sz \<le> blen h cs (?fl ! j) \<and> t = of_nat (blen h cs (?fl ! j) - unat sz)" by blast
  from Cons obtain r' where r': "search_bins True h sz bs = Some r'" "case r' of
      None \<Rightarrow> \<forall>b \<in> set bs. \<forall>x \<in> set (free_lists h ! b). blen h cs x < unat sz
    | Some (b, j, t) \<Rightarrow> b \<in> set bs \<and> j < length (free_lists h ! b) \<and> unat sz \<le> blen h cs (free_lists h ! b ! j)
        \<and> t = of_nat (blen h cs (free_lists h ! b ! j) - unat sz)" by auto
  show ?case
  proof (cases r)
    case None
    then have "\<forall>x \<in> set ?fl. blen h cs x < unat sz" using r(2) by (auto simp: in_set_conv_nth)
    then show ?thesis using r r' None by (cases r') auto
  next
    case (Some q)
    then show ?thesis using r by (cases q) auto
  qed
qed simp

text \<open>No block that is large enough is missed.\<close>

lemma size_bin: "size_to_bin sz = bin (unat sz)"
  by (simp add: bin_def)

lemma search_complete:
  assumes s: "sound h cs" and sz: "0 < unat sz"
    and none: "\<forall>b \<in> set [size_to_bin sz..<length (free_lists h)]. \<forall>x \<in> set (free_lists h ! b). blen h cs x < unat sz"
    and x: "x \<in> free_set h cs"
  shows "blen h cs x < unat sz"
proof (rule ccontr)
  assume "\<not> blen h cs x < unat sz"
  then have le: "unat sz \<le> blen h cs x" by simp
  have xc: "x \<in> set cs" "fr h x" using x by (auto simp: free_set_def)
  then obtain as bs where cs: "cs = as @ x # bs" using split_list by fast
  have "blen h cs x < 2 ^ 32" using sound_size(4) [OF s [unfolded cs], folded cs] by simp
  from bin_mono [OF sz le this] have "size_to_bin sz \<le> bin (blen h cs x)" by (simp add: size_bin)
  moreover note sound_listed [OF s xc]
  ultimately have "x \<in> set (free_lists h ! bin (blen h cs x))" "bin (blen h cs x) \<in> set [size_to_bin sz..<length (free_lists h)]"
    by (auto simp: in_set_conv_nth)
  then show False using none le by fastforce
qed

section \<open>Taking a free block\<close>

lemma modify_sound:
  assumes "sound h cs" "x \<in> set cs"
  obtains h' where "modify_elt x (\<lambda>y. y\<lparr>offset := ucast (w :: uword)\<rparr>) h = Some h'" "same_data h h'" "same_links h h'"
    "unat w < 2 ^ 31 \<Longrightarrow> ofs h' = (ofs h)(x := unat w) \<and> fr h' = (fr h)(x := False)"
proof -
  have "in_elts h x" using links_in [OF soundD(1) [OF assms(1)]] assms(2) by simp
  then obtain h' where
    1: "modify_elt x (\<lambda>y. y\<lparr>offset := ucast w\<rparr>) h = Some h'" "same_data h h'" "same_pool h h'" "head h' = head h" "tail h' = tail h"
      "el h' = (el h)(x := (el h x)\<lparr>offset := ucast w\<rparr>)" by (rule modify_elt_in)
  have "nx h' = nx h" "pv h' = pv h" unfolding nx_def pv_def 1(6) by (auto simp: fun_eq_iff)
  then have "same_links h h'" using 1(2-5) by (simp add: same_links_def same_data_def)
  moreover have "unat w < 2 ^ 31 \<Longrightarrow> ofs h' = (ofs h)(x := unat w) \<and> fr h' = (fr h)(x := False)"
    unfolding ofs_def fr_def 1(6) using offset_used [of w] by (auto simp: fun_eq_iff)
  ultimately show thesis using that 1(1,2) by blast
qed

lemma take_whole:
  assumes s: "sound h cs" and ap: "apart h cs" and f: "f \<in> free_set h cs"
  shows "\<exists>h'. modify_elt f (\<lambda>x. x\<lparr>offset := ucast (heap_offset (el h f))\<rparr>) h \<bind> remove_free_block (bin (blen h cs f)) (place h f) = Some h'
    \<and> sound h' cs \<and> apart h' cs \<and> same_sizes h h' \<and> used h' cs = (used h cs)(f \<mapsto> (ofs h f, blen h cs f)) \<and> wrote h h' (ofs h ` free_set h cs)"
proof -
  note sd = soundD [OF s]
  let ?F = "free_set h cs" and ?B = "\<lambda>x. bin (blen h cs x)"
  have fc: "f \<in> set cs" "fr h f" using f by (auto simp: free_set_def)
  then obtain as bs where cs: "cs = as @ f # bs" using split_list by fast
  have o31: "unat (heap_offset (el h f)) < 2 ^ 31"
    using tiles_bend(3) sd(2) linksD(3) [OF sd(1)] unfolding cs ofs_def by fastforce
  obtain h1 where 1: "modify_elt f (\<lambda>x. x\<lparr>offset := ucast (heap_offset (el h f))\<rparr>) h = Some h1" "same_data h h1" "same_links h h1"
    "ofs h1 = ofs h" "fr h1 = (fr h)(f := False)"
    using modify_sound [OF s fc(1), of "heap_offset (el h f)"] o31 by (metis fun_upd_triv ofs_def)
  have ob: "objects h1 = objects h" using 1(2) by (simp add: same_data_def)
  have l1: "links h1 cs {}" by (rule same_links_links [OF 1(3) sd(1)])
  have "has_slot h1 = has_slot h" "place h1 = place h" using 1(2,4) by (simp_all add: has_slot_def place_def same_data_def fun_eq_iff)
  then have hl: "holds h1 ?F {f} ?B (place h)"
    using sd(4) 1(2,4,5) same_links_in [OF 1(3)] by (auto simp: holds_def same_data_def intro: inj_on_subset)
  obtain h2 P2 where 2: "remove_free_block (?B f) (place h f) h1 = Some h2" "same_links h1 h2" "ofs h2 = ofs h1" "fr h2 = fr h1"
      "holds h2 (?F - {f}) {f} ?B P2" "wrote h1 h2 (ofs h1 ` (?F - {f}))"
    using remove_free_block_holds [OF hl f place_less] by blast
  have ob2: "objects h2 = objects h" using 2(2) ob by (simp add: same_links_def)
  have F2: "free_set h2 cs = ?F - {f}" using 2(4) 1(5) by (auto simp: free_set_def)
  have s2: "sound h2 cs"
  proof (rule soundI [OF same_links_links [OF 2(2) l1]])
    show "tiles h2 cs" using sd(2) by (simp add: tiles_def 2(3) 1(4) ob2)
    show "room h2" using sd(3) 1(2) 2(6) ob2 by (simp add: room_def wrote_def same_data_def)
    show "holds h2 (free_set h2 cs) {} ?B P2" using 2(5) F2 by (simp add: holds_def)
  qed (simp add: 2(3) 1(4) ob2)
  moreover have "apart h2 cs" by (rule apart_mono [OF ap]) (simp add: 2(4) 1(5))
  moreover have "used h2 cs = (used h cs)(f \<mapsto> (ofs h f, blen h cs f))"
    using fc by (auto simp: used_def fun_eq_iff 2(3,4) 1(4,5) ob2)
  moreover have "wrote h h2 (ofs h ` ?F)"
    by (rule wrote_trans [OF same_data_wrote [OF 1(2), of "{}"] 2(6)]) (auto simp: 1(4))
  moreover have "same_sizes h h2" by (rule same_sizes_trans [OF same_data_sizes [OF 1(2)] same_links_sizes [OF 2(2)]])
  ultimately show ?thesis using 1(1) 2(1) by (intro exI [of _ h2]) simp
qed

text \<open>The blocks of a part of the chain are cut in another way.\<close>

lemma sorted_glue:
  fixes A Y B :: "nat list"
  assumes "sorted_wrt (<) (A @ [hd Y])" "sorted_wrt (<) (Y @ [hd B])" "sorted_wrt (<) B" "Y \<noteq> []" "B \<noteq> []"
  shows "sorted_wrt (<) (A @ Y @ B)"
proof -
  obtain y ys b bs where e: "Y = y # ys" "B = b # bs" using assms(4,5) by (meson list.exhaust)
  show ?thesis using assms(1-3) unfolding e by (auto simp: sorted_wrt_append) (meson order.strict_trans)+
qed

lemma reblock:
  assumes s: "sound h (as @ xs @ bs)" and ne: "xs \<noteq> []" "ys \<noteq> []" and l: "links g (as @ ys @ bs) {}" and d: "same_data h g"
    and o: "\<forall>z \<in> set (as @ bs). ofs g z = ofs h z \<and> fr g z = fr h z" and hd: "ofs g (hd ys) = ofs h (hd xs)"
    and srt: "sorted_wrt (<) (map (ofs g) ys @ [bend h bs])"
    and F: "free_set g (as @ ys @ bs) = free_set h (as @ xs @ bs)" "\<forall>x \<in> free_set h (as @ xs @ bs). ofs g x = ofs h x"
  shows "tiles g (as @ ys @ bs)" "room g" "holds g (free_set g (as @ ys @ bs)) {} (\<lambda>x. bin (blen h (as @ xs @ bs) x)) (place h)"
    "\<forall>x \<in> set (as @ bs). blen g (as @ ys @ bs) x = blen h (as @ xs @ bs) x"
proof -
  note sd = soundD [OF s]
  have ob: "objects g = objects h" using d by (simp add: same_data_def)
  have maps: "map (ofs g) as = map (ofs h) as" "map (ofs g) bs = map (ofs h) bs" using o by auto
  have t: "sorted_wrt (<) (map (ofs h) as @ map (ofs h) xs @ map (ofs h) bs @ [objects h])" "ofs h (hd (as @ xs @ bs)) = 0"
    using sd(2) by (simp_all add: tiles_def)
  have "sorted_wrt (<) (map (ofs g) as @ map (ofs g) ys @ (map (ofs g) bs @ [objects g]))"
  proof (rule sorted_glue)
    show "sorted_wrt (<) (map (ofs g) as @ [List.hd (map (ofs g) ys)])"
      using t(1) ne hd unfolding maps by (cases xs; cases ys) (auto simp: sorted_wrt_append)
    show "sorted_wrt (<) (map (ofs g) ys @ [List.hd (map (ofs g) bs @ [objects g])])"
      using srt ob maps(2) by (cases bs) auto
    show "sorted_wrt (<) (map (ofs g) bs @ [objects g])" using t(1) unfolding maps ob by (simp add: sorted_wrt_append)
  qed (use ne in simp_all)
  moreover have "ofs g (List.hd (as @ ys @ bs)) = 0" using t(2) o hd ne by (cases as) auto
  ultimately show "tiles g (as @ ys @ bs)" by (simp add: tiles_def)
  show "room g" using sd(3) d by (simp add: room_def same_data_def)
  have slot: "has_slot g x = has_slot h x \<and> place g x = place h x" if "ofs g x = ofs h x" for x
    using that d by (simp add: has_slot_def place_def same_data_def)
  have "in_elts g x \<and> fr g x" if "x \<in> free_set g (as @ ys @ bs)" for x
    using that links_in [OF l] by (auto simp: free_set_def)
  moreover have "inj_on (ofs g) (free_set h (as @ xs @ bs))" using sd(4) F(2) by (auto simp: holds_def inj_on_def)
  ultimately show "holds g (free_set g (as @ ys @ bs)) {} (\<lambda>x. bin (blen h (as @ xs @ bs) x)) (place h)"
    using sd(4) d slot F unfolding holds_def by (simp add: same_data_def)
  show "\<forall>x \<in> set (as @ bs). blen g (as @ ys @ bs) x = blen h (as @ xs @ bs) x"
  proof
    fix x assume x: "x \<in> set (as @ bs)"
    show "blen g (as @ ys @ bs) x = blen h (as @ xs @ bs) x"
    proof (cases "x \<in> set as")
      case True
      show ?thesis unfolding ob by (rule len_in_left) (use True ne o hd in auto)
    next
      case False
      then have "x \<in> set bs" "x \<notin> set xs" "x \<notin> set ys" using x sound_distinct [OF s] linksD(4) [OF l] by auto
      moreover have "blen g bs x = blen h bs x" unfolding ob by (rule len_in_cong) (use o in auto)
      ultimately show ?thesis using False by (simp add: len_in_right)
    qed
  qed
qed

lemma set_free_elt_lists:
  "set_free_elt x w (h\<lparr>free_lists := ls\<rparr>) = map_option (\<lambda>g. g\<lparr>free_lists := ls\<rparr>) (set_free_elt x w h)"
  by (simp add: set_free_elt_def modify_elt_def elt_at_def elt_data_def Let_def)

lemma remove_other_list:
  assumes "c \<noteq> b"
  shows "remove_free_block b i (h\<lparr>free_lists := (free_lists h)[c := z]\<rparr>)
    = map_option (\<lambda>g. g\<lparr>free_lists := (free_lists g)[c := z]\<rparr>) (remove_free_block b i h)"
proof -
  have swap: "ls[c := z, b := y] = ls[b := y, c := z]" for ls and y :: "u32 list" using assms by (rule list_update_swap)
  have set: "set_free_elt t w (h\<lparr>free_lists := ls\<rparr>) = map_option (\<lambda>g. g\<lparr>free_lists := ls\<rparr>) (set_free_elt t w h)" for t w ls
    by (rule set_free_elt_lists)
  show ?thesis
    using assms by (cases "set_free_elt (free_lists h ! b ! (length (free_lists h ! b) - 1)) (of_nat i) h")
      (auto simp: remove_free_block_def Let_def set swap)
qed

lemma relist:
  assumes hl: "holds h F {} B P" and f: "f \<in> F" and c: "c < B f"
  defines "i \<equiv> length (validate_list c (free_lists h) ! c)"
  shows "\<exists>g P'. set_free_elt f (of_nat i) (add_to_list c f h) \<bind> remove_free_block (B f) (P f) = Some g \<and> same_links h g \<and> ofs g = ofs h
    \<and> fr g = fr h \<and> holds g F {} (B(f := c)) P' \<and> wrote h g (ofs h ` F)"
proof -
  have ls: "listed (free_lists h) F B P" and inj: "inj_on (ofs h) F"
    and ok: "\<forall>x \<in> F. in_elts h x \<and> fr h x \<and> has_slot h x \<and> place h x = P x"
    using hl by (simp_all add: holds_def)
  have P32: "P f < 2 ^ 32" using ok f place_less [of h f] by simp
  have len: "c < length (free_lists h)" using listed_place(1) [OF ls f] c by simp
  then have v: "validate_list c (free_lists h) = free_lists h" by (simp add: validate_list_def)
  let ?z = "free_lists h ! c @ [f]"
  have i: "i = length (free_lists h ! c)" by (simp add: i_def v)
  obtain h1 where 1: "set_free_elt f (of_nat i) h = Some h1" "same_links h h1" "free_lists h1 = free_lists h" "ofs h1 = ofs h"
      "fr h1 = (\<lambda>e. e = f \<or> fr h e)" "has_slot h1 f" "place h1 f = unat (of_nat i :: u32)"
      "\<forall>y. y \<noteq> f \<longrightarrow> ofs h y \<noteq> ofs h f \<longrightarrow> has_slot h y \<longrightarrow> has_slot h1 y \<and> place h1 y = place h y" "wrote h h1 {ofs h f}"
    using set_free_elt_in [of h f "of_nat i"] ok f by blast
  have "fr h1 = fr h" using 1(5) ok f by (auto simp: fun_eq_iff)
  note fr1 = this
  have apart: "ofs h y \<noteq> ofs h f" if "y \<in> F" "y \<noteq> f" for y using inj_onD [OF inj] that f by blast
  have hl1: "holds h1 F {f} B P"
    using ls inj ok 1(3,4,8) fr1 same_links_in [OF 1(2)] apart unfolding holds_def by (auto intro: inj_on_subset)
  obtain h2 P2 where 2: "remove_free_block (B f) (P f) h1 = Some h2" "same_links h1 h2" "ofs h2 = ofs h1" "fr h2 = fr h1"
      "holds h2 (F - {f}) {f} B P2" "wrote h1 h2 (ofs h1 ` (F - {f}))" "length (free_lists h2) = length (free_lists h1)"
      "\<forall>c. c \<noteq> B f \<longrightarrow> free_lists h2 ! c = free_lists h1 ! c"
      "\<forall>y. (\<forall>z \<in> F - {f}. z \<noteq> f \<longrightarrow> y \<noteq> z \<and> ofs h1 y \<noteq> ofs h1 z) \<longrightarrow> has_slot h1 y \<longrightarrow> has_slot h2 y \<and> place h2 y = place h1 y"
    using remove_free_block_holds [OF hl1 f P32] by blast
  let ?g = "h2\<lparr>free_lists := (free_lists h2)[c := ?z]\<rparr>"
  have "set_free_elt f (of_nat i) (add_to_list c f h) = Some (h1\<lparr>free_lists := (free_lists h1)[c := ?z]\<rparr>)"
    using 1(1,3) by (simp add: add_to_list_def v set_free_elt_lists Let_def)
  then have code: "set_free_elt f (of_nat i) (add_to_list c f h) \<bind> remove_free_block (B f) (P f) = Some ?g"
    using c 2(1) by (simp add: remove_other_list)
  have fl2: "free_lists h2 ! c = free_lists h ! c" "validate_list c (free_lists h2) = free_lists h2"
    using 2(7,8) 1(3) c len by (simp_all add: validate_list_def)
  have "listed (free_lists h2) (F - {f}) B P2" using 2(5) by (simp add: holds_def)
  from listed_add [OF this, of f c] have "listed (free_lists ?g) F (B(f := c)) (P2(f := i))"
    using f by (simp add: fl2 i insert_absorb)
  moreover have "in_elts ?g y \<and> fr ?g y \<and> has_slot ?g y \<and> place ?g y = (P2(f := i)) y" if y: "y \<in> F" for y
  proof (cases "y = f")
    case True
    have "i < 2 ^ 32"
      using listed_length [of "free_lists h2" "F - {f}" B P2 f c] \<open>listed (free_lists h2) (F - {f}) B P2\<close> by (simp add: fl2 i)
    then have "place h1 f = i" using 1(7) by (simp add: unat_of_nat)
    moreover have "\<forall>z \<in> F - {f}. z \<noteq> f \<longrightarrow> f \<noteq> z \<and> ofs h1 f \<noteq> ofs h1 z" using apart 1(4) by fastforce
    ultimately have "has_slot h2 f \<and> place h2 f = i" using 2(9) 1(6) by auto
    then show ?thesis using True ok f fr1 2(4) same_links_in [OF 1(2)] same_links_in [OF 2(2)] unfolding lists_only by simp
  next
    case False
    then show ?thesis using 2(5) y unfolding lists_only holds_def by simp
  qed
  moreover have "inj_on (ofs ?g) F" using inj by (simp add: lists_only 2(3) 1(4))
  ultimately have "holds ?g F {} (B(f := c)) (P2(f := i))" unfolding holds_def by simp
  moreover have "same_links h ?g" by (rule same_links_trans [OF same_links_trans [OF 1(2) 2(2)] lists_only(6)])
  moreover have "wrote h ?g (ofs h ` F)"
    by (rule wrote_trans [OF wrote_trans [OF 1(9) 2(6), of "ofs h ` F"] lists_only(7) [where A = "{}"]]) (use f in \<open>auto simp: 1(4)\<close>)
  ultimately show ?thesis using code 2(3,4) 1(4) fr1 by (intro exI [of _ ?g] exI [of _ "P2(f := i)"]) (simp add: lists_only)
qed

lemma take_part:
  assumes s: "sound h cs" and ap: "apart h cs" and f: "f \<in> free_set h cs" and t: "0 < t" "t < blen h cs f" and new: "elt_new h = (u, h1)"
  shows "\<exists>h' cs'. (do {
      h2 \<leftarrow> elt_insert_after f u h1; fe \<leftarrow> elt_at h2 f;
      h3 \<leftarrow> modify_elt u (\<lambda>x. x\<lparr>offset := ucast (heap_offset fe + of_nat t)\<rparr>) h2;
      if bin t \<noteq> bin (blen h cs f)
      then set_free_elt f (of_nat (length (validate_list (bin t) (free_lists h3) ! bin t))) (add_to_list (bin t) f h3)
        \<bind> remove_free_block (bin (blen h cs f)) (place h f)
      else Some h3 }) = Some h' \<and> sound h' cs' \<and> apart h' cs' \<and> same_sizes h h' \<and> used h cs u = None
    \<and> used h' cs' = (used h cs)(u \<mapsto> (ofs h f + t, blen h cs f - t)) \<and> wrote h h' (ofs h ` free_set h cs)"
proof -
  note sd = soundD [OF s]
  let ?F = "free_set h cs" and ?B = "\<lambda>x. bin (blen h cs x)"
  have fc: "f \<in> set cs" "fr h f" using f by (auto simp: free_set_def)
  then obtain as bs where cs: "cs = as @ f # bs" using split_list by fast
  note sz = sound_size [OF s [unfolded cs], folded cs]
  note n = elt_new_links [OF sd(1) tiles_length [OF sd(2)] new]
  have dist: "distinct (as @ f # bs)" using sound_distinct [OF s] cs by simp
  have un: "u \<noteq> f" "u \<notin> set as" "u \<notin> set bs" using n(3) cs by auto
  obtain h2 where 2: "elt_insert_after f u h1 = Some h2" "links h2 (as @ f # u # bs) {}" "same_data h1 h2" "same_pool h1 h2"
      "\<forall>e. offset (el h2 e) = offset (el h1 e)"
    using insert_after_links [OF n(1) [unfolded cs]] by blast
  have o1: "ofs h1 x = ofs h x \<and> fr h1 x = fr h x" if "x \<in> set cs" for x using nx_pv_el n(4) that by blast
  have o2: "ofs h2 x = ofs h x \<and> fr h2 x = fr h x" if "x \<in> set cs" for x using o1 [OF that] offsets_el [OF 2(5)] by simp
  have inu: "in_elts h2 u" "in_elts h2 f" using links_in [OF 2(2)] by simp_all
  let ?w = "heap_offset (el h2 f) + of_nat t :: uword"
  have fe: "heap_offset (el h2 f) = of_nat (ofs h f)" using heap_offset_nat [of h2 f] o2 [OF fc(1)] by simp
  have be: "bend h bs < 2 ^ 31" "ofs h f + t < bend h bs"
    using tiles_bend(2) sd(2) linksD(3) [OF sd(1)] sz(2) t(2) unfolding cs by (fastforce, linarith)
  have "unat ?w = ofs h f + t"
    using unat_of_nat_u64 [of "ofs h f + t"] be unfolding fe by (simp flip: of_nat_add)
  note w = this
  obtain h3 where 3: "modify_elt u (\<lambda>x. x\<lparr>offset := ucast ?w\<rparr>) h2 = Some h3" "same_data h2 h3" "same_pool h2 h3" "head h3 = head h2" "tail h3 = tail h2"
      "el h3 = (el h2)(u := (el h2 u)\<lparr>offset := ucast ?w\<rparr>)"
    by (rule modify_elt_in [OF inu(1)])
  have o3: "ofs h3 = (ofs h2)(u := ofs h f + t)" "fr h3 = (fr h2)(u := False)" "nx h3 = nx h2" "pv h3 = pv h2"
    using offset_used [of ?w] w be unfolding ofs_def fr_def nx_def pv_def 3(6) by (auto simp: fun_eq_iff)
  have "same_links h2 h3" using 3(2-5) o3(3,4) by (simp add: same_links_def same_data_def)
  then have l3: "links h3 (as @ [f, u] @ bs) {}" using same_links_links 2(2) by simp
  have d3: "same_data h h3" by (rule same_data_trans [OF n(2) same_data_trans [OF 2(3) 3(2)]])
  have oo: "\<forall>x \<in> set (as @ bs) \<union> {f}. ofs h3 x = ofs h x \<and> fr h3 x = fr h x"
    using o2 un cs by (auto simp: o3)
  have F3: "free_set h3 (as @ [f, u] @ bs) = free_set h (as @ [f] @ bs)"
  proof -
    have "\<not> fr h3 u" by (simp add: o3)
    then have "x \<in> set (as @ [f, u] @ bs) \<and> fr h3 x \<longleftrightarrow> x \<in> set (as @ [f] @ bs) \<and> fr h x" for x
      using bspec [OF oo, of x] un by (cases "x \<in> set (as @ bs) \<union> {f}"; cases "x = u") auto
    then show ?thesis unfolding free_set_def by blast
  qed
  have s1: "sound h (as @ [f] @ bs)" using s cs by simp
  have o_rest: "\<forall>z \<in> set (as @ bs). ofs h3 z = ofs h z \<and> fr h3 z = fr h z" using oo by blast
  have o_hd: "ofs h3 (hd [f, u]) = ofs h (hd [f])" using oo by simp
  have o_srt: "sorted_wrt (<) (map (ofs h3) [f, u] @ [bend h bs])" using oo t(1) be un by (simp add: o3(1))
  have o_free: "\<forall>x \<in> free_set h (as @ [f] @ bs). ofs h3 x = ofs h x" using oo by (auto simp: free_set_def)
  have csf: "as @ [f] @ bs = cs" using cs by simp
  note rb = reblock [OF s1 _ _ l3 d3 o_rest o_hd o_srt F3 o_free, unfolded F3 csf]
  have R: "tiles h3 (as @ [f, u] @ bs)" "room h3" "holds h3 ?F {} ?B (place h)"
    "\<forall>x \<in> set (as @ bs). blen h3 (as @ [f, u] @ bs) x = blen h cs x"
    using rb by simp_all
  have ob3: "objects h3 = objects h" using d3 by (simp add: same_data_def)
  have bl: "blen h3 (as @ [f, u] @ bs) f = t" "blen h3 (as @ [f, u] @ bs) u = blen h cs f - t"
    using un dist oo sz(2) ob3 be by (auto simp: len_in_right o3(1) bend_def split: list.splits)
  have us3: "used h3 (as @ [f, u] @ bs) = (used h cs)(u \<mapsto> (ofs h f + t, blen h cs f - t))"
  proof
    fix x
    consider "x = u" | "x = f" | "x \<in> set (as @ bs)" "x \<noteq> u" "x \<noteq> f" | "x \<notin> set (as @ [f, u] @ bs)" by auto
    then show "used h3 (as @ [f, u] @ bs) x = ((used h cs)(u \<mapsto> (ofs h f + t, blen h cs f - t))) x"
    proof cases
      case 1
      then show ?thesis using bl(2) by (simp add: used_def o3)
    next
      case 2
      then show ?thesis using fc un bspec [OF oo, of f] by (simp add: used_def)
    next
      case 3
      then show ?thesis using bspec [OF oo, of x] bspec [OF R(4), of x] cs by (simp add: used_def)
    next
      case 4
      then show ?thesis using cs by (simp add: used_def)
    qed
  qed
  have ap3: "apart h3 (as @ [f, u] @ bs)"
  proof -
    have "\<not> fr h3 u" by (simp add: o3)
    moreover have "apart h3 (as @ [f])" "apart h3 bs"
    proof -
      have "apart h (as @ [f])" "apart h bs" using ap cs by (auto simp: apart_append apart_Cons)
      then show "apart h3 (as @ [f])" "apart h3 bs" using oo by (auto elim!: apart_mono)
    qed
    ultimately show ?thesis by (auto simp: apart_append apart_Cons)
  qed
  have Fcs: "free_set h3 (as @ [f, u] @ bs) = ?F" using F3 cs by simp
  have Bsame: "\<forall>x \<in> ?F - {f}. ?B x = bin (blen h3 (as @ [f, u] @ bs) x)" using R(4) cs by (auto simp: free_set_def)
  show ?thesis
  proof (cases "bin t = ?B f")
    case True
    have "sound h3 (as @ [f, u] @ bs)"
      by (rule soundI [OF l3 R(1,2)]) (use R(3) Fcs Bsame bl(1) True in auto)
    moreover have "same_sizes h h3" by (rule same_data_sizes [OF d3])
    ultimately show ?thesis
      using 2(1) 3(1) True us3 ap3 n(3) same_data_wrote [OF d3] elt_at_in [OF inu(2)]
      by (intro exI [of _ h3] exI [of _ "as @ [f, u] @ bs"]) (simp add: used_def)
  next
    case False
    have "bin t \<le> ?B f" by (rule bin_mono) (use t sz(4) in auto)
    then have "bin t < ?B f" using False by simp
    from relist [OF R(3) f this] obtain g P' where
      4: "set_free_elt f (of_nat (length (validate_list (bin t) (free_lists h3) ! bin t))) (add_to_list (bin t) f h3)
          \<bind> remove_free_block (?B f) (place h f) = Some g" "same_links h3 g" "ofs g = ofs h3" "fr g = fr h3"
        "holds g ?F {} (?B(f := bin t)) P'" "wrote h3 g (ofs h3 ` ?F)" by blast
    have obg: "objects g = objects h3" using 4(2) by (simp add: same_links_def)
    have Fg: "free_set g (as @ [f, u] @ bs) = ?F" using Fcs 4(4) by (simp add: free_set_def)
    have "sound g (as @ [f, u] @ bs)"
    proof (rule soundI [OF same_links_links [OF 4(2) l3]])
      show "tiles g (as @ [f, u] @ bs)" using R(1) by (simp add: tiles_def 4(3) obg)
      show "room g" using R(2) 4(2,6) by (simp add: room_def wrote_def same_links_def)
      show "holds g (free_set g (as @ [f, u] @ bs)) {} (?B(f := bin t)) P'" using 4(5) Fg by simp
      show "\<forall>x \<in> free_set g (as @ [f, u] @ bs). (?B(f := bin t)) x = bin (blen g (as @ [f, u] @ bs) x)"
        using Bsame bl(1) unfolding Fg 4(3) obg by auto
    qed
    moreover have "apart g (as @ [f, u] @ bs)" by (rule apart_mono [OF ap3]) (simp add: 4(4))
    moreover have "used g (as @ [f, u] @ bs) = used h3 (as @ [f, u] @ bs)" by (simp add: used_def fun_eq_iff 4(3,4) obg)
    moreover have "same_sizes h g" by (rule same_sizes_trans [OF same_data_sizes [OF d3] same_links_sizes [OF 4(2)]])
    moreover have "wrote h g (ofs h ` ?F)"
    proof (rule wrote_trans [OF same_data_wrote [OF d3, of "{}"] 4(6)])
      show "ofs h3 ` ?F \<subseteq> ofs h ` ?F" using oo cs by (auto simp: free_set_def)
    qed simp
    ultimately show ?thesis
      using 2(1) 3(1) False us3 n(3) 4(1) elt_at_in [OF inu(2)]
      by (intro exI [of _ g] exI [of _ "as @ [f, u] @ bs"]) (simp add: used_def)
  qed
qed

section \<open>Contents of the blocks in use\<close>

definition keeps :: "heap \<Rightarrow> heap \<Rightarrow> (u32 \<rightharpoonup> nat \<times> nat) \<Rightarrow> bool" where
  "keeps h g m \<longleftrightarrow> length (memory h) \<le> length (memory g) \<and> (\<forall>x k l p. m x = Some (k, l) \<longrightarrow> k * unat (elt_bytes h) \<le> p \<longrightarrow> p < (k + l) * unat (elt_bytes h)
     \<longrightarrow> memory g ! p = memory h ! p)"

lemma keeps_refl [simp]: "keeps h h m"
  by (simp add: keeps_def)

lemma keeps_trans: "keeps h g m \<Longrightarrow> keeps g k m' \<Longrightarrow> elt_bytes g = elt_bytes h \<Longrightarrow> m'' \<subseteq>\<^sub>m m \<Longrightarrow> m'' \<subseteq>\<^sub>m m' \<Longrightarrow> keeps h k m''"
proof -
  assume k: "keeps h g m" "keeps g k m'" and e: "elt_bytes g = elt_bytes h" and m: "m'' \<subseteq>\<^sub>m m" "m'' \<subseteq>\<^sub>m m'"
  have "m x = Some kl \<and> m' x = Some kl" if "m'' x = Some kl" for x kl using m that unfolding map_le_def by (metis domI)
  then show ?thesis using k e unfolding keeps_def by fastforce
qed

lemma blocks_disjoint:
  assumes s: "sound h cs" and xy: "x \<in> set cs" "y \<in> set cs" "x \<noteq> y"
  shows "ofs h y < ofs h x \<or> ofs h x + blen h cs x \<le> ofs h y"
proof -
  obtain as bs where cs: "cs = as @ x # bs" using split_list [OF xy(1)] by blast
  note t = tiles_bend [OF soundD(2) [OF s [unfolded cs]]] and sz = sound_size [OF s [unfolded cs], folded cs]
  have "y \<in> set as \<or> y \<in> set bs" using xy cs by auto
  then show ?thesis using t sz(2) by auto
qed

lemma wrote_keeps:
  assumes s: "sound h cs" and w: "wrote h g (ofs h ` S)" and S: "S \<subseteq> set cs"
    and m: "\<forall>x \<in> dom m. m x = used h cs x \<and> x \<notin> S"
  shows "keeps h g m"
  unfolding keeps_def
proof (intro conjI allI impI)
  show "length (memory h) \<le> length (memory g)" using w by (simp add: wrote_def)
next
  fix x k l p assume x: "m x = Some (k, l)" and p: "k * unat (elt_bytes h) \<le> p" "p < (k + l) * unat (elt_bytes h)"
  have "used h cs x = Some (k, l)" "x \<notin> S" using bspec [OF m domI [of m, OF x]] x by simp_all
  then have x: "x \<in> set cs" "k = ofs h x" "l = blen h cs x" by (auto simp: used_def split: if_splits)
  have "p < a * unat (elt_bytes h) \<or> a * unat (elt_bytes h) + 4 \<le> p" if a: "a \<in> ofs h ` S" and eb: "4 \<le> elt_bytes h" for a
  proof -
    obtain y where y: "y \<in> S" "a = ofs h y" using a by auto
    then have "a < k \<or> k + l \<le> a" using blocks_disjoint [OF s x(1), of y] S x \<open>x \<notin> S\<close> by auto
    then show ?thesis
    proof
      assume "a < k"
      then have "(a + 1) * unat (elt_bytes h) \<le> k * unat (elt_bytes h)" by (intro mult_right_mono) simp_all
      moreover have "4 \<le> unat (elt_bytes h)" using eb by (simp add: word_le_nat_alt)
      ultimately show ?thesis using p(1) by simp
    next
      assume "k + l \<le> a"
      then have "(k + l) * unat (elt_bytes h) \<le> a * unat (elt_bytes h)" by (intro mult_right_mono) simp_all
      then show ?thesis using p(2) by linarith
    qed
  qed
  then show "memory g ! p = memory h ! p" using w by (auto simp: wrote_def)
qed

lemma free_set_keeps: "sound h cs \<Longrightarrow> wrote h g (ofs h ` free_set h cs) \<Longrightarrow> keeps h g (used h cs)"
  by (rule wrote_keeps) (auto simp: free_set_def used_def split: if_splits)

section \<open>The search as a whole\<close>

lemma search_sound:
  assumes s: "sound h cs" and ap: "apart h cs" and sz: "0 < unat sz" "unat sz < 2 ^ 63"
  shows "\<exists>r. search_free_list True sz h = Some r \<and> (case r of None \<Rightarrow> \<forall>x \<in> free_set h cs. blen h cs x < unat sz
    | Some (u, h') \<Rightarrow> \<exists>cs' k. sound h' cs' \<and> apart h' cs' \<and> same_sizes h h' \<and> used h cs u = None
        \<and> used h' cs' = (used h cs)(u \<mapsto> (k, unat sz)) \<and> keeps h h' (used h cs))"
proof -
  let ?bs = "[size_to_bin sz..<length (free_lists h)]"
  have bs: "set ?bs \<subseteq> {..<length (free_lists h)}" by auto
  obtain r where r: "search_bins True h sz ?bs = Some r" "case r of
      None \<Rightarrow> \<forall>b \<in> set ?bs. \<forall>x \<in> set (free_lists h ! b). blen h cs x < unat sz
    | Some (b, j, t) \<Rightarrow> b \<in> set ?bs \<and> j < length (free_lists h ! b) \<and> unat sz \<le> blen h cs (free_lists h ! b ! j)
        \<and> t = of_nat (blen h cs (free_lists h ! b ! j) - unat sz)"
    using search_bins_sound [OF s sz(2) bs] by blast
  show ?thesis
  proof (cases r)
    case None
    then have "\<forall>x \<in> free_set h cs. blen h cs x < unat sz" using search_complete [OF s sz(1)] r(2) by auto
    moreover have "search_free_list True sz h = Some None" using r(1) None by (simp add: search_free_list_def)
    ultimately show ?thesis by auto
  next
    case (Some q)
    then obtain b j t where q: "r = Some (b, j, t)" by (cases q) auto
    let ?f = "free_lists h ! b ! j"
    have bj: "b < length (free_lists h)" "j < length (free_lists h ! b)" and le: "unat sz \<le> blen h cs ?f"
      and t: "t = of_nat (blen h cs ?f - unat sz)" using r(2) q by auto
    have "listed (free_lists h) (free_set h cs) (\<lambda>x. bin (blen h cs x)) (place h)" using soundD(4) [OF s] by (simp add: holds_def)
    note f = listed_entry [OF this bj]
    have fc: "?f \<in> set cs" using f(1) by (simp add: free_set_def)
    then obtain as bs where cs: "cs = as @ ?f # bs" using split_list by fast
    note size = sound_size [OF s [unfolded cs], folded cs]
    have b64: "b < HEAP_N_BINS" using bin_less [of "blen h cs ?f"] size(3,4) f(2) by simp
    have tn: "unat t = blen h cs ?f - unat sz" using t size(4) unat_of_nat_u64 [of "blen h cs ?f - unat sz"] by simp
    have fin: "in_elts h ?f" using links_in [OF soundD(1) [OF s]] fc by simp
    show ?thesis
    proof (cases "t = 0")
      case True
      obtain h' where h': "modify_elt ?f (\<lambda>x. x\<lparr>offset := ucast (heap_offset (el h ?f))\<rparr>) h \<bind> remove_free_block b j = Some h'"
        "sound h' cs" "apart h' cs" "same_sizes h h'" "used h' cs = (used h cs)(?f \<mapsto> (ofs h ?f, blen h cs ?f))" "wrote h h' (ofs h ` free_set h cs)"
        using take_whole [OF s ap f(1)] unfolding f(2,3) by blast
      obtain g where g: "modify_elt ?f (\<lambda>x. x\<lparr>offset := ucast (heap_offset (el h ?f))\<rparr>) h = Some g" "remove_free_block b j g = Some h'"
        using h'(1) by (auto simp: bind_eq_Some_conv)
      have "search_free_list True sz h = Some (Some (?f, h'))"
        using r(1) q True b64 g by (simp add: search_free_list_def Let_def elt_at_in [OF fin])
      moreover have "used h cs ?f = None" using f(1) by (simp add: used_def free_set_def)
      moreover have "blen h cs ?f = unat sz" using True tn le by simp
      ultimately show ?thesis using h'(2-5) free_set_keeps [OF s h'(6)] by (intro exI [of _ "Some (?f, h')"]) auto
    next
      case False
      obtain u h1 where new: "elt_new h = (u, h1)" by fastforce
      let ?t = "blen h cs ?f - unat sz"
      have t0: "0 < ?t" "?t < blen h cs ?f" using False tn sz(1) le by (auto simp: unat_gt_0 [symmetric] simp del: unat_gt_0)
      have bt: "size_to_bin t = bin ?t" using t by (simp add: bin_def)
      have bt64: "bin ?t < HEAP_N_BINS" using bin_less [of ?t] t0(1) size(4) by simp
      obtain h' cs' where h': "(do {
          h2 \<leftarrow> elt_insert_after ?f u h1; fe \<leftarrow> elt_at h2 ?f;
          h3 \<leftarrow> modify_elt u (\<lambda>x. x\<lparr>offset := ucast (heap_offset fe + of_nat ?t)\<rparr>) h2;
          if bin ?t \<noteq> b
          then set_free_elt ?f (of_nat (length (validate_list (bin ?t) (free_lists h3) ! bin ?t))) (add_to_list (bin ?t) ?f h3)
            \<bind> remove_free_block b j
          else Some h3 }) = Some h'" "sound h' cs'" "apart h' cs'" "same_sizes h h'" "used h cs u = None"
        "used h' cs' = (used h cs)(u \<mapsto> (ofs h ?f + ?t, blen h cs ?f - ?t))" "wrote h h' (ofs h ` free_set h cs)"
        using take_part [OF s ap f(1) t0 new] unfolding f(2,3) by blast
      have "search_free_list True sz h = Some (Some (u, h'))"
        using h'(1) r(1) q False bt64 new bt
        by (auto simp: search_free_list_def Let_def bind_eq_Some_conv t [symmetric] split: if_splits)
      moreover have "blen h cs ?f - ?t = unat sz" using le by simp
      ultimately show ?thesis using h'(2-6) free_set_keeps [OF s h'(7)] by (intro exI [of _ "Some (u, h')"]) auto
    qed
  qed
qed

end
