(* ===== verification/Clib_Heap_Refine.thy ===== *)
theory Clib_Heap_Refine
  imports Clib_Heap_Alloc Clib_Arith
begin

text \<open>
  What the operations of \<open>src/clib/heap.c\<close> promise together: a heap stands for the map from the handles in use to the
  offsets and lengths of their blocks; allocation and release change that map and leave the contents of the
  other blocks alone.
\<close>

section \<open>A block cut in two\<close>

lemma new_at:
  assumes l: "links h cs {}" and n: "length cs \<le> objects h" and new: "elt_new h = (u, h1)" and w: "unat w < 2 ^ 31"
  shows "\<exists>h2. modify_elt u (\<lambda>x. x\<lparr>offset := ucast (w :: uword)\<rparr>) h1 = Some h2 \<and> links h2 cs {u} \<and> same_data h h2 \<and> u \<notin> set cs
    \<and> (\<forall>x \<in> set cs. ofs h2 x = ofs h x \<and> fr h2 x = fr h x) \<and> ofs h2 u = unat w \<and> \<not> fr h2 u"
proof -
  note n = elt_new_links [OF l n new]
  have "in_elts h1 u" using links_in [OF n(1)] by simp
  then obtain h2 where
    2: "modify_elt u (\<lambda>y. y\<lparr>offset := ucast w\<rparr>) h1 = Some h2" "same_data h1 h2" "same_pool h1 h2" "head h2 = head h1" "tail h2 = tail h1"
      "el h2 = (el h1)(u := (el h1 u)\<lparr>offset := ucast w\<rparr>)" by (rule modify_elt_in)
  have "nx h2 = nx h1" "pv h2 = pv h1" unfolding nx_def pv_def 2(6) by (auto simp: fun_eq_iff)
  then have "same_links h1 h2" using 2(2-5) by (simp add: same_links_def same_data_def)
  then have "links h2 cs {u}" using same_links_links n(1) by blast
  moreover have "ofs h2 u = unat w \<and> \<not> fr h2 u" unfolding ofs_def fr_def 2(6) using offset_used [OF w] by simp
  moreover have "ofs h2 x = ofs h x \<and> fr h2 x = fr h x" if "x \<in> set cs" for x
  proof -
    have "el h2 x = el h x" using that n(3,4) unfolding 2(6) by auto
    then show ?thesis using nx_pv_el by blast
  qed
  ultimately show ?thesis using 2(1) n(3) same_data_trans [OF n(2) 2(2)] by blast
qed

lemma cut_block:
  assumes s: "sound h (as @ [e] @ bs)" and ap: "apart h (as @ [e] @ bs)" and e: "\<not> fr h e"
    and l: "links g (as @ [x, y] @ bs) {}" and d: "same_data h g"
    and o: "\<forall>z \<in> set (as @ bs). ofs g z = ofs h z \<and> fr g z = fr h z"
    and xy: "ofs g x = ofs h e" "ofs g x < ofs g y" "ofs g y < bend h bs" "\<not> fr g x" "\<not> fr g y" "e \<in> {x, y}"
  shows "sound g (as @ [x, y] @ bs)" "apart g (as @ [x, y] @ bs)"
    "used g (as @ [x, y] @ bs) = (used h (as @ [e] @ bs))(x \<mapsto> (ofs h e, ofs g y - ofs h e), y \<mapsto> (ofs g y, bend h bs - ofs g y))"
proof -
  have dist: "distinct (as @ [x, y] @ bs)" using linksD(4) [OF l] .
  have ob: "objects g = objects h" using d by (simp add: same_data_def)
  have F: "free_set g (as @ [x, y] @ bs) = free_set h (as @ [e] @ bs)"
    using o xy e by (auto simp: free_set_def)
  have oF: "\<forall>z \<in> free_set h (as @ [e] @ bs). ofs g z = ofs h z" using o e by (auto simp: free_set_def)
  have srt: "sorted_wrt (<) (map (ofs g) [x, y] @ [bend h bs])" using xy by auto
  have hd: "ofs g (hd [x, y]) = ofs h (hd [e])" using xy by simp
  have ne: "[e] \<noteq> []" "[x, y] \<noteq> []" by simp_all
  note rb = reblock [OF s ne l d o hd srt F oF]
  have "\<forall>z \<in> free_set g (as @ [x, y] @ bs). bin (blen h (as @ [e] @ bs) z) = bin (blen g (as @ [x, y] @ bs) z)"
    using rb(4) e unfolding F by (auto simp: free_set_def)
  then show "sound g (as @ [x, y] @ bs)" by (rule soundI [OF l rb(1-3)])
  have "apart h as" "apart h bs" using ap by (auto simp: apart_append apart_Cons)
  then have "apart g as" "apart g bs" using o by (auto elim!: apart_mono)
  then show "apart g (as @ [x, y] @ bs)" using xy(4,5) by (auto simp: apart_append apart_Cons)
  have bl: "blen g (as @ [x, y] @ bs) x = ofs g y - ofs h e" "blen g (as @ [x, y] @ bs) y = bend h bs - ofs g y"
    using dist o xy(1) ob by (auto simp: len_in_right bend_def split: list.splits)
  show "used g (as @ [x, y] @ bs) = (used h (as @ [e] @ bs))(x \<mapsto> (ofs h e, ofs g y - ofs h e), y \<mapsto> (ofs g y, bend h bs - ofs g y))"
  proof
    fix z
    consider "z = x" "z \<noteq> y" | "z = y" | "z \<in> set (as @ bs)" "z \<noteq> x" "z \<noteq> y" | "z \<notin> set (as @ [x, y] @ bs)" by auto
    then show "used g (as @ [x, y] @ bs) z = ((used h (as @ [e] @ bs))(x \<mapsto> (ofs h e, ofs g y - ofs h e), y \<mapsto> (ofs g y, bend h bs - ofs g y))) z"
    proof cases
      case 1
      then show ?thesis using bl xy by (simp add: used_def)
    next
      case 2
      then show ?thesis using bl xy by (simp add: used_def)
    next
      case 3
      then show ?thesis using bspec [OF o, of z] bspec [OF rb(4), of z] by (auto simp: used_def)
    next
      case 4
      then show ?thesis using xy(6) by (auto simp: used_def)
    qed
  qed
qed

lemma keeps_data: "same_data h g \<Longrightarrow> keeps g k m \<Longrightarrow> keeps h k m"
  by (simp add: keeps_def same_data_def)

text \<open>A fragment is given back.\<close>

lemma fragment_freed:
  assumes s: "sound g cs" and ap: "apart g cs" and b: "used g cs b = Some kl" and m: "\<forall>x \<in> dom m. m x = used g cs x \<and> x \<noteq> b"
  shows "\<exists>h' cs'. dealloc_elt b g = Some h' \<and> sound h' cs' \<and> apart h' cs' \<and> same_sizes g h' \<and> used h' cs' = (used g cs)(b := None) \<and> keeps g h' m"
proof -
  have b': "b \<in> set cs" "\<not> fr g b" using b by (auto simp: used_def split: if_splits)
  then obtain as bs where "cs = as @ b # bs" using split_list by fast
  from dealloc_sound [OF s this ap b'(2)] obtain h' cs' where
    d: "dealloc_elt b g = Some h'" "sound h' cs'" "apart h' cs'" "same_sizes g h'" "used h' cs' = (used g cs)(b := None)"
      "wrote g h' (ofs g ` insert b (free_set g cs))" by blast
  have "keeps g h' m"
  proof (rule wrote_keeps [OF s d(6)])
    show "insert b (free_set g cs) \<subseteq> set cs" using b' by (auto simp: free_set_def)
    show "\<forall>x \<in> dom m. m x = used g cs x \<and> x \<notin> insert b (free_set g cs)"
    proof
      fix x assume x: "x \<in> dom m"
      note mx = bspec [OF m x]
      have "used g cs x \<noteq> None" using mx x by auto
      then have "x \<notin> free_set g cs" by (auto simp: used_def free_set_def)
      then show "m x = used g cs x \<and> x \<notin> insert b (free_set g cs)" using mx by simp
    qed
  qed
  then show ?thesis using d by blast
qed

section \<open>Alignment\<close>

lemma used_entry:
  assumes s: "sound h cs" and e: "used h cs e = Some (k, l)"
  obtains as bs where "cs = as @ [e] @ bs" "\<not> fr h e" "k = ofs h e" "l = bend h bs - k" "0 < l" "k + l = bend h bs" "bend h bs < 2 ^ 31"
proof -
  have e': "e \<in> set cs" "\<not> fr h e" "k = ofs h e" "l = blen h cs e" using e by (auto simp: used_def split: if_splits)
  then obtain as bs where cs: "cs = as @ e # bs" using split_list by fast
  note sz = sound_size [OF s [unfolded cs], folded cs]
  have "bend h bs < 2 ^ 31" using tiles_bend(2) soundD(2) [OF s [unfolded cs]] linksD(3) [OF soundD(1) [OF s]] by fastforce
  then show thesis using that [of as bs] cs e' sz by simp
qed

lemma move_block:
  assumes s: "sound h (as @ [e] @ bs)" and n: "unat (n :: uword) < 2 ^ 31"
  obtains h1 where "modify_elt e (\<lambda>x. x\<lparr>offset := ucast n\<rparr>) h = Some h1" "links h1 (as @ [e] @ bs) {}" "same_data h h1"
    "ofs h1 = (ofs h)(e := unat n)" "fr h1 = (fr h)(e := False)"
proof -
  have "e \<in> set (as @ [e] @ bs)" by simp
  then obtain h1 where "modify_elt e (\<lambda>x. x\<lparr>offset := ucast n\<rparr>) h = Some h1" "same_data h h1" "same_links h h1"
    "ofs h1 = (ofs h)(e := unat n) \<and> fr h1 = (fr h)(e := False)" using modify_sound [OF s] n by metis
  then show thesis using that same_links_links soundD(1) [OF s] by blast
qed

lemma align_before:
  assumes s: "sound h cs" and ap: "apart h cs" and e: "used h cs e = Some (unat (old :: uword), l)" and n: "unat old \<le> unat n" "unat n < unat old + l"
  shows "\<exists>h' cs'. (do {
      h \<leftarrow> modify_elt e (\<lambda>x. x\<lparr>offset := ucast n\<rparr>) h;
      if old < n
      then let (b, h) = elt_new h in modify_elt b (\<lambda>x. x\<lparr>offset := ucast old\<rparr>) h \<bind> elt_insert_before e b \<bind> dealloc_elt b
      else Some h }) = Some h' \<and> sound h' cs' \<and> apart h' cs' \<and> same_sizes h h' \<and> keeps h h' ((used h cs)(e := None))
    \<and> used h' cs' = (used h cs)(e \<mapsto> (unat n, unat old + l - unat n))"
proof -
  obtain as bs where cs: "cs = as @ [e] @ bs" and f: "\<not> fr h e" "unat old = ofs h e" "0 < l" "unat old + l = bend h bs" "bend h bs < 2 ^ 31"
    using used_entry [OF s e] by metis
  note s' = s [unfolded cs] and ap' = ap [unfolded cs]
  have n31: "unat n < 2 ^ 31" using n(2) f(4,5) by simp
  obtain h1 where 1: "modify_elt e (\<lambda>x. x\<lparr>offset := ucast n\<rparr>) h = Some h1" "links h1 (as @ [e] @ bs) {}" "same_data h h1"
    "ofs h1 = (ofs h)(e := unat n)" "fr h1 = (fr h)(e := False)" by (rule move_block [OF s' n31])
  show ?thesis
  proof (cases "old < n")
    case False
    then have "n = old" using n(1) by (simp add: word_less_nat_alt word_unat_eq_iff)
    then have o: "ofs h1 = ofs h" "fr h1 = fr h" using 1(4,5) f(1,2) by (auto simp: fun_eq_iff)
    have ob: "objects h1 = objects h" using 1(3) by (simp add: same_data_def)
    have slots: "has_slot h1 = has_slot h" "place h1 = place h" using 1(3) o by (simp_all add: has_slot_def place_def same_data_def fun_eq_iff)
    have ins: "in_elts h1 x" if "x \<in> set cs" for x using links_in [OF 1(2)] that cs by simp
    note sd = soundD [OF s]
    have "holds h1 (free_set h1 cs) {} (\<lambda>x. bin (blen h cs x)) (place h)"
      using sd(4) 1(3) slots ins unfolding holds_def free_set_def o by (auto simp: same_data_def)
    moreover have "tiles h1 cs" "room h1" using sd(2,3) 1(3) by (simp_all add: tiles_def o ob room_def same_data_def)
    ultimately have "sound h1 cs" using soundI [of h1 cs] 1(2) cs by (simp add: o ob)
    moreover have "apart h1 cs" by (rule apart_mono [OF ap]) (simp add: o)
    moreover have "used h1 cs = used h cs" by (simp add: used_def fun_eq_iff o ob)
    moreover have "keeps h h1 ((used h cs)(e := None))" using keeps_data [OF 1(3) keeps_refl] .
    moreover have "used h cs = (used h cs)(e \<mapsto> (unat n, unat old + l - unat n))" using e \<open>n = old\<close> by (auto simp: fun_eq_iff)
    ultimately show ?thesis using 1(1) False same_data_sizes [OF 1(3)] by (intro exI [of _ h1] exI [of _ cs]) simp
  next
    case True
    then have lt: "unat old < unat n" by (simp add: word_less_nat_alt)
    obtain b h2 where new: "elt_new h1 = (b, h2)" by fastforce
    have o31: "unat old < 2 ^ 31" using lt n31 by simp
    have len: "length (as @ [e] @ bs) \<le> objects h1" using tiles_length [OF soundD(2) [OF s']] 1(3) by (simp add: same_data_def)
    obtain h3 where 3: "modify_elt b (\<lambda>x. x\<lparr>offset := ucast old\<rparr>) h2 = Some h3" "links h3 (as @ [e] @ bs) {b}" "same_data h1 h3"
        "b \<notin> set (as @ [e] @ bs)" "\<forall>x \<in> set (as @ [e] @ bs). ofs h3 x = ofs h1 x \<and> fr h3 x = fr h1 x" "ofs h3 b = unat old" "\<not> fr h3 b"
      using new_at [OF 1(2) len new o31] by blast
    obtain g where 4: "elt_insert_before e b h3 = Some g" "links g (as @ [b, e] @ bs) {}" "same_data h3 g" "\<forall>x. offset (el g x) = offset (el h3 x)"
      using insert_before_links [of h3 as e bs b] 3(2) by auto
    have og: "ofs g = ofs h3" "fr g = fr h3" using offsets_el [OF 4(4)] by simp_all
    have d: "same_data h g" by (rule same_data_trans [OF 1(3) same_data_trans [OF 3(3) 4(3)]])
    have rest: "\<forall>z \<in> set (as @ bs). ofs g z = ofs h z \<and> fr g z = fr h z"
    proof
      fix z assume z: "z \<in> set (as @ bs)"
      then have "z \<noteq> e" using sound_distinct [OF s'] by auto
      then show "ofs g z = ofs h z \<and> fr g z = fr h z" using bspec [OF 3(5), of z] z unfolding og by (simp add: 1(4,5))
    qed
    have oe: "ofs g e = unat n" "\<not> fr g e" using 3(5) unfolding og by (simp_all add: 1(4,5))
    have "ofs g b = ofs h e" "ofs g b < ofs g e" "ofs g e < bend h bs" "\<not> fr g b" "\<not> fr g e" "e \<in> {b, e}"
      using 3(6,7) f n lt oe by (simp_all add: og)
    note cut = cut_block [OF s' ap' f(1) 4(2) d rest this]
    let ?m = "(used h cs)(e := None)"
    have bc: "b \<notin> set cs" using 3(4) cs by simp
    then have be: "b \<noteq> e" "used h cs b = None" using cs by (auto simp: used_def)
    have ug: "used g (as @ [b, e] @ bs) = (used h cs)(b \<mapsto> (unat old, unat n - unat old), e \<mapsto> (unat n, unat old + l - unat n))"
      using cut(3) oe f(2,4) cs by simp
    then have ub: "used g (as @ [b, e] @ bs) b = Some (unat old, unat n - unat old)" using be by simp
    have um: "\<forall>x \<in> dom ?m. ?m x = used g (as @ [b, e] @ bs) x \<and> x \<noteq> b" using be unfolding ug by auto
    obtain h' cs' where 5: "dealloc_elt b g = Some h'" "sound h' cs'" "apart h' cs'" "same_sizes g h'"
        "used h' cs' = (used g (as @ [b, e] @ bs))(b := None)" "keeps g h' ?m"
      using fragment_freed [OF cut(1,2) ub um] by blast
    have "used h' cs' = (used h cs)(e \<mapsto> (unat n, unat old + l - unat n))"
      using be unfolding 5(5) ug by (auto simp: fun_eq_iff)
    moreover have "same_sizes h h'" by (rule same_sizes_trans [OF same_data_sizes [OF d] 5(4)])
    moreover note 5(2,3) keeps_data [OF d 5(6)]
    moreover have "(do {
        h \<leftarrow> modify_elt e (\<lambda>x. x\<lparr>offset := ucast n\<rparr>) h;
        if old < n
        then let (b, h) = elt_new h in modify_elt b (\<lambda>x. x\<lparr>offset := ucast old\<rparr>) h \<bind> elt_insert_before e b \<bind> dealloc_elt b
        else Some h }) = Some h'"
      using 1(1) True new 3(1) 4(1) 5(1) by simp
    ultimately show ?thesis by blast
  qed
qed

lemma align_after:
  assumes s: "sound h cs" and ap: "apart h cs" and e: "used h cs e = Some (unat (n :: uword), l)" and sz: "0 < unat sz" "unat sz \<le> l"
    and stop: "unat stop = unat n + l"
  shows "\<exists>h' cs'. (if n + sz < stop
      then let (a, h) = elt_new h in modify_elt a (\<lambda>x. x\<lparr>offset := ucast (n + sz)\<rparr>) h \<bind> elt_insert_after e a \<bind> dealloc_elt a
      else Some h) = Some h' \<and> sound h' cs' \<and> apart h' cs' \<and> same_sizes h h' \<and> keeps h h' ((used h cs)(e := None))
    \<and> used h' cs' = (used h cs)(e \<mapsto> (unat n, unat sz))"
proof -
  obtain as bs where cs: "cs = as @ [e] @ bs" and f: "\<not> fr h e" "unat n = ofs h e" "0 < l" "unat n + l = bend h bs" "bend h bs < 2 ^ 31"
    using used_entry [OF s e] by metis
  note s' = s [unfolded cs] and ap' = ap [unfolded cs]
  have "unat n + unat sz < 2 ^ 64" using f(4,5) sz(2) by simp
  then have ns: "unat (n + sz) = unat n + unat sz" by (simp add: unat_word_ariths)
  show ?thesis
  proof (cases "n + sz < stop")
    case False
    then have "l = unat sz" using ns stop sz(2) by (simp add: word_less_nat_alt)
    then have "(used h cs)(e \<mapsto> (unat n, unat sz)) = used h cs" using e by (auto simp: fun_eq_iff)
    then show ?thesis using False s ap by (intro exI [of _ h] exI [of _ cs]) simp
  next
    case True
    then have lt: "unat sz < l" using ns stop by (simp add: word_less_nat_alt)
    obtain b h2 where new: "elt_new h = (b, h2)" by fastforce
    have n31: "unat (n + sz) < 2 ^ 31" using ns f(4,5) lt by simp
    note sd = soundD [OF s']
    obtain h3 where 3: "modify_elt b (\<lambda>x. x\<lparr>offset := ucast (n + sz)\<rparr>) h2 = Some h3" "links h3 (as @ [e] @ bs) {b}" "same_data h h3"
        "b \<notin> set (as @ [e] @ bs)" "\<forall>x \<in> set (as @ [e] @ bs). ofs h3 x = ofs h x \<and> fr h3 x = fr h x" "ofs h3 b = unat (n + sz)" "\<not> fr h3 b"
      using new_at [OF sd(1) tiles_length [OF sd(2)] new n31] by blast
    obtain g where 4: "elt_insert_after e b h3 = Some g" "links g (as @ [e, b] @ bs) {}" "same_data h3 g" "\<forall>x. offset (el g x) = offset (el h3 x)"
      using insert_after_links [of h3 as e bs b] 3(2) by auto
    have og: "ofs g = ofs h3" "fr g = fr h3" using offsets_el [OF 4(4)] by simp_all
    have d: "same_data h g" by (rule same_data_trans [OF 3(3) 4(3)])
    have rest: "\<forall>z \<in> set (as @ bs). ofs g z = ofs h z \<and> fr g z = fr h z" using 3(5) by (simp add: og)
    have oe: "ofs g e = ofs h e" "\<not> fr g e" using 3(5) f(1) unfolding og by simp_all
    have "ofs g e = ofs h e" "ofs g e < ofs g b" "ofs g b < bend h bs" "\<not> fr g e" "\<not> fr g b" "e \<in> {e, b}"
      using 3(6,7) f ns lt sz oe by (simp_all add: og)
    note cut = cut_block [OF s' ap' f(1) 4(2) d rest this]
    let ?m = "(used h cs)(e := None)"
    have be: "b \<noteq> e" "used h cs b = None" using 3(4) cs by (auto simp: used_def)
    have ug: "used g (as @ [e, b] @ bs) = (used h cs)(e \<mapsto> (unat n, unat sz), b \<mapsto> (unat n + unat sz, l - unat sz))"
    proof -
      have "bend h bs - (ofs h e + unat sz) = l - unat sz" "ofs g b = ofs h e + unat sz" using f(2,4) ns 3(6) by (simp_all add: og)
      then show ?thesis using cut(3) f(2) cs by simp
    qed
    then have ub: "used g (as @ [e, b] @ bs) b = Some (unat n + unat sz, l - unat sz)" using be by simp
    have um: "\<forall>x \<in> dom ?m. ?m x = used g (as @ [e, b] @ bs) x \<and> x \<noteq> b" using be unfolding ug by auto
    obtain h' cs' where 5: "dealloc_elt b g = Some h'" "sound h' cs'" "apart h' cs'" "same_sizes g h'"
        "used h' cs' = (used g (as @ [e, b] @ bs))(b := None)" "keeps g h' ?m"
      using fragment_freed [OF cut(1,2) ub um] by blast
    have "used h' cs' = (used h cs)(e \<mapsto> (unat n, unat sz))"
      using be unfolding 5(5) ug by (auto simp: fun_eq_iff)
    moreover have "same_sizes h h'" by (rule same_sizes_trans [OF same_data_sizes [OF d] 5(4)])
    moreover note 5(2,3) keeps_data [OF d 5(6)]
    moreover have "(if n + sz < stop
        then let (a, h) = elt_new h in modify_elt a (\<lambda>x. x\<lparr>offset := ucast (n + sz)\<rparr>) h \<bind> elt_insert_after e a \<bind> dealloc_elt a
        else Some h) = Some h'"
      using True new 3(1) 4(1) 5(1) by simp
    ultimately show ?thesis by blast
  qed
qed

lemma offset_not_free: "\<not> heap_is_free x \<Longrightarrow> (ucast (offset x) :: uword) = heap_offset x"
proof -
  assume "\<not> heap_is_free x"
  then have "offset x AND HEAP_ELT_FREE_BIT = 0" by (simp add: heap_is_free_def)
  then have "\<not> (bit (offset x) j \<and> bit HEAP_ELT_FREE_BIT j)" for j by (metis bit_and_iff bit_0_eq bot_apply bot_bool_def)
  then have "offset x AND NOT HEAP_ELT_FREE_BIT = offset x" by (intro bit_word_eqI) (auto simp: bit_simps)
  then show ?thesis by (simp add: heap_offset_def)
qed

lemma round_pow2_bounds:
  assumes "i < 64" "unat x + 2 ^ i \<le> 2 ^ 64"
  shows "unat x \<le> unat (round_pow2 x (2 ^ i))" "unat (round_pow2 x (2 ^ i)) + 1 \<le> unat x + 2 ^ i" "2 ^ i dvd unat (round_pow2 x (2 ^ i))"
proof -
  let ?p = "2 ^ i :: nat" and ?y = "unat x + (2 ^ i - 1)"
  have r: "unat (round_pow2 x (2 ^ i)) = ?p * (?y div ?p)" by (rule unat_round_pow2 [OF assms])
  have "?y = ?p * (?y div ?p) + ?y mod ?p" by simp
  moreover have "?y mod ?p < ?p" by simp
  ultimately show "unat x \<le> unat (round_pow2 x (2 ^ i))" "unat (round_pow2 x (2 ^ i)) + 1 \<le> unat x + 2 ^ i" unfolding r by linarith+
  show "2 ^ i dvd unat (round_pow2 x (2 ^ i))" unfolding r by simp
qed

lemma heap_align_sound:
  assumes s: "sound h cs" and ap: "apart h cs" and e: "used h cs e = Some (k, unat align_size)" and i: "align = 2 ^ i" "i < 32"
    and sz: "0 < unat sz" "unat align_size = unat sz + 2 ^ i - 1"
  shows "\<exists>h' cs' k'. heap_align e sz align align_size h = Some h' \<and> sound h' cs' \<and> apart h' cs' \<and> same_sizes h h'
    \<and> keeps h h' ((used h cs)(e := None)) \<and> used h' cs' = (used h cs)(e \<mapsto> (k', unat sz)) \<and> 2 ^ i dvd k'"
proof -
  let ?m = "(used h cs)(e := None)"
  obtain as bs where cs: "cs = as @ [e] @ bs" and f: "\<not> fr h e" "k = ofs h e" "k + unat align_size = bend h bs" "bend h bs < 2 ^ 31"
    using used_entry [OF s e] by metis
  define old n stop where "old = (ucast (offset (el h e)) :: uword)" and "n = round_pow2 old (2 ^ i)" and "stop = old + align_size"
  have "old = of_nat k" using offset_not_free [of "el h e"] f(1,2) heap_offset_nat [of h e] by (simp add: old_def fr_def)
  then have k: "unat old = k" using f(3,4) unat_of_nat_u64 [of k] by simp
  have p32: "2 ^ i \<le> (2 ^ 32 :: nat)" using i(2) by (intro power_increasing) simp_all
  then have "unat old + 2 ^ i \<le> 2 ^ 64" using k f(3,4) by simp
  note r = round_pow2_bounds [OF _ this, folded n_def]
  have n: "unat old \<le> unat n" "unat n + unat sz \<le> unat old + unat align_size" "2 ^ i dvd unat n"
    using r i(2) sz(2) by simp_all
  have st: "unat stop = unat old + unat align_size"
    unfolding stop_def by (rule unat_add_lem [THEN iffD1]) (use k f(3,4) in simp)
  have inh: "in_elts h e" using links_in [OF soundD(1) [OF s]] cs by simp
  have e': "used h cs e = Some (unat old, unat align_size)" using e k by simp
  have n': "unat n < unat old + unat align_size" using n(2) sz(1) by simp
  obtain h1 cs1 where 1: "(do {
      h \<leftarrow> modify_elt e (\<lambda>x. x\<lparr>offset := ucast n\<rparr>) h;
      if old < n
      then let (b, h) = elt_new h in modify_elt b (\<lambda>x. x\<lparr>offset := ucast old\<rparr>) h \<bind> elt_insert_before e b \<bind> dealloc_elt b
      else Some h }) = Some h1" "sound h1 cs1" "apart h1 cs1" "same_sizes h h1" "keeps h h1 ?m"
      "used h1 cs1 = (used h cs)(e \<mapsto> (unat n, unat old + unat align_size - unat n))"
    using align_before [OF s ap e' n(1) n'] by blast
  have e1: "used h1 cs1 e = Some (unat n, unat old + unat align_size - unat n)" using 1(6) by simp
  have st1: "unat stop = unat n + (unat old + unat align_size - unat n)" using st n' by simp
  have sz1: "unat sz \<le> unat old + unat align_size - unat n" using n(2) by simp
  obtain h2 cs2 where 2: "(if n + sz < stop
      then let (a, h) = elt_new h1 in modify_elt a (\<lambda>x. x\<lparr>offset := ucast (n + sz)\<rparr>) h \<bind> elt_insert_after e a \<bind> dealloc_elt a
      else Some h1) = Some h2" "sound h2 cs2" "apart h2 cs2" "same_sizes h1 h2" "keeps h1 h2 ((used h1 cs1)(e := None))"
      "used h2 cs2 = (used h1 cs1)(e \<mapsto> (unat n, unat sz))"
    using align_after [OF 1(2,3) e1 sz(1) sz1 st1] by blast
  have m1: "(used h1 cs1)(e := None) = ?m" using 1(6) by simp
  have "heap_align e sz align align_size h = (do {
      h \<leftarrow> modify_elt e (\<lambda>x. x\<lparr>offset := ucast n\<rparr>) h;
      if old < n
      then let (b, h) = elt_new h in modify_elt b (\<lambda>x. x\<lparr>offset := ucast old\<rparr>) h \<bind> elt_insert_before e b \<bind> dealloc_elt b
      else Some h }) \<bind> (\<lambda>h. if n + sz < stop
      then let (a, h) = elt_new h in modify_elt a (\<lambda>x. x\<lparr>offset := ucast (n + sz)\<rparr>) h \<bind> elt_insert_after e a \<bind> dealloc_elt a
      else Some h)"
    unfolding heap_align_def elt_at_in [OF inh] old_def n_def round_pow2_def stop_def i(1) by (simp add: Let_def)
  also have "\<dots> = Some h2" unfolding 1(1) by (simp only: bind.bind_lunit 2(1))
  finally have "heap_align e sz align align_size h = Some h2" .
  moreover have "same_sizes h h2" by (rule same_sizes_trans [OF 1(4) 2(4)])
  moreover have "keeps h h2 ?m"
    by (rule keeps_trans [OF 1(5) 2(5) [unfolded m1]]) (use 1(4) in \<open>simp_all add: same_sizes_def\<close>)
  moreover have "used h2 cs2 = (used h cs)(e \<mapsto> (unat n, unat sz))" unfolding 2(6) 1(6) by simp
  ultimately show ?thesis using 2(2,3) n(3) by blast
qed

section \<open>More objects at the end\<close>

definition space :: "heap \<Rightarrow> nat \<Rightarrow> bool" where
  "space h n \<longleftrightarrow> flags h AND HEAP_IS_STATIC = 0 \<or> n * unat (elt_bytes h) \<le> length (memory h)"

lemma grow_sound:
  assumes s: "sound h cs" and ap: "apart h cs" and sz: "0 < unat asz" "objects h + unat asz < 2 ^ 31" and sp: "space h (objects h + unat asz)"
    and new: "elt_new (heap_grow (Some h) asz (elt_bytes h)) = (e, h1)"
  shows "\<exists>h' cs'. (do {
      h2 \<leftarrow> modify_elt e (\<lambda>x. x\<lparr>offset := ucast (of_nat (objects h) :: uword)\<rparr>) h1;
      h3 \<leftarrow> elt_insert_after (tail h2) e h2;
      Some (e, h3) }) = Some (e, h') \<and> sound h' cs' \<and> apart h' cs' \<and> used h cs e = None
    \<and> used h' cs' = (used h cs)(e \<mapsto> (objects h, unat asz)) \<and> keeps h h' (used h cs)
    \<and> same_sizes (h\<lparr>objects := objects h + unat asz\<rparr>) h'"
proof -
  define g where "g = heap_grow (Some h) asz (elt_bytes h)"
  let ?n = "objects h + unat asz"
  note sd = soundD [OF s]
  have "0 < objects h" using tiles_length [OF sd(2)] linksD(9) [OF sd(1)] by (cases cs) auto
  then have gd: "\<exists>c. g = h\<lparr>objects := ?n, memory := memory h @ replicate c 0\<rparr> \<and> ?n * unat (elt_bytes h) \<le> length (memory h) + c"
    using sp unfolding g_def heap_grow_def space_def Let_def
    by (intro exI [of _ "if flags h AND HEAP_IS_STATIC = 0 then ?n * unat (elt_bytes h) - length (memory h) else 0"]) auto
  then obtain c where c: "g = h\<lparr>objects := ?n, memory := memory h @ replicate c 0\<rparr>" "?n * unat (elt_bytes h) \<le> length (memory h) + c" by blast
  have elg: "el g = el h" "in_elts g = in_elts h" unfolding c(1) el_def in_elts_def by (simp_all add: fun_eq_iff)
  have gf: "n_elts g = n_elts h" "elts g = elts h" "free_elts g = free_elts h" "head g = head h" "tail g = tail h" "objects g = ?n"
      "memory g = memory h @ replicate c 0" "free_lists g = free_lists h" "small_free_elt_free_index g = small_free_elt_free_index h"
      "elt_bytes g = elt_bytes h" "max_len g = max_len h" "flags g = flags h" "used_count g = used_count h"
    unfolding c(1) by simp_all
  note og = el_fields [OF elg(1)]
  have lg: "links g cs {}" using sd(1) sz(2) unfolding links_def by (simp add: gf elg og)
  have leng: "length cs \<le> objects g" using tiles_length [OF sd(2)] gf by simp
  have w: "unat (of_nat (objects h) :: uword) = objects h" using sz(2) unat_of_nat_u64 [of "objects h"] by simp
  then have w31: "unat (of_nat (objects h) :: uword) < 2 ^ 31" using sz(2) by simp
  obtain h2 where 2: "modify_elt e (\<lambda>x. x\<lparr>offset := ucast (of_nat (objects h) :: uword)\<rparr>) h1 = Some h2" "links h2 cs {e}" "same_data g h2" "e \<notin> set cs"
      "\<forall>x \<in> set cs. ofs h2 x = ofs g x \<and> fr h2 x = fr g x" "ofs h2 e = objects h" "\<not> fr h2 e"
    using new_at [OF lg leng new [folded g_def] w31] unfolding w by blast
  have cs: "butlast cs @ [last cs] = cs" using linksD(9) [OF sd(1)] by simp
  then have cs': "butlast cs @ [last cs, e] = cs @ [e]" by (metis append.assoc append_Cons append_Nil)
  have tl: "tail h2 = last cs" by (rule linksD(14) [OF 2(2)])
  obtain h3 where 3: "elt_insert_after (last cs) e h2 = Some h3" "links h3 (cs @ [e]) {}" "same_data h2 h3" "\<forall>x. offset (el h3 x) = offset (el h2 x)"
    using insert_after_links [of h2 "butlast cs" "last cs" "[]" e, unfolded cs cs'] 2(2) by blast
  have o3: "ofs h3 = ofs h2" "fr h3 = fr h2" using offsets_el [OF 3(4)] by simp_all
  have d: "same_data g h3" by (rule same_data_trans [OF 2(3) 3(3)])
  have df: "objects h3 = ?n" "memory h3 = memory h @ replicate c 0" "free_lists h3 = free_lists h"
      "small_free_elt_free_index h3 = small_free_elt_free_index h" "elt_bytes h3 = elt_bytes h"
    using d gf by (simp_all add: same_data_def)
  have o: "\<forall>x \<in> set cs. ofs h3 x = ofs h x \<and> fr h3 x = fr h x" using 2(5) og by (simp add: o3)
  have oe: "ofs h3 e = objects h" "\<not> fr h3 e" using 2(6,7) by (simp_all add: o3)
  have maps: "map (ofs h3) cs = map (ofs h) cs" using o by auto
  have "ofs h3 (hd cs) = ofs h (hd cs)" using o linksD(9) [OF sd(1)] by simp
  then have t3: "tiles h3 (cs @ [e])"
    using sd(2) linksD(9) [OF sd(1)] sz(1) unfolding tiles_def by (simp add: sorted_wrt_append maps oe(1) df(1)) auto
  have r3: "room h3" using sd(3) c(2) df by (simp add: room_def)
  have bl: "blen h3 (cs @ [e]) x = blen h cs x" if "x \<in> set cs" for x
    by (rule len_in_left_end [symmetric]) (use that o oe in auto)
  have ble: "blen h3 (cs @ [e]) e = unat asz" using 2(4) oe(1) df(1) by (simp add: len_in_right)
  have F: "free_set h3 (cs @ [e]) = free_set h cs" using o oe(2) by (auto simp: free_set_def)
  have slot: "has_slot h3 x \<and> place h3 x = place h x" if "x \<in> free_set h cs" for x
  proof -
    have xc: "x \<in> set cs" "has_slot h x" "ofs h3 x = ofs h x" using that sd(4) o by (auto simp: free_set_def holds_def)
    then show ?thesis using df by (auto simp: has_slot_def place_def get_u32_def)
  qed
  have "holds h3 (free_set h3 (cs @ [e])) {} (\<lambda>x. bin (blen h cs x)) (place h)"
    unfolding F holds_def
  proof (intro conjI ballI)
    show "listed (free_lists h3) (free_set h cs) (\<lambda>x. bin (blen h cs x)) (place h)" using sd(4) df by (simp add: holds_def)
    show "inj_on (ofs h3) (free_set h cs - {})" by (rule inj_on_subset [OF tiles_inj [OF t3]]) (auto simp: free_set_def)
  next
    fix x assume x: "x \<in> free_set h cs - {}"
    then have "x \<in> set cs" "fr h x" by (auto simp: free_set_def)
    then show "in_elts h3 x" "fr h3 x" "has_slot h3 x" "place h3 x = place h x" using slot [of x] x o links_in [OF 3(2)] by auto
  qed
  then have s3: "sound h3 (cs @ [e])" by (rule soundI [OF 3(2) t3 r3]) (use bl F in \<open>auto simp: free_set_def\<close>)
  have "apart h3 cs" by (rule apart_mono [OF ap]) (use o in simp)
  then have ap3: "apart h3 (cs @ [e])" using oe(2) by (auto simp: apart_append)
  have us: "used h3 (cs @ [e]) = (used h cs)(e \<mapsto> (objects h, unat asz))"
  proof
    fix x
    consider "x = e" | "x \<in> set cs" "x \<noteq> e" | "x \<notin> set (cs @ [e])" by auto
    then show "used h3 (cs @ [e]) x = ((used h cs)(e \<mapsto> (objects h, unat asz))) x"
      by cases (use oe ble bl o in \<open>auto simp: used_def\<close>)
  qed
  have kp: "keeps h h3 (used h cs)"
    unfolding keeps_def
  proof (intro conjI allI impI)
    show "length (memory h) \<le> length (memory h3)" by (simp add: df)
  next
    fix x k l p assume x: "used h cs x = Some (k, l)" and p: "p < (k + l) * unat (elt_bytes h)"
    obtain as bs where "cs = as @ [x] @ bs" "k + l = bend h bs" using used_entry [OF s x] by metis
    then have "k + l \<le> objects h" using tiles_bend(2) sd(2) by fastforce
    then have "(k + l) * unat (elt_bytes h) \<le> objects h * unat (elt_bytes h)" by (rule mult_right_mono) simp
    moreover have "objects h * unat (elt_bytes h) \<le> length (memory h)" using sd(3) by (simp add: room_def)
    ultimately have "p < length (memory h)" using p by linarith
    then show "memory h3 ! p = memory h ! p" by (simp add: df nth_append)
  qed
  have "same_sizes (h\<lparr>objects := ?n\<rparr>) h3" using d gf by (simp add: same_data_def same_sizes_def)
  moreover have "used h cs e = None" using 2(4) by (simp add: used_def)
  moreover have "(do {
      h2 \<leftarrow> modify_elt e (\<lambda>x. x\<lparr>offset := ucast (of_nat (objects h) :: uword)\<rparr>) h1;
      h3 \<leftarrow> elt_insert_after (tail h2) e h2;
      Some (e, h3) }) = Some (e, h3)" using 2(1) tl 3(1) by simp
  ultimately show ?thesis using s3 ap3 us kp by blast
qed

text \<open>The first block of a heap.\<close>

definition fresh :: "heap \<Rightarrow> bool" where
  "fresh h \<longleftrightarrow> elts h = [] \<and> n_elts h = 0 \<and> free_elts h = [] \<and> free_lists h = [] \<and> head h = 0 \<and> tail h = 0 \<and> objects h = 0"

lemma first_sound:
  assumes v: "case v of None \<Rightarrow> h = empty_heap | Some h0 \<Rightarrow> h = h0" "fresh h" and sz: "0 < unat asz" "unat asz < 2 ^ 31" and b: "0 < b"
    and sp: "v = None \<or> space (h\<lparr>elt_bytes := b\<rparr>) (unat asz)"
  shows "\<exists>h'. elt_new (heap_grow v asz b) = (0, h') \<and> (\<exists>h2. (do {
      h2 \<leftarrow> modify_elt 0 (\<lambda>x. x\<lparr>offset := ucast (0 :: uword)\<rparr>) h';
      h3 \<leftarrow> elt_insert_after (tail h2) 0 h2;
      Some (0, h3) }) = Some (0 :: u32, h2) \<and> sound h2 [0] \<and> apart h2 [0]
    \<and> used h2 [0] = [0 \<mapsto> (0, unat asz)] \<and> same_sizes (h\<lparr>objects := unat asz, elt_bytes := b\<rparr>) h2 \<and> keeps h h2 Map.empty)"
proof -
  define g where "g = heap_grow v asz b"
  have fr: "elts h = []" "n_elts h = 0" "free_elts h = []" "free_lists h = []" "head h = 0" "tail h = 0" "objects h = 0"
    using v(2) by (simp_all add: fresh_def)
  have "\<exists>c. g = h\<lparr>objects := unat asz, elt_bytes := b, memory := memory h @ replicate c 0\<rparr> \<and> unat asz * unat b \<le> length (memory h) + c"
  proof (cases v)
    case None
    then have "h = empty_heap" using v(1) by simp
    then show ?thesis using None unfolding g_def heap_grow_def Let_def
      by (intro exI [of _ "unat asz * unat b"]) (simp add: empty_heap_def)
  next
    case (Some h0)
    then have h0: "h0 = h" using v(1) by simp
    let ?grown = "flags h AND HEAP_IS_STATIC = 0"
    have "?grown \<or> unat asz * unat b \<le> length (memory h)" using sp Some by (simp add: space_def)
    then show ?thesis unfolding g_def heap_grow_def Let_def Some h0
      by (intro exI [of _ "if ?grown then unat asz * unat b - length (memory h) else 0"]) (auto simp add: fr(7))
  qed
  then obtain c where c: "g = h\<lparr>objects := unat asz, elt_bytes := b, memory := memory h @ replicate c 0\<rparr>"
    "unat asz * unat b \<le> length (memory h) + c" by blast
  let ?h1 = "g\<lparr>n_elts := 1, elts := [zero_elt]\<rparr>"
  have new: "elt_new g = (0, ?h1)" unfolding c(1) by (simp add: elt_new_def fr)
  have code: "(do {
      h2 \<leftarrow> modify_elt 0 (\<lambda>x. x\<lparr>offset := ucast (0 :: uword)\<rparr>) ?h1;
      h3 \<leftarrow> elt_insert_after (tail h2) 0 h2;
      Some (0 :: u32, h3) }) = Some (0, ?h1)"
    unfolding c(1) by (simp add: fr modify_elt_def elt_at_def elt_insert_after_def heap_next_def zero_elt_def)
  have el0: "el ?h1 0 = zero_elt" "in_elts ?h1 = (\<lambda>e. e = 0)"
    by (auto simp: el_def in_elts_def fun_eq_iff word_unat_eq_iff)
  have f0: "ofs ?h1 0 = 0" "\<not> fr ?h1 0" "nx ?h1 0 = 0" "pv ?h1 0 = 0"
    using el0 by (simp_all add: ofs_def fr_def nx_def pv_def heap_offset_def heap_is_free_def zero_elt_def)
  have "links ?h1 [0] {}" using sz(2) f0 el0 unfolding links_def c(1) by (auto simp: fr)
  moreover have "tiles ?h1 [0]" using sz(1) f0 unfolding tiles_def c(1) by simp
  moreover have "room ?h1" using c(2) b unfolding room_def c(1) by simp
  moreover have F: "free_set ?h1 [0] = {}" using f0(2) by (simp add: free_set_def)
  moreover have "holds ?h1 {} {} (\<lambda>x. 0) (\<lambda>x. 0)" unfolding holds_def listed_def c(1) by (simp add: fr)
  ultimately have "sound ?h1 [0]" using soundI [of ?h1 "[0]"] by simp
  moreover have "used ?h1 [0] = [0 \<mapsto> (0, unat asz)]" using f0 by (auto simp: used_def fun_eq_iff c(1))
  moreover have "same_sizes (h\<lparr>objects := unat asz, elt_bytes := b\<rparr>) ?h1" unfolding c(1) by (simp add: same_sizes_def)
  moreover have "keeps h ?h1 Map.empty" unfolding c(1) by (simp add: keeps_def)
  ultimately show ?thesis using new code unfolding g_def by (intro exI [of _ ?h1]) (simp add: g_def)
qed

end
