(* ===== verification/Clib_Heap_Map.thy ===== *)
theory Clib_Heap_Map
  imports Clib_Heap_Refine
begin

text \<open>
  The heap of \<open>src/clib/heap.c\<close> as a map from handles to blocks: the invariant that every heap in use has, and
  the properties of allocation, release and the queries in terms of the map.
\<close>

section \<open>Heaps and maps\<close>

definition heap_ok :: "heap \<Rightarrow> (u32 \<rightharpoonup> nat \<times> nat) \<Rightarrow> bool" where
  "heap_ok h m \<longleftrightarrow> used_count h = of_nat (card (dom m)) \<and> (max_len h = 0 \<or> objects h \<le> unat (max_len h))
     \<and> (flags h AND HEAP_IS_STATIC \<noteq> 0 \<longrightarrow> max_len h \<noteq> 0 \<and> unat (max_len h) * unat (elt_bytes h) \<le> length (memory h))
     \<and> (fresh h \<and> m = Map.empty \<or> (\<exists>cs. sound h cs \<and> apart h cs \<and> m = used h cs))"

definition heap_rep :: "heap option \<Rightarrow> (u32 \<rightharpoonup> nat \<times> nat) \<Rightarrow> bool" where
  "heap_rep v m \<longleftrightarrow> (case v of None \<Rightarrow> m = Map.empty | Some h \<Rightarrow> heap_ok h m)"

definition heap_objects :: "heap option \<Rightarrow> nat" where
  "heap_objects v = (case v of None \<Rightarrow> 0 | Some h \<Rightarrow> objects h)"

text \<open>The objects that are taken for an allocation, before the fragments are given back.\<close>

definition alloc_size :: "uword \<Rightarrow> uword \<Rightarrow> nat" where
  "alloc_size sz align = unat sz + (if align \<le> 1 then 0 else unat (max_pow2 align) - 1)"

text \<open>\<open>n\<close> objects from \<open>p\<close> on, in no block in use.\<close>

definition gap :: "(u32 \<rightharpoonup> nat \<times> nat) \<Rightarrow> nat \<Rightarrow> nat \<Rightarrow> bool" where
  "gap m p n \<longleftrightarrow> (\<forall>x k l. m x = Some (k, l) \<longrightarrow> k + l \<le> p \<or> p + n \<le> k)"

lemma count_only:
  "links (h\<lparr>used_count := c\<rparr>) cs D = links h cs D" "sound (h\<lparr>used_count := c\<rparr>) cs = sound h cs" "apart (h\<lparr>used_count := c\<rparr>) cs = apart h cs"
  "used (h\<lparr>used_count := c\<rparr>) cs = used h cs" "keeps k (h\<lparr>used_count := c\<rparr>) m = keeps k h m" "keeps (h\<lparr>used_count := c\<rparr>) k m = keeps h k m"
  "fresh (h\<lparr>used_count := c\<rparr>) = fresh h"
proof -
  have el: "el (h\<lparr>used_count := c\<rparr>) = el h" by (simp add: el_def fun_eq_iff)
  note f = el_fields [OF el]
  have i: "in_elts (h\<lparr>used_count := c\<rparr>) = in_elts h" by (simp add: in_elts_def fun_eq_iff)
  have s: "has_slot (h\<lparr>used_count := c\<rparr>) = has_slot h" "place (h\<lparr>used_count := c\<rparr>) = place h"
    by (simp_all add: has_slot_def place_def f fun_eq_iff)
  show l: "links (h\<lparr>used_count := c\<rparr>) cs D = links h cs D" for D by (simp add: links_def f i)
  show "sound (h\<lparr>used_count := c\<rparr>) cs = sound h cs"
    by (simp add: sound_def l tiles_def room_def holds_def free_set_def f i s)
  show "apart (h\<lparr>used_count := c\<rparr>) cs = apart h cs" by (simp add: apart_def f)
  show "used (h\<lparr>used_count := c\<rparr>) cs = used h cs" by (simp add: used_def f fun_eq_iff)
  show "keeps k (h\<lparr>used_count := c\<rparr>) m = keeps k h m" "keeps (h\<lparr>used_count := c\<rparr>) k m = keeps h k m" by (simp_all add: keeps_def)
  show "fresh (h\<lparr>used_count := c\<rparr>) = fresh h" by (simp add: fresh_def)
qed

lemma unat_u32_u64: "unat (ucast (x :: u32) :: uword) = unat x"
  using unsigned_less [of x, where 'a = nat] by (simp add: unsigned_ucast_eq take_bit_eq_mod)

lemma used_finite: "finite (dom (used h cs))"
  by (rule finite_subset [of _ "set cs"]) (auto simp: used_def split: if_splits)

lemma alloc_params:
  assumes "align \<le> 2 ^ 31" "alloc_size sz align < 2 ^ 31"
  obtains al asz where "(if align \<le> 1 then (0, sz) else let align = max_pow2 align in (align, sz + align - 1)) = (al, asz)"
    "unat asz = alloc_size sz align" "al = 0 \<and> align \<le> 1 \<and> asz = sz \<or> (\<exists>i < 32. al = 2 ^ i \<and> al = max_pow2 align \<and> unat asz = unat sz + 2 ^ i - 1)"
proof (cases "align \<le> 1")
  case True
  then show thesis using that [of 0 sz] by (simp add: alloc_size_def)
next
  case False
  have nz: "align \<noteq> 0" using False by auto
  have le: "unat align \<le> 2 ^ 31" using assms(1) by (simp add: word_le_nat_alt)
  then have "unat align \<le> 2 ^ 63" by simp
  note u = unat_max_pow2 [OF nz this]
  let ?i = "if 2 ^ min_log2 align < unat align then Suc (min_log2 align) else min_log2 align"
  have "min_log2 align \<le> 31" by (rule unat_le_imp_min_log2_le [OF le nz])
  moreover have "min_log2 align \<noteq> 31 \<or> \<not> 2 ^ min_log2 align < unat align" using le by auto
  ultimately have i: "?i < 32" by (cases "min_log2 align = 31") auto
  have p: "max_pow2 align = 2 ^ ?i" using u i unat_exp_u64 [of ?i] by (intro word_unat_eq_iff [THEN iffD2]) simp
  have a: "alloc_size sz align = unat sz + 2 ^ ?i - 1" using False u by (simp add: alloc_size_def)
  have "unat (sz + max_pow2 align) = unat sz + 2 ^ ?i"
  proof -
    have "unat sz + unat (max_pow2 align) < 2 ^ 64" using assms(2) a u by simp
    then show ?thesis using u by (simp add: unat_word_ariths)
  qed
  note sum = this
  have "0 < (2 :: nat) ^ ?i" by (rule zero_less_power) simp
  then have "1 \<le> unat (sz + max_pow2 align)" using sum by linarith
  then have "unat (sz + max_pow2 align - 1) = unat sz + 2 ^ ?i - 1"
    using unat_sub [of 1 "sz + max_pow2 align"] sum by (simp add: word_le_nat_alt)
  then show thesis using that [of "max_pow2 align" "sz + max_pow2 align - 1"] False a i p by (auto simp: Let_def)
qed

text \<open>A block that was taken is aligned and counted.\<close>

lemma taken_aligned:
  assumes s: "sound h cs" and ap: "apart h cs" and e: "used h cs = m(e \<mapsto> (k, unat asz))" "m e = None" and sz: "0 < unat sz"
    and al: "al = 0 \<and> asz = sz \<or> (\<exists>i < 32. al = 2 ^ i \<and> unat asz = unat sz + 2 ^ i - 1)"
  shows "\<exists>h' cs' k'. (do {
      h \<leftarrow> (if 0 < al then heap_align e sz al asz h else Some h); x \<leftarrow> elt_at h e;
      Some (ucast (offset x), ucast e, Some (h\<lparr>used_count := used_count h + 1\<rparr>)) })
    = Some (of_nat k' :: uword, ucast e :: uword, Some (h'\<lparr>used_count := used_count h + 1\<rparr>)) \<and> sound h' cs' \<and> apart h' cs' \<and> same_sizes h h'
    \<and> used h' cs' = m(e \<mapsto> (k', unat sz)) \<and> keeps h h' m \<and> (al = 0 \<or> unat al dvd k') \<and> k' < 2 ^ 31"
proof -
  have "\<exists>h' cs' k'. (if 0 < al then heap_align e sz al asz h else Some h) = Some h' \<and> sound h' cs' \<and> apart h' cs' \<and> same_sizes h h'
    \<and> used h' cs' = m(e \<mapsto> (k', unat sz)) \<and> keeps h h' m \<and> (al = 0 \<or> unat al dvd k')"
    using al
  proof (elim disjE exE conjE)
    assume "al = 0" "asz = sz"
    then show ?thesis using s ap e(1) by (intro exI [of _ h] exI [of _ cs] exI [of _ k]) simp
  next
    fix i assume i: "i < 32" "al = 2 ^ i" "unat asz = unat sz + 2 ^ i - 1"
    have m: "(used h cs)(e := None) = m" using e by (auto simp: fun_eq_iff)
    have "used h cs e = Some (k, unat asz)" using e(1) by simp
    from heap_align_sound [OF s ap this i(2,1) sz i(3), unfolded m] obtain h' cs' k' where
      "heap_align e sz al asz h = Some h'" "sound h' cs'" "apart h' cs'" "same_sizes h h'" "keeps h h' m"
      "used h' cs' = (used h cs)(e \<mapsto> (k', unat sz))" "2 ^ i dvd k'" by blast
    moreover have "unat al = 2 ^ i" using i unat_exp_u64 [of i] by simp
    moreover have "0 < al" using \<open>unat al = 2 ^ i\<close> by (simp add: word_less_nat_alt)
    ultimately show ?thesis using e(1) by (intro exI [of _ h'] exI [of _ cs'] exI [of _ k']) simp
  qed
  then obtain h' cs' k' where 1: "(if 0 < al then heap_align e sz al asz h else Some h) = Some h'" "sound h' cs'" "apart h' cs'" "same_sizes h h'"
    "used h' cs' = m(e \<mapsto> (k', unat sz))" "keeps h h' m" "al = 0 \<or> unat al dvd k'" by blast
  have us: "used h' cs' e = Some (k', unat sz)" using 1(5) by simp
  obtain as bs where cs': "cs' = as @ [e] @ bs" and f: "\<not> fr h' e" "k' = ofs h' e" "k' + unat sz = bend h' bs" "bend h' bs < 2 ^ 31"
    using used_entry [OF 1(2) us] by metis
  have "in_elts h' e" using links_in [OF soundD(1) [OF 1(2)]] cs' by simp
  moreover have "(ucast (offset (el h' e)) :: uword) = of_nat k'"
    using offset_not_free [of "el h' e"] f(1,2) heap_offset_nat [of h' e] by (simp add: fr_def)
  moreover have "used_count h' = used_count h" using 1(4) by (simp add: same_sizes_def)
  moreover have "k' < 2 ^ 31" using f(3,4) by simp
  ultimately show ?thesis using 1 elt_at_in [of h' e] by (intro exI [of _ h'] exI [of _ cs'] exI [of _ k']) simp
qed

text \<open>There is no gap of a size that no free block has.\<close>

lemma no_gap:
  assumes s: "sound h cs" and ap: "apart h cs" and small: "\<forall>x \<in> free_set h cs. blen h cs x < n" and n: "0 < n" "p + n \<le> objects h"
  shows "\<not> gap (used h cs) p n"
proof
  assume g: "gap (used h cs) p n"
  define as bs where "as = takeWhile (\<lambda>x. ofs h x \<le> p) cs" and "bs = dropWhile (\<lambda>x. ofs h x \<le> p) cs"
  have "cs \<noteq> []" "ofs h (hd cs) = 0" using linksD(9) [OF soundD(1) [OF s]] soundD(2) [OF s] by (simp_all add: tiles_def)
  then have ne: "as \<noteq> []" by (cases cs) (simp_all add: as_def)
  let ?x = "last as"
  have "?x \<in> set as" using ne by simp
  then have x: "ofs h ?x \<le> p" unfolding as_def by (auto dest: set_takeWhileD)
  have "butlast as @ [?x] = as" "as @ bs = cs" using ne by (simp_all add: as_def bs_def)
  then have cs: "cs = butlast as @ [?x] @ bs" by (metis append.assoc)
  have b: "p < bend h bs"
  proof (cases bs)
    case Nil
    then show ?thesis using n by simp
  next
    case (Cons y ys)
    then have "\<not> ofs h y \<le> p" using hd_dropWhile [of "\<lambda>x. ofs h x \<le> p" cs] by (simp add: bs_def)
    then show ?thesis using Cons by simp
  qed
  have s': "sound h (butlast as @ ?x # bs)" using s cs by simp
  have bl: "blen h cs ?x = bend h bs - ofs h ?x" using sound_size(2) [OF s'] cs by simp
  have xc: "?x \<in> set cs" by (subst cs) simp
  show False
  proof (cases "fr h ?x")
    case False
    then have "used h cs ?x = Some (ofs h ?x, blen h cs ?x)" using xc by (simp add: used_def)
    then show False using g x b bl n(1) unfolding gap_def by fastforce
  next
    case True
    then have "blen h cs ?x < n" using small xc by (simp add: free_set_def)
    then have lt: "bend h bs < p + n" using bl x by linarith
    then obtain y ys where bs: "bs = y # ys" using n(2) by (cases bs) auto
    have "\<not> fr h y" using ap True unfolding cs bs by (simp add: apart_append apart_Cons)
    moreover have "y \<in> set cs" by (subst cs) (simp add: bs)
    ultimately have "used h cs y = Some (ofs h y, blen h cs y)" by (simp add: used_def)
    then have "ofs h y + blen h cs y \<le> p \<or> p + n \<le> ofs h y" using g unfolding gap_def by blast
    then show False using lt b bs by auto
  qed
qed

section \<open>Allocation\<close>

definition base :: "heap option \<Rightarrow> heap" where
  "base v = (case v of None \<Rightarrow> empty_heap | Some h \<Rightarrow> h)"

lemma base_ok: "heap_rep v m \<Longrightarrow> heap_ok (base v) m"
  by (auto simp: heap_rep_def heap_ok_def base_def empty_heap_def fresh_def HEAP_IS_STATIC_def split: option.splits)

text \<open>A block for the new handle, of a heap with \<open>N\<close> objects.\<close>

definition taken :: "heap option \<Rightarrow> (u32 \<rightharpoonup> nat \<times> nat) \<Rightarrow> u32 \<Rightarrow> nat \<Rightarrow> nat \<Rightarrow> u32 \<Rightarrow> heap \<Rightarrow> bool" where
  "taken v m bytes N n e h \<longleftrightarrow> (\<exists>cs k. sound h cs \<and> apart h cs \<and> m e = None \<and> used h cs = m(e \<mapsto> (k, n))
     \<and> same_sizes ((base v)\<lparr>objects := N, elt_bytes := bytes\<rparr>) h \<and> (\<forall>h0. v = Some h0 \<longrightarrow> keeps h0 h m))"

lemma search_taken:
  assumes r: "heap_rep v m" and n: "0 < unat asz" "unat asz < 2 ^ 31" and b: "\<forall>h. v = Some h \<longrightarrow> elt_bytes h = bytes"
  shows "\<exists>found. (case v of None \<Rightarrow> Some None | Some h \<Rightarrow> search_free_list True asz h) = Some found
    \<and> (case found of None \<Rightarrow> \<forall>p. p + unat asz \<le> heap_objects v \<longrightarrow> \<not> gap m p (unat asz)
       | Some (e, h) \<Rightarrow> taken v m bytes (heap_objects v) (unat asz) e h)"
proof (cases v)
  case None
  then show ?thesis using n by (simp add: heap_objects_def)
next
  case (Some h)
  note v = this
  then have ok: "heap_ok h m" using r by (simp add: heap_rep_def)
  show ?thesis
  proof (cases "fresh h \<and> m = Map.empty")
    case True
    then have "search_free_list True asz h = Some None" by (simp add: search_free_list_def fresh_def)
    then show ?thesis using True Some n by (simp add: heap_objects_def fresh_def)
  next
    case False
    then obtain cs where cs: "sound h cs" "apart h cs" "m = used h cs" using ok unfolding heap_ok_def by blast
    have "unat asz < 2 ^ 63" using n(2) by simp
    from search_sound [OF cs(1,2) n(1) this] obtain q where q: "search_free_list True asz h = Some q"
      "case q of None \<Rightarrow> \<forall>x \<in> free_set h cs. blen h cs x < unat asz
      | Some (u, h') \<Rightarrow> \<exists>cs' k. sound h' cs' \<and> apart h' cs' \<and> same_sizes h h' \<and> used h cs u = None
        \<and> used h' cs' = (used h cs)(u \<mapsto> (k, unat asz)) \<and> keeps h h' (used h cs)" by blast
    show ?thesis
    proof (cases q)
      case None
      then have "\<forall>x \<in> free_set h cs. blen h cs x < unat asz" using q(2) by simp
      from no_gap [OF cs(1,2) this n(1)] show ?thesis using q(1) None Some cs(3) by (simp add: heap_objects_def)
    next
      case (Some z)
      obtain u h' where z: "z = (u, h')" by (cases z) auto
      obtain cs' k where f: "sound h' cs'" "apart h' cs'" "same_sizes h h'" "used h cs u = None"
        "used h' cs' = (used h cs)(u \<mapsto> (k, unat asz))" "keeps h h' (used h cs)" using q(2) Some z by auto
      have "(base v)\<lparr>objects := heap_objects v, elt_bytes := bytes\<rparr> = h" using v b by (simp add: base_def heap_objects_def)
      moreover have "\<forall>h0. v = Some h0 \<longrightarrow> keeps h0 h' m" using f(6) v cs(3) by simp
      ultimately have "taken v m bytes (heap_objects v) (unat asz) u h'" unfolding taken_def cs(3) using f(1-5) by metis
      then show ?thesis using q(1) Some z v by simp
    qed
  qed
qed

lemma grow_taken:
  assumes r: "heap_rep v m" and n: "0 < unat asz" "heap_objects v + unat asz < 2 ^ 31" and b: "0 < bytes" "\<forall>h. v = Some h \<longrightarrow> elt_bytes h = bytes"
    and mx: "heap_get_max_len v = 0 \<or> heap_objects v + unat asz \<le> unat (heap_get_max_len v)"
  shows "\<exists>e h'. (let (e, h) = elt_new (heap_grow v asz bytes) in do {
      h \<leftarrow> modify_elt e (\<lambda>x. x\<lparr>offset := ucast (of_nat (heap_objects v) :: uword)\<rparr>) h;
      h \<leftarrow> elt_insert_after (tail h) e h;
      Some (e, h) }) = Some (e, h') \<and> taken v m bytes (heap_objects v + unat asz) (unat asz) e h'"
proof -
  let ?N = "heap_objects v + unat asz"
  have sp: "space h ?N" if v: "v = Some h" for h
  proof -
    have ok: "heap_ok h m" using r v by (simp add: heap_rep_def)
    show ?thesis
    proof (cases "flags h AND HEAP_IS_STATIC = 0")
      case False
      then have st: "max_len h \<noteq> 0" "unat (max_len h) * unat (elt_bytes h) \<le> length (memory h)" using ok by (simp_all add: heap_ok_def)
      have "unat (ucast (max_len h) :: uword) = unat (max_len h)" by (rule unat_u32_u64)
      then have "?N \<le> unat (max_len h)" using mx st(1) v by (auto simp: heap_get_max_len_def word_unat_eq_iff)
      then have "?N * unat (elt_bytes h) \<le> unat (max_len h) * unat (elt_bytes h)" by (rule mult_right_mono) simp
      then show ?thesis using order.trans [OF _ st(2)] unfolding space_def by blast
    qed (simp add: space_def)
  qed
  show ?thesis
  proof (cases "\<exists>h cs. v = Some h \<and> sound h cs \<and> apart h cs \<and> m = used h cs")
    case True
    then obtain h cs where v: "v = Some h" and cs: "sound h cs" "apart h cs" "m = used h cs" by blast
    have hb: "elt_bytes h = bytes" "heap_objects v = objects h" using b(2) v by (simp_all add: heap_objects_def)
    obtain e h1 where new: "elt_new (heap_grow (Some h) asz (elt_bytes h)) = (e, h1)" by fastforce
    from grow_sound [OF cs(1,2) n(1) _ _ new] n(2) sp [OF v] obtain h' cs' where
      "(do {
        h2 \<leftarrow> modify_elt e (\<lambda>x. x\<lparr>offset := ucast (of_nat (objects h) :: uword)\<rparr>) h1;
        h3 \<leftarrow> elt_insert_after (tail h2) e h2;
        Some (e, h3) }) = Some (e, h')" "sound h' cs'" "apart h' cs'" "used h cs e = None"
      "used h' cs' = (used h cs)(e \<mapsto> (objects h, unat asz))" "keeps h h' (used h cs)"
      "same_sizes (h\<lparr>objects := objects h + unat asz\<rparr>) h'" unfolding hb by blast
    note f = this
    have "(base v)\<lparr>objects := ?N, elt_bytes := bytes\<rparr> = h\<lparr>objects := objects h + unat asz\<rparr>" using v hb by (simp add: base_def)
    moreover have "\<forall>h0. v = Some h0 \<longrightarrow> keeps h0 h' m" using f(6) v cs(3) by simp
    ultimately have "taken v m bytes ?N (unat asz) e h'" unfolding taken_def cs(3) using f(2-5,7) by metis
    then show ?thesis using f(1) new v hb by (intro exI [of _ e] exI [of _ h']) simp
  next
    case False
    then have m: "m = Map.empty" using r by (auto simp: heap_rep_def heap_ok_def split: option.splits)
    have fr: "fresh (base v)" using base_ok [OF r] False by (cases v) (auto simp: heap_ok_def base_def fresh_def empty_heap_def)
    then have N0: "heap_objects v = 0" by (cases v) (simp_all add: heap_objects_def base_def fresh_def)
    have c: "case v of None \<Rightarrow> base v = empty_heap | Some h0 \<Rightarrow> base v = h0" by (simp add: base_def split: option.splits)
    have sp': "v = None \<or> space ((base v)\<lparr>elt_bytes := bytes\<rparr>) (unat asz)"
      using sp b(2) N0 by (cases v) (auto simp: base_def)
    have "unat asz < 2 ^ 31" using n(2) by simp
    from first_sound [OF c fr n(1) this b(1) sp'] obtain h1 h' where f: "elt_new (heap_grow v asz bytes) = (0, h1)"
      "(do {
        h2 \<leftarrow> modify_elt 0 (\<lambda>x. x\<lparr>offset := ucast (0 :: uword)\<rparr>) h1;
        h3 \<leftarrow> elt_insert_after (tail h2) 0 h2;
        Some (0, h3) }) = Some (0 :: u32, h')" "sound h' [0]" "apart h' [0]" "used h' [0] = [0 \<mapsto> (0, unat asz)]"
      "same_sizes ((base v)\<lparr>objects := unat asz, elt_bytes := bytes\<rparr>) h'" "keeps (base v) h' Map.empty" by blast
    have "\<forall>h0. v = Some h0 \<longrightarrow> keeps h0 h' m" using f(7) m by (auto simp: base_def)
    then have "taken v m bytes ?N (unat asz) 0 h'" unfolding taken_def N0 m using f(3-6) by auto
    then show ?thesis using f(1,2) N0 by (intro exI [of _ 0] exI [of _ h']) simp
  qed
qed

lemma taken_counted:
  assumes r: "heap_rep v m" and t: "taken v m bytes N (unat asz) e h" and sz: "0 < unat sz"
    and al: "al = 0 \<and> asz = sz \<or> (\<exists>i < 32. al = 2 ^ i \<and> unat asz = unat sz + 2 ^ i - 1)"
    and N: "heap_get_max_len v = 0 \<or> N \<le> unat (heap_get_max_len v)" and b: "\<forall>h. v = Some h \<longrightarrow> elt_bytes h = bytes"
  shows "\<exists>k h'. (do {
      h \<leftarrow> (if 0 < al then heap_align e sz al asz h else Some h); x \<leftarrow> elt_at h e;
      Some (ucast (offset x), ucast e, Some (h\<lparr>used_count := used_count h + 1\<rparr>)) })
    = Some (of_nat k :: uword, ucast e :: uword, Some h') \<and> m e = None \<and> heap_rep (Some h') (m(e \<mapsto> (k, unat sz)))
    \<and> (al = 0 \<or> unat al dvd k) \<and> k < 2 ^ 31 \<and> (\<forall>h0. v = Some h0 \<longrightarrow> keeps h0 h' m)"
proof -
  obtain cs k0 where 1: "sound h cs" "apart h cs" "m e = None" "used h cs = m(e \<mapsto> (k0, unat asz))"
    "same_sizes ((base v)\<lparr>objects := N, elt_bytes := bytes\<rparr>) h" "\<forall>h0. v = Some h0 \<longrightarrow> keeps h0 h m" using t unfolding taken_def by blast
  from taken_aligned [OF 1(1,2,4,3) sz al] obtain h' cs' k where
    2: "(do {
      h \<leftarrow> (if 0 < al then heap_align e sz al asz h else Some h); x \<leftarrow> elt_at h e;
      Some (ucast (offset x), ucast e, Some (h\<lparr>used_count := used_count h + 1\<rparr>)) })
    = Some (of_nat k :: uword, ucast e :: uword, Some (h'\<lparr>used_count := used_count h + 1\<rparr>))" "sound h' cs'" "apart h' cs'" "same_sizes h h'"
    "used h' cs' = m(e \<mapsto> (k, unat sz))" "keeps h h' m" "al = 0 \<or> unat al dvd k" "k < 2 ^ 31" by blast
  let ?h = "h'\<lparr>used_count := used_count h + 1\<rparr>" and ?m = "m(e \<mapsto> (k, unat sz))"
  note ok = base_ok [OF r]
  have sz': "objects ?h = N" "elt_bytes ?h = bytes" "max_len ?h = max_len (base v)" "flags ?h = flags (base v)" "used_count h = used_count (base v)"
    using 1(5) 2(4) by (simp_all add: same_sizes_def)
  have kp: "keeps h0 ?h m" if v: "v = Some h0" for h0
  proof -
    have "elt_bytes h = elt_bytes h0" using 1(5) b v by (simp add: same_sizes_def)
    then have "keeps h0 h' m" using keeps_trans [of h0 h m h' m m] 1(6) 2(6) v by simp
    then show ?thesis by (simp add: count_only)
  qed
  have "finite (dom ?m)" using used_finite [of h' cs'] 2(5) by simp
  then have "finite (dom m)" by simp
  then have "card (dom ?m) = Suc (card (dom m))" using 1(3) by (simp add: domIff card_insert_if)
  then have count: "used_count ?h = of_nat (card (dom ?m))" using ok sz'(5) by (simp add: heap_ok_def)
  have len: "max_len ?h = 0 \<or> objects ?h \<le> unat (max_len ?h)"
  proof (cases v)
    case None
    then show ?thesis using sz'(3) by (simp add: base_def empty_heap_def)
  next
    case (Some h0)
    then have "heap_get_max_len v = ucast (max_len h0)" "max_len ?h = max_len h0" using sz'(3) by (simp_all add: heap_get_max_len_def base_def)
    then show ?thesis using N unat_u32_u64 [of "max_len h0"] sz'(1) by (auto simp: word_unat_eq_iff)
  qed
  have stat: "flags ?h AND HEAP_IS_STATIC \<noteq> 0 \<longrightarrow> max_len ?h \<noteq> 0 \<and> unat (max_len ?h) * unat (elt_bytes ?h) \<le> length (memory ?h)"
  proof (cases v)
    case None
    then show ?thesis using sz'(4) by (simp add: base_def empty_heap_def)
  next
    case (Some h0)
    then have "heap_ok h0 m" using r by (simp add: heap_rep_def)
    moreover have "length (memory h0) \<le> length (memory ?h)" using kp [OF Some] by (simp add: keeps_def)
    ultimately show ?thesis using sz' Some b by (auto simp: heap_ok_def base_def)
  qed
  have "sound ?h cs' \<and> apart ?h cs' \<and> ?m = used ?h cs'" using 2(2,3,5) by (simp add: count_only)
  then have "heap_ok ?h ?m" using count len stat unfolding heap_ok_def by blast
  then show ?thesis using 1(3) 2(1,7,8) kp unfolding heap_rep_def by (intro exI [of _ k] exI [of _ ?h]) simp
qed

text \<open>The end of an allocation: alignment, and the values that are returned.\<close>

definition alloc_end :: "uword \<Rightarrow> uword \<Rightarrow> uword \<Rightarrow> u32 \<times> heap \<Rightarrow> (uword \<times> uword \<times> heap option) option" where
  "alloc_end sz al asz = (\<lambda>(e, h). do {
      h \<leftarrow> (if 0 < al then heap_align e sz al asz h else Some h); x \<leftarrow> elt_at h e;
      Some (ucast (offset x), ucast e, Some (h\<lparr>used_count := used_count h + 1\<rparr>)) })"

definition allocated :: "heap option \<Rightarrow> (u32 \<rightharpoonup> nat \<times> nat) \<Rightarrow> uword \<Rightarrow> uword \<Rightarrow> uword \<times> uword \<times> heap option \<Rightarrow> bool" where
  "allocated v m sz align r \<longleftrightarrow> (\<exists>k e h'. r = (of_nat k, ucast e, Some h') \<and> m e = None \<and> heap_rep (Some h') (m(e \<mapsto> (k, unat sz)))
     \<and> (1 < align \<longrightarrow> unat (max_pow2 align) dvd k) \<and> k < 2 ^ 31 \<and> (\<forall>h. v = Some h \<longrightarrow> keeps h h' m))"

lemma taken_allocated:
  assumes "heap_rep v m" "taken v m bytes N (unat asz) e h" "0 < unat sz"
    and al: "al = 0 \<and> align \<le> 1 \<and> asz = sz \<or> (\<exists>i < 32. al = 2 ^ i \<and> al = max_pow2 align \<and> unat asz = unat sz + 2 ^ i - 1)"
    and "heap_get_max_len v = 0 \<or> N \<le> unat (heap_get_max_len v)" "\<forall>h. v = Some h \<longrightarrow> elt_bytes h = bytes"
  shows "\<exists>r. alloc_end sz al asz (e, h) = Some r \<and> allocated v m sz align r"
proof -
  have "al = 0 \<and> asz = sz \<or> (\<exists>i < 32. al = 2 ^ i \<and> unat asz = unat sz + 2 ^ i - 1)" using al by blast
  from taken_counted [OF assms(1-3) this assms(5,6)] obtain k h' where
    f: "alloc_end sz al asz (e, h) = Some (of_nat k, ucast e, Some h')" "m e = None" "heap_rep (Some h') (m(e \<mapsto> (k, unat sz)))"
      "al = 0 \<or> unat al dvd k" "k < 2 ^ 31" "\<forall>h. v = Some h \<longrightarrow> keeps h h' m" unfolding alloc_end_def by auto
  have "1 < align \<longrightarrow> unat (max_pow2 align) dvd k" using f(4) al by (auto simp: unat_exp_u64)
  then have "allocated v m sz align (of_nat k, ucast e, Some h')" unfolding allocated_def using f(2,3,5,6) by blast
  then show ?thesis using f(1) by blast
qed

lemma heap_alloc_code:
  assumes "sz \<noteq> 0" "heap_objects v + unat asz < 2 ^ 31"
    and "(if align \<le> 1 then (0, sz) else let align = max_pow2 align in (align, sz + align - 1)) = (al, asz)"
    and "(case v of None \<Rightarrow> Some None | Some h \<Rightarrow> search_free_list True asz h) = Some found"
  shows "heap_alloc True v sz align bytes =
    (if found = None \<and> heap_get_max_len v \<noteq> 0 \<and> unat (heap_get_max_len v) < heap_objects v + unat asz then Some (- 1, - 1, v)
     else (case found of Some r \<Rightarrow> Some r
        | None \<Rightarrow> let (e, h) = elt_new (heap_grow v asz bytes) in do {
            h \<leftarrow> modify_elt e (\<lambda>x. x\<lparr>offset := ucast (of_nat (heap_objects v) :: uword)\<rparr>) h;
            h \<leftarrow> elt_insert_after (tail h) e h;
            Some (e, h) }) \<bind> alloc_end sz al asz)"
proof -
  have ov: "(case v of None \<Rightarrow> 0 | Some h \<Rightarrow> of_nat (objects h)) = (of_nat (heap_objects v) :: uword)"
    by (simp add: heap_objects_def split: option.splits)
  have "heap_objects v + unat asz < 2 ^ 64" using assms(2) by simp
  then have "of_nat (heap_objects v) + asz = of_nat (heap_objects v + unat asz)"
    "unat (of_nat (heap_objects v + unat asz) :: uword) = heap_objects v + unat asz"
    using unat_of_nat_u64 [of "heap_objects v + unat asz"] by simp_all
  then have "(heap_get_max_len v < of_nat (heap_objects v) + asz) = (unat (heap_get_max_len v) < heap_objects v + unat asz)"
    by (simp add: word_less_nat_alt)
  then show ?thesis unfolding heap_alloc_def alloc_end_def assms(3) using assms(1) by (simp add: assms(4) ov Let_def)
qed


text \<open>Two blocks, of 10 and 20 objects.\<close>

definition two_blocks :: heap where
  "two_blocks = \<lparr>elts = [\<lparr>offset = 0, next_elt = 1, prev_elt = 0\<rparr>, \<lparr>offset = 10, next_elt = 0, prev_elt = - 1\<rparr>], n_elts = 2,
     small_free_elt_free_index = [], free_elts = [], free_lists = [], head = 0, tail = 1, used_count = 2, max_len = 0, elt_bytes = 4,
     flags = 0, objects = 30, memory = replicate 120 0\<rparr>"

definition two_map :: "u32 \<rightharpoonup> nat \<times> nat" where
  "two_map = [0 \<mapsto> (0, 10), 1 \<mapsto> (10, 20)]"

lemma two_blocks_rep: "heap_rep (Some two_blocks) two_map"
proof -
  let ?h = two_blocks
  have el: "el ?h 0 = \<lparr>offset = 0, next_elt = 1, prev_elt = 0\<rparr>" "el ?h 1 = \<lparr>offset = 10, next_elt = 0, prev_elt = - 1\<rparr>"
    by (simp_all add: el_def two_blocks_def)
  have f: "ofs ?h 0 = 0" "ofs ?h 1 = 10" "\<not> fr ?h 0" "\<not> fr ?h 1" "nx ?h 0 = 1" "nx ?h 1 = 1" "pv ?h 0 = 0" "pv ?h 1 = 0"
    using el by (simp_all add: ofs_def fr_def nx_def pv_def heap_offset_def heap_is_free_def HEAP_ELT_FREE_BIT_def)
  have "unat e < 2 \<longleftrightarrow> e = 0 \<or> e = 1" for e :: u32
    by (auto simp: word_unat_eq_iff less_2_cases_iff)
  then have ins: "{e. in_elts ?h e} = {0, 1}" by (auto simp: in_elts_def two_blocks_def)
  have "links ?h [0, 1] {}" unfolding links_def ins using f by (simp add: two_blocks_def)
  moreover have "tiles ?h [0, 1]" unfolding tiles_def using f by (simp add: two_blocks_def)
  moreover have "room ?h" by (simp add: room_def two_blocks_def)
  moreover have F: "free_set ?h [0, 1] = {}" using f by (auto simp: free_set_def)
  moreover have "holds ?h {} {} (\<lambda>x. 0) (\<lambda>x. 0)" by (simp add: holds_def listed_def two_blocks_def)
  ultimately have s: "sound ?h [0, 1]" using soundI [of ?h "[0, 1]"] by simp
  have a: "apart ?h [0, 1]" using f by (simp add: apart_Cons)
  have ob: "objects ?h = 30" "used_count ?h = 2" "max_len ?h = 0" "flags ?h = 0" by (simp_all add: two_blocks_def)
  have u: "two_map = used ?h [0, 1]" using f by (auto simp: two_map_def used_def fun_eq_iff ob)
  have "card (dom two_map) = 2" by (simp add: two_map_def)
  then show ?thesis unfolding heap_rep_def heap_ok_def using s a u ob by auto
qed


section \<open>Release\<close>

text \<open>
  C6: Release. For a handle of a block in use, the heap is afterwards one for the map without it, with the contents of the
  other blocks as before.
\<close>

theorem heap_dealloc_refines_map:
  assumes "heap_rep (Some h) m" "m e = Some kl"
  shows "\<exists>h'. heap_dealloc h e = Some h' \<and> heap_rep (Some h') (m(e := None)) \<and> keeps h h' (m(e := None))"
proof -
  have ok: "heap_ok h m" using assms(1) by (simp add: heap_rep_def)
  then obtain cs where cs: "sound h cs" "apart h cs" "m = used h cs" using assms(2) by (auto simp: heap_ok_def)
  let ?h = "h\<lparr>used_count := used_count h - 1\<rparr>"
  have u: "used ?h cs e = Some kl" using assms(2) cs(3) by (simp add: count_only)
  have "\<forall>x \<in> dom (m(e := None)). (m(e := None)) x = used ?h cs x \<and> x \<noteq> e" by (auto simp: count_only cs(3))
  note keep = this
  have "sound ?h cs" "apart ?h cs" using cs by (simp_all add: count_only)
  from fragment_freed [OF this u keep] obtain h' cs' where
    d: "dealloc_elt e ?h = Some h'" "sound h' cs'" "apart h' cs'" "same_sizes ?h h'" "used h' cs' = (used ?h cs)(e := None)"
      "keeps ?h h' (m(e := None))" by blast
  have m': "used h' cs' = m(e := None)" using d(5) cs(3) by (simp add: count_only)
  have "finite (dom m)" "e \<in> dom m" using used_finite [of h cs] cs(3) assms(2) by auto
  then have "card (dom m) = Suc (card (dom m - {e}))" by (rule card.remove)
  then have "card (dom m) = Suc (card (dom (m(e := None))))" by simp
  then have "used_count h' = of_nat (card (dom (m(e := None))))" using ok d(4) by (simp add: heap_ok_def same_sizes_def)
  moreover have "length (memory h) \<le> length (memory h')" using d(6) by (simp add: keeps_def)
  ultimately have "heap_ok h' (m(e := None))"
    using ok d(2,3,4) m' unfolding heap_ok_def by (auto simp: same_sizes_def)
  then show ?thesis using d(1,6) by (auto simp: heap_dealloc_def heap_rep_def count_only)
qed

theorem heap_dealloc_refines_map_witness:
  "\<exists>h'. heap_dealloc two_blocks 1 = Some h' \<and> heap_rep (Some h') (two_map(1 := None))
    \<and> keeps two_blocks h' (two_map(1 := None))"
  by (rule heap_dealloc_refines_map [OF two_blocks_rep]) (simp add: two_map_def)

section \<open>Queries\<close>

text \<open>
  C19: The blocks in use are inside of the objects and do not meet; the queries return their offsets and lengths, and the number of them.
\<close>

theorem heap_blocks_bounds:
  assumes "heap_rep (Some h) m" "m e = Some (k, l)"
  shows "0 < l \<and> k + l \<le> heap_objects (Some h) \<and> heap_objects (Some h) < 2 ^ 31
    \<and> (\<forall>e' k' l'. e' \<noteq> e \<longrightarrow> m e' = Some (k', l') \<longrightarrow> k + l \<le> k' \<or> k' + l' \<le> k)
    \<and> heap_len h e = Some (of_nat l) \<and> heap_elt_with_handle h e = Some (of_nat k) \<and> heap_is_free_handle h e = Some False
    \<and> heap_elts h = of_nat (card (dom m))"
proof -
  have ok: "heap_ok h m" using assms(1) by (simp add: heap_rep_def)
  then obtain cs where cs: "sound h cs" "apart h cs" "m = used h cs" using assms(2) by (auto simp: heap_ok_def)
  have e: "e \<in> set cs" "\<not> fr h e" "k = ofs h e" "l = blen h cs e" using assms(2) cs(3) by (auto simp: used_def split: if_splits)
  obtain as bs where sp: "cs = as @ e # bs" using split_list e(1) by fast
  note sz = sound_size [OF cs(1) [unfolded sp], folded sp]
  note t = tiles_bend [OF soundD(2) [OF cs(1), unfolded sp]]
  have ine: "in_elts h e" using links_in [OF soundD(1) [OF cs(1)]] e(1) by simp
  have "k + l \<le> k' \<or> k' + l' \<le> k" if e': "e' \<noteq> e" "m e' = Some (k', l')" for e' k' l'
  proof -
    have e2: "e' \<in> set cs" "k' = ofs h e'" "l' = blen h cs e'" using e'(2) cs(3) by (auto simp: used_def split: if_splits)
    have "ofs h e' < ofs h e \<or> ofs h e + blen h cs e \<le> ofs h e'" "ofs h e < ofs h e' \<or> ofs h e' + blen h cs e' \<le> ofs h e"
      using blocks_disjoint [OF cs(1)] e(1) e2(1) e'(1) by blast+
    then show ?thesis using e e2 by linarith
  qed
  moreover have "heap_is_free_handle h e = Some False" using elt_at_in [OF ine] e(2) by (simp add: heap_is_free_handle_def fr_def)
  moreover have "heap_elt_with_handle h e = Some (of_nat k)" using elt_at_in [OF ine] e(3) by (simp add: heap_elt_with_handle_def heap_offset_nat)
  moreover have "heap_len h e = Some (of_nat l)" using sz(1) e(4) by (simp add: heap_len_def)
  moreover have "0 < l" "k + l \<le> objects h" using sz e t by simp_all
  moreover have "objects h < 2 ^ 31" by (rule linksD(3) [OF soundD(1) [OF cs(1)]])
  moreover have "heap_elts h = of_nat (card (dom m))" using ok by (simp add: heap_elts_def heap_ok_def)
  ultimately show ?thesis by (simp add: heap_objects_def)
qed

theorem heap_blocks_bounds_witness:
  "0 < (20 :: nat) \<and> 10 + 20 \<le> heap_objects (Some two_blocks) \<and> (10 + 20 \<le> (0 :: nat) \<or> 0 + 10 \<le> (10 :: nat))
    \<and> heap_len two_blocks 1 = Some (of_nat 20) \<and> heap_elt_with_handle two_blocks 1 = Some (of_nat 10)
    \<and> heap_is_free_handle two_blocks 1 = Some False \<and> heap_elts two_blocks = of_nat (card (dom two_map))"
proof -
  have m: "two_map 0 = Some (0, 10)" "two_map 1 = Some (10, 20)" by (simp_all add: two_map_def)
  note b = heap_blocks_bounds [OF two_blocks_rep m(2)]
  have "10 + 20 \<le> (0 :: nat) \<or> 0 + 10 \<le> (10 :: nat)" using b m(1) by (metis zero_neq_one)
  then show ?thesis using b by blast
qed

section \<open>The loop over the blocks in use\<close>

lemma foreach_from_chain:
  assumes s: "sound h (as @ x # bs)"
  shows "foreach_from h x = Some (map (\<lambda>y. (of_nat (ofs h y), of_nat (blen h (as @ x # bs) y))) (filter (\<lambda>y. \<not> fr h y) (x # bs)))"
  using s
proof (induction bs arbitrary: as x)
  case Nil
  note sd = soundD [OF Nil] and sz = sound_size(1) [OF Nil]
  have "in_elts h x" using links_in [OF sd(1)] by simp
  moreover have "tail h = x" using linksD(14) [OF sd(1)] by simp
  ultimately show ?case
    by (subst foreach_from.simps) (simp add: elt_at_in next_in sz heap_offset_nat fr_def)
next
  case (Cons y bs)
  note sd = soundD [OF Cons.prems] and sz = sound_size(1) [OF Cons.prems]
  have "in_elts h x" using links_in [OF sd(1)] by simp
  moreover have "tail h \<noteq> x" using linksD(4,14) [OF sd(1)] by auto
  moreover have "nx h x = y" using links_next [OF sd(1)] by simp
  moreover have "foreach_from h y = Some (map (\<lambda>z. (of_nat (ofs h z), of_nat (blen h (as @ x # y # bs) z))) (filter (\<lambda>y. \<not> fr h y) (y # bs)))"
    using Cons.IH [of "as @ [x]" y] Cons.prems by simp
  ultimately show ?case
    by (subst foreach_from.simps) (simp add: elt_at_in next_in sz heap_offset_nat fr_def)
qed

text \<open>
  C20: The loop over a heap ends. Its body runs once for each block in use, in the order of their offsets, with the offset and the length.
\<close>

theorem heap_foreach_blocks:
  assumes "heap_rep v m"
  shows "\<exists>es. distinct es \<and> set es = dom m \<and> sorted_wrt (<) (map (\<lambda>e. fst (the (m e))) es)
    \<and> heap_foreach v = Some (map (\<lambda>e. (of_nat (fst (the (m e))), of_nat (snd (the (m e))))) es)"
proof (cases "m = Map.empty \<and> heap_objects v = 0")
  case True
  then show ?thesis by (intro exI [of _ "[]"]) (auto simp: heap_foreach_def heap_objects_def split: option.splits)
next
  case False
  then obtain h cs where v: "v = Some h" and cs: "sound h cs" "m = used h cs"
    using assms by (cases v) (auto simp: heap_rep_def heap_ok_def heap_objects_def fresh_def)
  let ?es = "filter (\<lambda>x. \<not> fr h x) cs"
  note sd = soundD [OF cs(1)]
  have ne: "cs \<noteq> []" and hd: "head h = hd cs" using linksD(9,13) [OF sd(1)] by auto
  then have split: "cs = [] @ hd cs # tl cs" by simp
  have "length cs \<le> objects h" by (rule tiles_length [OF sd(2)])
  then have ob: "objects h \<noteq> 0" using ne by (cases cs) auto
  have u: "m e = Some (ofs h e, blen h cs e)" if "e \<in> set ?es" for e using that cs(2) by (simp add: used_def)
  have "foreach_from h (hd cs) = Some (map (\<lambda>y. (of_nat (ofs h y), of_nat (blen h cs y))) ?es)"
    using foreach_from_chain [of h "[]" "hd cs" "tl cs"] cs(1) ne by simp
  also have "map (\<lambda>y. (of_nat (ofs h y), of_nat (blen h cs y))) ?es
    = map (\<lambda>e. (of_nat (fst (the (m e))), of_nat (snd (the (m e))))) ?es"
    by (rule map_cong [OF refl]) (simp add: u)
  finally have 1: "heap_foreach v = Some (map (\<lambda>e. (of_nat (fst (the (m e))), of_nat (snd (the (m e))))) ?es)"
    using v ob hd by (simp add: heap_foreach_def)
  have 2: "set ?es = dom m" "distinct ?es" using cs(2) linksD(4) [OF sd(1)] by (auto simp: used_def dom_def split: if_splits)
  have "sorted_wrt (<) (map (ofs h) cs)" using sd(2) by (simp add: tiles_def sorted_wrt_append)
  then have "sorted_wrt (<) (map (ofs h) ?es)" by (simp add: sorted_wrt_map sorted_wrt_filter)
  moreover have "map (\<lambda>e. fst (the (m e))) ?es = map (ofs h) ?es" by (rule map_cong [OF refl]) (simp add: u)
  ultimately have 3: "sorted_wrt (<) (map (\<lambda>e. fst (the (m e))) ?es)" by (simp only:)
  show ?thesis using 1 2 3 by blast
qed

theorem heap_foreach_blocks_witness:
  "\<exists>es. distinct es \<and> set es = dom two_map
    \<and> sorted_wrt (<) (map (\<lambda>e. fst (the (two_map e))) es)
    \<and> heap_foreach (Some two_blocks) = Some (map (\<lambda>e. (of_nat (fst (the (two_map e))),
        of_nat (snd (the (two_map e))))) es)"
  by (rule heap_foreach_blocks [OF two_blocks_rep])

section \<open>Empty heaps, and the search past the lists\<close>

text \<open>A heap in memory that is large enough for the header as well.\<close>

lemma heap_create_rep:
  assumes "heap_create_from_memory mem n bytes = Some h" "n < 2 ^ 32" "bytes < 2 ^ 32" "unat n * unat bytes + 76 \<le> length mem"
  shows "heap_rep (Some h) Map.empty"
proof -
  have h: "h = empty_heap\<lparr>max_len := ucast n, elt_bytes := ucast bytes, flags := HEAP_IS_STATIC, memory := drop (vec_header_bytes 72) mem\<rparr>"
    "\<not> n * bytes < 72" using assms(1) by (auto simp: heap_create_from_memory_def split: if_splits)
  have "n \<noteq> 0" using h(2) by auto
  have u: "unat (ucast x :: u32) = unat x" if "x < 2 ^ 32" for x :: uword
    using that by (simp add: unsigned_ucast_eq take_bit_eq_mod word_less_nat_alt)
  have "vec_header_bytes 72 = 76" by code_simp
  moreover have "(ucast n :: u32) \<noteq> 0" using \<open>n \<noteq> 0\<close> u [OF assms(2)] by (auto simp: word_unat_eq_iff)
  ultimately show ?thesis
    using assms(4) u [OF assms(2)] u [OF assms(3)] unfolding h(1)
    by (auto simp: heap_rep_def heap_ok_def fresh_def empty_heap_def)
qed

text \<open>
  When no block of a list is large enough, the number in front of the list is taken for an element as well: after the release of the
  only block, of 40 objects, the list has the length 1 and there is no element 1.
\<close>

lemma heap_search_reads_outside:
  "(do { (k, e, v) \<leftarrow> heap_alloc False None 40 0 4; h \<leftarrow> heap_dealloc (the v) (ucast e); heap_alloc False (Some h) 50 0 4 }) = None"
  by code_simp

end
