(* ===== verification/Spec2Isabelle.thy ===== *)
theory Spec2Isabelle
  imports Clib_Pool Clib_Fifo Clib_Qsort Clib_Zvec Clib_Serialize_Pool Clib_Hash_Map Clib_Md5 Clib_Random Clib_Sparse_Vec Clib_Fheap_Queue Clib_Heap_Map
begin

text \<open>
  Verification of the clib library, \<open>src/clib\<close>: the containers, codings and generators that a C
  program links with, for the 64 bit little endian build without debugging (an \<open>ASSERT\<close> does nothing, an
  \<open>uword\<close> has 64 bits). Macros that take a type are modelled for an arbitrary type of elements.

  \<^bold>\<open>The parts of the program.\<close> Everything rests on the vector, a pointer to elements with a length in
  front of them, grown through the memory allocator. Bitmaps are vectors of words. Pools, fifos,
  sparse vectors, compressed vectors, object heaps and Fibonacci heaps are vectors with a header or vectors of
  nodes; a pool keeps its free elements in a bitmap and a vector of indices. Hash tables are vectors of
  slots with a bitmap of the direct ones, their keys are compared and hashed through functions
  chosen by the table. Streams move bytes through a buffer, which a data function fills or empties; the
  data formats, and the images of bitmaps, vectors and pools, are written on streams.

  \<^bold>\<open>The theories\<close>, in the order of their dependence.

  \<^item> \<open>Clib_Prelude\<close>: the types of \<open>types.h\<close>, the collections of rewrite rules, facts on words, bits and bytes.
  \<^item> \<open>Clib_Arith\<close>: the integer helpers of \<open>clib.h\<close>. \<open>Clib_Bitops\<close>: \<open>bitops.h\<close>. \<open>Clib_Byte_Order\<close>: \<open>byte_order.h\<close>.
  \<^item> \<open>Clib_Vec\<close>: \<open>vec_bootstrap.h\<close>, \<open>vec.h\<close>, \<open>vec.c\<close>. A vector is \<open>None\<close> (the null pointer) or a record with
    the length, the slots that the object in the heap has room for, and the header bytes. The allocator is an
    argument: the number of bytes it gives for a request. The locale \<open>allocator\<close> is what the code needs of it, and
    \<open>mheap_object_bytes\<close> (\<open>mheap_bootstrap.h\<close>) meets it.
  \<^item> \<open>Clib_Bitmap\<close>: \<open>bitmap.h\<close>. The set of positions \<open>bits\<close> is what a bitmap stands for; the operations are
    those on sets, the searches give least members. The locales \<open>bit_set\<close> and \<open>bit_store\<close> are the interfaces the pools
    and the codings use.
  \<^item> \<open>Clib_Pool\<close>: \<open>pool.h\<close>. The invariant \<open>pool_ok\<close> ties the free bitmap to the free indices, and \<open>pool_step\<close> is a step of a client.
  \<^item> \<open>Clib_Fifo\<close>: \<open>fifo.h\<close>, \<open>fifo.c\<close>. \<open>fifo_list\<close> reads the ring from head to tail; the locale \<open>bounded_queue\<close> is the contract.
  \<^item> \<open>Clib_Qsort\<close>: \<open>qsort.c\<close>, with the comparison functions of \<open>mheap.c\<close> and \<open>phash.c\<close>, which meet the locale \<open>comparator\<close> or do not.
  \<^item> \<open>Clib_Zvec\<close>: \<open>zvec.h\<close>, \<open>zvec.c\<close>, on bitmaps.
  \<^item> \<open>Clib_Stream\<close>, \<open>Clib_Stream_Laws\<close>: the buffers of \<open>serialize.h\<close> and \<open>serialize.c\<close>. An operation takes the state
    of the stream to an outcome (done, an error that jumps out, or a crash for an access outside of a buffer)
    and a state; \<open>None\<close> is a loop that does not end. The locales \<open>byte_sink\<close> and \<open>byte_source\<close> are the contracts of a stream
    to write and to read, which memory areas, vectors and files meet for pieces up to half the buffer.
  \<^item> \<open>Clib_Serialize\<close>, \<open>Clib_Serialize_Pool\<close>: the data formats and images, proved once for any sink and source.
  \<^item> \<open>Clib_Hash_Sum\<close>: the hash functions of \<open>hash.c\<close> and \<open>hash.h\<close>. \<open>Clib_Hash\<close>, \<open>Clib_Hash_Map\<close>: the tables. The
    locale \<open>hash_keys\<close> has the law that equal keys have equal sums, the special keys of the source meet it.
  \<^item> \<open>Clib_Md5\<close>: \<open>md5.c\<close>. \<open>Clib_Random\<close>: \<open>random.h\<close>, \<open>random_isaac.c\<close>, \<open>random_buffer.h\<close>, \<open>random_buffer.c\<close>.
  \<^item> \<open>Clib_Sparse_Vec\<close>: \<open>sparse_vec.h\<close>, on the word operations of \<open>Clib_Bitops\<close>.
  \<^item> \<open>Clib_Fheap\<close>, \<open>Clib_Fheap_Queue\<close>: \<open>fheap.h\<close>, \<open>fheap.c\<close>. Nodes are linked by indices; \<open>forest\<close> says that the links form
    rings of siblings below each parent, \<open>fheap_ok\<close> that a heap stands for a map from nodes to keys. The locale
    \<open>least_first\<close> is the contract of a queue that gives the least key first.
  \<^item> \<open>Clib_Heap\<close>: \<open>heap.h\<close>, \<open>heap.c\<close>. \<open>Clib_Heap_Laws\<close>: the bins, the chain of elements and the free lists, one operation at
    a time. \<open>Clib_Heap_Blocks\<close>: the invariant \<open>sound\<close> of a heap and the chain of its elements, combination and release.
    \<open>Clib_Heap_Alloc\<close>, \<open>Clib_Heap_Refine\<close>: the search, division and alignment of blocks, growth. \<open>Clib_Heap_Map\<close>:
    \<open>heap_rep\<close>, the map from handles to blocks that a heap stands for. The bytes of the objects are a list, in which free blocks
    keep their places in the free lists; an argument tells whether memory next to the vector of elements can be read.

  \<^bold>\<open>What is shown.\<close> Each container has an invariant that all its operations keep and an abstract value (a
  set, a list, a finite map) on which they act as the documentation of the code says: the refinement
  theorems. Codings, formats and images have round trips. Optimised routines are equal to their
  reference: the population count, the paired lookup, the two generators in lock step, the digest taken in pieces. Where
  the code does something else than it means to, a theorem states what it does on a concrete or general input.

  \<^bold>\<open>Bounds and fuel.\<close> Lengths stay below the width of the field that holds them: hash tables have less than
  \<open>2 ^ 28\<close> elements (their growth loop gets two turns more than there are elements), fifos and heaps less than \<open>2 ^ 31\<close>, nodes and free
  indices less than \<open>2 ^ 32\<close>. The search for a coding gets one turn for each possible coding. The loops of streams and of
  Fibonacci heaps are partial functions; the theorems that a result is reached are part of the contracts.

  \<^bold>\<open>What is not modelled.\<close> The memory allocator below the vectors, element alignment (it changes no contents),
  format functions and everything built on variable argument lists, floating point, threads and signals,
  operating system calls (a file descriptor is an argument with the documented results of \<open>read\<close> and \<open>write\<close>), SIMD
  code, the object file and disassembler parts, and the parts listed as not modelled in the manifest: of these the timing wheel,
  the quick hash and the string functions would be next. Of the object heap, the bitmap of debugging builds, the memory use
  and the validation are left out.
\<close>

end
